(* ===== verification/Sqlite_Prelude.thy ===== *)
theory Sqlite_Prelude
  imports Main "HOL-Library.Word" "HOL-Library.Monad_Syntax"
begin

text \<open>
  Vocabulary shared by the component theories: the C integer types, checked memory
  access, checked signed arithmetic, and the lemmas that let the simplifier decide bit-level
  equations between machine words.

  Conventions. An object that C code reaches through a pointer is a list; a read or a write
  outside it is undefined behaviour in C and the value \<open>None\<close> of the model, so that every
  theorem that concludes \<open>Some\<close> also states memory safety. Unsigned integers are
  words and wrap around. Signed integers are \<open>int\<close>; every signed operation whose result
  could leave the range of its type goes through a check that yields \<open>None\<close>, because signed
  overflow is undefined in C.
\<close>

unbundle bit_operations_syntax

named_theorems mem_simps \<open>reads and writes of checked memory\<close>
named_theorems mask_simps \<open>C masks and flag tests as statements on bits\<close>

section \<open>Types\<close>

type_synonym u8 = "8 word"
type_synonym u16 = "16 word"
type_synonym u32 = "32 word"
type_synonym u64 = "64 word"

abbreviation LARGEST_INT64 :: int where
  "LARGEST_INT64 \<equiv> 9223372036854775807"

abbreviation SMALLEST_INT64 :: int where
  "SMALLEST_INT64 \<equiv> - 9223372036854775808"

section \<open>Checked memory and checked signed arithmetic\<close>

definition rd :: "'a list \<Rightarrow> nat \<Rightarrow> 'a option" where
  "rd xs i = (if i < length xs then Some (xs ! i) else None)"

definition wr :: "'a list \<Rightarrow> nat \<Rightarrow> 'a \<Rightarrow> 'a list option" where
  "wr xs i v = (if i < length xs then Some (xs[i := v]) else None)"

definition i64_range :: "int \<Rightarrow> bool" where
  "i64_range x \<longleftrightarrow> SMALLEST_INT64 \<le> x \<and> x \<le> LARGEST_INT64"

definition i64 :: "int \<Rightarrow> int option" where
  "i64 x = (if i64_range x then Some x else None)"

definition i32_range :: "int \<Rightarrow> bool" where
  "i32_range x \<longleftrightarrow> - 2147483648 \<le> x \<and> x \<le> 2147483647"

definition i32 :: "int \<Rightarrow> int option" where
  "i32 x = (if i32_range x then Some x else None)"

section \<open>Memory lemmas\<close>

lemma rd_Cons [simp, mem_simps]:
  "rd [] n = None"
  "rd (x # xs) 0 = Some x"
  "rd (x # xs) (Suc n) = rd xs n"
  "rd (x # xs) 1 = rd xs 0"
  "rd (x # xs) (numeral k) = rd xs (pred_numeral k)"
  by (auto simp: rd_def numeral_eq_Suc)

lemma wr_Cons [simp, mem_simps]:
  "wr [] n v = None"
  "wr (x # xs) 0 v = Some (v # xs)"
  "wr (x # xs) (Suc n) v = map_option ((#) x) (wr xs n v)"
  "wr (x # xs) (numeral k) v = map_option ((#) x) (wr xs (pred_numeral k) v)"
  by (auto simp: wr_def numeral_eq_Suc)

lemma rd_eq_Some [mem_simps]: "rd xs i = Some v \<longleftrightarrow> i < length xs \<and> xs ! i = v"
  by (auto simp: rd_def)

lemma rd_lt [simp]: "i < length xs \<Longrightarrow> rd xs i = Some (xs ! i)"
  by (simp add: rd_def)

lemma wr_lt [simp]: "i < length xs \<Longrightarrow> wr xs i v = Some (xs[i := v])"
  by (simp add: wr_def)

lemma wr_eq_Some [mem_simps]: "wr xs i v = Some ys \<longleftrightarrow> i < length xs \<and> ys = xs[i := v]"
  by (auto simp: wr_def)

lemma rd_append_left: "i < length xs \<Longrightarrow> rd (xs @ ys) i = rd xs i"
  by (simp add: rd_def nth_append)

lemma length_ge_Suc: "Suc n \<le> length xs \<Longrightarrow> \<exists>x ys. xs = x # ys \<and> n \<le> length ys"
  by (cases xs) auto

lemma i64_Some [simp]: "i64_range x \<Longrightarrow> i64 x = Some x"
  by (simp add: i64_def)

lemma i32_Some [simp]: "i32_range x \<Longrightarrow> i32 x = Some x"
  by (simp add: i32_def)

lemma i64_eq_Some: "i64 x = Some y \<longleftrightarrow> i64_range x \<and> y = x"
  by (auto simp: i64_def)

section \<open>Bits\<close>

lemma bit8_ge [simp]: "8 \<le> n \<Longrightarrow> bit (x :: u8) n = False"
  using bit_imp_le_length [of x n] by auto

lemma bit32_ge [simp]: "32 \<le> n \<Longrightarrow> bit (x :: u32) n = False"
  using bit_imp_le_length [of x n] by auto

lemma bit64_ge [simp]: "64 \<le> n \<Longrightarrow> bit (x :: u64) n = False"
  using bit_imp_le_length [of x n] by auto

lemma and_0x80_eq_0 [mask_simps]:
  "x AND 0x80 = 0 \<longleftrightarrow> \<not> bit (x :: u32) 7"
  "y AND 0x80 = 0 \<longleftrightarrow> \<not> bit (y :: u8) 7"
  using and_exp_eq_0_iff_not_bit [of x 7] and_exp_eq_0_iff_not_bit [of y 7] by simp_all

lemma bit_list_eqI_8: "list_all (\<lambda>n. bit x n = bit y n) [0..<8] \<Longrightarrow> x = (y
      :: u8)"
  by (rule bit_word_eqI) (simp add: list_all_iff)

lemma u8_eqI:
  "list_all (\<lambda>n. bit x n = bit y n) [0, 1, 2, 3, 4, 5, 6, 7] \<Longrightarrow> x = (y ::
      u8)"
proof -
  have "[0..<8] = [0, 1, 2, 3, 4, 5, 6, 7]" by code_simp
  then show "list_all (\<lambda>n. bit x n = bit y n) [0, 1, 2, 3, 4, 5, 6, 7] \<Longrightarrow>
      x = (y :: u8)"
    by (metis bit_list_eqI_8)
qed

lemma bit_list_eqI_32: "list_all (\<lambda>n. bit x n = bit y n) [0..<32] \<Longrightarrow> x =
      (y :: u32)"
  by (rule bit_word_eqI) (simp add: list_all_iff)

lemma u32_eqI:
  "list_all (\<lambda>n. bit x n = bit y n) [0, 1, 2, 3, 4, 5, 6, 7, 8, 9, 10, 11, 12, 13, 14,
      15, 16, 17, 18, 19, 20, 21, 22, 23, 24, 25, 26, 27, 28, 29, 30, 31] \<Longrightarrow> x =
      (y :: u32)"
proof -
  have "[0..<32] = [0, 1, 2, 3, 4, 5, 6, 7, 8, 9, 10, 11, 12, 13, 14, 15, 16, 17, 18, 19, 20,
      21, 22, 23, 24, 25, 26, 27, 28, 29, 30, 31]" by code_simp
  then show "list_all (\<lambda>n. bit x n = bit y n) [0, 1, 2, 3, 4, 5, 6, 7, 8, 9, 10, 11, 12,
      13, 14, 15, 16, 17, 18, 19, 20, 21, 22, 23, 24, 25, 26, 27, 28, 29, 30, 31]
      \<Longrightarrow> x = (y :: u32)"
    by (metis bit_list_eqI_32)
qed

lemma bit_list_eqI_64: "list_all (\<lambda>n. bit x n = bit y n) [0..<64] \<Longrightarrow> x =
      (y :: u64)"
  by (rule bit_word_eqI) (simp add: list_all_iff)

lemma u64_eqI:
  "list_all (\<lambda>n. bit x n = bit y n) [0, 1, 2, 3, 4, 5, 6, 7, 8, 9, 10, 11, 12, 13, 14,
      15, 16, 17, 18, 19, 20, 21, 22, 23, 24, 25, 26, 27, 28, 29, 30, 31, 32, 33, 34, 35, 36,
      37, 38, 39, 40, 41, 42, 43, 44, 45, 46, 47, 48, 49, 50, 51, 52, 53, 54, 55, 56, 57, 58,
      59, 60, 61, 62, 63] \<Longrightarrow> x = (y :: u64)"
proof -
  have "[0..<64] = [0, 1, 2, 3, 4, 5, 6, 7, 8, 9, 10, 11, 12, 13, 14, 15, 16, 17, 18, 19, 20,
      21, 22, 23, 24, 25, 26, 27, 28, 29, 30, 31, 32, 33, 34, 35, 36, 37, 38, 39, 40, 41, 42,
      43, 44, 45, 46, 47, 48, 49, 50, 51, 52, 53, 54, 55, 56, 57, 58, 59, 60, 61, 62, 63]" by
      code_simp
  then show "list_all (\<lambda>n. bit x n = bit y n) [0, 1, 2, 3, 4, 5, 6, 7, 8, 9, 10, 11, 12,
      13, 14, 15, 16, 17, 18, 19, 20, 21, 22, 23, 24, 25, 26, 27, 28, 29, 30, 31, 32, 33, 34,
      35, 36, 37, 38, 39, 40, 41, 42, 43, 44, 45, 46, 47, 48, 49, 50, 51, 52, 53, 54, 55, 56,
      57, 58, 59, 60, 61, 62, 63] \<Longrightarrow> x = (y :: u64)"
    by (metis bit_list_eqI_64)
qed

text \<open>A statement about one byte can be checked on all 256 of them.\<close>

definition all_bytes :: "u8 list" where
  "all_bytes =
    [0, 1, 2, 3, 4, 5, 6, 7, 8, 9, 10, 11, 12, 13, 14, 15,
     16, 17, 18, 19, 20, 21, 22, 23, 24, 25, 26, 27, 28, 29, 30, 31,
     32, 33, 34, 35, 36, 37, 38, 39, 40, 41, 42, 43, 44, 45, 46, 47,
     48, 49, 50, 51, 52, 53, 54, 55, 56, 57, 58, 59, 60, 61, 62, 63,
     64, 65, 66, 67, 68, 69, 70, 71, 72, 73, 74, 75, 76, 77, 78, 79,
     80, 81, 82, 83, 84, 85, 86, 87, 88, 89, 90, 91, 92, 93, 94, 95,
     96, 97, 98, 99, 100, 101, 102, 103, 104, 105, 106, 107, 108, 109, 110, 111,
     112, 113, 114, 115, 116, 117, 118, 119, 120, 121, 122, 123, 124, 125, 126, 127,
     128, 129, 130, 131, 132, 133, 134, 135, 136, 137, 138, 139, 140, 141, 142, 143,
     144, 145, 146, 147, 148, 149, 150, 151, 152, 153, 154, 155, 156, 157, 158, 159,
     160, 161, 162, 163, 164, 165, 166, 167, 168, 169, 170, 171, 172, 173, 174, 175,
     176, 177, 178, 179, 180, 181, 182, 183, 184, 185, 186, 187, 188, 189, 190, 191,
     192, 193, 194, 195, 196, 197, 198, 199, 200, 201, 202, 203, 204, 205, 206, 207,
     208, 209, 210, 211, 212, 213, 214, 215, 216, 217, 218, 219, 220, 221, 222, 223,
     224, 225, 226, 227, 228, 229, 230, 231, 232, 233, 234, 235, 236, 237, 238, 239,
     240, 241, 242, 243, 244, 245, 246, 247, 248, 249, 250, 251, 252, 253, 254, 255]"

lemma all_bytes_eq: "all_bytes = map word_of_nat [0..<256]"
  by code_simp

lemma nth_all_bytes: "length all_bytes = 256" "all_bytes ! unat b = b"
proof -
  show "length all_bytes = 256" by (simp add: all_bytes_eq)
  have "unat b < 256" by (rule order_less_le_trans [OF unsigned_less]) simp
  then show "all_bytes ! unat b = b" by (simp add: all_bytes_eq)
qed

lemma u8_all: "list_all P all_bytes \<Longrightarrow> P b"
proof -
  assume "list_all P all_bytes"
  moreover have "unat b < length all_bytes"
    unfolding nth_all_bytes by (rule order_less_le_trans [OF unsigned_less]) simp
  ultimately have "P (all_bytes ! unat b)" by (simp only: list_all_length)
  then show "P b" by (simp add: nth_all_bytes)
qed

text \<open>A statement about a byte and its entry in a table is checked along the table.\<close>

lemma table_all: "list_all2 P all_bytes t \<Longrightarrow> P b (t ! unat b)"
proof -
  assume "list_all2 P all_bytes t"
  moreover have "unat b < length all_bytes"
    unfolding nth_all_bytes by (rule order_less_le_trans [OF unsigned_less]) simp
  ultimately show ?thesis
    using list_all2_nthD [of P all_bytes t "unat b"] by (simp add: nth_all_bytes)
qed

text \<open>Shifting a non-zero word to the right makes it smaller, which terminates the C loops
  that consume an integer a few bits at a time.\<close>

lemma unat_drop_bit_less:
  fixes v :: "'a::len word"
  assumes "v \<noteq> 0" and "0 < k"
  shows "unat (drop_bit k v) < unat v"
proof -
  have "0 < unat v" using assms(1) by (simp add: unat_gt_0)
  moreover have "(1 :: nat) < 2 ^ k" using assms(2) by (intro one_less_power) simp_all
  ultimately show ?thesis by (subst unat_drop_bit_eq) (simp add: drop_bit_eq_div)
qed

text \<open>Widening a byte.\<close>

lemma unat_ucast_u8: "unat (ucast (x :: u8) :: u32) = unat x"
  by (simp add: unsigned_ucast_eq take_bit_nat_eq_self_iff) (rule order_less_le_trans [OF unsigned_less], simp)

lemma ucast_u8_inj: "(ucast (x :: u8) :: u32) = ucast y \<longleftrightarrow> x = y"
  by (metis unat_ucast_u8 word_unat_eq_iff)

lemma ucast_u8_u64_u32: "ucast (ucast (b :: u8) :: u64) = (ucast b :: u32)"
  by (rule u32_eqI) (simp_all add: bit_simps)

lemma ucast_u8_u32_u64: "ucast (ucast (b :: u8) :: u32) = (ucast b :: u64)"
  by (rule u64_eqI) (simp_all add: bit_simps)

section \<open>Self-delimiting encodings\<close>

text \<open>
  The contract of a self-delimiting encoding: the decoder, started at an encoded value,
  returns that value and the number of bytes it occupies whatever follows. Clients get
  injectivity, prefix-freeness and the decoding of a concatenation of values.
\<close>

fun dec_seq :: "('b list \<Rightarrow> ('v \<times> nat) option) \<Rightarrow> nat \<Rightarrow> 'b list \<Rightarrow> ('v list \<times> 'b list) option" where
  "dec_seq dec 0 bs = Some ([], bs)"
| "dec_seq dec (Suc n) bs = do {
     (v, k) \<leftarrow> dec bs;
     (vs, rest) \<leftarrow> dec_seq dec n (drop k bs);
     Some (v # vs, rest)
   }"

locale prefix_codec =
  fixes enc :: "'v \<Rightarrow> 'b list"
    and dec :: "'b list \<Rightarrow> ('v \<times> nat) option"
    and ok :: "'v \<Rightarrow> bool"
  assumes dec_enc: "ok v \<Longrightarrow> dec (enc v @ r) = Some (v, length (enc v))"
begin

lemma enc_inj: "ok v \<Longrightarrow> ok w \<Longrightarrow> enc v = enc w \<Longrightarrow> v = w"
  using dec_enc [of v "[]"] dec_enc [of w "[]"] by simp

lemma enc_prefix_free:
  assumes "ok v" and "ok w" and "enc v @ r = enc w @ s"
  shows "v = w \<and> r = s"
  using dec_enc [OF assms(1), of r] dec_enc [OF assms(2), of s] assms(3) by auto

lemma dec_seq_concat:
  "list_all ok vs \<Longrightarrow> dec_seq dec (length vs) (concat (map enc vs) @ r) = Some (vs, r)"
  by (induction vs) (auto simp: dec_enc)

end

end
