(* ===== verification/Varint.thy ===== *)
theory Varint
  imports Sqlite_Prelude
begin

text \<open>
  Variable-length integers and fixed big-endian integers (\<^verbatim>\<open>util.c\<close> of the amalgamation):
  \<^verbatim>\<open>sqlite3PutVarint\<close>, \<^verbatim>\<open>sqlite3PutVarint32\<close>, \<^verbatim>\<open>sqlite3GetVarint\<close>, \<^verbatim>\<open>sqlite3GetVarint32\<close>,
  \<^verbatim>\<open>sqlite3VarintLen\<close>, the macros \<^verbatim>\<open>getVarint32\<close> and \<^verbatim>\<open>putVarint32\<close>, and the two- and
  four-byte accessors. The unrolled decoder is proved equal to the byte-at-a-time reading of
  the format described in the source's comment, and encoding followed by decoding is the
  identity on all 64-bit values.
\<close>

section \<open>Writing\<close>

fun putVarint9_loop :: "nat \<Rightarrow> u8 list \<Rightarrow> u64 \<Rightarrow> u8 list option" where
  "putVarint9_loop 0 p v = Some p"
| "putVarint9_loop (Suc i) p v = do {
     p \<leftarrow> wr p i (ucast ((v AND 0x7f) OR 0x80));
     putVarint9_loop i p (drop_bit 7 v)
   }"

function putVarint_buf :: "u64 \<Rightarrow> u8 list" where
  "putVarint_buf v =
     ucast ((v AND 0x7f) OR 0x80) #
     (let v' = drop_bit 7 v in if v' \<noteq> 0 then putVarint_buf v' else [])"
  by pat_completeness auto
termination
proof (relation "measure unat")
  fix v v' :: u64
  assume "v' = drop_bit 7 v" and "v' \<noteq> 0"
  then show "(v', v) \<in> measure unat"
    using unat_drop_bit_less [of v 7] by (cases "v = 0") auto
qed simp

declare putVarint_buf.simps [simp del]

fun copy_bytes :: "u8 list \<Rightarrow> nat \<Rightarrow> u8 list \<Rightarrow> u8 list option" where
  "copy_bytes p i [] = Some p"
| "copy_bytes p i (b # bs) = do { p \<leftarrow> wr p i b; copy_bytes p (Suc i) bs }"

definition sqlite3PutVarint :: "u8 list \<Rightarrow> u64 \<Rightarrow> (u8 list \<times> nat) option" where
  "sqlite3PutVarint p v =
     (if v AND push_bit 32 0xff000000 \<noteq> 0 then do {
        p \<leftarrow> wr p 8 (ucast v);
        p \<leftarrow> putVarint9_loop 8 p (drop_bit 8 v);
        Some (p, 9)
      } else do {
        let buf = putVarint_buf v;
        let buf = buf[0 := buf ! 0 AND 0x7f];
        p \<leftarrow> copy_bytes p 0 (rev buf);
        Some (p, length buf)
      })"

definition sqlite3PutVarint32 :: "u8 list \<Rightarrow> u32 \<Rightarrow> (u8 list \<times> nat) option" where
  "sqlite3PutVarint32 p v =
     (if v AND NOT 0x3fff = 0 then do {
        p \<leftarrow> wr p 0 (ucast (drop_bit 7 v OR 0x80));
        p \<leftarrow> wr p 1 (ucast (v AND 0x7f));
        Some (p, 2)
      } else sqlite3PutVarint p (ucast v))"

definition putVarint32 :: "u8 list \<Rightarrow> u32 \<Rightarrow> (u8 list \<times> nat) option" where
  "putVarint32 p v =
     (if v < 0x80 then do { p \<leftarrow> wr p 0 (ucast v); Some (p, 1) } else sqlite3PutVarint32 p v)"

section \<open>Reading\<close>

definition sqlite3GetVarint :: "u8 list \<Rightarrow> (u64 \<times> nat) option" where
  "sqlite3GetVarint p = do {
     p0 \<leftarrow> rd p 0;
     let a = (ucast p0 :: u32);
     if a AND 0x80 = 0 then Some (ucast a, 1) else do {
     p1 \<leftarrow> rd p 1;
     let b = (ucast p1 :: u32);
     if b AND 0x80 = 0 then Some (ucast (push_bit 7 (a AND 0x7f) OR b), 2) else do {
     p2 \<leftarrow> rd p 2;
     let a = push_bit 14 a OR ucast p2;
     if a AND 0x80 = 0 then
       Some (ucast ((a AND 0x001fc07f) OR push_bit 7 (b AND 0x7f)), 3)
     else do {
     let a = a AND 0x001fc07f;
     p3 \<leftarrow> rd p 3;
     let b = push_bit 14 b OR ucast p3;
     if b AND 0x80 = 0 then Some (ucast (push_bit 7 a OR (b AND 0x001fc07f)), 4)
     else do {
     let b = b AND 0x001fc07f;
     let s = a;
     p4 \<leftarrow> rd p 4;
     let a = push_bit 14 a OR ucast p4;
     if a AND 0x80 = 0 then
       Some (push_bit 32 (ucast (drop_bit 18 s)) OR ucast (a OR push_bit 7 b), 5)
     else do {
     let s = push_bit 7 s OR b;
     p5 \<leftarrow> rd p 5;
     let b = push_bit 14 b OR ucast p5;
     if b AND 0x80 = 0 then
       Some (push_bit 32 (ucast (drop_bit 18 s)) OR
             ucast (push_bit 7 (a AND 0x001fc07f) OR b), 6)
     else do {
     p6 \<leftarrow> rd p 6;
     let a = push_bit 14 a OR ucast p6;
     if a AND 0x80 = 0 then
       Some (push_bit 32 (ucast (drop_bit 11 s)) OR
             ucast ((a AND 0xf01fc07f) OR push_bit 7 (b AND 0x001fc07f)), 7)
     else do {
     let a = a AND 0x001fc07f;
     p7 \<leftarrow> rd p 7;
     let b = push_bit 14 b OR ucast p7;
     if b AND 0x80 = 0 then
       Some (push_bit 32 (ucast (drop_bit 4 s)) OR
             ucast (push_bit 7 a OR (b AND 0xf01fc07f)), 8)
     else do {
     p8 \<leftarrow> rd p 8;
     let a = push_bit 15 a OR ucast p8;
     let b = push_bit 8 (b AND 0x001fc07f);
     let a = a OR b;
     let s = push_bit 4 s;
     let b = drop_bit 3 (ucast p4 AND 0x7f);
     let s = s OR b;
     Some (push_bit 32 (ucast s) OR ucast a, 9)
   }}}}}}}}}"

definition sqlite3GetVarint32 :: "u8 list \<Rightarrow> (u32 \<times> nat) option" where
  "sqlite3GetVarint32 p = do {
     p0 \<leftarrow> rd p 0;
     let a = (ucast p0 :: u32);
     p1 \<leftarrow> rd p 1;
     let b = (ucast p1 :: u32);
     if b AND 0x80 = 0 then Some (push_bit 7 (a AND 0x7f) OR b, 2) else do {
     p2 \<leftarrow> rd p 2;
     let a = push_bit 14 a OR ucast p2;
     if a AND 0x80 = 0 then
       Some ((a AND (push_bit 14 0x7f OR 0x7f)) OR push_bit 7 (b AND 0x7f), 3)
     else do {
     (v64, n) \<leftarrow> sqlite3GetVarint p;
     if v64 AND (push_bit 32 1 - 1) \<noteq> v64 then Some (0xffffffff, n)
     else Some (ucast v64, n)
   }}}"

definition getVarint32 :: "u8 list \<Rightarrow> (u32 \<times> nat) option" where
  "getVarint32 p = do {
     p0 \<leftarrow> rd p 0;
     if p0 < 0x80 then Some (ucast p0, 1) else sqlite3GetVarint32 p
   }"

fun varintLen_loop :: "nat \<Rightarrow> nat \<Rightarrow> u64 \<Rightarrow> nat" where
  "varintLen_loop 0 i v = i"
| "varintLen_loop (Suc k) i v =
     (let i = i + 1; v = drop_bit 7 v in
      if v \<noteq> 0 \<and> i < 9 then varintLen_loop k i v else i)"

definition sqlite3VarintLen :: "u64 \<Rightarrow> nat" where
  "sqlite3VarintLen v = varintLen_loop 9 0 v"

section \<open>Fixed-width big-endian integers\<close>

definition sqlite3Get4byte :: "u8 list \<Rightarrow> u32 option" where
  "sqlite3Get4byte p = do {
     p0 \<leftarrow> rd p 0; p1 \<leftarrow> rd p 1; p2 \<leftarrow> rd p 2; p3 \<leftarrow> rd p 3;
     Some (push_bit 24 (ucast p0) OR push_bit 16 (ucast p1) OR push_bit 8 (ucast p2) OR ucast p3)
   }"

definition sqlite3Put4byte :: "u8 list \<Rightarrow> u32 \<Rightarrow> u8 list option" where
  "sqlite3Put4byte p v = do {
     p \<leftarrow> wr p 0 (ucast (drop_bit 24 v));
     p \<leftarrow> wr p 1 (ucast (drop_bit 16 v));
     p \<leftarrow> wr p 2 (ucast (drop_bit 8 v));
     wr p 3 (ucast v)
   }"

definition get2byte :: "u8 list \<Rightarrow> u32 option" where
  "get2byte p = do {
     p0 \<leftarrow> rd p 0; p1 \<leftarrow> rd p 1;
     Some (push_bit 8 (ucast p0) OR ucast p1)
   }"

definition put2byte :: "u8 list \<Rightarrow> u32 \<Rightarrow> u8 list option" where
  "put2byte p v = do {
     p \<leftarrow> wr p 0 (ucast (drop_bit 8 v));
     wr p 1 (ucast v)
   }"

section \<open>The format\<close>

text \<open>
  The reference reading of the format: each of the first eight bytes contributes its low seven
  bits and continues while its high bit is set; a ninth byte contributes all eight bits.
\<close>

fun getVarint_ref :: "nat \<Rightarrow> u64 \<Rightarrow> u8 list \<Rightarrow> (u64 \<times> nat) option" where
  "getVarint_ref k acc [] = None"
| "getVarint_ref k acc (b # bs) =
     (if k = 8 then Some (push_bit 8 acc OR ucast b, 9)
      else let acc' = push_bit 7 acc OR (ucast b AND 0x7f) in
        if bit b 7 then getVarint_ref (Suc k) acc' bs else Some (acc', Suc k))"



section \<open>The unrolled decoder\<close>

lemmas getVarint_unfold = sqlite3GetVarint_def and_0x80_eq_0 bit_simps Let_def

lemma getVarint_1:
  assumes "\<not> bit p0 7"
  shows "sqlite3GetVarint (p0 # r)
       = getVarint_ref 0 0 (p0 # r)"
  using assms
  by (simp add: getVarint_unfold) (rule u64_eqI, simp add: bit_simps)

lemma getVarint_2:
  assumes "bit p0 7" "\<not> bit p1 7"
  shows "sqlite3GetVarint (p0 # p1 # r)
       = getVarint_ref 0 0 (p0 # p1 # r)"
  using assms
  by (simp add: getVarint_unfold) (rule u64_eqI, simp add: bit_simps)

lemma getVarint_3:
  assumes "bit p0 7" "bit p1 7" "\<not> bit p2 7"
  shows "sqlite3GetVarint (p0 # p1 # p2 # r)
       = getVarint_ref 0 0 (p0 # p1 # p2 # r)"
  using assms
  by (simp add: getVarint_unfold) (rule u64_eqI, simp add: bit_simps)

lemma getVarint_4:
  assumes "bit p0 7" "bit p1 7" "bit p2 7" "\<not> bit p3 7"
  shows "sqlite3GetVarint (p0 # p1 # p2 # p3 # r)
       = getVarint_ref 0 0 (p0 # p1 # p2 # p3 # r)"
  using assms
  by (simp add: getVarint_unfold) (rule u64_eqI, simp add: bit_simps)

lemma getVarint_5:
  assumes "bit p0 7" "bit p1 7" "bit p2 7" "bit p3 7" "\<not> bit p4 7"
  shows "sqlite3GetVarint (p0 # p1 # p2 # p3 # p4 # r)
       = getVarint_ref 0 0 (p0 # p1 # p2 # p3 # p4 # r)"
  using assms
  by (simp add: getVarint_unfold) (rule u64_eqI, simp add: bit_simps)

lemma getVarint_6:
  assumes "bit p0 7" "bit p1 7" "bit p2 7" "bit p3 7" "bit p4 7" "\<not> bit p5 7"
  shows "sqlite3GetVarint (p0 # p1 # p2 # p3 # p4 # p5 # r)
       = getVarint_ref 0 0 (p0 # p1 # p2 # p3 # p4 # p5 # r)"
  using assms
  by (simp add: getVarint_unfold) (rule u64_eqI, simp add: bit_simps)

lemma getVarint_7:
  assumes "bit p0 7" "bit p1 7" "bit p2 7" "bit p3 7" "bit p4 7" "bit p5 7" "\<not> bit p6 7"
  shows "sqlite3GetVarint (p0 # p1 # p2 # p3 # p4 # p5 # p6 # r)
       = getVarint_ref 0 0 (p0 # p1 # p2 # p3 # p4 # p5 # p6 # r)"
  using assms
  by (simp add: getVarint_unfold) (rule u64_eqI, simp add: bit_simps)

lemma getVarint_8:
  assumes "bit p0 7" "bit p1 7" "bit p2 7" "bit p3 7" "bit p4 7" "bit p5 7" "bit p6 7" "\<not> bit p7 7"
  shows "sqlite3GetVarint (p0 # p1 # p2 # p3 # p4 # p5 # p6 # p7 # r)
       = getVarint_ref 0 0 (p0 # p1 # p2 # p3 # p4 # p5 # p6 # p7 # r)"
  using assms
  by (simp add: getVarint_unfold) (rule u64_eqI, simp add: bit_simps)

lemma getVarint_9:
  assumes "bit p0 7" "bit p1 7" "bit p2 7" "bit p3 7" "bit p4 7" "bit p5 7" "bit p6 7" "bit p7 7"
  shows "sqlite3GetVarint (p0 # p1 # p2 # p3 # p4 # p5 # p6 # p7 # p8 # r)
       = getVarint_ref 0 0 (p0 # p1 # p2 # p3 # p4 # p5 # p6 # p7 # p8 # r)"
  using assms
  by (simp add: getVarint_unfold) (rule u64_eqI, simp add: bit_simps)

text \<open>A buffer that ends inside a varint: both readings run off its end.\<close>

lemma getVarint_short_0:
  
  shows "sqlite3GetVarint [] = getVarint_ref 0 0 []"
  by (simp add: getVarint_unfold)

lemma getVarint_short_1:
  assumes "bit p0 7"
  shows "sqlite3GetVarint [p0] = getVarint_ref 0 0 [p0]"
  using assms by (simp add: getVarint_unfold)

lemma getVarint_short_2:
  assumes "bit p0 7" "bit p1 7"
  shows "sqlite3GetVarint [p0, p1] = getVarint_ref 0 0 [p0, p1]"
  using assms by (simp add: getVarint_unfold)

lemma getVarint_short_3:
  assumes "bit p0 7" "bit p1 7" "bit p2 7"
  shows "sqlite3GetVarint [p0, p1, p2] = getVarint_ref 0 0 [p0, p1, p2]"
  using assms by (simp add: getVarint_unfold)

lemma getVarint_short_4:
  assumes "bit p0 7" "bit p1 7" "bit p2 7" "bit p3 7"
  shows "sqlite3GetVarint [p0, p1, p2, p3] = getVarint_ref 0 0 [p0, p1, p2, p3]"
  using assms by (simp add: getVarint_unfold)

lemma getVarint_short_5:
  assumes "bit p0 7" "bit p1 7" "bit p2 7" "bit p3 7" "bit p4 7"
  shows "sqlite3GetVarint [p0, p1, p2, p3, p4] = getVarint_ref 0 0 [p0, p1, p2, p3, p4]"
  using assms by (simp add: getVarint_unfold)

lemma getVarint_short_6:
  assumes "bit p0 7" "bit p1 7" "bit p2 7" "bit p3 7" "bit p4 7" "bit p5 7"
  shows "sqlite3GetVarint [p0, p1, p2, p3, p4, p5] = getVarint_ref 0 0 [p0, p1, p2, p3, p4, p5]"
  using assms by (simp add: getVarint_unfold)

lemma getVarint_short_7:
  assumes "bit p0 7" "bit p1 7" "bit p2 7" "bit p3 7" "bit p4 7" "bit p5 7" "bit p6 7"
  shows "sqlite3GetVarint [p0, p1, p2, p3, p4, p5, p6] = getVarint_ref 0 0 [p0, p1, p2, p3, p4, p5, p6]"
  using assms by (simp add: getVarint_unfold)

lemma getVarint_short_8:
  assumes "bit p0 7" "bit p1 7" "bit p2 7" "bit p3 7" "bit p4 7" "bit p5 7" "bit p6 7" "bit p7 7"
  shows "sqlite3GetVarint [p0, p1, p2, p3, p4, p5, p6, p7] = getVarint_ref 0 0 [p0, p1, p2, p3, p4, p5, p6, p7]"
  using assms by (simp add: getVarint_unfold)

lemma getVarint_ref_eq: "sqlite3GetVarint p = getVarint_ref 0 0 p"
  apply (cases p, simp add: getVarint_short_0)
  apply (rename_tac p0 r0, case_tac "\<not> bit p0 7", simp add: getVarint_1 del: getVarint_ref.simps)
  apply (case_tac r0, simp add: getVarint_short_1)
  apply (rename_tac p1 r1, case_tac "\<not> bit p1 7", simp add: getVarint_2 del: getVarint_ref.simps)
  apply (case_tac r1, simp add: getVarint_short_2)
  apply (rename_tac p2 r2, case_tac "\<not> bit p2 7", simp add: getVarint_3 del: getVarint_ref.simps)
  apply (case_tac r2, simp add: getVarint_short_3)
  apply (rename_tac p3 r3, case_tac "\<not> bit p3 7", simp add: getVarint_4 del: getVarint_ref.simps)
  apply (case_tac r3, simp add: getVarint_short_4)
  apply (rename_tac p4 r4, case_tac "\<not> bit p4 7", simp add: getVarint_5 del: getVarint_ref.simps)
  apply (case_tac r4, simp add: getVarint_short_5)
  apply (rename_tac p5 r5, case_tac "\<not> bit p5 7", simp add: getVarint_6 del: getVarint_ref.simps)
  apply (case_tac r5, simp add: getVarint_short_6)
  apply (rename_tac p6 r6, case_tac "\<not> bit p6 7", simp add: getVarint_7 del: getVarint_ref.simps)
  apply (case_tac r6, simp add: getVarint_short_7)
  apply (rename_tac p7 r7, case_tac "\<not> bit p7 7", simp add: getVarint_8 del: getVarint_ref.simps)
  apply (case_tac r7, simp add: getVarint_short_8)
  apply (simp add: getVarint_9 del: getVarint_ref.simps)
  done

section \<open>Writing, then reading\<close>

lemma copy_bytes_prefix:
  "copy_bytes (xs @ p) (length xs) bs = 
     (if length bs \<le> length p then Some (xs @ bs @ drop (length bs) p) else None)"
proof (induction bs arbitrary: xs p)
  case Nil
  then show ?case by simp
next
  case (Cons b bs)
  show ?case
  proof (cases p)
    case Nil
    then show ?thesis by (simp add: wr_def)
  next
    case (Cons c q)
    have "wr (xs @ c # q) (length xs) b = Some ((xs @ [b]) @ q)"
      by (simp add: wr_def)
    then show ?thesis
      using Cons Cons.IH [of "xs @ [b]" q] by (auto simp: length_Cons)
  qed
qed

lemma copy_bytes_at_0 [simp]:
  "copy_bytes p 0 bs =
     (if length bs \<le> length p then Some (bs @ drop (length bs) p) else None)"
  using copy_bytes_prefix [of "[]" p bs] by simp

lemma and_0x7f [mask_simps]: "(v :: u64) AND 0x7f = take_bit 7 v"
  by (simp add: take_bit_eq_mask mask_eq_exp_minus_1)

lemma push_drop_or_take: "push_bit k (drop_bit k v) OR take_bit k v = (v :: 'a::len word)"
  by (rule bit_word_eqI) (auto simp: bit_simps)

lemma putVarint_digit:
  fixes v :: u64
  defines "d \<equiv> ucast ((v AND 0x7f) OR 0x80) :: u8"
  shows "bit d 7" and "ucast d AND 0x7f = take_bit 7 v"
    and "\<not> bit (d AND 0x7f) 7" and "ucast (d AND 0x7f) AND 0x7f = take_bit 7 v"
  unfolding d_def
  by (simp add: bit_simps, rule u64_eqI, simp add: bit_simps,
      simp add: bit_simps, rule u64_eqI, simp add: bit_simps)

text \<open>Reading the digit bytes that the writer's loop emits, most significant first, shifts
  the accumulated value and adds the digits.\<close>

lemma getVarint_ref_digit:
  "k < 8 \<Longrightarrow> bit d 7 \<Longrightarrow> ucast d AND 0x7f = take_bit 7 v \<Longrightarrow>
   getVarint_ref k acc (d # r) = getVarint_ref (Suc k) (push_bit 7 acc OR take_bit 7 v) r"
  by simp

lemma getVarint_ref_buf:
  "k + length (putVarint_buf v) \<le> 8 \<Longrightarrow>
   getVarint_ref k acc (rev (putVarint_buf v) @ r) =
   getVarint_ref (k + length (putVarint_buf v))
     (push_bit (7 * length (putVarint_buf v)) acc OR v) r"
proof (induction v arbitrary: k acc r rule: putVarint_buf.induct)
  case (1 v)
  define d :: u8 where "d = ucast ((v AND 0x7f) OR 0x80)"
  define v' where "v' = drop_bit 7 v"
  note d = putVarint_digit(1,2) [of v, folded d_def]
  have v: "push_bit 7 v' OR take_bit 7 v = v"
    unfolding v'_def by (rule push_drop_or_take)
  have buf: "putVarint_buf v = d # (if v' \<noteq> 0 then putVarint_buf v' else [])"
    by (subst putVarint_buf.simps) (simp add: d_def v'_def)
  show ?case
  proof (cases "v' = 0")
    case True
    then show ?thesis
      using "1.prems" v getVarint_ref_digit [OF _ d, of k acc r]
      by (simp add: buf del: getVarint_ref.simps)
  next
    case False
    let ?n = "length (putVarint_buf v')"
    have len: "k + ?n < 8" using "1.prems" False by (simp add: buf)
    have "getVarint_ref k acc (rev (putVarint_buf v') @ d # r) =
        getVarint_ref (Suc (k + ?n)) (push_bit 7 (push_bit (7 * ?n) acc OR v') OR take_bit 7 v) r"
      using "1.IH" [OF v'_def False, of k acc "d # r"] len getVarint_ref_digit [OF len d, of "push_bit (7 * ?n) acc OR v'" r]
      by (simp del: getVarint_ref.simps)
    also have "push_bit 7 (push_bit (7 * ?n) acc OR v') OR take_bit 7 v =
        push_bit (7 * Suc ?n) acc OR v"
      using v by (simp add: push_bit_or or.assoc)
    finally show ?thesis
      using False by (simp add: buf del: getVarint_ref.simps)
  qed
qed

lemma putVarint_buf_length:
  "drop_bit (7 * m) v = 0 \<Longrightarrow> length (putVarint_buf v) \<le> max 1 m"
proof (induction m arbitrary: v)
  case 0
  then show ?case by (subst putVarint_buf.simps) simp
next
  case (Suc m)
  have "drop_bit (7 * m) (drop_bit 7 v) = 0" using Suc.prems by (simp add: add.commute)
  from Suc.IH [OF this] this show ?case
    by (cases "drop_bit 7 v = 0"; cases m; subst putVarint_buf.simps) (auto simp: Let_def)
qed

lemma varintLen_loop_buf:
  "i + length (putVarint_buf v) \<le> 9 \<Longrightarrow> i + k \<ge> 9 \<Longrightarrow> varintLen_loop k i v = i + length (putVarint_buf v)"
proof (induction k arbitrary: i v)
  case 0
  then show ?case by (subst (asm) putVarint_buf.simps) simp
next
  case (Suc k)
  show ?case
  proof (cases "drop_bit 7 v = 0")
    case True
    then show ?thesis by (subst putVarint_buf.simps) simp
  next
    case False
    have b: "length (putVarint_buf v) = Suc (length (putVarint_buf (drop_bit 7 v)))"
      using False by (subst putVarint_buf.simps) simp
    have "1 \<le> length (putVarint_buf (drop_bit 7 v))"
      by (subst putVarint_buf.simps) simp
    then have "i < 8" using Suc.prems b by linarith
    then show ?thesis
      using Suc.IH [of "i + 1" "drop_bit 7 v"] Suc.prems False b by simp
  qed
qed

lemma top_byte_zero_iff:
  "(v :: u64) AND 0xff00000000000000 = 0 \<longleftrightarrow> drop_bit 56 v = 0"
proof -
  have "v AND 0xff00000000000000 = push_bit 56 (drop_bit 56 v)"
    by (rule u64_eqI) (simp add: bit_simps)
  moreover have "drop_bit 56 (push_bit 56 (drop_bit 56 v)) = drop_bit 56 v"
    by (rule u64_eqI) (simp add: bit_simps)
  ultimately show ?thesis by (metis drop_bit_of_0 push_bit_of_0)
qed

definition varint_small :: "u64 \<Rightarrow> u8 list" where
  "varint_small v = rev ((putVarint_buf v)[0 := putVarint_buf v ! 0 AND 0x7f])"

lemma getVarint_small:
  assumes "drop_bit 56 v = 0"
  shows "sqlite3GetVarint (varint_small v @ r) = Some (v, length (varint_small v))"
    and "1 \<le> length (varint_small v)" and "length (varint_small v) \<le> 8"
proof -
  define d :: u8 where "d = ucast ((v AND 0x7f) OR 0x80)"
  define v' where "v' = drop_bit 7 v"
  note d = putVarint_digit(3,4) [of v, folded d_def]
  define tl' where "tl' = (if v' \<noteq> 0 then putVarint_buf v' else [])"
  have buf: "putVarint_buf v = d # tl'"
    by (subst putVarint_buf.simps) (simp add: d_def v'_def tl'_def)
  have e: "varint_small v = rev tl' @ [d AND 0x7f]"
    by (simp add: varint_small_def buf)
  have "length (putVarint_buf v) \<le> 8"
    using putVarint_buf_length [of 8 v] assms by simp
  then have len: "length tl' \<le> 7" by (simp add: buf)
  then show "1 \<le> length (varint_small v)" "length (varint_small v) \<le> 8" by (simp_all add: e)
  have "getVarint_ref 0 0 (rev tl' @ (d AND 0x7f) # r) =
      getVarint_ref (length tl') v' ((d AND 0x7f) # r)"
    using getVarint_ref_buf [of 0 v' 0 "(d AND 0x7f) # r"] len
    by (auto simp: tl'_def simp del: getVarint_ref.simps)
  also have "\<dots> = Some (push_bit 7 v' OR take_bit 7 v, Suc (length tl'))"
    using d len by simp
  finally show "sqlite3GetVarint (varint_small v @ r) = Some (v, length (varint_small v))"
    by (simp add: getVarint_ref_eq e v'_def push_drop_or_take)
qed

lemma putVarint_small:
  assumes "drop_bit 56 v = 0"
  shows "sqlite3PutVarint p v =
     (if length (varint_small v) \<le> length p
      then Some (varint_small v @ drop (length (varint_small v)) p, length (varint_small v))
      else None)"
  using assms by (simp add: sqlite3PutVarint_def top_byte_zero_iff varint_small_def Let_def)

definition varint_big :: "u64 \<Rightarrow> u8 list" where
  "varint_big v = map (\<lambda>k. ucast ((drop_bit k v AND 0x7f) OR 0x80)) [57, 50, 43, 36, 29, 22, 15, 8]
     @ [ucast v]"

lemma putVarint9_loop_numeral:
  "putVarint9_loop (numeral k) p v = do {
     p \<leftarrow> wr p (pred_numeral k) (ucast ((v AND 0x7f) OR 0x80));
     putVarint9_loop (pred_numeral k) p (drop_bit 7 v)
   }"
  by (simp add: numeral_eq_Suc)

lemma putVarint_big:
  assumes "drop_bit 56 v \<noteq> 0"
  shows "sqlite3PutVarint p v =
     (if 9 \<le> length p then Some (varint_big v @ drop 9 p, 9) else None)"
proof (cases "9 \<le> length p")
  case True
  then obtain p0 p1 p2 p3 p4 p5 p6 p7 p8 r where "p = p0 # p1 # p2 # p3 # p4 # p5 # p6 # p7 # p8 # r"
    by (auto simp: numeral_eq_Suc Suc_le_length_iff)
  then show ?thesis
    using assms
    by (simp add: sqlite3PutVarint_def top_byte_zero_iff varint_big_def putVarint9_loop_numeral)
next
  case False
  then show ?thesis
    using assms by (simp add: sqlite3PutVarint_def top_byte_zero_iff wr_def)
qed

lemma getVarint_big: "sqlite3GetVarint (varint_big v @ r) = Some (v, 9)"
  by (simp add: varint_big_def getVarint_unfold) (rule u64_eqI, simp add: bit_simps)

definition varint_bytes :: "u64 \<Rightarrow> u8 list" where
  "varint_bytes v = (if drop_bit 56 v = 0 then varint_small v else varint_big v)"

lemma length_varint_big [simp]: "length (varint_big v) = 9"
  by (simp add: varint_big_def)

lemma putVarint_eq:
  "sqlite3PutVarint p v =
     (if length (varint_bytes v) \<le> length p
      then Some (varint_bytes v @ drop (length (varint_bytes v)) p, length (varint_bytes v))
      else None)"
  by (simp add: varint_bytes_def putVarint_small putVarint_big)

lemma getVarint_bytes: "sqlite3GetVarint (varint_bytes v @ r) = Some (v, length (varint_bytes v))"
  by (simp add: varint_bytes_def getVarint_small getVarint_big)

lemma varint_bytes_length: "1 \<le> length (varint_bytes v)" "length (varint_bytes v) \<le> 9"
  using getVarint_small(2,3) [of v] by (auto simp: varint_bytes_def)

interpretation varint: prefix_codec varint_bytes sqlite3GetVarint "\<lambda>_. True"
  by unfold_locales (rule getVarint_bytes)

lemma putVarint_buf_min: "drop_bit (7 * m) v \<noteq> 0 \<Longrightarrow> m < length (putVarint_buf v)"
proof (induction m arbitrary: v)
  case 0
  then show ?case by (subst putVarint_buf.simps) simp
next
  case (Suc m)
  have ne: "drop_bit (7 * m) (drop_bit 7 v) \<noteq> 0" using Suc.prems by (simp add: add.commute)
  then have "drop_bit 7 v \<noteq> 0" by (metis drop_bit_of_0)
  then show ?case using Suc.IH [OF ne] by (subst putVarint_buf.simps) simp
qed

lemma varintLen_loop_9:
  "i + length (putVarint_buf v) \<ge> 9 \<Longrightarrow> i + k \<ge> 9 \<Longrightarrow> i < 9 \<Longrightarrow> varintLen_loop k i v = 9"
proof (induction k arbitrary: i v)
  case 0
  then show ?case by simp
next
  case (Suc k)
  have b: "length (putVarint_buf v) =
      (if drop_bit 7 v = 0 then 1 else Suc (length (putVarint_buf (drop_bit 7 v))))"
    by (subst putVarint_buf.simps) simp
  show ?case
    using Suc.IH [of "i + 1" "drop_bit 7 v"] Suc.prems b by (auto split: if_splits)
qed

lemma sqlite3VarintLen_eq: "sqlite3VarintLen v = length (varint_bytes v)"
proof (cases "drop_bit 56 v = 0")
  case True
  then show ?thesis
    using getVarint_small(3) [OF True] varintLen_loop_buf [of 0 v 9]
    by (simp add: sqlite3VarintLen_def varint_bytes_def varint_small_def)
next
  case False
  then show ?thesis
    using putVarint_buf_min [of 8 v] varintLen_loop_9 [of 0 v 9]
    by (simp add: sqlite3VarintLen_def varint_bytes_def)
qed

lemma fits_u32_iff: "(v :: u64) AND 0xffffffff = v \<longleftrightarrow> v \<le> 0xffffffff"
  using mask_eq_iff [of v 32] by (simp add: mask_eq_exp_minus_1 word_le_def, linarith)

lemma ucast_u32_le [simp]: "(ucast (x :: u32) :: u64) \<le> 0xffffffff"
proof -
  have "(ucast x :: u64) AND 0xffffffff = ucast x" by (rule u64_eqI) (simp add: bit_simps)
  then show ?thesis by (simp only: fits_u32_iff)
qed

lemma ucast_u32_u64_u32 [simp]: "ucast (ucast (x :: u32) :: u64) = x"
  by (rule u32_eqI) (simp add: bit_simps)

lemma lt_0x80_u8: "(b :: u8) < 0x80 \<longleftrightarrow> \<not> bit b 7"
proof -
  have "b AND 0x7f = b \<longleftrightarrow> \<not> bit b 7"
  proof
    assume "b AND 0x7f = b"
    then have "bit b 7 = bit (b AND 0x7f) 7" by simp
    then show "\<not> bit b 7" by (simp add: bit_simps)
  qed (rule u8_eqI, simp add: bit_simps)
  then show ?thesis using mask_eq_iff [of b 7] by (simp add: mask_eq_exp_minus_1 word_less_def)
qed

lemma lt_0x80_u32: "(w :: u32) < 0x80 \<longleftrightarrow> drop_bit 7 w = 0"
  using mask_eq_iff [of w 7] take_bit_eq_self_iff_drop_bit_eq_0 [of 7 w]
  by (simp add: word_less_def flip: take_bit_eq_mask)

lemma and_not_0x3fff: "(w :: u32) AND - 16384 = 0 \<longleftrightarrow> drop_bit 14 w = 0"
proof -
  have "w AND - 16384 = push_bit 14 (drop_bit 14 w)"
    by (rule u32_eqI) (simp add: bit_simps)
  moreover have "drop_bit 14 (push_bit 14 (drop_bit 14 w)) = drop_bit 14 w"
    by (rule u32_eqI) (simp add: bit_simps)
  ultimately show ?thesis by (metis drop_bit_of_0 push_bit_of_0)
qed

lemma varint_bytes_1: "drop_bit 7 v = 0 \<Longrightarrow> varint_bytes v = [ucast v]"
proof -
  assume z: "drop_bit 7 v = 0"
  then have "drop_bit 56 v = 0" using drop_bit_drop_bit [of 49 7 v] by simp
  moreover have "ucast ((v AND 0x7f) OR 0x80) AND 0x7f = (ucast v :: u8)"
  proof -
    have "ucast ((v AND 0x7f) OR 0x80) AND 0x7f = (ucast (take_bit 7 v) :: u8)"
      by (rule u8_eqI) (simp add: bit_simps)
    also have "take_bit 7 v = v" using z by (simp only: take_bit_eq_self_iff_drop_bit_eq_0)
    finally show ?thesis .
  qed
  ultimately show ?thesis
    using z by (simp add: varint_bytes_def varint_small_def putVarint_buf.simps [of v])
qed

lemma varint_bytes_2:
  assumes "drop_bit 7 v \<noteq> 0" and "drop_bit 14 v = 0"
  shows "varint_bytes v = [ucast (drop_bit 7 v OR 0x80), ucast (v AND 0x7f)]"
proof -
  let ?w = "drop_bit 7 v"
  have w: "drop_bit 7 ?w = 0" using assms(2) by simp
  have "drop_bit 56 v = 0" using drop_bit_drop_bit [of 42 14 v] assms(2) by simp
  moreover have "putVarint_buf v = [ucast ((v AND 0x7f) OR 0x80), ucast ((?w AND 0x7f) OR 0x80)]"
    using assms(1) w by (simp add: putVarint_buf.simps [of v] putVarint_buf.simps [of ?w])
  moreover have "?w AND 0x7f = ?w"
    using w by (simp add: and_0x7f take_bit_eq_self_iff_drop_bit_eq_0 del: drop_bit_drop_bit)
  moreover have "ucast ((v AND 0x7f) OR 0x80) AND 0x7f = (ucast (v AND 0x7f) :: u8)"
    by (rule u8_eqI) (simp add: bit_simps)
  ultimately show ?thesis by (simp add: varint_bytes_def varint_small_def)
qed

lemma drop_bit_ucast_u32: "drop_bit n (ucast (x :: u32) :: u64) = ucast (drop_bit n x)"
  by (rule bit_word_eqI) (auto simp: bit_simps dest: bit_imp_le_length)

lemma ucast_u32_u64_u8 [simp]: "ucast (ucast (x :: u32) :: u64) = (ucast x :: u8)"
  by (rule u8_eqI) (simp add: bit_simps)

lemma ucast_u64_eq_0 [simp]: "(ucast (x :: u32) :: u64) = 0 \<longleftrightarrow> x = 0"
  by (metis ucast_u32_u64_u32 unsigned_0)

text \<open>Fixed-width accessors: what was stored is read back, inside the four or two bytes.\<close>

lemma put4byte_get4byte:
  assumes "4 \<le> length p"
  shows "\<exists>q. sqlite3Put4byte p v = Some q \<and> sqlite3Get4byte q = Some v \<and> drop 4 q = drop 4 p"
proof -
  obtain p0 p1 p2 p3 r where "p = p0 # p1 # p2 # p3 # r"
    using assms by (auto simp: numeral_eq_Suc Suc_le_length_iff)
  moreover have "push_bit 24 (ucast (ucast (drop_bit 24 v) :: u8)) OR
      push_bit 16 (ucast (ucast (drop_bit 16 v) :: u8)) OR
      push_bit 8 (ucast (ucast (drop_bit 8 v) :: u8)) OR ucast (ucast v :: u8) = v"
    by (rule u32_eqI) (simp add: bit_simps)
  ultimately show ?thesis by (simp add: sqlite3Put4byte_def sqlite3Get4byte_def)
qed

lemma put2byte_get2byte:
  assumes "2 \<le> length p"
  shows "\<exists>q. put2byte p v = Some q \<and> get2byte q = Some (take_bit 16 v) \<and> drop 2 q = drop 2 p"
proof -
  obtain p0 p1 r where "p = p0 # p1 # r"
    using assms by (auto simp: numeral_eq_Suc Suc_le_length_iff)
  moreover have "push_bit 8 (ucast (ucast (drop_bit 8 v) :: u8)) OR ucast (ucast v :: u8) = take_bit 16 v"
    by (rule u32_eqI) (simp add: bit_simps)
  ultimately show ?thesis by (simp add: put2byte_def get2byte_def)
qed

section \<open>Properties\<close>

text \<open>The decoder that SQLite unrolls by hand computes, on every byte buffer, the value and
  length of the format: seven bits per byte, most significant first, high bit set on all but
  the last, and a ninth byte taken whole. It reads past the end of the buffer exactly when the
  encoding is cut off by it.\<close>

lemma sqlite3GetVarint_format: "sqlite3GetVarint p = getVarint_ref 0 0 p"
  by (rule getVarint_ref_eq)

text \<open>C4. Writing any 64-bit value into a buffer of at least nine bytes stays inside the
  buffer, writes exactly \<^verbatim>\<open>sqlite3VarintLen\<close> bytes (between one and nine) and leaves the rest
  alone; reading the buffer back returns the value and the same length.\<close>

theorem sqlite3PutVarint_roundtrip:
  assumes "9 \<le> length p"
  shows "\<exists>q n. sqlite3PutVarint p v = Some (q, n) \<and> sqlite3GetVarint q = Some (v, n) \<and>
    n = sqlite3VarintLen v \<and> 1 \<le> n \<and> n \<le> 9 \<and> length q = length p \<and> drop n q = drop n p"
  using assms varint_bytes_length [of v]
  by (auto simp: putVarint_eq getVarint_bytes sqlite3VarintLen_eq)

theorem sqlite3PutVarint_roundtrip_witness:
  "\<exists>q n. sqlite3PutVarint (replicate 9 7) 300 = Some (q, n) \<and> sqlite3GetVarint q = Some (300, n) \<and>
    n = sqlite3VarintLen 300 \<and> 1 \<le> n \<and> n \<le> 9 \<and> length q = length (replicate 9 (7 :: u8)) \<and>
    drop n q = drop n (replicate 9 7)"
  by (rule sqlite3PutVarint_roundtrip) simp

text \<open>The 32-bit decoder behind the \<^verbatim>\<open>getVarint32\<close> macro agrees with the 64-bit decoder on
  every buffer: same length, and the value saturated to the largest unsigned 32-bit integer.\<close>

lemma getVarint32_saturates:
  "getVarint32 p = map_option (\<lambda>(v, n). (if v \<le> 0xffffffff then ucast v else 0xffffffff, n))
     (sqlite3GetVarint p)"
proof -
  have 2: "sqlite3GetVarint (p0 # p1 # r) = Some (ucast (push_bit 7 (ucast p0 AND 0x7f :: u32) OR ucast p1), 2)"
    if "bit p0 7" "\<not> bit p1 7" for p0 p1 :: u8 and r
    using that by (simp add: getVarint_unfold)
  have 3: "sqlite3GetVarint (p0 # p1 # p2 # r) =
      Some (ucast (((push_bit 14 (ucast p0) OR ucast p2) AND (push_bit 14 0x7f OR 0x7f)) OR
        push_bit 7 (ucast p1 AND 0x7f :: u32)), 3)"
    if "bit p0 7" "bit p1 7" "\<not> bit p2 7" for p0 p1 p2 :: u8 and r
    using that by (simp add: getVarint_unfold)
  show ?thesis
  proof (cases p)
    case (Cons p0 r)
    show ?thesis
    proof (cases "bit p0 7")
      case False
      then show ?thesis
        using Cons by (simp add: getVarint32_def lt_0x80_u8 sqlite3GetVarint_def and_0x80_eq_0 bit_simps)
    next
      case True
      show ?thesis
        using Cons True 2 3
        by (cases r; cases "tl r"; cases "sqlite3GetVarint p"; cases "bit (hd r) 7"; cases "bit (hd (tl r)) 7")
          (auto simp: getVarint32_def lt_0x80_u8 sqlite3GetVarint32_def and_0x80_eq_0 bit_simps fits_u32_iff Let_def
              getVarint_short_1 getVarint_short_2)
    qed
  qed (simp add: getVarint32_def sqlite3GetVarint_def)
qed

text \<open>The 32-bit writer behind the \<^verbatim>\<open>putVarint32\<close> macro writes the same bytes as the
  general writer.\<close>

lemma putVarint32_eq: "putVarint32 p v = sqlite3PutVarint p (ucast v)"
proof -
  consider (1) "drop_bit 7 v = 0" | (2) "drop_bit 7 v \<noteq> 0" "drop_bit 14 v = 0" | (3) "drop_bit 14 v \<noteq> 0"
    by blast
  then show ?thesis
  proof cases
    case 1
    then show ?thesis
      by (cases p) (simp_all add: putVarint32_def lt_0x80_u32 putVarint_eq varint_bytes_1 drop_bit_ucast_u32)
  next
    case 2
    have "ucast (drop_bit 7 v OR 0x80) = (ucast (drop_bit 7 (ucast v :: u64) OR 0x80) :: u8)"
      "ucast (v AND 0x7f) = (ucast ((ucast v :: u64) AND 0x7f) :: u8)"
      by (rule u8_eqI, simp add: bit_simps)+
    with 2 show ?thesis
      by (cases p; cases "tl p")
        (simp_all add: putVarint32_def lt_0x80_u32 sqlite3PutVarint32_def and_not_0x3fff putVarint_eq
          varint_bytes_2 drop_bit_ucast_u32)
  next
    case 3
    then have "drop_bit 7 (drop_bit 7 v) \<noteq> 0" by simp
    then have "drop_bit 7 v \<noteq> 0" by (metis drop_bit_of_0)
    with 3 show ?thesis
      by (simp add: putVarint32_def lt_0x80_u32 sqlite3PutVarint32_def and_not_0x3fff)
  qed
qed

end
