(* ===== verification/Int64.thy ===== *)
theory Int64
  imports Sqlite_Prelude "HOL-Library.Signed_Division"
begin

text \<open>
  Overflow-checked 64-bit arithmetic and logarithmic estimates (\<^verbatim>\<open>util.c\<close>):
  \<^verbatim>\<open>sqlite3AddInt64\<close>, \<^verbatim>\<open>sqlite3SubInt64\<close>, \<^verbatim>\<open>sqlite3MulInt64\<close>, \<^verbatim>\<open>sqlite3AbsInt32\<close>,
  \<^verbatim>\<open>sqlite3LogEstAdd\<close>, \<^verbatim>\<open>sqlite3LogEst\<close>, \<^verbatim>\<open>sqlite3LogEstToInt\<close>. A function that updates
  \<open>*pA\<close> and returns a code is a function of the old value of \<open>*pA\<close> that returns the code and
  the new value; \<open>None\<close> is signed overflow, which C leaves undefined. Addition and
  subtraction are exact. Multiplication is exact except where both operands are below
  \<open>2\<^sup>3\<^sup>2\<close> in magnitude and the product leaves the range: there the code multiplies unchecked.
\<close>

section \<open>Checked arithmetic\<close>

definition sqlite3AddInt64 :: "int \<Rightarrow> int \<Rightarrow> (nat \<times> int) option" where
  "sqlite3AddInt64 iA iB = do {
     overflow \<leftarrow>
       (if iB \<ge> 0 then
          (if iA > 0 then do { d \<leftarrow> i64 (LARGEST_INT64 - iA); Some (d < iB) } else Some False)
        else
          (if iA < 0 then do {
             t \<leftarrow> i64 (iA + LARGEST_INT64);
             n \<leftarrow> i64 (- t);
             m \<leftarrow> i64 (iB + 1);
             Some (n > m)
           } else Some False));
     if overflow then Some (1, iA)
     else do { r \<leftarrow> i64 (iA + iB); Some (0, r) }
   }"

definition sqlite3SubInt64 :: "int \<Rightarrow> int \<Rightarrow> (nat \<times> int) option" where
  "sqlite3SubInt64 iA iB =
     (if iB = SMALLEST_INT64 then
        (if iA \<ge> 0 then Some (1, iA)
         else do { r \<leftarrow> i64 (iA - iB); Some (0, r) })
      else do { n \<leftarrow> i64 (- iB); sqlite3AddInt64 iA n })"

abbreviation TWOPOWER32 :: int where "TWOPOWER32 \<equiv> 4294967296"
abbreviation TWOPOWER31 :: int where "TWOPOWER31 \<equiv> 2147483648"

definition sqlite3MulInt64 :: "int \<Rightarrow> int \<Rightarrow> (nat \<times> int) option" where
  "sqlite3MulInt64 iA iB =
     (let iA1 = iA sdiv TWOPOWER32;
          iA0 = iA smod TWOPOWER32;
          iB1 = iB sdiv TWOPOWER32;
          iB0 = iB smod TWOPOWER32;
          finish = (\<lambda>r.
            if r < - TWOPOWER31 \<or> r \<ge> TWOPOWER31 then Some (1, iA)
            else do {
              r \<leftarrow> i64 (r * TWOPOWER32);
              m \<leftarrow> i64 (iA0 * iB0);
              (rc, r) \<leftarrow> sqlite3AddInt64 r m;
              if rc \<noteq> 0 then Some (1, iA) else Some (0, r)
            })
      in if iA1 = 0 then
           (if iB1 = 0 then do { r \<leftarrow> i64 (iA * iB); Some (0, r) }
            else do { r \<leftarrow> i64 (iA0 * iB1); finish r })
         else if iB1 = 0 then do { r \<leftarrow> i64 (iA1 * iB0); finish r }
         else Some (1, iA))"

definition sqlite3AbsInt32 :: "int \<Rightarrow> int" where
  "sqlite3AbsInt32 x =
     (if x \<ge> 0 then x else if x = - 2147483648 then 0x7fffffff else - x)"

section \<open>Logarithmic estimates\<close>

definition logEstAdd_x :: "int list" where
  "logEstAdd_x = [10, 10, 9, 9, 8, 8, 7, 7, 7, 6, 6, 6, 5, 5, 5, 4, 4, 4, 4,
     3, 3, 3, 3, 3, 3, 2, 2, 2, 2, 2, 2, 2]"

definition sqlite3LogEstAdd :: "int \<Rightarrow> int \<Rightarrow> int option" where
  "sqlite3LogEstAdd a b =
     (if a \<ge> b then
        (if a > b + 49 then Some a
         else if a > b + 31 then Some (a + 1)
         else do { x \<leftarrow> rd logEstAdd_x (nat (a - b)); Some (a + x) })
      else
        (if b > a + 49 then Some b
         else if b > a + 31 then Some (b + 1)
         else do { x \<leftarrow> rd logEstAdd_x (nat (b - a)); Some (b + x) }))"

fun logEst_up :: "nat \<Rightarrow> int \<Rightarrow> u64 \<Rightarrow> int \<times> u64" where
  "logEst_up 0 y x = (y, x)"
| "logEst_up (Suc k) y x = (if x < 8 then logEst_up k (y - 10) (push_bit 1 x) else (y, x))"

fun logEst_down4 :: "nat \<Rightarrow> int \<Rightarrow> u64 \<Rightarrow> int \<times> u64" where
  "logEst_down4 0 y x = (y, x)"
| "logEst_down4 (Suc k) y x = (if x > 255 then logEst_down4 k (y + 40) (drop_bit 4 x) else (y, x))"

fun logEst_down1 :: "nat \<Rightarrow> int \<Rightarrow> u64 \<Rightarrow> int \<times> u64" where
  "logEst_down1 0 y x = (y, x)"
| "logEst_down1 (Suc k) y x = (if x > 15 then logEst_down1 k (y + 10) (drop_bit 1 x) else (y, x))"

definition logEst_a :: "int list" where
  "logEst_a = [0, 2, 3, 5, 6, 7, 8, 9]"

definition sqlite3LogEst :: "u64 \<Rightarrow> int option" where
  "sqlite3LogEst x =
     (if x < 8 \<and> x < 2 then Some 0
      else do {
        let (y, x) = (if x < 8 then logEst_up 3 40 x
                      else (case logEst_down4 14 40 x of (y, x) \<Rightarrow> logEst_down1 4 y x));
        a \<leftarrow> rd logEst_a (unat (x AND 7));
        Some (a + y - 10)
      })"

definition sqlite3LogEstToInt :: "int \<Rightarrow> u64" where
  "sqlite3LogEstToInt x =
     (if x < 10 then 1
      else let n = (word_of_int (x smod 10) :: u64);
               x = x sdiv 10;
               n = (if n \<ge> 5 then n - 2 else if n \<ge> 1 then n - 1 else n)
           in if x \<ge> 3 then (if x > 60 then word_of_int LARGEST_INT64 else push_bit (nat (x - 3)) (n + 8))
              else drop_bit (nat (3 - x)) (n + 8))"

section \<open>Exactness\<close>

lemma sqlite3AddInt64_exact:
  assumes "i64_range a" and "i64_range b"
  shows "sqlite3AddInt64 a b = Some (if i64_range (a + b) then (0, a + b) else (1, a))"
  using assms by (auto simp: sqlite3AddInt64_def i64_def i64_range_def)

lemma sqlite3SubInt64_exact:
  assumes "i64_range a" and "i64_range b"
  shows "sqlite3SubInt64 a b = Some (if i64_range (a - b) then (0, a - b) else (1, a))"
  using assms
  by (auto simp: sqlite3SubInt64_def sqlite3AddInt64_exact i64_def i64_range_def)

text \<open>C's division splits an operand into two digits in base \<open>2\<^sup>3\<^sup>2\<close> of the operand's sign.\<close>

lemma split32:
  fixes a :: int
  assumes "i64_range a"
  defines "a1 \<equiv> a sdiv TWOPOWER32" and "a0 \<equiv> a smod TWOPOWER32"
  shows "a = a1 * TWOPOWER32 + a0" and "\<bar>a0\<bar> < TWOPOWER32" and "\<bar>a1\<bar> \<le> TWOPOWER31"
    and "a1 = 0 \<longleftrightarrow> \<bar>a\<bar> < TWOPOWER32" and "0 \<le> a * a1" and "0 \<le> a * a0"
proof -
  show "a = a1 * TWOPOWER32 + a0"
    unfolding a1_def a0_def by (rule sdiv_mult_smod_eq [symmetric])
  have d: "a1 = sgn a * (\<bar>a\<bar> div TWOPOWER32)" and m: "a0 = sgn a * (\<bar>a\<bar> mod TWOPOWER32)"
    by (simp_all add: a1_def a0_def signed_divide_int_def signed_modulo_int_def)
  show "\<bar>a0\<bar> < TWOPOWER32" by (cases "a = 0") (simp_all add: m abs_mult abs_sgn_eq)
  have "\<bar>a\<bar> \<le> 9223372036854775808" using assms(1) by (auto simp: i64_range_def)
  then have "\<bar>a\<bar> div TWOPOWER32 \<le> TWOPOWER31" by linarith
  then show "\<bar>a1\<bar> \<le> TWOPOWER31" by (cases "a = 0") (simp_all add: d abs_mult abs_sgn_eq)
  show "a1 = 0 \<longleftrightarrow> \<bar>a\<bar> < TWOPOWER32" by (auto simp: d sgn_if div_eq_0_iff)
  show "0 \<le> a * a1" "0 \<le> a * a0"
    by (simp_all add: d m sgn_if pos_imp_zdiv_nonneg_iff zero_le_mult_iff)
qed

text \<open>One operand fits a digit and the other has a non-zero high digit: the partial product
  \<open>r\<close> decides whether the whole product fits, and no intermediate value overflows.\<close>

lemma mul_core:
  fixes x y y1 y0 :: int
  assumes x: "\<bar>x\<bar> < TWOPOWER32" and y: "y = y1 * TWOPOWER32 + y0"
    and y0: "\<bar>y0\<bar> < TWOPOWER32" and y1: "y1 \<noteq> 0" "\<bar>y1\<bar> \<le> TWOPOWER31"
    and sgns: "0 \<le> y * y1" "0 \<le> y * y0"
  defines "r \<equiv> x * y1"
  shows "i64_range r"
    and "r < - TWOPOWER31 \<or> r \<ge> TWOPOWER31 \<Longrightarrow> \<not> i64_range (x * y)"
    and "- TWOPOWER31 \<le> r \<Longrightarrow> r < TWOPOWER31 \<Longrightarrow> i64_range (r * TWOPOWER32) \<and> i64_range (x * y0)"
    and "x * y = r * TWOPOWER32 + x * y0"
proof -
  show eq: "x * y = r * TWOPOWER32 + x * y0" by (simp add: y r_def algebra_simps)
  have "\<bar>r\<bar> \<le> (TWOPOWER32 - 1) * TWOPOWER31"
    unfolding r_def abs_mult using x y1 by (intro mult_mono) auto
  then show "i64_range r" by (auto simp: i64_range_def)
  have same: "0 \<le> r * (x * y0)"
  proof -
    have "y \<noteq> 0" using y y0 y1(1) by (cases "0 < y1") auto
    then have "0 \<le> y1 * y0" using sgns by (auto simp: zero_le_mult_iff)
    then have "0 \<le> (x * x) * (y1 * y0)" by (rule mult_nonneg_nonneg [OF zero_le_square])
    then show ?thesis by (simp add: r_def algebra_simps)
  qed
  show "\<not> i64_range (x * y)" if "r < - TWOPOWER31 \<or> r \<ge> TWOPOWER31"
  proof -
    define w where "w = x * y0"
    have "x * y = r * TWOPOWER32 + w" "0 \<le> r * w" using eq same by (simp_all add: w_def)
    then show ?thesis using that by (auto simp: i64_range_def zero_le_mult_iff)
  qed
  show "i64_range (r * TWOPOWER32) \<and> i64_range (x * y0)" if "- TWOPOWER31 \<le> r" "r < TWOPOWER31"
  proof -
    have "\<bar>x\<bar> * 1 \<le> \<bar>x\<bar> * \<bar>y1\<bar>" using y1(1) by (intro mult_left_mono) auto
    then have "\<bar>x\<bar> \<le> TWOPOWER31" using that by (simp add: r_def flip: abs_mult)
    then have "\<bar>x * y0\<bar> \<le> TWOPOWER31 * (TWOPOWER32 - 1)"
      unfolding abs_mult using y0 by (intro mult_mono) auto
    then show ?thesis using that by (auto simp: i64_range_def)
  qed
qed

lemma mul_both_large:
  assumes "TWOPOWER32 \<le> \<bar>a\<bar>" and "TWOPOWER32 \<le> \<bar>b\<bar>"
  shows "\<not> i64_range (a * b)"
proof -
  have "TWOPOWER32 * TWOPOWER32 \<le> \<bar>a\<bar> * \<bar>b\<bar>" using assms by (intro mult_mono) auto
  then have "TWOPOWER32 * TWOPOWER32 \<le> \<bar>a * b\<bar>" by (simp add: abs_mult)
  then show ?thesis by (auto simp: i64_range_def)
qed

lemma sqlite3MulInt64_eq:
  assumes "i64_range a" and "i64_range b"
  shows "sqlite3MulInt64 a b =
    (if \<bar>a\<bar> < TWOPOWER32 \<and> \<bar>b\<bar> < TWOPOWER32 then
       (if i64_range (a * b) then Some (0, a * b) else None)
     else Some (if i64_range (a * b) then (0, a * b) else (1, a)))"
proof -
  note A = split32 [OF assms(1)] and B = split32 [OF assms(2)]
  define a1 a0 b1 b0 where "a1 = a sdiv TWOPOWER32" and "a0 = a smod TWOPOWER32"
    and "b1 = b sdiv TWOPOWER32" and "b0 = b smod TWOPOWER32"
  note A = A [folded a1_def a0_def] and B = B [folded b1_def b0_def]
  note defs = a1_def [symmetric] a0_def [symmetric] b1_def [symmetric] b0_def [symmetric]
  show ?thesis
  proof (cases "a1 = 0")
    case a: True
    show ?thesis
    proof (cases "b1 = 0")
      case True
      then show ?thesis
        using a A(4) B(4) by (simp add: sqlite3MulInt64_def defs i64_def)
    next
      case False
      have a0: "a0 = a" using A(1) a by simp
      note M = mul_core [OF _ B(1,2) False B(3,5,6), of a]
      show ?thesis
        using a False A(4) B(4) M a0
        by (auto simp: sqlite3MulInt64_def defs Let_def sqlite3AddInt64_exact)
    qed
  next
    case a: False
    show ?thesis
    proof (cases "b1 = 0")
      case True
      have b0: "b0 = b" using B(1) True by simp
      note M = mul_core [OF _ A(1,2) a A(3,5,6), of b]
      show ?thesis
        using a True A(4) B(4) M b0
        by (auto simp: sqlite3MulInt64_def defs Let_def sqlite3AddInt64_exact mult.commute)
    next
      case False
      then show ?thesis
        using a A(4) B(4) mul_both_large [of a b]
        by (simp add: sqlite3MulInt64_def defs Let_def)
    qed
  qed
qed

section \<open>Logarithmic estimates: bounds\<close>

lemma logEstAdd_entry: "k < 32 \<Longrightarrow> \<exists>x. rd logEstAdd_x k = Some x \<and> 2 \<le> x \<and> x \<le> 10"
proof -
  assume "k < 32"
  have "\<forall>k < 32. 2 \<le> logEstAdd_x ! k \<and> logEstAdd_x ! k \<le> 10"
    unfolding logEstAdd_x_def by code_simp
  moreover have "length logEstAdd_x = 32" by (simp add: logEstAdd_x_def)
  ultimately show ?thesis using \<open>k < 32\<close> by simp
qed

lemma sqlite3LogEstAdd_bounds:
  "\<exists>r. sqlite3LogEstAdd a b = Some r \<and> max a b \<le> r \<and> r \<le> max a b + 10"
proof (cases "a \<ge> b")
  case True
  then show ?thesis
    using logEstAdd_entry [of "nat (a - b)"]
    by (cases "a > b + 31"; cases "nat (a - b) < 32") (auto simp: sqlite3LogEstAdd_def)
next
  case False
  then show ?thesis
    using logEstAdd_entry [of "nat (b - a)"]
    by (cases "b > a + 31"; cases "nat (b - a) < 32") (auto simp: sqlite3LogEstAdd_def)
qed

text \<open>The normalising loops leave a mantissa between 8 and 15, so the table index is in range
  and the fuel (the number of iterations a 64-bit argument can take) is never exhausted.\<close>

lemma unat_drop_bit_div: "unat (drop_bit k (x :: u64)) = unat x div 2 ^ k"
  by (subst unat_drop_bit_eq) (simp add: drop_bit_eq_div)

lemma div_pow_add: "(n :: nat) div 2 ^ s div 2 ^ t = n div 2 ^ (s + t)"
  by (simp add: power_add div_mult2_eq)

lemma logEst_down4_spec:
  "8 \<le> unat x \<Longrightarrow> unat x < 256 * 16 ^ k \<Longrightarrow> \<exists>s x'. logEst_down4 k y x = (y + 10 * int s, x') \<and>
     unat x' = unat x div 2 ^ s \<and> 8 \<le> unat x' \<and> unat x' < 256"
proof (induction k arbitrary: x y)
  case 0
  then show ?case by (auto intro: exI [of _ 0])
next
  case (Suc k)
  show ?case
  proof (cases "x > 255")
    case True
    have u: "unat (drop_bit 4 x) = unat x div 2 ^ 4" by (rule unat_drop_bit_div)
    have "8 \<le> unat (drop_bit 4 x)" "unat (drop_bit 4 x) < 256 * 16 ^ k"
      using Suc.prems True u by (auto simp: word_less_nat_alt intro!: less_mult_imp_div_less)
    then obtain s x' where "logEst_down4 k (y + 40) (drop_bit 4 x) = (y + 40 + 10 * int s, x')"
      "unat x' = unat (drop_bit 4 x) div 2 ^ s" "8 \<le> unat x'" "unat x' < 256"
      using Suc.IH [of "drop_bit 4 x" "y + 40"] by blast
    then show ?thesis
      using True u by (intro exI [of _ "4 + s"]) (simp add: power_add div_mult2_eq)
  next
    case False
    then show ?thesis
      using Suc.prems by (auto simp: word_less_nat_alt intro: exI [of _ 0])
  qed
qed

lemma logEst_down1_spec:
  "8 \<le> unat x \<Longrightarrow> unat x < 16 * 2 ^ k \<Longrightarrow> \<exists>s x'. logEst_down1 k y x = (y + 10 * int s, x') \<and>
     unat x' = unat x div 2 ^ s \<and> 8 \<le> unat x' \<and> unat x' < 16"
proof (induction k arbitrary: x y)
  case 0
  then show ?case by (auto intro: exI [of _ 0])
next
  case (Suc k)
  show ?case
  proof (cases "x > 15")
    case True
    have u: "unat (drop_bit 1 x) = unat x div 2 ^ 1" by (rule unat_drop_bit_div)
    have "8 \<le> unat (drop_bit 1 x)" "unat (drop_bit 1 x) < 16 * 2 ^ k"
      using Suc.prems True u by (auto simp: word_less_nat_alt intro!: less_mult_imp_div_less)
    then obtain s x' where "logEst_down1 k (y + 10) (drop_bit 1 x) = (y + 10 + 10 * int s, x')"
      "unat x' = unat (drop_bit 1 x) div 2 ^ s" "8 \<le> unat x'" "unat x' < 16"
      using Suc.IH [of "drop_bit 1 x" "y + 10"] by blast
    then show ?thesis
      using True u by (intro exI [of _ "1 + s"]) (simp add: div_mult2_eq)
  next
    case False
    then show ?thesis
      using Suc.prems by (auto simp: word_less_nat_alt intro: exI [of _ 0])
  qed
qed

lemma logEst_a_entry: "\<exists>a. rd logEst_a (unat ((m :: u64) AND 7)) = Some a \<and> 0 \<le> a \<and> a < 10"
proof -
  have "unat (m AND 7) < 8"
    using word_and_le1 [of m 7] by (simp add: word_le_nat_alt)
  moreover have "\<forall>k < 8. 0 \<le> logEst_a ! k \<and> logEst_a ! k < 10"
    unfolding logEst_a_def by code_simp
  ultimately show ?thesis by (simp add: logEst_a_def)
qed

lemma logEst_floor_log2:
  assumes "unat x div 2 ^ s = m" and "8 \<le> m" and "m < 16"
  shows "2 ^ (s + 3) \<le> unat x" and "unat x < 2 ^ (s + 4)"
  using assms by (auto simp: power_add less_mult_imp_div_less div_le_dividend)
    (metis less_eq_div_iff_mult_less_eq mult.commute zero_less_numeral zero_less_power,
     metis div_less_iff_less_mult mult.commute zero_less_numeral zero_less_power)

lemma sqlite3LogEst_large:
  assumes "8 \<le> unat x"
  shows "\<exists>s a. sqlite3LogEst x = Some (10 * int (s + 3) + a) \<and> 0 \<le> a \<and> a < 10 \<and>
    2 ^ (s + 3) \<le> unat x \<and> unat x < 2 ^ (s + 4)"
proof -
  have "unat x < 2 ^ 64" by (rule order_less_le_trans [OF unsigned_less]) simp
  then obtain s x' where 1: "logEst_down4 14 40 x = (40 + 10 * int s, x')"
      "unat x' = unat x div 2 ^ s" "8 \<le> unat x'" "unat x' < 256"
    using logEst_down4_spec [OF assms, of 14 40] by auto
  obtain t x'' where 2: "logEst_down1 4 (40 + 10 * int s) x' = (40 + 10 * int s + 10 * int t, x'')"
      "unat x'' = unat x' div 2 ^ t" "8 \<le> unat x''" "unat x'' < 16"
    using logEst_down1_spec [OF 1(3), of 4 "40 + 10 * int s"] 1(4) by auto
  obtain a where a: "rd logEst_a (unat (x'' AND 7)) = Some a" "0 \<le> a" "a < 10"
    using logEst_a_entry by blast
  have "unat x div 2 ^ (s + t) = unat x''" by (simp add: 1(2) 2(2) div_pow_add)
  note L = logEst_floor_log2 [OF this 2(3,4)]
  have "sqlite3LogEst x = Some (10 * int (s + t + 3) + a)"
    using assms a(1) 1(1) 2(1) by (simp add: sqlite3LogEst_def word_less_nat_alt)
  with a(2,3) L show ?thesis by blast
qed

lemma sqlite3LogEst_small:
  "map sqlite3LogEst [1, 2, 3, 4, 5, 6, 7] = map Some [0, 10, 16, 20, 23, 26, 28]"
  by code_simp

section \<open>Properties\<close>

text \<open>On 64-bit operands addition and subtraction compute the exact result whenever it is
  representable and otherwise return 1 and leave the target unchanged; the checks themselves never
  overflow.\<close>

lemma sqlite3AddSubInt64_exact:
  assumes "i64_range a" and "i64_range b"
  shows "sqlite3AddInt64 a b = Some (if i64_range (a + b) then (0, a + b) else (1, a)) \<and>
    sqlite3SubInt64 a b = Some (if i64_range (a - b) then (0, a - b) else (1, a))"
  using assms by (simp add: sqlite3AddInt64_exact sqlite3SubInt64_exact)

text \<open>C31. Multiplication is exact, with the same overflow report, whenever one of the operands
  has magnitude at least \<open>2\<^sup>3\<^sup>2\<close>. When both are smaller the product is computed
  without a check: representable products are right, and for all others the C code
  overflows a signed integer.\<close>

theorem sqlite3MulInt64_characterised:
  assumes "i64_range a" and "i64_range b"
  shows "sqlite3MulInt64 a b =
    (if \<bar>a\<bar> < TWOPOWER32 \<and> \<bar>b\<bar> < TWOPOWER32 then
       (if i64_range (a * b) then Some (0, a * b) else None)
     else Some (if i64_range (a * b) then (0, a * b) else (1, a)))"
  using assms by (rule sqlite3MulInt64_eq)

theorem sqlite3MulInt64_characterised_witness:
  "sqlite3MulInt64 4294967296 (- 2147483648) = Some (0, SMALLEST_INT64) \<and>
   sqlite3MulInt64 4294967295 4294967295 = None"
  using sqlite3MulInt64_characterised [of 4294967296 "- 2147483648"]
    sqlite3MulInt64_characterised [of 4294967295 4294967295]
  by (simp add: i64_range_def)

text \<open>For every positive 64-bit argument the logarithmic estimate is defined, and its integer
  part (the estimate divided by ten) is the exact binary logarithm rounded down.\<close>

lemma sqlite3LogEst_floor_log2:
  assumes "x \<noteq> 0"
  shows "\<exists>r. sqlite3LogEst x = Some r \<and> 0 \<le> r \<and>
    2 ^ nat (r div 10) \<le> unat x \<and> unat x < 2 ^ (nat (r div 10) + 1)"
proof (cases "8 \<le> unat x")
  case True
  then obtain s a where "sqlite3LogEst x = Some (10 * int (s + 3) + a)" "0 \<le> a" "a < 10"
      "2 ^ (s + 3) \<le> unat x" "unat x < 2 ^ (s + 4)"
    using sqlite3LogEst_large by blast
  moreover from this have "(10 * int (s + 3) + a) div 10 = int (s + 3)" by simp
  ultimately show ?thesis by (simp add: nat_add_distrib power_add)
next
  case False
  then have "unat x \<in> {1, 2, 3, 4, 5, 6, 7}"
  proof -
    have "unat x < 8" "unat x \<noteq> 0" using False assms by (simp_all add: unat_eq_0)
    then have "unat x = 1 \<or> unat x = 2 \<or> unat x = 3 \<or> unat x = 4 \<or> unat x = 5 \<or> unat x = 6 \<or> unat x = 7"
      by presburger
    then show ?thesis by auto
  qed
  then have "x \<in> {1, 2, 3, 4, 5, 6, 7}"
    by (auto simp: word_unat_eq_iff)
  then show ?thesis using sqlite3LogEst_small by auto
qed

end
