(* ===== verification/Utf.thy ===== *)
theory Utf
  imports Sqlite_Prelude
begin

text \<open>
  Character encodings (\<^verbatim>\<open>utf.c\<close>): the macros that read and write one character in UTF-8 and in
  both byte orders of UTF-16, \<^verbatim>\<open>sqlite3Utf8Read\<close>, \<^verbatim>\<open>sqlite3Utf8CharLen\<close>,
  \<^verbatim>\<open>sqlite3Utf16ByteLen\<close> and the conversion loops of \<^verbatim>\<open>sqlite3VdbeMemTranslate\<close>. A pointer
  that is advanced is the list of the bytes from it to the end of its object; \<open>None\<close> is a read
  past that end. The theorems are the source's own self-test turned into statements about
  all characters, and that the translation never overflows the output buffer it allocates.
\<close>

section \<open>Writing one character\<close>

definition sqlite3Utf8Trans1 :: "u8 list" where
  "sqlite3Utf8Trans1 = [
  0x00, 0x01, 0x02, 0x03, 0x04, 0x05, 0x06, 0x07,
  0x08, 0x09, 0x0a, 0x0b, 0x0c, 0x0d, 0x0e, 0x0f,
  0x10, 0x11, 0x12, 0x13, 0x14, 0x15, 0x16, 0x17,
  0x18, 0x19, 0x1a, 0x1b, 0x1c, 0x1d, 0x1e, 0x1f,
  0x00, 0x01, 0x02, 0x03, 0x04, 0x05, 0x06, 0x07,
  0x08, 0x09, 0x0a, 0x0b, 0x0c, 0x0d, 0x0e, 0x0f,
  0x00, 0x01, 0x02, 0x03, 0x04, 0x05, 0x06, 0x07,
  0x00, 0x01, 0x02, 0x03, 0x00, 0x01, 0x00, 0x00]"

definition WRITE_UTF8 :: "u32 \<Rightarrow> u8 list" where
  "WRITE_UTF8 c =
     (if c < 0x00080 then [ucast (c AND 0xFF)]
      else if c < 0x00800 then
        [0xC0 + ucast (drop_bit 6 c AND 0x1F), 0x80 + ucast (c AND 0x3F)]
      else if c < 0x10000 then
        [0xE0 + ucast (drop_bit 12 c AND 0x0F), 0x80 + ucast (drop_bit 6 c AND 0x3F),
         0x80 + ucast (c AND 0x3F)]
      else
        [0xF0 + ucast (drop_bit 18 c AND 0x07), 0x80 + ucast (drop_bit 12 c AND 0x3F),
         0x80 + ucast (drop_bit 6 c AND 0x3F), 0x80 + ucast (c AND 0x3F)])"

definition WRITE_UTF16LE :: "u32 \<Rightarrow> u8 list" where
  "WRITE_UTF16LE c =
     (if c \<le> 0xFFFF then [ucast (c AND 0x00FF), ucast (drop_bit 8 c AND 0x00FF)]
      else
        [ucast ((drop_bit 10 c AND 0x003F) + (drop_bit 10 (c - 0x10000) AND 0x00C0)),
         ucast (0x00D8 + (drop_bit 18 (c - 0x10000) AND 0x03)),
         ucast (c AND 0x00FF),
         ucast (0x00DC + (drop_bit 8 c AND 0x03))])"

definition WRITE_UTF16BE :: "u32 \<Rightarrow> u8 list" where
  "WRITE_UTF16BE c =
     (if c \<le> 0xFFFF then [ucast (drop_bit 8 c AND 0x00FF), ucast (c AND 0x00FF)]
      else
        [ucast (0x00D8 + (drop_bit 18 (c - 0x10000) AND 0x03)),
         ucast ((drop_bit 10 c AND 0x003F) + (drop_bit 10 (c - 0x10000) AND 0x00C0)),
         ucast (0x00DC + (drop_bit 8 c AND 0x03)),
         ucast (c AND 0x00FF)])"

section \<open>Reading one character\<close>

definition surrogate_pair :: "u32 \<Rightarrow> u32 \<Rightarrow> u32" where
  "surrogate_pair c c2 =
     (c2 AND 0x03FF) + push_bit 10 (c AND 0x003F) + push_bit 10 ((c AND 0x03C0) + 0x0040)"

fun READ_UTF16LE :: "(u8 list \<Rightarrow> bool) \<Rightarrow> u8 list \<Rightarrow> (u32 \<times> u8 list) option" where
  "READ_UTF16LE more (b0 # b1 # zIn) =
     (let c = ucast b0 + push_bit 8 (ucast b1) in
      if c \<ge> 0xD800 \<and> c < 0xE000 \<and> more zIn then
        (case zIn of
           b2 # b3 # zIn \<Rightarrow> Some (surrogate_pair c (ucast b2 + push_bit 8 (ucast b3)), zIn)
         | _ \<Rightarrow> None)
      else Some (c, zIn))"
| "READ_UTF16LE more _ = None"

fun READ_UTF16BE :: "(u8 list \<Rightarrow> bool) \<Rightarrow> u8 list \<Rightarrow> (u32 \<times> u8 list) option" where
  "READ_UTF16BE more (b0 # b1 # zIn) =
     (let c = push_bit 8 (ucast b0) + ucast b1 in
      if c \<ge> 0xD800 \<and> c < 0xE000 \<and> more zIn then
        (case zIn of
           b2 # b3 # zIn \<Rightarrow> Some (surrogate_pair c (push_bit 8 (ucast b2) + ucast b3), zIn)
         | _ \<Rightarrow> None)
      else Some (c, zIn))"
| "READ_UTF16BE more _ = None"

definition utf8_check :: "u32 \<Rightarrow> u32" where
  "utf8_check c =
     (if c < 0x80 \<or> c AND 0xFFFFF800 = 0xD800 \<or> c AND 0xFFFFFFFE = 0xFFFE then 0xFFFD else c)"

fun read_utf8_tail :: "u32 \<Rightarrow> u8 list \<Rightarrow> u32 \<times> u8 list" where
  "read_utf8_tail c [] = (c, [])"
| "read_utf8_tail c (b # zIn) =
     (if b AND 0xc0 = 0x80 then read_utf8_tail (push_bit 6 c + (0x3f AND ucast b)) zIn
      else (c, b # zIn))"

fun READ_UTF8 :: "u8 list \<Rightarrow> (u32 \<times> u8 list) option" where
  "READ_UTF8 [] = None"
| "READ_UTF8 (b # zIn) =
     (if b \<ge> 0xc0 then do {
        t \<leftarrow> rd sqlite3Utf8Trans1 (unat (b - 0xc0));
        let (c, zIn) = read_utf8_tail (ucast t) zIn;
        Some (utf8_check c, zIn)
      } else Some (ucast b, zIn))"

fun utf8Read_tail :: "u32 \<Rightarrow> u8 list \<Rightarrow> (u32 \<times> u8 list) option" where
  "utf8Read_tail c [] = None"
| "utf8Read_tail c (b # pz) =
     (if b AND 0xc0 = 0x80 then utf8Read_tail (push_bit 6 c + (0x3f AND ucast b)) pz
      else Some (c, b # pz))"

fun sqlite3Utf8Read :: "u8 list \<Rightarrow> (u32 \<times> u8 list) option" where
  "sqlite3Utf8Read [] = None"
| "sqlite3Utf8Read (b # pz) =
     (if b \<ge> 0xc0 then do {
        t \<leftarrow> rd sqlite3Utf8Trans1 (unat (b - 0xc0));
        (c, pz) \<leftarrow> utf8Read_tail (ucast t) pz;
        Some (utf8_check c, pz)
      } else Some (ucast b, pz))"

section \<open>Lengths\<close>

fun skip_utf8_tail :: "u8 list \<Rightarrow> u8 list option" where
  "skip_utf8_tail [] = None"
| "skip_utf8_tail (b # z) = (if b AND 0xc0 = 0x80 then skip_utf8_tail z else Some (b # z))"

fun SQLITE_SKIP_UTF8 :: "u8 list \<Rightarrow> u8 list option" where
  "SQLITE_SKIP_UTF8 [] = None"
| "SQLITE_SKIP_UTF8 (b # z) = (if b \<ge> 0xc0 then skip_utf8_tail z else Some z)"

text \<open>\<open>limit\<close> is the distance from \<open>z\<close> to \<open>zTerm\<close>, \<open>None\<close> when \<open>nByte\<close> is negative;
  every round consumes at least one byte of the object.\<close>

fun utf8CharLen_loop :: "nat \<Rightarrow> int option \<Rightarrow> nat \<Rightarrow> u8 list \<Rightarrow> nat option" where
  "utf8CharLen_loop 0 limit r z = None"
| "utf8CharLen_loop (Suc fuel) limit r z = do {
     b \<leftarrow> rd z 0;
     if b \<noteq> 0 \<and> (case limit of None \<Rightarrow> True | Some k \<Rightarrow> 0 < k) then do {
       z' \<leftarrow> SQLITE_SKIP_UTF8 z;
       utf8CharLen_loop fuel (map_option (\<lambda>k. k - int (length z - length z')) limit) (r + 1) z'
     } else Some r
   }"

definition sqlite3Utf8CharLen :: "u8 list \<Rightarrow> int \<Rightarrow> nat option" where
  "sqlite3Utf8CharLen zIn nByte =
     utf8CharLen_loop (length zIn + 1) (if nByte \<ge> 0 then Some nByte else None) 0 zIn"

fun utf16ByteLen_loop :: "bool \<Rightarrow> nat \<Rightarrow> u8 list \<Rightarrow> u8 list option" where
  "utf16ByteLen_loop be 0 z = Some z"
| "utf16ByteLen_loop be (Suc n) z = do {
     (c, z) \<leftarrow> (if be then READ_UTF16BE (\<lambda>_. True) z else READ_UTF16LE (\<lambda>_. True) z);
     utf16ByteLen_loop be n z
   }"

definition sqlite3Utf16ByteLen :: "bool \<Rightarrow> u8 list \<Rightarrow> nat \<Rightarrow> nat option" where
  "sqlite3Utf16ByteLen native_be zIn nChar = do {
     z \<leftarrow> utf16ByteLen_loop native_be nChar zIn;
     Some (length zIn - length z)
   }"

section \<open>The conversion loops\<close>

lemma read_utf8_tail_length: "length (snd (read_utf8_tail c z)) \<le> length z"
  by (induction z arbitrary: c) (auto simp: le_Suc_eq)

lemma READ_UTF8_length: "READ_UTF8 z = Some (c, z') \<Longrightarrow> length z' < length z"
  using read_utf8_tail_length
  by (cases z) (auto split: if_splits prod.splits Option.bind_splits simp: less_Suc_eq_le Let_def,
      metis snd_conv)

lemma READ_UTF16_length:
  "READ_UTF16LE more z = Some (c, z') \<Longrightarrow> length z' < length z"
  "READ_UTF16BE more z = Some (c, z') \<Longrightarrow> length z' < length z"
  by (induction more z rule: READ_UTF16LE.induct) (auto simp: Let_def split: if_splits list.splits)

function utf8_to_utf16 :: "bool \<Rightarrow> u8 list \<Rightarrow> u8 list option" where
  "utf8_to_utf16 be zIn =
     (if zIn = [] then Some []
      else case READ_UTF8 zIn of
        None \<Rightarrow> None
      | Some (c, zIn') \<Rightarrow>
          map_option ((@) (if be then WRITE_UTF16BE c else WRITE_UTF16LE c)) (utf8_to_utf16 be zIn'))"
  by pat_completeness auto
termination
  by (relation "measure (length \<circ> snd)") (auto dest: READ_UTF8_length)

function utf16_to_utf8 :: "bool \<Rightarrow> u8 list \<Rightarrow> u8 list option" where
  "utf16_to_utf8 be zIn =
     (if zIn = [] then Some []
      else case (if be then READ_UTF16BE (\<lambda>z. z \<noteq> []) zIn else READ_UTF16LE (\<lambda>z. z \<noteq> []) zIn) of
        None \<Rightarrow> None
      | Some (c, zIn') \<Rightarrow> map_option ((@) (WRITE_UTF8 c)) (utf16_to_utf8 be zIn'))"
  by pat_completeness auto
termination
  by (relation "measure (length \<circ> snd)") (auto dest: READ_UTF16_length split: if_splits)

declare utf8_to_utf16.simps [simp del] utf16_to_utf8.simps [simp del]

fun swap_bytes :: "u8 list \<Rightarrow> u8 list" where
  "swap_bytes (a # b # z) = b # a # swap_bytes z"
| "swap_bytes z = z"

section \<open>Lemmas on bytes and flags\<close>

lemma cont_byte_iff: "(b :: u8) AND 0xc0 = 0x80 \<longleftrightarrow> bit b 7 \<and> \<not> bit b 6"
  by (rule u8_all [of "\<lambda>b. b AND 0xc0 = 0x80 \<longleftrightarrow> bit b 7 \<and> \<not> bit b 6"]) code_simp

lemma lead_byte_iff: "(b :: u8) \<ge> 0xc0 \<longleftrightarrow> bit b 7 \<and> bit b 6"
  by (rule u8_all [of "\<lambda>b. b \<ge> 0xc0 \<longleftrightarrow> bit b 7 \<and> bit b 6"]) code_simp

definition trans1 :: "u8 \<Rightarrow> u8" where
  "trans1 b = (if \<not> bit b 5 then b AND 0x1f else if \<not> bit b 4 then b AND 0x0f
     else if \<not> bit b 3 then b AND 0x07 else if \<not> bit b 2 then b AND 0x03
     else if \<not> bit b 1 then b AND 0x01 else 0)"

lemma trans1_table:
  "bit b 7 \<and> bit b 6 \<longrightarrow> rd sqlite3Utf8Trans1 (unat (b - 0xc0)) = Some (trans1 b)"
  by (rule u8_all [of "\<lambda>b. bit b 7 \<and> bit b 6 \<longrightarrow> rd sqlite3Utf8Trans1 (unat (b - 0xc0)) = Some (trans1 b)"])
    code_simp

lemma add_6bits: "push_bit 6 c + (0x3f AND x) = push_bit 6 (c :: u32) OR (0x3f AND x)"
proof (rule disjunctive_add)
  fix n
  have "bit (0x3f :: u32) n \<longleftrightarrow> n < 6"
    using bit_mask_iff [of 6 n, where 'a = u32] by (auto simp: mask_eq_exp_minus_1 possible_bit_def)
  then show "\<not> bit (push_bit 6 c) n \<or> \<not> bit (0x3f AND x) n"
    by (auto simp: bit_simps)
qed

lemma add_const_or:
  "0xC0 + ucast (x AND 0x1F) = (0xC0 OR ucast (x AND 0x1F) :: u8)"
  "0xE0 + ucast (x AND 0x0F) = (0xE0 OR ucast (x AND 0x0F) :: u8)"
  "0xF0 + ucast (x AND 0x07) = (0xF0 OR ucast (x AND 0x07) :: u8)"
  "0x80 + ucast (x AND 0x3F) = (0x80 OR ucast (x AND 0x3F) :: u8)" for x :: u32
proof -
  have *: "n < 8 \<longleftrightarrow> n \<in> {0, 1, 2, 3, 4, 5, 6, 7}" for n :: nat by auto
  have 1: "\<not> bit (0xC0 :: u8) n \<or> \<not> bit (ucast (x AND 0x1F) :: u8) n" for n
    by (cases "n < 8") (auto simp: * bit_simps)
  have 2: "\<not> bit (0xE0 :: u8) n \<or> \<not> bit (ucast (x AND 0x0F) :: u8) n" for n
    by (cases "n < 8") (auto simp: * bit_simps)
  have 3: "\<not> bit (0xF0 :: u8) n \<or> \<not> bit (ucast (x AND 0x07) :: u8) n" for n
    by (cases "n < 8") (auto simp: * bit_simps)
  have 4: "\<not> bit (0x80 :: u8) n \<or> \<not> bit (ucast (x AND 0x3F) :: u8) n" for n
    by (cases "n < 8") (auto simp: * bit_simps)
  show "0xC0 + ucast (x AND 0x1F) = (0xC0 OR ucast (x AND 0x1F) :: u8)"
    "0xE0 + ucast (x AND 0x0F) = (0xE0 OR ucast (x AND 0x0F) :: u8)"
    "0xF0 + ucast (x AND 0x07) = (0xF0 OR ucast (x AND 0x07) :: u8)"
    "0x80 + ucast (x AND 0x3F) = (0x80 OR ucast (x AND 0x3F) :: u8)"
    using 1 2 3 4 by (auto intro!: disjunctive_add)
qed

lemma bit_ge_uint: "uint x < 2 ^ n \<Longrightarrow> n \<le> k \<Longrightarrow> bit (x :: 'a::len word) k = False"
proof -
  assume "uint x < 2 ^ n" and "n \<le> k"
  then have "x AND mask n = x" by (simp add: mask_eq_iff)
  then have "bit x k = bit (x AND mask n) k" by simp
  then show ?thesis using \<open>n \<le> k\<close> by (simp add: bit_simps)
qed

lemma surrogate_mask_iff: "c AND 0xFFFFF800 = (0xD800 :: u32) \<longleftrightarrow> 0xD800 \<le> c \<and> c < 0xE000"
proof -
  have 1: "c AND 0xFFFFF800 = push_bit 11 (drop_bit 11 c)"
    by (rule u32_eqI) (simp add: bit_simps)
  have 2: "drop_bit 11 (push_bit 11 (drop_bit 11 c)) = drop_bit 11 c"
    by (rule u32_eqI) (simp add: bit_simps)
  have "c AND 0xFFFFF800 = 0xD800 \<longleftrightarrow> drop_bit 11 c = 0x1B"
  proof
    assume "c AND 0xFFFFF800 = 0xD800"
    then have "drop_bit 11 (push_bit 11 (drop_bit 11 c)) = drop_bit 11 (0xD800 :: u32)" by (simp only: 1)
    then show "drop_bit 11 c = 0x1B" by (simp only: 2) simp
  qed (simp add: 1)
  also have "\<dots> \<longleftrightarrow> unat c div 2048 = 27"
    by (subst word_unat_eq_iff, subst unat_drop_bit_eq) (simp add: drop_bit_eq_div)
  also have "\<dots> \<longleftrightarrow> 55296 \<le> unat c \<and> unat c < 57344" by auto
  also have "\<dots> \<longleftrightarrow> 0xD800 \<le> c \<and> c < 0xE000"
    by (simp add: word_le_nat_alt word_less_nat_alt)
  finally show ?thesis .
qed

section \<open>UTF-8\<close>

lemma utf8Read_lead:
  "bit b 7 \<Longrightarrow> bit b 6 \<Longrightarrow> sqlite3Utf8Read (b # pz) =
     do { (c, pz) \<leftarrow> utf8Read_tail (ucast (trans1 b)) pz; Some (utf8_check c, pz) }"
  using trans1_table [of b] by (simp add: lead_byte_iff)

lemma utf8Read_cont:
  "bit b 7 \<Longrightarrow> \<not> bit b 6 \<Longrightarrow>
   utf8Read_tail c (b # pz) = utf8Read_tail (push_bit 6 c OR (0x3f AND ucast b)) pz"
  by (simp add: cont_byte_iff add_6bits)

lemma utf8Read_stop: "b AND 0xc0 \<noteq> 0x80 \<Longrightarrow> utf8Read_tail c (b # pz) = Some (c, b # pz)"
  by simp

lemma utf8_cont_bits: "bit (0x80 OR ucast (x AND 0x3F) :: u8) 7"
  "\<not> bit (0x80 OR ucast ((x :: u32) AND 0x3F) :: u8) 6"
  by (simp_all add: bit_simps)

lemma utf8_read_2:
  assumes "uint (c :: u32) < 2 ^ 11" "b AND 0xc0 \<noteq> (0x80 :: u8)"
  shows "sqlite3Utf8Read ([0xC0 OR ucast (drop_bit 6 c AND 0x1F), 0x80 OR ucast (c AND 0x3F)] @ b # r)
    = Some (utf8_check c, b # r)"
proof -
  define b0 b1 :: u8 where "b0 = 0xC0 OR ucast (drop_bit 6 c AND 0x1F)" and "b1 = 0x80 OR ucast (c AND 0x3F)"
  have b0: "bit b0 7" "bit b0 6" "trans1 b0 = b0 AND 0x1f"
    by (simp_all add: b0_def trans1_def bit_simps)
  note b1 = utf8_cont_bits [of c, folded b1_def]
  have "push_bit 6 (ucast (b0 AND 0x1f)) OR (0x3f AND ucast b1) = c"
    unfolding b0_def b1_def by (rule u32_eqI) (simp add: bit_simps bit_ge_uint [OF assms(1)])
  then show ?thesis
    using assms(2) unfolding b0_def [symmetric] b1_def [symmetric] append_Cons append_Nil
    by (simp only: utf8Read_lead [OF b0(1,2)] b0(3) utf8Read_cont [OF b1] utf8Read_stop) simp
qed

lemma utf8_read_3:
  assumes "uint (c :: u32) < 2 ^ 16" "b AND 0xc0 \<noteq> (0x80 :: u8)"
  shows "sqlite3Utf8Read ([0xE0 OR ucast (drop_bit 12 c AND 0x0F), 0x80 OR ucast (drop_bit 6 c AND 0x3F),
      0x80 OR ucast (c AND 0x3F)] @ b # r) = Some (utf8_check c, b # r)"
proof -
  define b0 b1 b2 :: u8 where "b0 = 0xE0 OR ucast (drop_bit 12 c AND 0x0F)"
    and "b1 = 0x80 OR ucast (drop_bit 6 c AND 0x3F)" and "b2 = 0x80 OR ucast (c AND 0x3F)"
  have b0: "bit b0 7" "bit b0 6" "trans1 b0 = b0 AND 0x0f"
    by (simp_all add: b0_def trans1_def bit_simps)
  note b1 = utf8_cont_bits [of "drop_bit 6 c", folded b1_def] and b2 = utf8_cont_bits [of c, folded b2_def]
  have "push_bit 6 (push_bit 6 (ucast (b0 AND 0x0f)) OR (0x3f AND ucast b1)) OR (0x3f AND ucast b2) = c"
    unfolding b0_def b1_def b2_def by (rule u32_eqI) (simp add: bit_simps bit_ge_uint [OF assms(1)])
  then show ?thesis
    using assms(2) unfolding b0_def [symmetric] b1_def [symmetric] b2_def [symmetric] append_Cons append_Nil
    by (simp only: utf8Read_lead [OF b0(1,2)] b0(3) utf8Read_cont [OF b1] utf8Read_cont [OF b2]
        utf8Read_stop) simp
qed

lemma utf8_read_4:
  assumes "uint (c :: u32) < 2 ^ 21" "b AND 0xc0 \<noteq> (0x80 :: u8)"
  shows "sqlite3Utf8Read ([0xF0 OR ucast (drop_bit 18 c AND 0x07), 0x80 OR ucast (drop_bit 12 c AND 0x3F),
      0x80 OR ucast (drop_bit 6 c AND 0x3F), 0x80 OR ucast (c AND 0x3F)] @ b # r) = Some (utf8_check c, b # r)"
proof -
  define b0 b1 b2 b3 :: u8 where "b0 = 0xF0 OR ucast (drop_bit 18 c AND 0x07)"
    and "b1 = 0x80 OR ucast (drop_bit 12 c AND 0x3F)"
    and "b2 = 0x80 OR ucast (drop_bit 6 c AND 0x3F)" and "b3 = 0x80 OR ucast (c AND 0x3F)"
  have b0: "bit b0 7" "bit b0 6" "trans1 b0 = b0 AND 0x07"
    by (simp_all add: b0_def trans1_def bit_simps)
  note b1 = utf8_cont_bits [of "drop_bit 12 c", folded b1_def]
    and b2 = utf8_cont_bits [of "drop_bit 6 c", folded b2_def] and b3 = utf8_cont_bits [of c, folded b3_def]
  have "push_bit 6 (push_bit 6 (push_bit 6 (ucast (b0 AND 0x07)) OR (0x3f AND ucast b1)) OR
      (0x3f AND ucast b2)) OR (0x3f AND ucast b3) = c"
    unfolding b0_def b1_def b2_def b3_def
    by (rule u32_eqI) (simp add: bit_simps bit_ge_uint [OF assms(1)])
  then show ?thesis
    using assms(2)
    unfolding b0_def [symmetric] b1_def [symmetric] b2_def [symmetric] b3_def [symmetric] append_Cons append_Nil
    by (simp only: utf8Read_lead [OF b0(1,2)] b0(3) utf8Read_cont [OF b1] utf8Read_cont [OF b2]
        utf8Read_cont [OF b3] utf8Read_stop) simp
qed

lemma utf8_read_write:
  assumes "c < 0x110000" and "b AND 0xc0 \<noteq> (0x80 :: u8)"
  shows "sqlite3Utf8Read (WRITE_UTF8 c @ b # r) =
    Some (if 0xD800 \<le> c \<and> c < 0xE000 \<or> c AND 0xFFFFFFFE = 0xFFFE then 0xFFFD else c, b # r)"
proof -
  have chk: "utf8_check c = (if 0xD800 \<le> c \<and> c < 0xE000 \<or> c AND 0xFFFFFFFE = 0xFFFE then 0xFFFD else c)"
    if "\<not> c < 0x80" using that by (simp add: utf8_check_def surrogate_mask_iff)
  have u: "uint c < 2 ^ 21" using assms(1) by (simp add: word_less_def)
  consider "c < 0x80" | "\<not> c < 0x80" "c < 0x800" | "\<not> c < 0x800" "c < 0x10000" | "\<not> c < 0x10000"
    by blast
  then show ?thesis
  proof cases
    case 1
    then have u7: "uint c < 2 ^ 7" by (simp add: word_less_def)
    have v: "ucast (ucast (c AND 0xFF) :: u8) = c"
      by (rule u32_eqI) (simp add: bit_simps bit_ge_uint [OF u7])
    have l: "\<not> (ucast (c AND 0xFF) :: u8) \<ge> 0xc0"
      by (simp add: lead_byte_iff bit_simps bit_ge_uint [OF u7])
    have "c AND 0xFFFFFFFE \<noteq> 0xFFFE"
    proof
      assume "c AND 0xFFFFFFFE = 0xFFFE"
      then have "bit (c AND 0xFFFFFFFE) 8 = bit (0xFFFE :: u32) 8" by simp
      then show False by (simp add: bit_simps bit_ge_uint [OF u7])
    qed
    moreover have "\<not> 0xD800 \<le> c" using 1 by (simp add: word_le_def word_less_def)
    ultimately show ?thesis using 1 v l by (simp add: WRITE_UTF8_def)
  next
    case 2
    then have "uint c < 2 ^ 11" by (simp add: word_less_def)
    from utf8_read_2 [OF this assms(2), of r] 2 chk show ?thesis
      by (simp add: WRITE_UTF8_def add_const_or)
  next
    case 3
    moreover from 3 have "\<not> c < 0x80" by (auto simp: word_less_def)
    moreover from 3 have "uint c < 2 ^ 16" by (simp add: word_less_def)
    ultimately show ?thesis using utf8_read_3 [OF _ assms(2), of c r] chk
      by (simp add: WRITE_UTF8_def add_const_or)
  next
    case 4
    moreover from 4 have "\<not> c < 0x80" "\<not> c < 0x800" by (auto simp: word_less_def)
    ultimately show ?thesis using utf8_read_4 [OF u assms(2), of r] chk
      by (simp add: WRITE_UTF8_def add_const_or)
  qed
qed

lemma length_WRITE_UTF8: "1 \<le> length (WRITE_UTF8 c)" "length (WRITE_UTF8 c) \<le> 4"
  by (simp_all add: WRITE_UTF8_def)

section \<open>UTF-16\<close>

lemma le_pair: "ucast b0 + push_bit 8 (ucast (b1 :: u8)) = (ucast (b0 :: u8) OR push_bit 8 (ucast b1) :: u32)"
  by (rule disjunctive_add) (auto simp: bit_simps)

lemma be_pair: "push_bit 8 (ucast (b1 :: u8)) + ucast b0 = (ucast (b0 :: u8) OR push_bit 8 (ucast b1) :: u32)"
  using le_pair [of b0 b1] by (simp add: add.commute)

lemma utf16_bmp:
  assumes "c \<le> 0xFFFF"
  shows "ucast (ucast (c AND 0xFF) :: u8) OR push_bit 8 (ucast (ucast (drop_bit 8 c AND 0xFF) :: u8)) = (c :: u32)"
proof -
  have u: "uint c < 2 ^ 16" using assms by (simp add: word_le_def)
  show ?thesis by (rule u32_eqI) (simp add: bit_simps bit_ge_uint [OF u])
qed

lemma u32_disj_add: "list_all (\<lambda>n. \<not> bit x n \<or> \<not> bit y n) [0..<32] \<Longrightarrow> x + y = (x :: u32) OR y"
proof (rule disjunctive_add)
  fix n
  assume "list_all (\<lambda>n. \<not> bit x n \<or> \<not> bit y n) [0..<32]"
  then show "\<not> bit x n \<or> \<not> bit y n" by (cases "n < 32") (auto simp: list_all_iff)
qed

text \<open>The four bytes written for a character beyond the basic plane, in terms of \<open>d = c - 0x10000\<close>.\<close>

lemma utf16_supp_bytes:
  fixes c :: u32
  assumes "0x10000 \<le> c" and "c < 0x110000"
  defines "d \<equiv> c - 0x10000"
  shows "uint d < 2 ^ 20"
    and "ucast ((drop_bit 10 c AND 0x003F) + (drop_bit 10 d AND 0x00C0)) = (ucast (drop_bit 10 d) :: u8)"
    and "ucast (0x00D8 + (drop_bit 18 d AND 0x03)) = (0xD8 OR ucast (drop_bit 18 d) :: u8)"
    and "ucast (c AND 0x00FF) = (ucast d :: u8)"
    and "ucast (0x00DC + (drop_bit 8 c AND 0x03)) = (0xDC OR ucast (drop_bit 8 d AND 0x03) :: u8)"
proof -
  show d: "uint d < 2 ^ 20"
    using assms by (simp add: d_def word_less_def word_le_def uint_word_ariths)
  have low: "bit c n = bit d n" if "n < 16" for n
  proof -
    have "uint c = uint d + 65536"
      using assms by (simp add: d_def word_less_def word_le_def uint_word_ariths)
    then have "take_bit 16 (uint c) = take_bit 16 (uint d)" by (simp add: take_bit_eq_mod)
    then have "bit (take_bit 16 (uint c)) n = bit (take_bit 16 (uint d)) n" by simp
    then show ?thesis using that by (simp add: bit_simps)
  qed
  have n32: "[0..<32] = [0, 1, 2, 3, 4, 5, 6, 7, 8, 9, 10, 11, 12, 13, 14, 15, 16, 17, 18, 19, 20, 21,
      22, 23, 24, 25, 26, 27, 28, 29, 30, 31]" by code_simp
  have 1: "(drop_bit 10 c AND 0x003F) + (drop_bit 10 d AND 0x00C0) =
      (drop_bit 10 c AND 0x003F) OR (drop_bit 10 d AND 0x00C0)"
    by (rule u32_disj_add) (simp add: n32 bit_simps)
  have 2: "0x00D8 + (drop_bit 18 d AND 0x03) = 0x00D8 OR (drop_bit 18 d AND 0x03)"
    by (rule u32_disj_add) (simp add: n32 bit_simps)
  have 3: "0x00DC + (drop_bit 8 c AND 0x03) = 0x00DC OR (drop_bit 8 c AND 0x03)"
    by (rule u32_disj_add) (simp add: n32 bit_simps)
  show "ucast ((drop_bit 10 c AND 0x003F) + (drop_bit 10 d AND 0x00C0)) = (ucast (drop_bit 10 d) :: u8)"
    unfolding 1 by (rule u8_eqI) (simp add: bit_simps low)
  show "ucast (0x00D8 + (drop_bit 18 d AND 0x03)) = (0xD8 OR ucast (drop_bit 18 d) :: u8)"
    unfolding 2 by (rule u8_eqI) (simp add: bit_simps bit_ge_uint [OF d])
  show "ucast (c AND 0x00FF) = (ucast d :: u8)"
    by (rule u8_eqI) (simp add: bit_simps low)
  show "ucast (0x00DC + (drop_bit 8 c AND 0x03)) = (0xDC OR ucast (drop_bit 8 d AND 0x03) :: u8)"
    unfolding 3 by (rule u8_eqI) (simp add: bit_simps low)
qed

lemma surrogate_pair_split:
  fixes d :: u32
  assumes d: "uint d < 2 ^ 20"
  defines "c1 \<equiv> ucast (ucast (drop_bit 10 d) :: u8) OR push_bit 8 (ucast (0xD8 OR ucast (drop_bit 18 d) :: u8))"
    and "c2 \<equiv> ucast (ucast d :: u8) OR push_bit 8 (ucast (0xDC OR ucast (drop_bit 8 d AND 0x03) :: u8))"
  shows "c1 \<ge> 0xD800 \<and> c1 < 0xE000" and "surrogate_pair c1 c2 = d + 0x10000"
proof -
  have "c1 AND 0xFFFFF800 = 0xD800"
    unfolding c1_def by (rule u32_eqI) (simp add: bit_simps bit_ge_uint [OF d])
  then show "c1 \<ge> 0xD800 \<and> c1 < 0xE000" by (simp add: surrogate_mask_iff)
  have n32: "[0..<32] = [0, 1, 2, 3, 4, 5, 6, 7, 8, 9, 10, 11, 12, 13, 14, 15, 16, 17, 18, 19, 20, 21,
      22, 23, 24, 25, 26, 27, 28, 29, 30, 31]" by code_simp
  define x y z :: u32 where "x = c2 AND 0x03FF" and "y = push_bit 10 (c1 AND 0x003F)"
    and "z = push_bit 10 (c1 AND 0x03C0)"
  have "x + y = x OR y"
    unfolding x_def y_def c1_def c2_def by (rule u32_disj_add) (simp add: n32 bit_simps)
  moreover have "(x OR y) + z = (x OR y) OR z"
    unfolding x_def y_def z_def c1_def c2_def by (rule u32_disj_add) (simp add: n32 bit_simps)
  moreover have "(x OR y) OR z = d"
    unfolding x_def y_def z_def c1_def c2_def
    by (rule u32_eqI) (simp add: bit_simps bit_ge_uint [OF d])
  ultimately have "x + y + z = d" by simp
  then show "surrogate_pair c1 c2 = d + 0x10000"
    by (simp add: surrogate_pair_def x_def y_def z_def push_bit_add add.assoc [symmetric])
qed

lemma utf16_read_write:
  assumes "c < 0x110000" and "\<not> (0xD800 \<le> c \<and> c < 0xE000)" and "\<And>z. z \<noteq> [] \<Longrightarrow> more z"
  shows "READ_UTF16LE more (WRITE_UTF16LE c @ r) = Some (c, r)"
    and "READ_UTF16BE more (WRITE_UTF16BE c @ r) = Some (c, r)"
proof -
  have "READ_UTF16LE more (WRITE_UTF16LE c @ r) = Some (c, r) \<and>
        READ_UTF16BE more (WRITE_UTF16BE c @ r) = Some (c, r)"
  proof (cases "c \<le> 0xFFFF")
    case True
    then show ?thesis
      using assms(2) utf16_bmp [OF True]
      by (auto simp: WRITE_UTF16LE_def WRITE_UTF16BE_def le_pair be_pair Let_def)
  next
    case False
    then have ge: "0x10000 \<le> c" by (simp add: word_le_def)
    define d where "d = c - 0x10000"
    note B = utf16_supp_bytes [OF ge assms(1), folded d_def]
    note S = surrogate_pair_split [OF B(1)]
    have c: "d + 0x10000 = c" by (simp add: d_def)
    show ?thesis
      unfolding WRITE_UTF16LE_def WRITE_UTF16BE_def d_def [symmetric] B(2-5)
      using False S assms(3)
      by (simp only: if_False append_Cons append_Nil READ_UTF16LE.simps READ_UTF16BE.simps le_pair be_pair
          Let_def list.case c list.distinct simp_thms if_True split: if_split)
  qed
  then show "READ_UTF16LE more (WRITE_UTF16LE c @ r) = Some (c, r)"
    "READ_UTF16BE more (WRITE_UTF16BE c @ r) = Some (c, r)" by simp_all
qed

section \<open>Whole strings\<close>

lemma WRITE_UTF16_length:
  "length (WRITE_UTF16LE c) = (if c \<le> 0xFFFF then 2 else 4)"
  "length (WRITE_UTF16BE c) = (if c \<le> 0xFFFF then 2 else 4)"
  by (simp_all add: WRITE_UTF16LE_def WRITE_UTF16BE_def)

lemma utf8_check_small: "c \<le> 0xFFFF \<Longrightarrow> utf8_check c \<le> 0xFFFF"
  by (simp add: utf8_check_def)

text \<open>A character outside the basic plane takes at least two bytes of UTF-8, so the UTF-16 form
  never needs more than twice the bytes read.\<close>

lemma ucast_u8_le: "(ucast (b :: u8) :: u32) \<le> 0xFFFF"
proof -
  have "unat (ucast b :: u32) = unat b" by (simp add: unsigned_ucast_eq take_bit_nat_eq_self_iff) 
      (rule order_less_le_trans [OF unsigned_less], simp)
  moreover have "unat b < 256" by (rule order_less_le_trans [OF unsigned_less]) simp
  ultimately show ?thesis by (simp add: word_le_nat_alt)
qed

lemma READ_UTF8_spec:
  assumes "z \<noteq> []"
  obtains c z' where "READ_UTF8 z = Some (c, z')" and "length z' < length z"
    and "length z - length z' = 1 \<Longrightarrow> c \<le> 0xFFFF"
proof -
  obtain b r where z: "z = b # r" using assms by (cases z) auto
  show thesis
  proof (cases "b \<ge> 0xc0")
    case False
    then show ?thesis using that [of "ucast b" r] by (simp add: z ucast_u8_le)
  next
    case True
    obtain c r' where t: "read_utf8_tail (ucast (trans1 b)) r = (c, r')" by fastforce
    have read: "READ_UTF8 z = Some (utf8_check c, r')"
      using True trans1_table [of b] t by (simp add: z lead_byte_iff)
    have le: "length r' \<le> length r"
      using read_utf8_tail_length [of "ucast (trans1 b)" r] t by simp
    have "c = ucast (trans1 b)" if "length r' = length r"
    proof (cases r)
      case (Cons b' q)
      then show ?thesis
        using t that read_utf8_tail_length [of "push_bit 6 (ucast (trans1 b)) + (0x3f AND ucast b')" q]
        by (auto split: if_splits)
    qed (use t in simp)
    then have "utf8_check c \<le> 0xFFFF" if "length z - length r' = 1"
      using that le ucast_u8_le [of "trans1 b"] by (intro utf8_check_small) (simp add: z)
    with read le that show ?thesis by (simp add: z)
  qed
qed

lemma utf8_to_utf16_fits: "\<exists>out. utf8_to_utf16 be z = Some out \<and> length out \<le> 2 * length z"
proof (induction z rule: length_induct)
  case (1 z)
  show ?case
  proof (cases "z = []")
    case True
    then show ?thesis by (simp add: utf8_to_utf16.simps)
  next
    case False
    obtain c z' where r: "READ_UTF8 z = Some (c, z')" "length z' < length z"
      "length z - length z' = 1 \<Longrightarrow> c \<le> 0xFFFF" using READ_UTF8_spec [OF False] by blast
    with 1 obtain out where o: "utf8_to_utf16 be z' = Some out" "length out \<le> 2 * length z'" by blast
    have "length (if be then WRITE_UTF16BE c else WRITE_UTF16LE c) + length out \<le> 2 * length z"
      using r(2,3) o(2) by (cases "length z - length z' = 1") (auto simp: WRITE_UTF16_length)
    then show ?thesis using False r(1) o(1) by (subst utf8_to_utf16.simps) auto
  qed
qed

lemma READ_UTF16_spec:
  assumes "z \<noteq> []" and "even (length z)"
  shows "\<exists>c z'. (if be then READ_UTF16BE (\<lambda>z. z \<noteq> []) z else READ_UTF16LE (\<lambda>z. z \<noteq> []) z) = Some (c, z') \<and>
    length z' + 2 \<le> length z \<and> even (length z')"
proof -
  obtain b0 b1 r where z: "z = b0 # b1 # r" and r: "even (length r)"
    using assms by (cases z; cases "tl z") auto
  then show ?thesis
    by (cases r; cases "tl r"; cases be) (auto simp: Let_def)
qed

lemma utf16_to_utf8_fits:
  "even (length z) \<Longrightarrow> \<exists>out. utf16_to_utf8 be z = Some out \<and> length out \<le> 2 * length z"
proof (induction z rule: length_induct)
  case (1 z)
  show ?case
  proof (cases "z = []")
    case True
    then show ?thesis by (simp add: utf16_to_utf8.simps)
  next
    case False
    then obtain c z' where r: "(if be then READ_UTF16BE (\<lambda>z. z \<noteq> []) z else READ_UTF16LE (\<lambda>z. z \<noteq> []) z) = Some (c, z')"
      "length z' + 2 \<le> length z" "even (length z')" using READ_UTF16_spec [OF False "1.prems"] by metis
    with "1.IH" obtain out where o: "utf16_to_utf8 be z' = Some out" "length out \<le> 2 * length z'" by force
    show ?thesis
      using False r o length_WRITE_UTF8 [of c] by (subst utf16_to_utf8.simps) auto
  qed
qed

text \<open>Strings of scalar values: neither a surrogate nor one of the codes the UTF-8 reader maps to
  the replacement character, and in range.\<close>

definition utf_scalar :: "u32 \<Rightarrow> bool" where
  "utf_scalar c \<longleftrightarrow> c < 0x110000 \<and> \<not> (0xD800 \<le> c \<and> c < 0xE000) \<and> c AND 0xFFFFFFFE \<noteq> 0xFFFE"

lemma read_utf8_tail_utf8Read:
  "utf8Read_tail c z = Some x \<Longrightarrow> read_utf8_tail c z = x"
  by (induction z arbitrary: c) (auto split: if_splits)

lemma READ_UTF8_utf8Read: "sqlite3Utf8Read z = Some x \<Longrightarrow> READ_UTF8 z = Some x"
  by (cases z) (auto split: if_splits Option.bind_splits prod.splits dest: read_utf8_tail_utf8Read)

lemma read_utf8_tail_append_0:
  "read_utf8_tail c z = (c', z') \<Longrightarrow> utf8Read_tail c (z @ [0]) = Some (c', z' @ [0])"
  by (induction z arbitrary: c) (auto split: if_splits)

lemma READ_UTF8_append_0:
  "READ_UTF8 z = Some (c, z') \<Longrightarrow> sqlite3Utf8Read (z @ [0]) = Some (c, z' @ [0])"
  by (cases z) (auto split: if_splits Option.bind_splits prod.splits dest: read_utf8_tail_append_0)

text \<open>Inside a string the reader stops at the next character's first byte; at the end of the
  string it stops at \<open>zTerm\<close>.\<close>

lemma WRITE_UTF8_hd: "\<exists>b r. WRITE_UTF8 c = b # r \<and> b AND 0xc0 \<noteq> 0x80"
proof -
  have 1: "bit (0xC0 + ucast (x AND 0x1F) :: u8) 6" "bit (0xE0 + ucast (x AND 0x0F) :: u8) 6"
    "bit (0xF0 + ucast (x AND 0x07) :: u8) 6" for x :: u32
    by (simp_all only: add_const_or) (simp_all add: bit_simps)
  have 2: "\<not> bit (ucast (c AND 0xFF) :: u8) 7" if "c < 0x80"
  proof -
    have "uint c < 2 ^ 7" using that by (simp add: word_less_def)
    from bit_ge_uint [OF this, of 7] show ?thesis by (simp add: bit_simps)
  qed
  show ?thesis using 1 2 by (auto simp: WRITE_UTF8_def cont_byte_iff)
qed

lemma READ_UTF8_WRITE:
  assumes "utf_scalar c" and "r = [] \<or> hd r AND 0xc0 \<noteq> 0x80"
  shows "READ_UTF8 (WRITE_UTF8 c @ r) = Some (c, r)"
proof (cases r)
  case Nil
  have "sqlite3Utf8Read (WRITE_UTF8 c @ [0]) = Some (c, [0])"
    using utf8_read_write [of c 0 "[]"] assms(1) by (auto simp: utf_scalar_def)
  moreover obtain c' z' where "READ_UTF8 (WRITE_UTF8 c) = Some (c', z')"
    using READ_UTF8_spec [of "WRITE_UTF8 c"] length_WRITE_UTF8(1) [of c] by fastforce
  ultimately show ?thesis using Nil READ_UTF8_append_0 by fastforce
next
  case (Cons b q)
  then have "sqlite3Utf8Read (WRITE_UTF8 c @ r) = Some (c, r)"
    using utf8_read_write [of c b q] assms by (auto simp: utf_scalar_def)
  then show ?thesis by (rule READ_UTF8_utf8Read)
qed

lemma hd_concat_WRITE_UTF8:
  "concat (map WRITE_UTF8 cs) = [] \<or> hd (concat (map WRITE_UTF8 cs)) AND 0xc0 \<noteq> 0x80"
proof (cases cs)
  case (Cons c cs')
  then show ?thesis using WRITE_UTF8_hd [of c] by auto
qed simp

lemma utf8_to_utf16_scalars:
  "list_all utf_scalar cs \<Longrightarrow> utf8_to_utf16 be (concat (map WRITE_UTF8 cs)) =
     Some (concat (map (if be then WRITE_UTF16BE else WRITE_UTF16LE) cs))"
proof (induction cs)
  case (Cons c cs)
  have "WRITE_UTF8 c \<noteq> []" using length_WRITE_UTF8(1) [of c] by auto
  moreover have "READ_UTF8 (WRITE_UTF8 c @ concat (map WRITE_UTF8 cs)) = Some (c, concat (map WRITE_UTF8 cs))"
    using Cons.prems hd_concat_WRITE_UTF8 by (intro READ_UTF8_WRITE) auto
  ultimately show ?case
    using Cons by (subst utf8_to_utf16.simps) simp
qed (simp add: utf8_to_utf16.simps)

lemma utf16_to_utf8_scalars:
  "list_all utf_scalar cs \<Longrightarrow>
     utf16_to_utf8 be (concat (map (if be then WRITE_UTF16BE else WRITE_UTF16LE) cs)) =
     Some (concat (map WRITE_UTF8 cs))"
proof (induction cs)
  case (Cons c cs)
  define w where "w = (if be then WRITE_UTF16BE else WRITE_UTF16LE)"
  have ne: "w c @ concat (map w cs) \<noteq> []"
    using WRITE_UTF16_length [of c] by (auto simp: w_def split: if_splits)
  have "READ_UTF16LE (\<lambda>z. z \<noteq> []) (w c @ concat (map w cs)) = Some (c, concat (map w cs))" if "\<not> be"
    using Cons.prems that utf16_read_write(1) [of c "\<lambda>z. z \<noteq> []"] by (auto simp: utf_scalar_def w_def)
  moreover have "READ_UTF16BE (\<lambda>z. z \<noteq> []) (w c @ concat (map w cs)) = Some (c, concat (map w cs))" if be
    using Cons.prems that utf16_read_write(2) [of c "\<lambda>z. z \<noteq> []"] by (auto simp: utf_scalar_def w_def)
  ultimately have R: "(if be then READ_UTF16BE (\<lambda>z. z \<noteq> []) (w c @ concat (map w cs))
      else READ_UTF16LE (\<lambda>z. z \<noteq> []) (w c @ concat (map w cs))) = Some (c, concat (map w cs))"
    by simp
  have IH: "utf16_to_utf8 be (concat (map w cs)) = Some (concat (map WRITE_UTF8 cs))"
    using Cons by (simp add: w_def)
  show ?case
    unfolding w_def [symmetric] list.map concat.simps
    by (subst utf16_to_utf8.simps, subst R) (simp only: ne if_False option.case prod.case IH option.map)
qed (simp add: utf16_to_utf8.simps)

interpretation utf16le: prefix_codec WRITE_UTF16LE
  "\<lambda>z. map_option (\<lambda>(c, r). (c, length z - length r)) (READ_UTF16LE (\<lambda>z. z \<noteq> []) z)" utf_scalar
  by unfold_locales (simp add: utf16_read_write utf_scalar_def)

interpretation utf16be: prefix_codec WRITE_UTF16BE
  "\<lambda>z. map_option (\<lambda>(c, r). (c, length z - length r)) (READ_UTF16BE (\<lambda>z. z \<noteq> []) z)" utf_scalar
  by unfold_locales (simp add: utf16_read_write utf_scalar_def)

section \<open>Properties\<close>

text \<open>The UTF-8 reader inverts the UTF-8 writer on every code point below 0x110000 that is
  followed by a byte other than a continuation byte (the terminating zero, for instance): it
  consumes exactly the bytes written and returns the code point, or the replacement
  character 0xFFFD for surrogates and for the codes whose low 16 bits are 0xFFFE or 0xFFFF of the
  basic plane.\<close>

lemma sqlite3Utf8Read_WRITE_UTF8:
  assumes "c < 0x110000" and "b AND 0xc0 \<noteq> (0x80 :: u8)"
  shows "sqlite3Utf8Read (WRITE_UTF8 c @ b # r) =
    Some (if 0xD800 \<le> c \<and> c < 0xE000 \<or> c AND 0xFFFFFFFE = 0xFFFE then 0xFFFD else c, b # r) \<and>
    1 \<le> length (WRITE_UTF8 c) \<and> length (WRITE_UTF8 c) \<le> 4"
  using utf8_read_write [OF assms] length_WRITE_UTF8 by simp

text \<open>Reading UTF-16 inverts writing it, in both byte orders, on every code point below
  0x110000 that is not a surrogate.\<close>

lemma READ_UTF16_WRITE_UTF16:
  assumes "c < 0x110000" and "\<not> (0xD800 \<le> c \<and> c < 0xE000)"
  shows "READ_UTF16LE (\<lambda>z. z \<noteq> []) (WRITE_UTF16LE c @ r) = Some (c, r) \<and>
    READ_UTF16BE (\<lambda>z. z \<noteq> []) (WRITE_UTF16BE c @ r) = Some (c, r)"
  using utf16_read_write [OF assms] by simp

text \<open>C32. Converting a string of scalar values from UTF-8 to UTF-16 and back, in either byte order,
  gives the UTF-16 form of the same characters and then the original bytes.\<close>

theorem utf8_utf16_string_roundtrip:
  assumes "list_all utf_scalar cs"
  shows "utf8_to_utf16 be (concat (map WRITE_UTF8 cs)) =
      Some (concat (map (if be then WRITE_UTF16BE else WRITE_UTF16LE) cs)) \<and>
    Option.bind (utf8_to_utf16 be (concat (map WRITE_UTF8 cs))) (utf16_to_utf8 be) =
      Some (concat (map WRITE_UTF8 cs))"
  using assms by (simp add: utf8_to_utf16_scalars utf16_to_utf8_scalars)

theorem utf8_utf16_string_roundtrip_witness:
  "Option.bind (utf8_to_utf16 False (concat (map WRITE_UTF8 [0x41, 0x20AC, 0x1F600])))
     (utf16_to_utf8 False) = Some (concat (map WRITE_UTF8 [0x41, 0x20AC, 0x1F600]))"
proof -
  have "list_all utf_scalar [0x41, 0x20AC, 0x1F600]" by (simp add: utf_scalar_def)
  from utf8_utf16_string_roundtrip [OF this, of False] show ?thesis by (rule conjunct2)
qed

end
