(* ===== verification/RowSet.thy ===== *)
theory RowSet
  imports Sqlite_Prelude
begin

text \<open>
  The set of rowids behind \<^verbatim>\<open>IN\<close> and multi-index \<^verbatim>\<open>OR\<close> (\<^verbatim>\<open>rowset.c\<close>). A list linked by
  \<open>pRight\<close> is an \<open>int list\<close>, a tree linked by \<open>pLeft\<close> and \<open>pRight\<close> a value of
  \<open>rtree\<close>, and the forest the list of the trees its nodes carry (\<open>Tip\<close> where \<open>pLeft\<close>
  is null). The 40-element bucket array of the merge sort is a list whose overrun is \<open>None\<close>.
  The operations refine a batched set: what a test sees is exactly what was inserted
  before the last change of batch, and extraction is in increasing order without duplicates.
\<close>

section \<open>Data\<close>

datatype rtree = Tip | Node rtree int rtree

record RowSet =
  pEntry :: "int list"
  pLast :: "int option"
  pForest :: "rtree list"
  nChunk :: nat
  nFresh :: nat
  sorted_flag :: bool
  next_flag :: bool
  iBatch :: int

definition ROWSET_ENTRY_PER_CHUNK :: nat where
  "ROWSET_ENTRY_PER_CHUNK = (1024 - 8) div 24"

section \<open>Operations\<close>

definition sqlite3RowSetInit :: "nat \<Rightarrow> RowSet" where
  "sqlite3RowSetInit surplus =
     \<lparr>pEntry = [], pLast = None, pForest = [], nChunk = 0, nFresh = surplus div 24,
      sorted_flag = True, next_flag = False, iBatch = 0\<rparr>"

definition sqlite3RowSetClear :: "RowSet \<Rightarrow> RowSet" where
  "sqlite3RowSetClear p =
     p\<lparr>nChunk := 0, nFresh := 0, pEntry := [], pLast := None, pForest := [],
       sorted_flag := True, next_flag := False\<rparr>"

text \<open>\<open>mallocOk\<close> tells whether the allocation of a new chunk, if one is needed, succeeds;
  \<open>None\<close> is the null pointer returned when it does not.\<close>

definition rowSetEntryAlloc :: "bool \<Rightarrow> RowSet \<Rightarrow> RowSet option" where
  "rowSetEntryAlloc mallocOk p =
     (if nFresh p = 0 then
        (if mallocOk then Some (p\<lparr>nChunk := nChunk p + 1, nFresh := ROWSET_ENTRY_PER_CHUNK - 1\<rparr>)
         else None)
      else Some (p\<lparr>nFresh := nFresh p - 1\<rparr>))"

definition sqlite3RowSetInsert :: "bool \<Rightarrow> RowSet \<Rightarrow> int \<Rightarrow> RowSet" where
  "sqlite3RowSetInsert mallocOk p rowid =
     (case rowSetEntryAlloc mallocOk p of
        None \<Rightarrow> p
      | Some p \<Rightarrow>
          (let p = (case pLast p of
                      None \<Rightarrow> p
                    | Some v \<Rightarrow> if sorted_flag p \<and> rowid \<le> v then p\<lparr>sorted_flag := False\<rparr> else p)
           in p\<lparr>pEntry := pEntry p @ [rowid], pLast := Some rowid\<rparr>))"

fun rowSetEntryMerge :: "int list \<Rightarrow> int list \<Rightarrow> int list" where
  "rowSetEntryMerge (a # pA) (b # pB) =
     (if a < b then a # rowSetEntryMerge pA (b # pB)
      else if b < a then b # rowSetEntryMerge (a # pA) pB
      else rowSetEntryMerge pA (b # pB))"
| "rowSetEntryMerge pA [] = pA"
| "rowSetEntryMerge [] pB = pB"

fun rowSetEntrySort_place :: "int list \<Rightarrow> int list list \<Rightarrow> int list list option" where
  "rowSetEntrySort_place pIn [] = None"
| "rowSetEntrySort_place pIn (b # bs) =
     (if b \<noteq> [] then map_option ((#) []) (rowSetEntrySort_place (rowSetEntryMerge b pIn) bs)
      else Some (pIn # bs))"

fun rowSetEntrySort_loop :: "int list \<Rightarrow> int list list \<Rightarrow> int list list option" where
  "rowSetEntrySort_loop [] aBucket = Some aBucket"
| "rowSetEntrySort_loop (v # pNext) aBucket =
     Option.bind (rowSetEntrySort_place [v] aBucket) (rowSetEntrySort_loop pNext)"

definition rowSetEntrySort :: "int list \<Rightarrow> int list option" where
  "rowSetEntrySort pIn =
     map_option (foldl rowSetEntryMerge []) (rowSetEntrySort_loop pIn (replicate 40 []))"

fun rowSetTreeToList :: "rtree \<Rightarrow> int list" where
  "rowSetTreeToList Tip = []"
| "rowSetTreeToList (Node l v r) = rowSetTreeToList l @ v # rowSetTreeToList r"

text \<open>The argument \<open>d\<close> stands for \<open>iDepth = d + 1\<close>: the function is never called with a depth
  below one.\<close>

fun rowSetNDeepTree :: "nat \<Rightarrow> int list \<Rightarrow> rtree \<times> int list" where
  "rowSetNDeepTree d [] = (Tip, [])"
| "rowSetNDeepTree 0 (v # pList) = (Node Tip v Tip, pList)"
| "rowSetNDeepTree (Suc d) (v # pList) =
     (case rowSetNDeepTree d (v # pList) of
        (pLeft, []) \<Rightarrow> (pLeft, [])
      | (pLeft, p # pList) \<Rightarrow>
          (case rowSetNDeepTree d pList of (r, pList) \<Rightarrow> (Node pLeft p r, pList)))"

lemma rowSetNDeepTree_list:
  "rowSetNDeepTree d xs = (t, ys) \<Longrightarrow> rowSetTreeToList t @ ys = xs"
  by (induction d xs arbitrary: t ys rule: rowSetNDeepTree.induct)
    (auto split: prod.splits list.splits)

lemma rowSetNDeepTree_length: "(t, ys) = rowSetNDeepTree d xs \<Longrightarrow> length ys \<le> length xs"
  using rowSetNDeepTree_list [of d xs t ys] by auto

function rowSetListToTree_loop :: "nat \<Rightarrow> rtree \<Rightarrow> int list \<Rightarrow> rtree" where
  "rowSetListToTree_loop d p [] = p"
| "rowSetListToTree_loop d p (v # pList) =
     (case rowSetNDeepTree d pList of
        (r, pList') \<Rightarrow> rowSetListToTree_loop (Suc d) (Node p v r) pList')"
  by pat_completeness auto
termination
  by (relation "measure (\<lambda>(d, p, xs). length xs)") (auto simp: less_Suc_eq_le dest: rowSetNDeepTree_length)

fun rowSetListToTree :: "int list \<Rightarrow> rtree" where
  "rowSetListToTree [] = Tip"
| "rowSetListToTree (v # pList) = rowSetListToTree_loop 0 (Node Tip v Tip) pList"

definition rowSetToList :: "RowSet \<Rightarrow> RowSet option" where
  "rowSetToList p = do {
     p \<leftarrow> (if \<not> sorted_flag p then do {
             l \<leftarrow> rowSetEntrySort (pEntry p);
             Some (p\<lparr>pEntry := l\<rparr>)
           } else Some p);
     Some (p\<lparr>next_flag := True\<rparr>)
   }"

definition sqlite3RowSetNext :: "RowSet \<Rightarrow> (int option \<times> RowSet) option" where
  "sqlite3RowSetNext p = do {
     p \<leftarrow> (if \<not> next_flag p then rowSetToList p else Some p);
     (case pEntry p of
        v # r \<Rightarrow>
          (let p = p\<lparr>pEntry := r\<rparr> in
           Some (Some v, if pEntry p = [] then sqlite3RowSetClear p else p))
      | [] \<Rightarrow> Some (None, p))
   }"

fun rowSetForest_add :: "int list \<Rightarrow> rtree list \<Rightarrow> rtree list \<times> int list option" where
  "rowSetForest_add p [] = ([], Some p)"
| "rowSetForest_add p (Tip # f) = (rowSetListToTree p # f, None)"
| "rowSetForest_add p (t # f) =
     (case rowSetForest_add (rowSetEntryMerge (rowSetTreeToList t) p) f of
        (f, rest) \<Rightarrow> (Tip # f, rest))"

fun rowSetTree_find :: "int \<Rightarrow> rtree \<Rightarrow> bool" where
  "rowSetTree_find iRowid Tip = False"
| "rowSetTree_find iRowid (Node l v r) =
     (if v < iRowid then rowSetTree_find iRowid r
      else if v > iRowid then rowSetTree_find iRowid l
      else True)"

definition sqlite3RowSetTest :: "bool \<Rightarrow> RowSet \<Rightarrow> int \<Rightarrow> int \<Rightarrow> (bool \<times> RowSet) option" where
  "sqlite3RowSetTest mallocOk p batch iRowid = do {
     p \<leftarrow> (if batch \<noteq> iBatch p then do {
             p \<leftarrow> (if pEntry p \<noteq> [] then do {
                     l \<leftarrow> (if \<not> sorted_flag p then rowSetEntrySort (pEntry p) else Some (pEntry p));
                     let (f, rest) = rowSetForest_add l (pForest p);
                     let p = (case rest of
                                None \<Rightarrow> p\<lparr>pForest := f\<rparr>
                              | Some l \<Rightarrow>
                                  (case rowSetEntryAlloc mallocOk p of
                                     None \<Rightarrow> p\<lparr>pForest := f\<rparr>
                                   | Some p \<Rightarrow> p\<lparr>pForest := f @ [rowSetListToTree l]\<rparr>));
                     Some (p\<lparr>pEntry := [], pLast := None, sorted_flag := True\<rparr>)
                   } else Some p);
             Some (p\<lparr>iBatch := batch\<rparr>)
           } else Some p);
     Some (\<exists>t \<in> set (pForest p). rowSetTree_find iRowid t, p)
   }"

section \<open>Merging and sorting\<close>

abbreviation ssorted :: "int list \<Rightarrow> bool" where
  "ssorted \<equiv> sorted_wrt (<)"

lemma set_rowSetEntryMerge [simp]: "set (rowSetEntryMerge xs ys) = set xs \<union> set ys"
  by (induction xs ys rule: rowSetEntryMerge.induct) auto

lemma ssorted_rowSetEntryMerge:
  "ssorted xs \<Longrightarrow> ssorted ys \<Longrightarrow> ssorted (rowSetEntryMerge xs ys)"
  by (induction xs ys rule: rowSetEntryMerge.induct) auto

lemma rowSetEntryMerge_eq_Nil [simp]: "rowSetEntryMerge xs ys = [] \<longleftrightarrow> xs = [] \<and> ys = []"
  by (metis Un_empty set_empty set_rowSetEntryMerge)

text \<open>The bucket array is a binary counter of the elements inserted so far: bucket \<open>i\<close> is
  occupied exactly when bit \<open>i\<close> of the count is set.\<close>

fun bucket_count :: "int list list \<Rightarrow> nat" where
  "bucket_count [] = 0"
| "bucket_count (b # bs) = (if b = [] then 0 else 1) + 2 * bucket_count bs"

lemma bucket_count_le: "bucket_count bs < 2 ^ length bs"
  by (induction bs) auto

lemma rowSetEntrySort_place_spec:
  assumes "bucket_count bs + 1 < 2 ^ length bs" and "x \<noteq> []"
  shows "\<exists>bs'. rowSetEntrySort_place x bs = Some bs' \<and> bucket_count bs' = bucket_count bs + 1 \<and>
    length bs' = length bs \<and> \<Union> (set (map set bs')) = set x \<union> \<Union> (set (map set bs)) \<and>
    (list_all ssorted bs \<longrightarrow> ssorted x \<longrightarrow> list_all ssorted bs')"
  using assms
proof (induction bs arbitrary: x)
  case (Cons b bs)
  show ?case
  proof (cases "b = []")
    case True
    with Cons.prems show ?thesis by simp
  next
    case False
    with Cons.prems have "bucket_count bs + 1 < 2 ^ length bs" by simp
    from Cons.IH [OF this, of "rowSetEntryMerge b x"] False Cons.prems(2) show ?thesis
      by (auto simp: ssorted_rowSetEntryMerge)
  qed
qed simp

lemma rowSetEntrySort_loop_spec:
  assumes "bucket_count bs + length xs < 2 ^ length bs" and "list_all ssorted bs"
  shows "\<exists>bs'. rowSetEntrySort_loop xs bs = Some bs' \<and> list_all ssorted bs' \<and>
    \<Union> (set (map set bs')) = set xs \<union> \<Union> (set (map set bs))"
  using assms
proof (induction xs arbitrary: bs)
  case (Cons x xs)
  obtain bs' where b: "rowSetEntrySort_place [x] bs = Some bs'" "bucket_count bs' = bucket_count bs + 1"
    "length bs' = length bs" "\<Union> (set (map set bs')) = {x} \<union> \<Union> (set (map set bs))"
    "list_all ssorted bs'"
    using rowSetEntrySort_place_spec [of bs "[x]"] Cons.prems by auto
  with Cons.IH [of bs'] Cons.prems show ?case by auto
qed simp

lemma foldl_merge_spec:
  "ssorted x \<Longrightarrow> list_all ssorted bs \<Longrightarrow> ssorted (foldl rowSetEntryMerge x bs) \<and>
   set (foldl rowSetEntryMerge x bs) = set x \<union> \<Union> (set (map set bs))"
  by (induction bs arbitrary: x) (auto simp: ssorted_rowSetEntryMerge)

lemma rowSetEntrySort_spec:
  assumes "length xs < 2 ^ 40"
  shows "\<exists>ys. rowSetEntrySort xs = Some ys \<and> ssorted ys \<and> set ys = set xs"
proof -
  have z: "bucket_count (replicate n []) = 0" for n by (induction n) auto
  have "bucket_count (replicate 40 []) + length xs < 2 ^ length (replicate 40 ([] :: int list))"
    using assms by (simp add: z)
  moreover have "list_all ssorted (replicate 40 [])" by (simp add: list_all_iff)
  ultimately obtain bs where "rowSetEntrySort_loop xs (replicate 40 []) = Some bs"
    "list_all ssorted bs" "\<Union> (set (map set bs)) = set xs"
    using rowSetEntrySort_loop_spec [of "replicate 40 []" xs] by auto
  with foldl_merge_spec [of "[]" bs] show ?thesis
    by (auto simp: rowSetEntrySort_def)
qed

section \<open>Trees\<close>

lemma rowSetListToTree_loop_list:
  "rowSetTreeToList (rowSetListToTree_loop d p xs) = rowSetTreeToList p @ xs"
proof (induction d p xs rule: rowSetListToTree_loop.induct)
  case (2 d p v xs)
  obtain r ys where r: "rowSetNDeepTree d xs = (r, ys)" by fastforce
  then have "xs = rowSetTreeToList r @ ys" by (simp add: rowSetNDeepTree_list)
  with "2.IH" r show ?case by simp
qed simp

lemma rowSetListToTree_list [simp]: "rowSetTreeToList (rowSetListToTree xs) = xs"
  by (cases xs) (simp_all add: rowSetListToTree_loop_list)

lemma rowSetTree_find_iff:
  "ssorted (rowSetTreeToList t) \<Longrightarrow> rowSetTree_find x t \<longleftrightarrow> x \<in> set (rowSetTreeToList t)"
  by (induction t) (auto simp: sorted_wrt_append)

text \<open>The trees built are balanced: a list of \<open>n\<close> elements gives a tree whose depth is at most
  the number of binary digits of \<open>n\<close>.\<close>

fun rtree_depth :: "rtree \<Rightarrow> nat" where
  "rtree_depth Tip = 0"
| "rtree_depth (Node l v r) = Suc (max (rtree_depth l) (rtree_depth r))"

lemma rowSetNDeepTree_depth:
  "rowSetNDeepTree d xs = (t, ys) \<Longrightarrow>
     rtree_depth t \<le> Suc d \<and> (ys \<noteq> [] \<longrightarrow> length (rowSetTreeToList t) = 2 ^ Suc d - 1)"
proof (induction d xs arbitrary: t ys rule: rowSetNDeepTree.induct)
  case (3 d v xs)
  obtain l l' where l: "rowSetNDeepTree d (v # xs) = (l, l')" by fastforce
  show ?case
  proof (cases l')
    case Nil
    with 3 l show ?thesis by fastforce
  next
    case (Cons p q)
    obtain r r' where r: "rowSetNDeepTree d q = (r, r')" by fastforce
    have t: "t = Node l p r" "ys = r'" using "3.prems" l Cons r by auto
    have "length (rowSetTreeToList l) = 2 ^ Suc d - 1" "rtree_depth l \<le> Suc d"
      using "3.IH"(1) [OF l] Cons by auto
    moreover have "rtree_depth r \<le> Suc d" "r' \<noteq> [] \<longrightarrow> length (rowSetTreeToList r) = 2 ^ Suc d - 1"
      using "3.IH"(2) [OF l [symmetric] Cons r] by auto
    ultimately show ?thesis by (auto simp: t)
  qed
qed auto

lemma rowSetListToTree_loop_depth:
  "rtree_depth p \<le> Suc d \<Longrightarrow> length (rowSetTreeToList p) = 2 ^ Suc d - 1 \<Longrightarrow>
   2 ^ (rtree_depth (rowSetListToTree_loop d p xs) - 1) \<le> length (rowSetTreeToList p) + length xs"
proof (induction d p xs rule: rowSetListToTree_loop.induct)
  case (1 d p)
  have "(2 :: nat) ^ (rtree_depth p - 1) \<le> 2 ^ d" using "1.prems"(1) by (intro power_increasing) auto
  moreover have "(2 :: nat) ^ d \<le> 2 ^ Suc d - 1"
    using one_le_power [of 2 d] by simp
  ultimately have "(2 :: nat) ^ (rtree_depth p - 1) \<le> 2 ^ Suc d - 1" by (rule order_trans)
  then show ?case using "1.prems"(2) by (simp only: rowSetListToTree_loop.simps list.size add_0_right)
next
  case (2 d p v xs)
  obtain r ys where r: "rowSetNDeepTree d xs = (r, ys)" by fastforce
  have xs: "rowSetTreeToList r @ ys = xs" using r by (rule rowSetNDeepTree_list)
  have D: "rtree_depth r \<le> Suc d" "ys \<noteq> [] \<Longrightarrow> length (rowSetTreeToList r) = 2 ^ Suc d - 1"
    using rowSetNDeepTree_depth [OF r] by auto
  let ?n = "Node p v r"
  have dn: "rtree_depth ?n \<le> Suc (Suc d)" using "2.prems"(1) D(1) by simp
  show ?case
  proof (cases "ys = []")
    case True
    have "(2 :: nat) ^ (rtree_depth ?n - 1) \<le> 2 ^ Suc d" using dn by (intro power_increasing) auto
    also have "\<dots> \<le> length (rowSetTreeToList p) + length (v # xs)" using "2.prems"(2) by simp
    finally show ?thesis using True r by simp
  next
    case False
    have "length (rowSetTreeToList ?n) = 2 ^ Suc (Suc d) - 1"
      using "2.prems"(2) D(2) [OF False] one_le_power [of "2::nat" "Suc d"] by simp
    moreover have "length xs = length (rowSetTreeToList r) + length ys" using xs by auto
    ultimately show ?thesis
      using "2.IH" [OF r [symmetric] dn] r by simp
  qed
qed

lemma rowSetListToTree_depth:
  "xs \<noteq> [] \<Longrightarrow> 2 ^ (rtree_depth (rowSetListToTree xs) - 1) \<le> length xs"
  by (cases xs) (use rowSetListToTree_loop_depth [of "Node Tip _ Tip" 0] in auto)

section \<open>The batched set\<close>

text \<open>The contract of a batched set: inserted elements are pending until a test names a new batch,
  a test answers for the elements that are not pending.\<close>

locale batched_set =
  fixes ins :: "'s \<Rightarrow> int \<Rightarrow> 's"
    and tst :: "'s \<Rightarrow> int \<Rightarrow> int \<Rightarrow> (bool \<times> 's) option"
    and visible :: "'s \<Rightarrow> int set"
    and pending :: "'s \<Rightarrow> int set"
    and batch :: "'s \<Rightarrow> int"
    and inv :: "'s \<Rightarrow> bool"
    and room :: "'s \<Rightarrow> nat"
  assumes ins_visible: "inv s \<Longrightarrow> visible (ins s x) = visible s"
    and ins_pending: "inv s \<Longrightarrow> pending (ins s x) = insert x (pending s)"
    and ins_batch: "inv s \<Longrightarrow> batch (ins s x) = batch s"
    and ins_inv: "inv s \<Longrightarrow> 0 < room s \<Longrightarrow> inv (ins s x) \<and> room s \<le> Suc (room (ins s x))"
    and tst_ok: "inv s \<Longrightarrow> \<exists>s'. tst s b x = Some (x \<in> visible s', s') \<and> inv s' \<and>
      room s \<le> room s' \<and> batch s' = b \<and>
      visible s' = (if b = batch s then visible s else visible s \<union> pending s) \<and>
      pending s' = (if b = batch s then pending s else {})"
begin

lemma foldl_ins:
  "inv s \<Longrightarrow> length xs \<le> room s \<Longrightarrow> inv (foldl ins s xs) \<and> visible (foldl ins s xs) = visible s \<and>
   pending (foldl ins s xs) = pending s \<union> set xs \<and> batch (foldl ins s xs) = batch s"
proof (induction xs arbitrary: s)
  case (Cons x xs)
  then have "inv (ins s x)" "length xs \<le> room (ins s x)" using ins_inv [of s x] by auto
  from Cons.IH [OF this] Cons.prems show ?case by (auto simp: ins_visible ins_pending ins_batch)
qed simp

lemma insert_batch_then_test:
  assumes "inv s" and "length xs \<le> room s" and "b \<noteq> batch s"
  shows "\<exists>s'. tst (foldl ins s xs) b y = Some (y \<in> visible s \<union> pending s \<union> set xs, s') \<and> inv s'"
  using foldl_ins [OF assms(1,2)] tst_ok [of "foldl ins s xs" b y] assms(3) by auto

lemma same_batch_hides:
  assumes "inv s" and "length xs \<le> room s"
  shows "\<exists>s'. tst (foldl ins s xs) (batch s) y = Some (y \<in> visible s, s') \<and> inv s'"
  using foldl_ins [OF assms] tst_ok [of "foldl ins s xs" "batch s" y] by auto

end

definition rowset_visible :: "RowSet \<Rightarrow> int set" where
  "rowset_visible p = (\<Union>t \<in> set (pForest p). set (rowSetTreeToList t))"

definition rowset_pending :: "RowSet \<Rightarrow> int set" where
  "rowset_pending p = set (pEntry p)"

definition rowset_inv :: "RowSet \<Rightarrow> bool" where
  "rowset_inv p \<longleftrightarrow> pLast p = (if pEntry p = [] then None else Some (last (pEntry p))) \<and>
     (sorted_flag p \<longrightarrow> ssorted (pEntry p)) \<and>
     list_all (\<lambda>t. ssorted (rowSetTreeToList t)) (pForest p) \<and> length (pEntry p) < 2 ^ 40"

definition rowset_room :: "RowSet \<Rightarrow> nat" where
  "rowset_room p = 2 ^ 40 - 1 - length (pEntry p)"

lemma rowSetEntryAlloc_frame:
  "rowSetEntryAlloc ok p = Some q \<Longrightarrow> pEntry q = pEntry p \<and> pLast q = pLast p \<and> pForest q = pForest p \<and>
     sorted_flag q = sorted_flag p \<and> next_flag q = next_flag p \<and> iBatch q = iBatch p"
  by (auto simp: rowSetEntryAlloc_def split: if_splits)

lemma rowSetEntryAlloc_ok: "\<exists>q. rowSetEntryAlloc True p = Some q"
  by (simp add: rowSetEntryAlloc_def)

lemma sqlite3RowSetInsert_eq:
  "\<exists>q. sqlite3RowSetInsert True p x = q \<and> pEntry q = pEntry p @ [x] \<and> pLast q = Some x \<and>
     pForest q = pForest p \<and> iBatch q = iBatch p \<and> next_flag q = next_flag p \<and>
     sorted_flag q = (sorted_flag p \<and> (case pLast p of None \<Rightarrow> True | Some v \<Rightarrow> v < x))"
proof -
  obtain q where "rowSetEntryAlloc True p = Some q" using rowSetEntryAlloc_ok by blast
  with rowSetEntryAlloc_frame [OF this] show ?thesis
    by (auto simp: sqlite3RowSetInsert_def Let_def split: option.splits)
qed

lemma ssorted_snoc: "ssorted xs \<Longrightarrow> xs = [] \<or> last xs < x \<Longrightarrow> ssorted (xs @ [x])"
proof -
  assume s: "ssorted xs" and l: "xs = [] \<or> last xs < x"
  have "y < x" if "y \<in> set xs" for y
  proof -
    have "y \<le> last xs" using s that
      by (metis last_in_set last_snoc append_butlast_last_id empty_iff list.set(1) order_le_less
          set_append sorted_wrt_append Un_iff list.set(2) insert_iff)
    then show ?thesis using l that by (cases xs) auto
  qed
  with s show ?thesis by (simp add: sorted_wrt_append)
qed

lemma rowset_ins_inv: "rowset_inv p \<Longrightarrow> 0 < rowset_room p \<Longrightarrow> rowset_inv (sqlite3RowSetInsert True p x)"
  using sqlite3RowSetInsert_eq [of p x] ssorted_snoc [of "pEntry p" x]
  by (auto simp: rowset_inv_def rowset_room_def split: if_splits)

lemma rowSetForest_add_spec:
  assumes "ssorted l" and "list_all (\<lambda>t. ssorted (rowSetTreeToList t)) f"
    and "rowSetForest_add l f = (f', rest)"
  shows "list_all (\<lambda>t. ssorted (rowSetTreeToList t)) f' \<and>
    (case rest of None \<Rightarrow> (\<Union>t \<in> set f'. set (rowSetTreeToList t)) = set l \<union> (\<Union>t \<in> set f. set (rowSetTreeToList t))
     | Some r \<Rightarrow> ssorted r \<and> (\<Union>t \<in> set f'. set (rowSetTreeToList t)) \<union> set r =
         set l \<union> (\<Union>t \<in> set f. set (rowSetTreeToList t)))"
  using assms
proof (induction l f arbitrary: f' rest rule: rowSetForest_add.induct)
  case (3 l a v b f)
  let ?t = "Node a v b"
  let ?m = "rowSetEntryMerge (rowSetTreeToList ?t) l"
  obtain g s where g: "rowSetForest_add ?m f = (g, s)" by fastforce
  have m: "ssorted ?m" using "3.prems"(1,2) by (intro ssorted_rowSetEntryMerge) auto
  have "list_all (\<lambda>t. ssorted (rowSetTreeToList t)) f" using "3.prems"(2) by simp
  note IH = "3.IH" [OF m this g]
  have "f' = Tip # g" "rest = s" using "3.prems"(3) g by auto
  with IH show ?case by (cases s) (auto simp del: rowSetTreeToList.simps(2))
qed auto

lemma forest_find_iff:
  "list_all (\<lambda>t. ssorted (rowSetTreeToList t)) f \<Longrightarrow>
   (\<exists>t \<in> set f. rowSetTree_find x t) \<longleftrightarrow> x \<in> (\<Union>t \<in> set f. set (rowSetTreeToList t))"
  by (auto simp: list_all_iff rowSetTree_find_iff)

lemma rowset_entries_sorted:
  assumes "rowset_inv p"
  shows "\<exists>l. (if \<not> sorted_flag p then rowSetEntrySort (pEntry p) else Some (pEntry p)) = Some l \<and>
    ssorted l \<and> set l = set (pEntry p)"
  using assms rowSetEntrySort_spec [of "pEntry p"] by (auto simp: rowset_inv_def)

text \<open>Moving the pending entries into the forest on the first test of a new batch.\<close>

lemma rowset_new_batch:
  assumes "rowset_inv p" and "b \<noteq> iBatch p"
  shows "\<exists>q. sqlite3RowSetTest True p b x = Some (\<exists>t \<in> set (pForest q). rowSetTree_find x t, q) \<and>
    pEntry q = [] \<and> pLast q = None \<and> iBatch q = b \<and> (sorted_flag q \<longrightarrow> ssorted (pEntry q)) \<and>
    list_all (\<lambda>t. ssorted (rowSetTreeToList t)) (pForest q) \<and>
    rowset_visible q = rowset_visible p \<union> rowset_pending p"
proof (cases "pEntry p = []")
  case True
  with assms show ?thesis
    by (intro exI [of _ "p\<lparr>iBatch := b\<rparr>"])
      (auto simp: sqlite3RowSetTest_def rowset_inv_def rowset_visible_def rowset_pending_def)
next
  case False
  obtain l where l: "(if \<not> sorted_flag p then rowSetEntrySort (pEntry p) else Some (pEntry p)) = Some l"
    "ssorted l" "set l = set (pEntry p)" using rowset_entries_sorted [OF assms(1)] by blast
  obtain f rest where f: "rowSetForest_add l (pForest p) = (f, rest)" by fastforce
  have inv: "list_all (\<lambda>t. ssorted (rowSetTreeToList t)) (pForest p)"
    using assms(1) by (simp add: rowset_inv_def)
  note F = rowSetForest_add_spec [OF l(2) inv f]
  obtain p' where a: "rowSetEntryAlloc True p = Some p'" using rowSetEntryAlloc_ok by blast
  define q where "q = (case rest of None \<Rightarrow> p\<lparr>pForest := f\<rparr>
    | Some l \<Rightarrow> p'\<lparr>pForest := f @ [rowSetListToTree l]\<rparr>)\<lparr>pEntry := [], pLast := None,
        sorted_flag := True, iBatch := b\<rparr>"
  have test: "sqlite3RowSetTest True p b x = Some (\<exists>t \<in> set (pForest q). rowSetTree_find x t, q)"
    using assms(2) False l(1) f a by (cases rest) (auto simp: sqlite3RowSetTest_def q_def Let_def)
  show ?thesis
    by (rule exI [of _ q], intro conjI, rule test)
      (use F l(3) in \<open>auto simp: q_def rowset_visible_def rowset_pending_def split: option.splits\<close>)
qed

lemma rowset_tst_ok:
  assumes "rowset_inv p"
  shows "\<exists>q. sqlite3RowSetTest True p b x = Some (x \<in> rowset_visible q, q) \<and> rowset_inv q \<and>
    rowset_room p \<le> rowset_room q \<and> iBatch q = b \<and>
    rowset_visible q = (if b = iBatch p then rowset_visible p else rowset_visible p \<union> rowset_pending p) \<and>
    rowset_pending q = (if b = iBatch p then rowset_pending p else {})"
proof (cases "b = iBatch p")
  case True
  then show ?thesis
    using assms by (simp add: sqlite3RowSetTest_def rowset_visible_def rowset_inv_def forest_find_iff)
next
  case False
  from rowset_new_batch [OF assms this, of x] False show ?thesis
    by (auto simp: rowset_inv_def rowset_room_def rowset_pending_def forest_find_iff)
      (auto simp: rowset_visible_def)
qed

interpretation rowset: batched_set "sqlite3RowSetInsert True" "sqlite3RowSetTest True"
  rowset_visible rowset_pending iBatch rowset_inv rowset_room
proof unfold_locales
  fix s x assume "rowset_inv s"
  show "rowset_visible (sqlite3RowSetInsert True s x) = rowset_visible s"
    "rowset_pending (sqlite3RowSetInsert True s x) = insert x (rowset_pending s)"
    "iBatch (sqlite3RowSetInsert True s x) = iBatch s"
    using sqlite3RowSetInsert_eq [of s x] by (auto simp: rowset_visible_def rowset_pending_def)
  assume "0 < rowset_room s"
  then show "rowset_inv (sqlite3RowSetInsert True s x) \<and>
      rowset_room s \<le> Suc (rowset_room (sqlite3RowSetInsert True s x))"
    using rowset_ins_inv [OF \<open>rowset_inv s\<close>, of x] sqlite3RowSetInsert_eq [of s x]
    by (auto simp: rowset_room_def)
qed (rule rowset_tst_ok)

section \<open>Extraction\<close>

text \<open>Calling \<^verbatim>\<open>sqlite3RowSetNext\<close> until it reports the end; \<open>n\<close> bounds the calls.\<close>

fun rowSet_drain :: "nat \<Rightarrow> RowSet \<Rightarrow> int list option" where
  "rowSet_drain 0 p = None"
| "rowSet_drain (Suc n) p =
     (case sqlite3RowSetNext p of
        None \<Rightarrow> None
      | Some (None, p) \<Rightarrow> Some []
      | Some (Some v, p) \<Rightarrow> map_option ((#) v) (rowSet_drain n p))"

lemma rowSet_drain_next:
  "next_flag p \<Longrightarrow> length (pEntry p) < n \<Longrightarrow> rowSet_drain n p = Some (pEntry p)"
proof (induction n arbitrary: p)
  case (Suc n)
  show ?case
  proof (cases "pEntry p")
    case Nil
    with Suc.prems show ?thesis by (simp add: sqlite3RowSetNext_def)
  next
    case (Cons v r)
    show ?thesis
    proof (cases "r = []")
      case True
      have "rowSet_drain n (sqlite3RowSetClear p') = Some []" if "0 < n" for p'
        using that by (cases n)
          (simp_all add: sqlite3RowSetNext_def sqlite3RowSetClear_def rowSetToList_def)
      with Suc.prems Cons True show ?thesis by (simp add: sqlite3RowSetNext_def)
    next
      case False
      with Suc Cons show ?thesis by (simp add: sqlite3RowSetNext_def Let_def)
    qed
  qed
qed simp

lemma ssorted_distinct: "ssorted l \<Longrightarrow> distinct l"
  by (induction l) auto

lemma rowSet_drain_spec:
  assumes "rowset_inv p" and "\<not> next_flag p" and "length (pEntry p) < n"
  shows "\<exists>l. rowSet_drain n p = Some l \<and> ssorted l \<and> set l = rowset_pending p"
proof -
  obtain l where l: "(if \<not> sorted_flag p then rowSetEntrySort (pEntry p) else Some (pEntry p)) = Some l"
    "ssorted l" "set l = set (pEntry p)" using rowset_entries_sorted [OF assms(1)] by blast
  define q where "q = p\<lparr>pEntry := l, next_flag := True\<rparr>"
  have "rowSetToList p = Some q"
    using l(1) by (cases p) (auto simp: rowSetToList_def q_def split: if_splits)
  then have "sqlite3RowSetNext p = sqlite3RowSetNext q"
    using assms(2) by (simp add: sqlite3RowSetNext_def q_def)
  then have "rowSet_drain n p = rowSet_drain n q" by (cases n) simp_all
  moreover have "length l \<le> length (pEntry p)"
    using l(2,3) by (metis card_length distinct_card ssorted_distinct)
  then have "rowSet_drain n q = Some l"
    using rowSet_drain_next [of q n] assms(3) by (simp add: q_def)
  ultimately show ?thesis using l(2,3) by (simp add: rowset_pending_def)
qed

section \<open>Properties\<close>

text \<open>The bucket merge sort never overruns its 40-element bucket array on a list shorter
  than \<open>2\<^sup>4\<^sup>0\<close>, and returns the elements in strictly increasing order without duplicates.\<close>

lemma rowSetEntrySort_sorts:
  assumes "length xs < 2 ^ 40"
  shows "\<exists>ys. rowSetEntrySort xs = Some ys \<and> sorted_wrt (<) ys \<and> set ys = set xs"
  using assms by (rule rowSetEntrySort_spec)

text \<open>A list turned into a tree and back is unchanged, and the tree is balanced: a tree of
  depth \<open>k\<close> is only built from at least \<open>2 ^ (k - 1)\<close> elements.\<close>

lemma rowSetListToTree_roundtrip:
  "rowSetTreeToList (rowSetListToTree xs) = xs \<and>
   (xs = [] \<or> 2 ^ (rtree_depth (rowSetListToTree xs) - 1) \<le> length xs)"
  using rowSetListToTree_depth [of xs] by auto

text \<open>C9. Tests are exact with respect to batches: after any insertions into a well-formed rowset
  a test with a new batch number finds exactly the elements inserted so far, and a test
  with the current batch number finds exactly those inserted before that batch began.\<close>

theorem sqlite3RowSetTest_batches:
  assumes "rowset_inv p" and "length (pEntry p) + length xs < 2 ^ 40" and "b \<noteq> iBatch p"
  shows "(\<exists>q. sqlite3RowSetTest True (foldl (sqlite3RowSetInsert True) p xs) b y =
      Some (y \<in> rowset_visible p \<union> rowset_pending p \<union> set xs, q) \<and> rowset_inv q) \<and>
    (\<exists>q. sqlite3RowSetTest True (foldl (sqlite3RowSetInsert True) p xs) (iBatch p) y =
      Some (y \<in> rowset_visible p, q) \<and> rowset_inv q)"
proof -
  have "length xs \<le> rowset_room p" using assms(2) by (simp add: rowset_room_def)
  then show ?thesis
    using rowset.insert_batch_then_test [OF assms(1) _ assms(3)] rowset.same_batch_hides [OF assms(1)]
    by blast
qed

theorem sqlite3RowSetTest_batches_witness:
  "\<exists>q. sqlite3RowSetTest True (foldl (sqlite3RowSetInsert True) (sqlite3RowSetInit 0) [3, 1]) 7 1 =
     Some (True, q) \<and> rowset_inv q"
  using sqlite3RowSetTest_batches [of "sqlite3RowSetInit 0" "[3, 1]" 7 1]
  by (simp add: sqlite3RowSetInit_def rowset_inv_def)

text \<open>Extracting from a well-formed rowset that has not been read yet returns every pending
  element once, in increasing order, and then reports the end.\<close>

lemma sqlite3RowSetNext_enumerates:
  assumes "rowset_inv p" and "\<not> next_flag p" and "length (pEntry p) < n"
  shows "\<exists>l. rowSet_drain n p = Some l \<and> sorted_wrt (<) l \<and> set l = rowset_pending p"
  using assms by (rule rowSet_drain_spec)

end
