(* ===== verification/Ctype.thy ===== *)
theory Ctype
  imports Sqlite_Prelude
begin

text \<open>
  Character classes and case-insensitive comparison: the tables of \<^verbatim>\<open>global.c\<close>, the macros on them
  (\<^verbatim>\<open>sqlite3Isspace\<close> and its siblings) and \<^verbatim>\<open>sqlite3_stricmp\<close> and \<^verbatim>\<open>sqlite3_strnicmp\<close> of \<^verbatim>\<open>util.c\<close>.
  A character is a byte; a NUL-terminated string is a byte list read with a check, so that a
  string without its terminator shows up as \<open>None\<close>. The tables are shown to be the ASCII
  classes their comments describe, and the comparisons to be the lexicographic order on case-folded
  strings.
\<close>

named_theorems ctype_simps \<open>character classes as ranges of bytes\<close>

section \<open>Tables and macros\<close>

definition sqlite3UpperToLower :: "u8 list" where
  "sqlite3UpperToLower =
    [0, 1, 2, 3, 4, 5, 6, 7, 8, 9, 10, 11, 12, 13, 14, 15, 16, 17,
     18, 19, 20, 21, 22, 23, 24, 25, 26, 27, 28, 29, 30, 31, 32, 33, 34, 35,
     36, 37, 38, 39, 40, 41, 42, 43, 44, 45, 46, 47, 48, 49, 50, 51, 52, 53,
     54, 55, 56, 57, 58, 59, 60, 61, 62, 63, 64, 97, 98, 99, 100, 101, 102, 103,
     104, 105, 106, 107, 108, 109, 110, 111, 112, 113, 114, 115, 116, 117, 118, 119, 120, 121,
     122, 91, 92, 93, 94, 95, 96, 97, 98, 99, 100, 101, 102, 103, 104, 105, 106, 107,
     108, 109, 110, 111, 112, 113, 114, 115, 116, 117, 118, 119, 120, 121, 122, 123, 124, 125,
     126, 127, 128, 129, 130, 131, 132, 133, 134, 135, 136, 137, 138, 139, 140, 141, 142, 143,
     144, 145, 146, 147, 148, 149, 150, 151, 152, 153, 154, 155, 156, 157, 158, 159, 160, 161,
     162, 163, 164, 165, 166, 167, 168, 169, 170, 171, 172, 173, 174, 175, 176, 177, 178, 179,
     180, 181, 182, 183, 184, 185, 186, 187, 188, 189, 190, 191, 192, 193, 194, 195, 196, 197,
     198, 199, 200, 201, 202, 203, 204, 205, 206, 207, 208, 209, 210, 211, 212, 213, 214, 215,
     216, 217, 218, 219, 220, 221, 222, 223, 224, 225, 226, 227, 228, 229, 230, 231, 232, 233,
     234, 235, 236, 237, 238, 239, 240, 241, 242, 243, 244, 245, 246, 247, 248, 249, 250, 251,
     252, 253, 254, 255]"

definition sqlite3CtypeMap :: "u8 list" where
  "sqlite3CtypeMap =
    [0x00, 0x00, 0x00, 0x00, 0x00, 0x00, 0x00, 0x00, 0x00, 0x01, 0x01, 0x01, 0x01, 0x01, 0x00, 0x00,
     0x00, 0x00, 0x00, 0x00, 0x00, 0x00, 0x00, 0x00, 0x00, 0x00, 0x00, 0x00, 0x00, 0x00, 0x00, 0x00,
     0x01, 0x00, 0x00, 0x00, 0x40, 0x00, 0x00, 0x00, 0x00, 0x00, 0x00, 0x00, 0x00, 0x00, 0x00, 0x00,
     0x0c, 0x0c, 0x0c, 0x0c, 0x0c, 0x0c, 0x0c, 0x0c, 0x0c, 0x0c, 0x00, 0x00, 0x00, 0x00, 0x00, 0x00,
     0x00, 0x0a, 0x0a, 0x0a, 0x0a, 0x0a, 0x0a, 0x02, 0x02, 0x02, 0x02, 0x02, 0x02, 0x02, 0x02, 0x02,
     0x02, 0x02, 0x02, 0x02, 0x02, 0x02, 0x02, 0x02, 0x02, 0x02, 0x02, 0x00, 0x00, 0x00, 0x00, 0x40,
     0x00, 0x2a, 0x2a, 0x2a, 0x2a, 0x2a, 0x2a, 0x22, 0x22, 0x22, 0x22, 0x22, 0x22, 0x22, 0x22, 0x22,
     0x22, 0x22, 0x22, 0x22, 0x22, 0x22, 0x22, 0x22, 0x22, 0x22, 0x22, 0x00, 0x00, 0x00, 0x00, 0x00,
     0x40, 0x40, 0x40, 0x40, 0x40, 0x40, 0x40, 0x40, 0x40, 0x40, 0x40, 0x40, 0x40, 0x40, 0x40, 0x40,
     0x40, 0x40, 0x40, 0x40, 0x40, 0x40, 0x40, 0x40, 0x40, 0x40, 0x40, 0x40, 0x40, 0x40, 0x40, 0x40,
     0x40, 0x40, 0x40, 0x40, 0x40, 0x40, 0x40, 0x40, 0x40, 0x40, 0x40, 0x40, 0x40, 0x40, 0x40, 0x40,
     0x40, 0x40, 0x40, 0x40, 0x40, 0x40, 0x40, 0x40, 0x40, 0x40, 0x40, 0x40, 0x40, 0x40, 0x40, 0x40,
     0x40, 0x40, 0x40, 0x40, 0x40, 0x40, 0x40, 0x40, 0x40, 0x40, 0x40, 0x40, 0x40, 0x40, 0x40, 0x40,
     0x40, 0x40, 0x40, 0x40, 0x40, 0x40, 0x40, 0x40, 0x40, 0x40, 0x40, 0x40, 0x40, 0x40, 0x40, 0x40,
     0x40, 0x40, 0x40, 0x40, 0x40, 0x40, 0x40, 0x40, 0x40, 0x40, 0x40, 0x40, 0x40, 0x40, 0x40, 0x40,
     0x40, 0x40, 0x40, 0x40, 0x40, 0x40, 0x40, 0x40, 0x40, 0x40, 0x40, 0x40, 0x40, 0x40, 0x40, 0x40]"

text \<open>The index of either table is an unsigned character, so it is always in range.\<close>

definition sqlite3Tolower :: "u8 \<Rightarrow> u8" where
  "sqlite3Tolower x = sqlite3UpperToLower ! unat x"

definition sqlite3Toupper :: "u8 \<Rightarrow> u8" where
  "sqlite3Toupper x = x AND NOT (sqlite3CtypeMap ! unat x AND 0x20)"

definition sqlite3Isspace :: "u8 \<Rightarrow> bool" where
  "sqlite3Isspace x \<longleftrightarrow> sqlite3CtypeMap ! unat x AND 0x01 \<noteq> 0"

definition sqlite3Isalnum :: "u8 \<Rightarrow> bool" where
  "sqlite3Isalnum x \<longleftrightarrow> sqlite3CtypeMap ! unat x AND 0x06 \<noteq> 0"

definition sqlite3Isalpha :: "u8 \<Rightarrow> bool" where
  "sqlite3Isalpha x \<longleftrightarrow> sqlite3CtypeMap ! unat x AND 0x02 \<noteq> 0"

definition sqlite3Isdigit :: "u8 \<Rightarrow> bool" where
  "sqlite3Isdigit x \<longleftrightarrow> sqlite3CtypeMap ! unat x AND 0x04 \<noteq> 0"

definition sqlite3Isxdigit :: "u8 \<Rightarrow> bool" where
  "sqlite3Isxdigit x \<longleftrightarrow> sqlite3CtypeMap ! unat x AND 0x08 \<noteq> 0"

definition IdChar :: "u8 \<Rightarrow> bool" where
  "IdChar x \<longleftrightarrow> sqlite3CtypeMap ! unat x AND 0x46 \<noteq> 0"

section \<open>Comparison\<close>

fun sqlite3_stricmp :: "u8 list \<Rightarrow> u8 list \<Rightarrow> int option" where
  "sqlite3_stricmp (a # zLeft) (b # zRight) =
     (if a \<noteq> 0 \<and> sqlite3Tolower a = sqlite3Tolower b then sqlite3_stricmp zLeft zRight
      else Some (uint (sqlite3Tolower a) - uint (sqlite3Tolower b)))"
| "sqlite3_stricmp _ _ = None"

text \<open>A count that is not positive compares nothing, so the count is a natural number.\<close>

fun sqlite3_strnicmp :: "u8 list \<Rightarrow> u8 list \<Rightarrow> nat \<Rightarrow> int option" where
  "sqlite3_strnicmp _ _ 0 = Some 0"
| "sqlite3_strnicmp (a # zLeft) (b # zRight) (Suc N) =
     (if a \<noteq> 0 \<and> sqlite3Tolower a = sqlite3Tolower b then sqlite3_strnicmp zLeft zRight N
      else Some (uint (sqlite3Tolower a) - uint (sqlite3Tolower b)))"
| "sqlite3_strnicmp _ _ (Suc N) = None"

section \<open>The classes as ranges\<close>

lemma Tolower_eq [ctype_simps]:
  "sqlite3Tolower x = (if 0x41 \<le> x \<and> x \<le> 0x5a then x + 0x20 else x)"
  unfolding sqlite3Tolower_def by (rule table_all [of "\<lambda>x (t :: u8). t = (if 0x41 \<le> x \<and> x \<le> 0x5a then x + 0x20 else x)"]) code_simp

lemma Toupper_eq [ctype_simps]:
  "sqlite3Toupper x = (if 0x61 \<le> x \<and> x \<le> 0x7a then x - 0x20 else x)"
  unfolding sqlite3Toupper_def by (rule table_all [of "\<lambda>x (t :: u8). x AND NOT (t AND 0x20) = (if 0x61 \<le> x \<and> x \<le> 0x7a then x - 0x20 else x)"]) code_simp

lemma Isspace_eq [ctype_simps]:
  "sqlite3Isspace x \<longleftrightarrow> x = 0x20 \<or> 0x09 \<le> x \<and> x \<le> 0x0d"
  unfolding sqlite3Isspace_def by (rule table_all [of "\<lambda>x (t :: u8). t AND 0x01 \<noteq> 0 \<longleftrightarrow> x = 0x20 \<or> 0x09 \<le> x \<and> x \<le> 0x0d"]) code_simp

lemma Isdigit_eq [ctype_simps]:
  "sqlite3Isdigit x \<longleftrightarrow> 0x30 \<le> x \<and> x \<le> 0x39"
  unfolding sqlite3Isdigit_def by (rule table_all [of "\<lambda>x (t :: u8). t AND 0x04 \<noteq> 0 \<longleftrightarrow> 0x30 \<le> x \<and> x \<le> 0x39"]) code_simp

lemma Isalpha_eq [ctype_simps]:
  "sqlite3Isalpha x \<longleftrightarrow> 0x41 \<le> x \<and> x \<le> 0x5a \<or> 0x61 \<le> x \<and> x \<le> 0x7a"
  unfolding sqlite3Isalpha_def by (rule table_all [of "\<lambda>x (t :: u8). t AND 0x02 \<noteq> 0 \<longleftrightarrow> 0x41 \<le> x \<and> x \<le> 0x5a \<or> 0x61 \<le> x \<and> x \<le> 0x7a"]) code_simp

lemma Isalnum_eq [ctype_simps]:
  "sqlite3Isalnum x \<longleftrightarrow> 0x41 \<le> x \<and> x \<le> 0x5a \<or> 0x61 \<le> x \<and> x \<le> 0x7a \<or> 0x30 \<le> x \<and> x \<le> 0x39"
  unfolding sqlite3Isalnum_def by (rule table_all [of "\<lambda>x (t :: u8). t AND 0x06 \<noteq> 0 \<longleftrightarrow> 0x41 \<le> x \<and> x \<le> 0x5a \<or> 0x61 \<le> x \<and> x \<le> 0x7a \<or> 0x30 \<le> x \<and> x \<le> 0x39"]) code_simp

lemma Isxdigit_eq [ctype_simps]:
  "sqlite3Isxdigit x \<longleftrightarrow> 0x30 \<le> x \<and> x \<le> 0x39 \<or> 0x41 \<le> x \<and> x \<le> 0x46 \<or> 0x61 \<le> x \<and> x \<le> 0x66"
  unfolding sqlite3Isxdigit_def by (rule table_all [of "\<lambda>x (t :: u8). t AND 0x08 \<noteq> 0 \<longleftrightarrow> 0x30 \<le> x \<and> x \<le> 0x39 \<or> 0x41 \<le> x \<and> x \<le> 0x46 \<or> 0x61 \<le> x \<and> x \<le> 0x66"]) code_simp

lemma IdChar_eq [ctype_simps]:
  "IdChar x \<longleftrightarrow> 0x41 \<le> x \<and> x \<le> 0x5a \<or> 0x61 \<le> x \<and> x \<le> 0x7a \<or> 0x30 \<le> x \<and> x \<le> 0x39 \<or> x = 0x24 \<or> x = 0x5f \<or> 0x80 \<le> x"
  unfolding IdChar_def by (rule table_all [of "\<lambda>x (t :: u8). t AND 0x46 \<noteq> 0 \<longleftrightarrow> 0x41 \<le> x \<and> x \<le> 0x5a \<or> 0x61 \<le> x \<and> x \<le> 0x7a \<or> 0x30 \<le> x \<and> x \<le> 0x39 \<or> x = 0x24 \<or> x = 0x5f \<or> 0x80 \<le> x"]) code_simp

lemma Tolower_0 [simp]: "sqlite3Tolower 0 = 0"
  by (simp add: Tolower_eq)

lemma Tolower_eq_0 [simp]: "sqlite3Tolower x = 0 \<longleftrightarrow> x = 0"
  unfolding sqlite3Tolower_def by (rule table_all [of "\<lambda>x (t :: u8). t = 0 \<longleftrightarrow> x = 0"]) code_simp

lemma Tolower_upper_range: "sqlite3Tolower x < 0x41 \<or> 0x5a < sqlite3Tolower x"
  unfolding sqlite3Tolower_def by (rule table_all [of "\<lambda>x (t :: u8). t < 0x41 \<or> 0x5a < t"]) code_simp

lemma Tolower_idem [simp]: "sqlite3Tolower (sqlite3Tolower x) = sqlite3Tolower x"
  using Tolower_upper_range [of x] by (subst Tolower_eq) auto

section \<open>Comparison is the order on folded strings\<close>

abbreviation fold_case :: "u8 list \<Rightarrow> u8 list" where
  "fold_case \<equiv> map sqlite3Tolower"

text \<open>A C string: the characters, the terminator, and what lies behind it.\<close>

definition cstring :: "u8 list \<Rightarrow> u8 list \<Rightarrow> u8 list" where
  "cstring s r = s @ 0 # r"

lemma cstring_simps [simp]:
  "cstring [] r = 0 # r"
  "cstring (c # s) r = c # cstring s r"
  by (simp_all add: cstring_def)

lemma uint_u8_cmp:
  "uint (x :: u8) = uint y \<longleftrightarrow> x = y"
  "uint x < uint y \<longleftrightarrow> x < y"
  "uint x = 0 \<longleftrightarrow> x = 0"
  "0 < uint x \<longleftrightarrow> x \<noteq> 0"
proof -
  show "uint x = uint y \<longleftrightarrow> x = y" by (metis word_uint_eqI)
  show "uint x < uint y \<longleftrightarrow> x < y" by (simp add: word_less_def)
  show 0: "uint x = 0 \<longleftrightarrow> x = 0" by (rule uint_0_iff)
  show "0 < uint x \<longleftrightarrow> x \<noteq> 0" using 0 uint_ge_0 [of x] by linarith
qed

lemma Tolower_pos [simp]: "c \<noteq> 0 \<Longrightarrow> 0 < sqlite3Tolower c"
  by (simp add: word_gt_0)

lemma stricmp_spec:
  assumes "0 \<notin> set a" and "0 \<notin> set b"
  shows "\<exists>c. sqlite3_stricmp (cstring a r) (cstring b s) = Some c \<and>
    (c = 0 \<longleftrightarrow> fold_case a = fold_case b) \<and>
    (c < 0 \<longleftrightarrow> ord_class.lexordp (fold_case a) (fold_case b))"
  using assms
proof (induction a arbitrary: b)
  case Nil
  then show ?case
    by (cases b) (auto simp: uint_u8_cmp)
next
  case (Cons x a)
  then show ?case
    by (cases b) (auto simp: uint_u8_cmp)
qed

lemma strnicmp_spec:
  assumes "0 \<notin> set a" and "0 \<notin> set b"
  shows "\<exists>c. sqlite3_strnicmp (cstring a r) (cstring b s) n = Some c \<and>
    (c = 0 \<longleftrightarrow> fold_case (take n a) = fold_case (take n b)) \<and>
    (c < 0 \<longleftrightarrow> ord_class.lexordp (fold_case (take n a)) (fold_case (take n b)))"
  using assms
proof (induction n arbitrary: a b)
  case (Suc n)
  then show ?case
    by (cases a; cases b) (auto simp: uint_u8_cmp)
qed simp

text \<open>The bounded comparison on buffers that hold at least \<open>n\<close> characters.\<close>

lemma strnicmp_take:
  "n \<le> length a \<Longrightarrow> n \<le> length b \<Longrightarrow> 0 \<notin> set (take n a) \<Longrightarrow>
    \<exists>c. sqlite3_strnicmp a b n = Some c \<and> (c = 0 \<longleftrightarrow> fold_case (take n a) = fold_case (take n b))"
proof (induction n arbitrary: a b)
  case (Suc n)
  then show ?case by (cases a; cases b) (auto simp: uint_u8_cmp)
qed simp

section \<open>Properties\<close>

text \<open>On terminated strings the case-insensitive comparisons are defined, and their sign is
  the lexicographic order of the strings with \<^verbatim>\<open>A\<close> to \<^verbatim>\<open>Z\<close> folded to lower case; the bounded
  comparison is the same on the first \<open>n\<close> characters.\<close>

lemma sqlite3_stricmp_order:
  assumes "0 \<notin> set a" and "0 \<notin> set b"
  shows "(\<exists>c. sqlite3_stricmp (a @ 0 # r) (b @ 0 # s) = Some c \<and>
      (c = 0 \<longleftrightarrow> fold_case a = fold_case b) \<and>
      (c < 0 \<longleftrightarrow> ord_class.lexordp (fold_case a) (fold_case b))) \<and>
    (\<exists>c. sqlite3_strnicmp (a @ 0 # r) (b @ 0 # s) n = Some c \<and>
      (c = 0 \<longleftrightarrow> fold_case (take n a) = fold_case (take n b)) \<and>
      (c < 0 \<longleftrightarrow> ord_class.lexordp (fold_case (take n a)) (fold_case (take n b))))"
  using stricmp_spec [OF assms] strnicmp_spec [OF assms] by (simp add: cstring_def)

end
