(* ===== verification/Numtext.thy ===== *)
theory Numtext
  imports Ctype
begin

text \<open>
  Text of numbers, quoted names and blob literals (\<^verbatim>\<open>util.c\<close>): \<^verbatim>\<open>sqlite3Strlen30\<close>,
  \<^verbatim>\<open>sqlite3Dequote\<close>, \<^verbatim>\<open>sqlite3Atoi64\<close> with its 19-digit comparison \<^verbatim>\<open>compare2pow63\<close>,
  \<^verbatim>\<open>sqlite3GetInt32\<close>, \<^verbatim>\<open>sqlite3Atoi\<close>, \<^verbatim>\<open>sqlite3HexToInt\<close> and \<^verbatim>\<open>sqlite3HexToBlob\<close>. A pointer into
  a string is an index, plain \<^verbatim>\<open>char\<close> is signed (\<open>sint\<close> of the byte), and the 64-bit accumulator
  wraps as it does in C. The loops that step by \<^verbatim>\<open>incr\<close> bytes (1 for UTF-8, 2 for UTF-16) take
  \<open>k = incr - 1\<close> so that they always advance.
\<close>

section \<open>Strings\<close>

fun strlen_loop :: "u8 list \<Rightarrow> nat option" where
  "strlen_loop [] = None"
| "strlen_loop (c # z) = (if c \<noteq> 0 then map_option Suc (strlen_loop z) else Some 0)"

definition sqlite3Strlen30 :: "u8 list \<Rightarrow> nat option" where
  "sqlite3Strlen30 z = map_option (\<lambda>n. unat (0x3fffffff AND (word_of_nat n :: u32))) (strlen_loop z)"

text \<open>The loop of \<^verbatim>\<open>sqlite3Dequote\<close> runs over the buffer it writes to, with \<open>j < i\<close>. A string
  that has no closing quote runs past its terminator (the C code asserts that this does not
  happen), to the end of the object: \<open>None\<close>.\<close>

function dequote_loop :: "u8 \<Rightarrow> u8 list \<Rightarrow> nat \<Rightarrow> nat \<Rightarrow> (nat \<times> u8 list) option" where
  "dequote_loop quote z i j = do {
     c \<leftarrow> rd z i;
     if c = quote then do {
       d \<leftarrow> rd z (i + 1);
       if d = quote then do {
         z' \<leftarrow> wr z j quote;
         dequote_loop quote z' (i + 2) (j + 1)
       } else Some (j, z)
     } else do {
       z' \<leftarrow> wr z j c;
       dequote_loop quote z' (i + 1) (j + 1)
     }
   }"
  by pat_completeness auto
termination
  by (relation "measure (\<lambda>(quote, z, i, j). length z - i)") (auto simp: rd_eq_Some wr_eq_Some)

definition sqlite3Dequote :: "u8 list \<Rightarrow> (int \<times> u8 list) option" where
  "sqlite3Dequote z = do {
     quote \<leftarrow> rd z 0;
     if quote = 0x27 \<or> quote = 0x22 \<or> quote = 0x60 \<or> quote = 0x5b then do {
       (j, z) \<leftarrow> dequote_loop (if quote = 0x5b then 0x5d else quote) z 1 0;
       z \<leftarrow> wr z j 0;
       Some (int j, z)
     } else Some (- 1, z)
   }"

section \<open>Integers\<close>

definition pow63 :: "u8 list" where
  "pow63 = map of_char ''922337203685477580''"

fun compare2pow63_loop :: "u8 list \<Rightarrow> nat \<Rightarrow> u8 list \<Rightarrow> nat \<Rightarrow> nat \<Rightarrow> int \<Rightarrow> int option" where
  "compare2pow63_loop zNum base [] incr i c = Some c"
| "compare2pow63_loop zNum base (d # ds) incr i c =
     (if c = 0 then do {
        x \<leftarrow> rd zNum (base + i * incr);
        compare2pow63_loop zNum base ds incr (i + 1) ((sint x - sint d) * 10)
      } else Some c)"

definition compare2pow63 :: "u8 list \<Rightarrow> nat \<Rightarrow> nat \<Rightarrow> int option" where
  "compare2pow63 zNum base incr = do {
     c \<leftarrow> compare2pow63_loop zNum base pow63 incr 0 0;
     if c = 0 then do {
       x \<leftarrow> rd zNum (base + 18 * incr);
       Some (sint x - 0x38)
     } else Some c
   }"

definition SQLITE_UTF8 :: nat where "SQLITE_UTF8 = 1"
definition SQLITE_UTF16LE :: nat where "SQLITE_UTF16LE = 2"
definition SQLITE_UTF16BE :: nat where "SQLITE_UTF16BE = 3"

text \<open>\<^verbatim>\<open>for(i=3-enc; i<length && zNum[i]==0; i+=2)\<close>\<close>

function utf16_ascii_prefix :: "u8 list \<Rightarrow> nat \<Rightarrow> nat \<Rightarrow> nat option" where
  "utf16_ascii_prefix zNum len i =
     (if i < len then do {
        c \<leftarrow> rd zNum i;
        if c = 0 then utf16_ascii_prefix zNum len (i + 2) else Some i
      } else Some i)"
  by pat_completeness auto
termination
  by (relation "measure (\<lambda>(zNum, l, i). l - i)") auto

text \<open>\<^verbatim>\<open>while( zNum<zEnd && P(*zNum) ) zNum+=incr\<close>\<close>

function skip_while :: "(u8 \<Rightarrow> bool) \<Rightarrow> u8 list \<Rightarrow> nat \<Rightarrow> nat \<Rightarrow> nat \<Rightarrow> nat option" where
  "skip_while P zNum k zEnd z =
     (if z < zEnd then do {
        c \<leftarrow> rd zNum z;
        if P c then skip_while P zNum k zEnd (z + Suc k) else Some z
      } else Some z)"
  by pat_completeness auto
termination
  by (relation "measure (\<lambda>(P, zNum, k, zEnd, z). zEnd - z)") auto

text \<open>\<^verbatim>\<open>for(i=0; &zNum[i]<zEnd && (c=zNum[i])>='0' && c<='9'; i+=incr) u = u*10 + c - '0'\<close>\<close>

function atoi_digits :: "u8 list \<Rightarrow> nat \<Rightarrow> nat \<Rightarrow> nat \<Rightarrow> nat \<Rightarrow> u64 \<Rightarrow> int \<Rightarrow> (nat \<times> u64 \<times> int) option" where
  "atoi_digits zNum z k zEnd i u c =
     (if z + i < zEnd then do {
        x \<leftarrow> rd zNum (z + i);
        if sint x \<ge> 0x30 \<and> sint x \<le> 0x39
        then atoi_digits zNum z k zEnd (i + Suc k) (u * 10 + word_of_int (sint x) - 0x30) (sint x)
        else Some (i, u, sint x)
      } else Some (i, u, c))"
  by pat_completeness auto
termination
  by (relation "measure (\<lambda>(zNum, z, k, zEnd, i, u, c). zEnd - (z + i))") auto

text \<open>The prologue: the increment (minus one), whether a character outside ASCII was seen, the end
  and the start of the text.\<close>

definition atoi64_setup :: "u8 list \<Rightarrow> nat \<Rightarrow> nat \<Rightarrow> (nat \<times> bool \<times> nat \<times> nat) option" where
  "atoi64_setup zNum len enc =
     (if enc = SQLITE_UTF8 then Some (0, False, len, 0)
      else do {
        i \<leftarrow> utf16_ascii_prefix zNum len (3 - enc);
        Some (1, i < len, i + enc - 3, enc mod 2)
      })"

text \<open>An optional sign.\<close>

definition atoi64_neg :: "u8 list \<Rightarrow> nat \<Rightarrow> nat \<Rightarrow> nat \<Rightarrow> (bool \<times> nat) option" where
  "atoi64_neg zNum k zEnd z =
     (if z < zEnd then do {
        c \<leftarrow> rd zNum z;
        Some (if c = 0x2d then (True, z + Suc k) else if c = 0x2b then (False, z + Suc k) else (False, z))
      } else Some (False, z))"

text \<open>From \<^verbatim>\<open>zStart = zNum\<close> to the end. The result is the return code and the value stored in
  \<^verbatim>\<open>*pNum\<close>.\<close>

definition atoi64_finish :: "u8 list \<Rightarrow> nat \<Rightarrow> bool \<Rightarrow> nat \<Rightarrow> bool \<Rightarrow> nat \<Rightarrow> (nat \<times> int) option" where
  "atoi64_finish zNum k nonNum zEnd neg zStart = do {
     z \<leftarrow> skip_while (\<lambda>c. c = 0x30) zNum k zEnd zStart;
     (i, u, c) \<leftarrow> atoi_digits zNum z k zEnd 0 0 0;
     let pNum = (if u > 0x7fffffffffffffff then (if neg then SMALLEST_INT64 else LARGEST_INT64)
                 else if neg then - sint u else sint u);
     if c \<noteq> 0 \<and> z + i < zEnd \<or> i = 0 \<and> zStart = z \<or> i > 19 * Suc k \<or> nonNum then Some (1, pNum)
     else if i < 19 * Suc k then Some (0, pNum)
     else do {
       c \<leftarrow> compare2pow63 zNum z (Suc k);
       Some (if c < 0 then 0 else if c > 0 then 1 else if neg then 0 else 2, pNum)
     }
   }"

definition sqlite3Atoi64 :: "u8 list \<Rightarrow> nat \<Rightarrow> nat \<Rightarrow> (nat \<times> int) option" where
  "sqlite3Atoi64 zNum len enc = do {
     (k, nonNum, zEnd, z) \<leftarrow> atoi64_setup zNum len enc;
     z \<leftarrow> skip_while sqlite3Isspace zNum k zEnd z;
     (neg, z) \<leftarrow> atoi64_neg zNum k zEnd z;
     atoi64_finish zNum k nonNum zEnd neg z
   }"

fun getInt32_zeros :: "u8 list \<Rightarrow> u8 list" where
  "getInt32_zeros (c # z) = (if c = 0x30 then getInt32_zeros z else c # z)"
| "getInt32_zeros [] = []"

text \<open>\<^verbatim>\<open>for(i=0; i<11 && (c = zNum[i] - '0')>=0 && c<=9; i++) v = v*10 + c\<close>; the first argument
  counts the iterations left.\<close>

fun getInt32_digits :: "nat \<Rightarrow> u8 list \<Rightarrow> nat \<Rightarrow> int \<Rightarrow> (nat \<times> int) option" where
  "getInt32_digits 0 z i v = Some (i, v)"
| "getInt32_digits (Suc n) [] i v = None"
| "getInt32_digits (Suc n) (x # z) i v =
     (let c = sint x - 0x30 in
      if c \<ge> 0 \<and> c \<le> 9 then getInt32_digits n z (i + 1) (v * 10 + c) else Some (i, v))"

text \<open>\<open>None\<close> is a read past the buffer; \<open>Some None\<close> is the return value 0 with \<^verbatim>\<open>*pValue\<close> left alone.\<close>

definition sqlite3GetInt32 :: "u8 list \<Rightarrow> int option option" where
  "sqlite3GetInt32 zNum = do {
     c \<leftarrow> rd zNum 0;
     let (neg, zNum) = (if c = 0x2d then (1, tl zNum) else if c = 0x2b then (0, tl zNum) else (0, zNum));
     (i, v) \<leftarrow> getInt32_digits 11 (getInt32_zeros zNum) 0 0;
     if i > 10 then Some None
     else if v - neg > 2147483647 then Some None
     else Some (Some (if neg = 1 then - v else v))
   }"

definition sqlite3Atoi :: "u8 list option \<Rightarrow> int option" where
  "sqlite3Atoi z =
     (case z of None \<Rightarrow> Some 0
      | Some z \<Rightarrow> map_option (\<lambda>r. case r of None \<Rightarrow> 0 | Some x \<Rightarrow> x) (sqlite3GetInt32 z))"

section \<open>Hexadecimal\<close>

definition sqlite3HexToInt :: "u8 \<Rightarrow> u8" where
  "sqlite3HexToInt h = (h + 9 * (1 AND drop_bit 6 h)) AND 0xf"

text \<open>\<open>i\<close> counts pairs: the C variable is \<open>2 * i\<close>.\<close>

function hexToBlob_loop :: "u8 list \<Rightarrow> nat \<Rightarrow> nat \<Rightarrow> u8 list \<Rightarrow> (nat \<times> u8 list) option" where
  "hexToBlob_loop z n i zBlob =
     (if 2 * i < n then do {
        a \<leftarrow> rd z (2 * i);
        b \<leftarrow> rd z (2 * i + 1);
        zBlob \<leftarrow> wr zBlob i (push_bit 4 (sqlite3HexToInt a) OR sqlite3HexToInt b);
        hexToBlob_loop z n (i + 1) zBlob
      } else Some (i, zBlob))"
  by pat_completeness auto
termination
  by (relation "measure (\<lambda>(z, n, i, b). n - 2 * i)") auto

text \<open>\<open>zBlob\<close> is the memory returned by \<^verbatim>\<open>sqlite3DbMallocRaw(db, n/2 + 1)\<close>, \<open>None\<close> the null pointer.\<close>

definition sqlite3HexToBlob :: "u8 list option \<Rightarrow> u8 list \<Rightarrow> nat \<Rightarrow> u8 list option option" where
  "sqlite3HexToBlob zBlob z n =
     (case zBlob of
        None \<Rightarrow> Some None
      | Some b \<Rightarrow> do {
          (i, b) \<leftarrow> hexToBlob_loop z (n - 1) 0 b;
          b \<leftarrow> wr b i 0;
          Some (Some b)
        })"

declare dequote_loop.simps [simp del] utf16_ascii_prefix.simps [simp del] skip_while.simps [simp del]
  atoi_digits.simps [simp del] hexToBlob_loop.simps [simp del]

section \<open>Strings seen through a stride\<close>

text \<open>The bytes \<open>zNum[z]\<close>, \<open>zNum[z + incr]\<close>, \<open>...\<close> before \<open>zEnd\<close> are the characters \<open>cs\<close>.\<close>

definition view :: "u8 list \<Rightarrow> nat \<Rightarrow> nat \<Rightarrow> nat \<Rightarrow> u8 list \<Rightarrow> bool" where
  "view zNum k zEnd z cs \<longleftrightarrow>
     (\<forall>j. z + j * Suc k < zEnd \<longleftrightarrow> j < length cs) \<and>
     (\<forall>j < length cs. rd zNum (z + j * Suc k) = Some (cs ! j))"

lemma view_Nil: "view zNum k zEnd z [] \<Longrightarrow> \<not> z < zEnd"
  unfolding view_def by (metis add.right_neutral less_nat_zero_code list.size(3) mult_0)

lemma view_Cons:
  assumes "view zNum k zEnd z (c # cs)"
  shows "z < zEnd" and "rd zNum z = Some c" and "view zNum k zEnd (z + Suc k) cs"
proof -
  have lt: "z + j * Suc k < zEnd \<longleftrightarrow> j < length (c # cs)"
    and at: "j < length (c # cs) \<Longrightarrow> rd zNum (z + j * Suc k) = Some ((c # cs) ! j)" for j
    using assms unfolding view_def by blast+
  show "z < zEnd" "rd zNum z = Some c" using lt [of 0] at [of 0] by simp_all
  show "view zNum k zEnd (z + Suc k) cs"
    unfolding view_def
  proof (intro conjI allI impI)
    fix j
    show "z + Suc k + j * Suc k < zEnd \<longleftrightarrow> j < length cs" using lt [of "Suc j"] by (simp add: algebra_simps)
    show "rd zNum (z + Suc k + j * Suc k) = Some (cs ! j)" if "j < length cs"
      using at [of "Suc j"] that by (simp add: algebra_simps)
  qed
qed

lemma view_append:
  "view zNum k zEnd z (xs @ ys) \<Longrightarrow> view zNum k zEnd (z + length xs * Suc k) ys"
proof (induction xs arbitrary: z)
  case (Cons x xs)
  from Cons.IH [OF view_Cons(3) [OF Cons.prems [unfolded append_Cons]]]
  show ?case by (simp add: algebra_simps)
qed simp

lemma skip_while_view:
  "view zNum k zEnd z cs \<Longrightarrow>
     skip_while P zNum k zEnd z = Some (z + length (takeWhile P cs) * Suc k)"
proof (induction cs arbitrary: z)
  case Nil
  then show ?case by (subst skip_while.simps) (simp add: view_Nil)
next
  case (Cons c cs)
  note v = view_Cons [OF Cons.prems]
  from v Cons.IH [OF v(3)] show ?case by (subst skip_while.simps) simp
qed

lemma view_dropWhile:
  "view zNum k zEnd z cs \<Longrightarrow>
     view zNum k zEnd (z + length (takeWhile P cs) * Suc k) (dropWhile P cs)"
  using view_append [of zNum k zEnd z "takeWhile P cs" "dropWhile P cs"] by simp

abbreviation digit :: "u8 \<Rightarrow> bool" where
  "digit c \<equiv> 0x30 \<le> c \<and> c \<le> 0x39"

lemma sint_digit: "sint x \<ge> 0x30 \<and> sint x \<le> 0x39 \<longleftrightarrow> digit x"
  by (rule u8_all [of "\<lambda>x. sint x \<ge> 0x30 \<and> sint x \<le> 0x39 \<longleftrightarrow> digit x"]) code_simp

definition dval :: "u8 \<Rightarrow> int" where
  "dval c = sint c - 0x30"

lemma dval_digit: "digit c \<Longrightarrow> 0 \<le> dval c \<and> dval c \<le> 9"
  using sint_digit [of c] by (auto simp: dval_def)

lemma dval_inj: "dval c = dval d \<longleftrightarrow> c = d"
  by (auto simp: dval_def intro: signed_word_eqI)

lemma atoi_digits_view:
  "view zNum k zEnd (z + i) cs \<Longrightarrow>
     atoi_digits zNum z k zEnd i u c =
       Some (i + length (takeWhile digit cs) * Suc k,
             foldl (\<lambda>u x. u * 10 + word_of_int (dval x)) u (takeWhile digit cs),
             (if dropWhile digit cs \<noteq> [] then sint (hd (dropWhile digit cs))
              else if cs \<noteq> [] then sint (last cs) else c))"
proof (induction cs arbitrary: i u c)
  case Nil
  then show ?case by (subst atoi_digits.simps) (simp add: view_Nil)
next
  case (Cons x cs)
  note v = view_Cons [OF Cons.prems]
  from v(3) have "view zNum k zEnd (z + (i + Suc k)) cs" by (simp add: add.assoc)
  note IH = Cons.IH [OF this]
  have "(scast x :: u64) = word_of_int (dval x) + 0x30"
    by (simp add: dval_def)
  with v IH show ?case
    unfolding atoi_digits.simps [of zNum z k zEnd i u c]
    by (simp add: sint_digit)
qed

section \<open>Decimal values\<close>

definition dec :: "u8 list \<Rightarrow> int" where
  "dec ds = foldl (\<lambda>v c. v * 10 + dval c) 0 ds"

lemma foldl_dec: "foldl (\<lambda>v c. v * 10 + dval c) a ds = a * 10 ^ length ds + dec ds"
proof (induction ds arbitrary: a)
  case (Cons d ds)
  have "dec (d # ds) = dval d * 10 ^ length ds + dec ds"
    using Cons.IH [of "dval d"] by (simp add: dec_def)
  with Cons.IH [of "a * 10 + dval d"] show ?case by (simp add: algebra_simps)
qed (simp add: dec_def)

lemma dec_Nil [simp]: "dec [] = 0"
  by (simp add: dec_def)

lemma dec_Cons: "dec (d # ds) = dval d * 10 ^ length ds + dec ds"
  using foldl_dec [of "dval d" ds] by (simp add: dec_def)

lemma dec_word: "foldl (\<lambda>u x. u * 10 + word_of_int (dval x)) (word_of_int a :: u64) ds
    = word_of_int (foldl (\<lambda>v c. v * 10 + dval c) a ds)"
proof (induction ds arbitrary: a)
  case (Cons d ds)
  have "word_of_int a * 10 + word_of_int (dval d) = (word_of_int (a * 10 + dval d) :: u64)"
    by simp
  with Cons.IH show ?case by (simp only: foldl_Cons)
qed simp

lemma dec_bounds: "list_all digit ds \<Longrightarrow> 0 \<le> dec ds \<and> dec ds < 10 ^ length ds"
proof (induction ds)
  case (Cons d ds)
  then have "dval d * 10 ^ length ds \<le> 9 * 10 ^ length ds" "0 \<le> dval d * 10 ^ length ds"
    using dval_digit [of d] by (auto intro!: mult_right_mono)
  moreover have "0 \<le> dec ds" "dec ds < 10 ^ length ds" using Cons by simp_all
  moreover have "(10 :: int) ^ length (d # ds) = 9 * 10 ^ length ds + 10 ^ length ds" by simp
  ultimately show ?case unfolding dec_Cons by linarith
qed simp

lemma dec_leading_zeros: "dec (dropWhile (\<lambda>c. c = 0x30) ds) = dec ds"
proof (induction ds)
  case (Cons d ds)
  have "dval 0x30 = 0" by (simp add: dval_def)
  with Cons show ?case by (auto simp: dec_Cons)
qed simp

lemma dec_lower: "list_all digit (d # ds) \<Longrightarrow> d \<noteq> 0x30 \<Longrightarrow> 10 ^ length ds \<le> dec (d # ds)"
proof -
  assume a: "list_all digit (d # ds)" "d \<noteq> 0x30"
  have "dval d \<noteq> 0" using a(2) dval_inj [of d "0x30"] by (auto simp: dval_def)
  with a dval_digit [of d] have "1 \<le> dval d" by simp
  then have "1 * 10 ^ length ds \<le> dval d * 10 ^ length ds" by (intro mult_right_mono) simp_all
  moreover have "0 \<le> dec ds" using a dec_bounds [of ds] by simp
  ultimately show ?thesis unfolding dec_Cons by linarith
qed

lemma dec_less:
  assumes "list_all digit xs" and "list_all digit ys" and "length xs = length ys" and "dval x < dval y"
  shows "dec (x # xs) < dec (y # ys)"
proof -
  have "(dval x + 1) * 10 ^ length xs \<le> dval y * 10 ^ length xs"
    using assms(4) by (intro mult_right_mono) simp_all
  with dec_bounds [OF assms(1)] dec_bounds [OF assms(2)] assms(3) show ?thesis
    by (simp add: dec_Cons distrib_right)
qed

lemma compare2pow63_loop_nonzero: "c \<noteq> 0 \<Longrightarrow> compare2pow63_loop zNum base ps incr i c = Some c"
  by (cases ps) simp_all

lemma compare2pow63_loop_spec:
  assumes "\<And>j. j < length xs \<Longrightarrow> rd zNum (base + (i + j) * incr) = Some (xs ! j)"
    and "length xs = length ps" and "list_all digit xs" and "list_all digit ps"
  shows "\<exists>c. compare2pow63_loop zNum base ps incr i 0 = Some c \<and> (c = 0 \<longrightarrow> xs = ps) \<and>
    (c < 0 \<longrightarrow> dec xs < dec ps) \<and> (0 < c \<longrightarrow> dec ps < dec xs)"
  using assms
proof (induction ps arbitrary: xs i)
  case (Cons p ps)
  then obtain x xs' where xs: "xs = x # xs'" by (cases xs) auto
  have x: "rd zNum (base + i * incr) = Some x" using Cons.prems(1) [of 0] xs by simp
  have rest: "rd zNum (base + (Suc i + j) * incr) = Some (xs' ! j)" if "j < length xs'" for j
    using Cons.prems(1) [of "Suc j"] xs that by simp
  have c: "(sint x - sint p) * 10 = (dval x - dval p) * 10" by (simp add: dval_def)
  show ?case
  proof (cases "dval x = dval p")
    case True
    then have "x = p" by (simp add: dval_inj)
    moreover obtain c where "compare2pow63_loop zNum base ps incr (Suc i) 0 = Some c"
        "c = 0 \<longrightarrow> xs' = ps" "c < 0 \<longrightarrow> dec xs' < dec ps" "0 < c \<longrightarrow> dec ps < dec xs'"
      using Cons.IH [of xs' "Suc i"] rest Cons.prems xs by auto
    moreover have "length xs' = length ps" using Cons.prems(2) xs by simp
    ultimately show ?thesis using x xs by (simp add: dec_Cons)
  next
    case False
    have d: "list_all digit xs'" "list_all digit ps" "length xs' = length ps"
      using Cons.prems xs by simp_all
    have "compare2pow63_loop zNum base (p # ps) incr i 0 =
        compare2pow63_loop zNum base ps incr (i + 1) ((sint x - sint p) * 10)" using x by simp
    also have "\<dots> = Some ((dval x - dval p) * 10)"
      unfolding c using False by (intro compare2pow63_loop_nonzero) simp
    finally show ?thesis
      using xs False dec_less [OF d, of x p] dec_less [OF d(2,1) d(3) [symmetric], of p x] by auto
  qed
qed simp

lemma dec_pow63: "dec pow63 = 922337203685477580" "length pow63 = 18" "list_all digit pow63"
  by code_simp+

lemma dec_snoc: "dec (xs @ [d]) = dec xs * 10 + dval d"
  by (simp add: dec_def)

lemma compare2pow63_spec:
  assumes at: "\<And>j. j < 19 \<Longrightarrow> rd zNum (z + j * Suc k) = Some (ds ! j)"
    and "length ds = 19" and "list_all digit ds"
  shows "\<exists>c. compare2pow63 zNum z (Suc k) = Some c \<and> (c < 0 \<longleftrightarrow> dec ds < 2 ^ 63) \<and>
    (c = 0 \<longleftrightarrow> dec ds = 2 ^ 63)"
proof -
  obtain xs d where ds: "ds = xs @ [d]" using assms(2) by (cases ds rule: rev_cases) auto
  have len: "length xs = 18" using assms(2) ds by simp
  have "rd zNum (z + (0 + j) * Suc k) = Some (xs ! j)" if "j < length xs" for j
    using at [of j] that len ds by (simp add: nth_append)
  from compare2pow63_loop_spec [OF this, of pow63] obtain c where
    c: "compare2pow63_loop zNum z pow63 (Suc k) 0 0 = Some c" "c = 0 \<longrightarrow> xs = pow63"
      "c < 0 \<longrightarrow> dec xs < dec pow63" "0 < c \<longrightarrow> dec pow63 < dec xs"
    using len assms(3) ds dec_pow63 by auto
  have d: "rd zNum (z + 18 * Suc k) = Some d" "sint d - 0x38 = dval d - 8"
    using at [of 18] len ds by (simp_all add: dval_def nth_append)
  have "0 \<le> dval d" "dval d \<le> 9" using dval_digit [of d] assms(3) ds by simp_all
  then show ?thesis
    using c d dec_pow63(1) unfolding ds dec_snoc compare2pow63_def
    by (cases "c = 0") auto
qed

section \<open>Text in the three encodings\<close>

definition enc_text :: "nat \<Rightarrow> u8 list \<Rightarrow> u8 list" where
  "enc_text enc cs =
     (if enc = SQLITE_UTF8 then cs
      else if enc = SQLITE_UTF16LE then concat (map (\<lambda>c. [c, 0]) cs)
      else concat (map (\<lambda>c. [0, c]) cs))"

lemma length_pairs: "length (concat (map (\<lambda>c. [f c, g c]) cs)) = 2 * length cs"
  by (induction cs) simp_all

lemma nth_pairs:
  "j < length cs \<Longrightarrow> concat (map (\<lambda>c. [f c, g c]) cs) ! (2 * j) = f (cs ! j)"
  "j < length cs \<Longrightarrow> concat (map (\<lambda>c. [f c, g c]) cs) ! (Suc (2 * j)) = g (cs ! j)"
proof (induction cs arbitrary: j)
  case (Cons c cs)
  { case 1 with Cons show ?case by (cases j) simp_all }
  { case 2 with Cons show ?case by (cases j) simp_all }
qed simp_all

lemma view_pairs:
  "view (concat (map (\<lambda>c. [c, g c]) cs)) 1 (2 * length cs) 0 cs" (is "view ?le _ _ _ _")
  "view (concat (map (\<lambda>c. [g c, c]) cs)) 1 (2 * length cs) 1 cs" (is "view ?be _ _ _ _")
proof -
  have "rd ?le (2 * j) = Some (cs ! j)" "rd ?be (Suc (2 * j)) = Some (cs ! j)" if "j < length cs" for j
    using that nth_pairs(1) [OF that, of "\<lambda>c. c" g] nth_pairs(2) [OF that, of g "\<lambda>c. c"]
    by (simp_all add: rd_def length_pairs)
  then show "view ?le 1 (2 * length cs) 0 cs" "view ?be 1 (2 * length cs) 1 cs"
    unfolding view_def by (auto simp: mult_2)
qed

lemma utf16_ascii_prefix_all:
  assumes "\<And>j. j < n \<Longrightarrow> rd z (b + 2 * j) = Some 0" and "b \<le> 1"
  shows "i \<le> n \<Longrightarrow> utf16_ascii_prefix z (2 * n) (b + 2 * i) = Some (b + 2 * n)"
proof (induction "n - i" arbitrary: i)
  case 0
  then show ?case by (subst utf16_ascii_prefix.simps) simp
next
  case (Suc m)
  then have "i < n" "m = n - Suc i" by simp_all
  moreover have "b + 2 * i < 2 * n" using \<open>i < n\<close> assms(2) by simp
  ultimately show ?case
    using Suc.hyps(1) [of "Suc i"] assms(1) [of i] by (subst utf16_ascii_prefix.simps) simp
qed

text \<open>What the prologue of \<^verbatim>\<open>sqlite3Atoi64\<close> computes on text in any of the encodings.\<close>

lemma enc_text_view:
  assumes "enc = SQLITE_UTF8 \<or> enc = SQLITE_UTF16LE \<or> enc = SQLITE_UTF16BE"
  obtains k z zEnd where "view (enc_text enc cs) k zEnd z cs"
    and "atoi64_setup (enc_text enc cs) (length (enc_text enc cs)) enc = Some (k, False, zEnd, z)"
  using assms
proof (elim disjE)
  assume e: "enc = SQLITE_UTF8"
  have "view cs 0 (length cs) 0 cs" by (simp add: view_def)
  then show ?thesis
    using that [of 0 "length cs" 0] e by (simp add: enc_text_def atoi64_setup_def)
next
  assume e: "enc = SQLITE_UTF16LE"
  let ?t = "concat (map (\<lambda>c. [c, 0]) cs)"
  have t: "enc_text enc cs = ?t"
    using e by (simp add: enc_text_def SQLITE_UTF8_def SQLITE_UTF16LE_def)
  have "utf16_ascii_prefix ?t (2 * length cs) (1 + 2 * 0) = Some (1 + 2 * length cs)"
    by (rule utf16_ascii_prefix_all) (simp_all add: length_pairs nth_pairs)
  then have "atoi64_setup ?t (length ?t) enc = Some (1, False, 2 * length cs, 0)"
    using e by (simp add: atoi64_setup_def length_pairs SQLITE_UTF8_def SQLITE_UTF16LE_def)
  note st = this
  show ?thesis
  proof (rule that)
    show "view (enc_text enc cs) 1 (2 * length cs) 0 cs" unfolding t by (rule view_pairs)
    show "atoi64_setup (enc_text enc cs) (length (enc_text enc cs)) enc = Some (1, False, 2 * length cs, 0)"
      unfolding t by (rule st)
  qed
next
  assume e: "enc = SQLITE_UTF16BE"
  let ?t = "concat (map (\<lambda>c. [0, c]) cs)"
  have t: "enc_text enc cs = ?t"
    using e by (simp add: enc_text_def SQLITE_UTF8_def SQLITE_UTF16LE_def SQLITE_UTF16BE_def)
  have "utf16_ascii_prefix ?t (2 * length cs) (0 + 2 * 0) = Some (0 + 2 * length cs)"
    by (rule utf16_ascii_prefix_all) (simp_all add: length_pairs nth_pairs)
  then have "atoi64_setup ?t (length ?t) enc = Some (1, False, 2 * length cs, 1)"
    using e by (simp add: atoi64_setup_def length_pairs SQLITE_UTF8_def SQLITE_UTF16BE_def)
  note st = this
  show ?thesis
  proof (rule that)
    show "view (enc_text enc cs) 1 (2 * length cs) 1 cs" unfolding t by (rule view_pairs)
    show "atoi64_setup (enc_text enc cs) (length (enc_text enc cs)) enc = Some (1, False, 2 * length cs, 1)"
      unfolding t by (rule st)
  qed
qed

section \<open>Reference conversion\<close>

text \<open>The conversion on the characters of the text.\<close>

definition atoi64_sign :: "u8 list \<Rightarrow> bool \<times> u8 list" where
  "atoi64_sign t =
     (case t of [] \<Rightarrow> (False, [])
      | c # t' \<Rightarrow> if c = 0x2d then (True, t') else if c = 0x2b then (False, t') else (False, t))"

definition atoi64_value :: "bool \<Rightarrow> int \<Rightarrow> int" where
  "atoi64_value neg d =
     (let u = word_of_int d :: u64 in
      if u > 0x7fffffffffffffff then (if neg then SMALLEST_INT64 else LARGEST_INT64)
      else if neg then - sint u else sint u)"

definition atoi64_ref :: "bool \<Rightarrow> u8 list \<Rightarrow> nat \<times> int" where
  "atoi64_ref neg t =
     (let z = dropWhile (\<lambda>c. c = 0x30) t; ds = takeWhile digit z; rest = dropWhile digit z
      in (if rest \<noteq> [] \<and> hd rest \<noteq> 0 \<or> ds = [] \<and> z = t \<or> length ds > 19 then 1
          else if length ds < 19 \<or> dec ds < 2 ^ 63 then 0
          else if dec ds > 2 ^ 63 then 1 else if neg then 0 else 2,
          atoi64_value neg (dec ds)))"

lemma view_lt: "view zNum k zEnd z cs \<Longrightarrow> z < zEnd \<longleftrightarrow> cs \<noteq> []"
  by (cases cs) (auto dest: view_Nil view_Cons)

lemma view_nth: "view zNum k zEnd z cs \<Longrightarrow> j < length cs \<Longrightarrow> rd zNum (z + j * Suc k) = Some (cs ! j)"
  unfolding view_def by blast

lemma atoi64_neg_view:
  assumes "view zNum k zEnd z t"
  obtains z' where "atoi64_neg zNum k zEnd z = Some (fst (atoi64_sign t), z')"
    and "view zNum k zEnd z' (snd (atoi64_sign t))"
proof (cases t)
  case Nil
  with assms that show ?thesis by (simp add: view_Nil atoi64_sign_def atoi64_neg_def)
next
  case (Cons c t')
  note v = view_Cons [OF assms [unfolded Cons]]
  have "atoi64_neg zNum k zEnd z =
      Some (fst (atoi64_sign t), if c = 0x2d \<or> c = 0x2b then z + Suc k else z)"
    using v Cons by (simp add: atoi64_sign_def atoi64_neg_def)
  moreover have "view zNum k zEnd (if c = 0x2d \<or> c = 0x2b then z + Suc k else z) (snd (atoi64_sign t))"
    using v(3) assms Cons by (simp add: atoi64_sign_def)
  ultimately show ?thesis by (rule that)
qed

lemma sint_eq_0: "sint (x :: u8) = 0 \<longleftrightarrow> x = 0"
  using signed_word_eqI [of x 0] by auto

lemma takeWhile_Nil_iff: "takeWhile P t = [] \<longleftrightarrow> dropWhile P t = t"
  using takeWhile_dropWhile_id [of P t] by (metis append_self_conv2)

lemma atoi64_finish_ref:
  assumes "view zNum k zEnd zStart t"
  shows "atoi64_finish zNum k False zEnd neg zStart = Some (atoi64_ref neg t)"
proof -
  define w where "w = dropWhile (\<lambda>c. c = 0x30) t"
  define z where "z = zStart + length (takeWhile (\<lambda>c. c = 0x30) t) * Suc k"
  define ds where "ds = takeWhile digit w"
  define rest where "rest = dropWhile digit w"
  define c where "c = (if rest \<noteq> [] then sint (hd rest) else if w \<noteq> [] then sint (last w) else 0)"
  note skip = skip_while_view [OF assms, of "\<lambda>c. c = 0x30", folded z_def]
  have v: "view zNum k zEnd z w"
    using view_dropWhile [OF assms, of "\<lambda>c. c = 0x30"] by (simp add: z_def w_def)
  have digs: "atoi_digits zNum z k zEnd 0 0 0 = Some (length ds * Suc k, word_of_int (dec ds), c)"
    using atoi_digits_view [of zNum k zEnd z 0 w 0 0] dec_word [of 0] v
    unfolding dec_def c_def ds_def rest_def by (simp del: word_of_int_0)
  have more: "z + length ds * Suc k < zEnd \<longleftrightarrow> rest \<noteq> []"
    using view_lt [OF view_dropWhile [OF v, of digit]] by (simp add: ds_def rest_def)
  have at: "rd zNum (z + j * Suc k) = Some (ds ! j)" if "j < length ds" for j
  proof -
    have "j < length w" using that length_takeWhile_le [of digit w] by (simp add: ds_def)
    from view_nth [OF v this] that show ?thesis by (simp only: ds_def takeWhile_nth)
  qed
  have dig: "list_all digit ds" by (auto simp: ds_def list_all_iff dest: set_takeWhileD)
  have start: "zStart = z \<longleftrightarrow> w = t"
    using takeWhile_Nil_iff [of "\<lambda>c. c = 0x30" t] by (auto simp: z_def w_def)
  have cond: "(c \<noteq> 0 \<and> z + length ds * Suc k < zEnd \<or> length ds * Suc k = 0 \<and> zStart = z \<or>
      length ds * Suc k > 19 * Suc k \<or> False) \<longleftrightarrow>
      (rest \<noteq> [] \<and> hd rest \<noteq> 0 \<or> ds = [] \<and> w = t \<or> length ds > 19)"
    unfolding more start mult_less_cancel2 by (auto simp: c_def sint_eq_0)
  have cmp: "\<exists>c. compare2pow63 zNum z (Suc k) = Some c \<and> (c < 0 \<longleftrightarrow> dec ds < 2 ^ 63) \<and>
      (c = 0 \<longleftrightarrow> dec ds = 2 ^ 63)" if "length ds = 19"
    using compare2pow63_spec [of zNum z k ds] at that dig by auto
  have lt: "length ds * Suc k < 19 * Suc k \<longleftrightarrow> length ds < 19" by (rule mult_less_cancel2 [THEN trans]) simp
  have ref: "atoi64_ref neg t =
    (if rest \<noteq> [] \<and> hd rest \<noteq> 0 \<or> ds = [] \<and> w = t \<or> length ds > 19 then 1
     else if length ds < 19 \<or> dec ds < 2 ^ 63 then 0
     else if dec ds > 2 ^ 63 then 1 else if neg then 0 else 2, atoi64_value neg (dec ds))"
    by (simp only: atoi64_ref_def Let_def w_def ds_def rest_def)
  show ?thesis
    unfolding atoi64_finish_def skip bind.bind_lunit digs prod.case Let_def cond ref lt atoi64_value_def
    using cmp by (cases "length ds = 19") auto
qed

lemma sqlite3Atoi64_ref:
  assumes "enc = SQLITE_UTF8 \<or> enc = SQLITE_UTF16LE \<or> enc = SQLITE_UTF16BE"
  shows "sqlite3Atoi64 (enc_text enc cs) (length (enc_text enc cs)) enc =
    (let (neg, t) = atoi64_sign (dropWhile sqlite3Isspace cs) in Some (atoi64_ref neg t))"
proof -
  let ?s = "enc_text enc cs" and ?t = "dropWhile sqlite3Isspace cs"
  obtain k z zEnd where v: "view ?s k zEnd z cs"
    and st: "atoi64_setup ?s (length ?s) enc = Some (k, False, zEnd, z)"
    using enc_text_view [OF assms] by blast
  obtain z' where n: "atoi64_neg ?s k zEnd (z + length (takeWhile sqlite3Isspace cs) * Suc k) =
        Some (fst (atoi64_sign ?t), z')" and v': "view ?s k zEnd z' (snd (atoi64_sign ?t))"
    using atoi64_neg_view [OF view_dropWhile [OF v]] by blast
  show ?thesis
    using skip_while_view [OF v, of sqlite3Isspace] n atoi64_finish_ref [OF v']
    by (simp add: sqlite3Atoi64_def st case_prod_beta)
qed

text \<open>On a value below \<open>2\<^sup>6\<^sup>4\<close> nothing wraps.\<close>

lemma atoi64_value_exact:
  assumes "0 \<le> d" and "d < 2 ^ 64" and "i64_range (if neg then - d else d)"
  shows "atoi64_value neg d = (if neg then - d else d)"
proof -
  have u: "uint (word_of_int d :: u64) = d" using assms(1,2) by (simp add: unsigned_of_int take_bit_int_eq_self)
  then have gt: "word_of_int d > (0x7fffffffffffffff :: u64) \<longleftrightarrow> d > LARGEST_INT64"
    by (simp add: word_less_def)
  have s: "sint (word_of_int d :: u64) = d" if "d \<le> LARGEST_INT64"
    using that assms(1) by (simp only: sint_uint u) (simp add: signed_take_bit_int_eq_self)
  show ?thesis using assms(3) gt s by (cases neg) (auto simp: atoi64_value_def Let_def i64_range_def)
qed

lemma not_space_digit: "digit c \<Longrightarrow> \<not> sqlite3Isspace c"
  by (rule u8_all [of "\<lambda>c. digit c \<longrightarrow> \<not> sqlite3Isspace c", THEN mp]) code_simp

lemma dropWhile_digits: "list_all digit ds \<Longrightarrow> list_all digit (dropWhile P ds)"
  by (auto simp: list_all_iff dest: set_dropWhileD)

lemma atoi64_ref_digits:
  assumes "ds \<noteq> []" and "list_all digit ds" and v_def: "v = (if neg then - dec ds else dec ds)"
  shows "\<exists>x. atoi64_ref neg ds = (if i64_range v then 0 else if v = 2 ^ 63 then 2 else 1, x) \<and>
    (i64_range v \<longrightarrow> x = v)"
proof -
  let ?z = "dropWhile (\<lambda>c. c = 0x30) ds"
  have z: "list_all digit ?z" "dec ?z = dec ds" "takeWhile digit ?z = ?z" "dropWhile digit ?z = []"
    using dropWhile_digits [OF assms(2), of "\<lambda>c. c = 0x30"]
    by (simp_all add: dec_leading_zeros takeWhile_eq_all_conv list_all_iff)
  have b: "0 \<le> dec ds" "dec ds < 10 ^ length ?z"
    using dec_bounds [OF z(1)] z(2) by simp_all
  have ne: "(?z = [] \<and> ?z = ds) = False" using assms(1) by metis
  have ref: "atoi64_ref neg ds =
    (if length ?z > 19 then 1 else if length ?z < 19 \<or> dec ds < 2 ^ 63 then 0
     else if dec ds > 2 ^ 63 then 1 else if neg then 0 else 2, atoi64_value neg (dec ds))"
    unfolding atoi64_ref_def Let_def z(2-4) ne by simp
  consider (big) "length ?z > 19" | (small) "length ?z < 19" | (mid) "length ?z = 19" by linarith
  then show ?thesis
  proof cases
    case big
    then obtain d w where w: "?z = d # w" "19 \<le> length w" by (cases ?z) auto
    have "d \<noteq> 0x30" using w(1) by (metis (mono_tags) dropWhile_eq_Cons_conv)
    with dec_lower [of d w] z w have "10 ^ length w \<le> dec ds" by simp
    moreover have "(10 :: int) ^ 19 \<le> 10 ^ length w" using w(2) by (intro power_increasing) simp_all
    ultimately have "10 ^ 19 \<le> dec ds" by linarith
    then show ?thesis using ref big by (auto simp: v_def i64_range_def)
  next
    case small
    then have "(10 :: int) ^ length ?z \<le> 10 ^ 18" by (intro power_increasing) simp_all
    with b have "dec ds < 10 ^ 18" by linarith
    then show ?thesis
      using ref small b atoi64_value_exact [of "dec ds" neg] by (auto simp: v_def i64_range_def)
  next
    case mid
    with b have "dec ds < 10 ^ 19" by simp
    then show ?thesis
      using ref mid b atoi64_value_exact [of "dec ds" neg] by (auto simp: v_def i64_range_def)
  qed
qed

section \<open>32-bit integers\<close>

lemma getInt32_zeros_append:
  "c \<noteq> 0x30 \<Longrightarrow> getInt32_zeros (ds @ c # r) = dropWhile (\<lambda>c. c = 0x30) ds @ c # r"
  by (induction ds) simp_all

lemma getInt32_digits_append:
  assumes "\<not> digit c"
  shows "list_all digit ds \<Longrightarrow> getInt32_digits n (ds @ c # r) i v =
    Some (i + min n (length ds), foldl (\<lambda>v c. v * 10 + dval c) v (take n ds))"
proof (induction n arbitrary: ds i v)
  case (Suc n)
  have d: "sint x - 0x30 \<ge> 0 \<and> sint x - 0x30 \<le> 9 \<longleftrightarrow> digit x" for x :: u8
    using sint_digit [of x] by auto
  show ?case
  proof (cases ds)
    case Nil
    with d [of c] assms show ?thesis by (auto simp: Let_def)
  next
    case (Cons x ds')
    then have "digit x" "list_all digit ds'" using Suc.prems by simp_all
    with Suc.IH [of ds' "i + 1" "v * 10 + dval x"] d [of x] Cons show ?thesis
      by (simp add: Let_def dval_def)
  qed
qed simp

lemma dec_significant:
  assumes "list_all digit ds" and "n < length (dropWhile (\<lambda>c. c = 0x30) ds)"
  shows "10 ^ n \<le> dec ds"
proof -
  obtain d w where w: "dropWhile (\<lambda>c. c = 0x30) ds = d # w" "n \<le> length w"
    using assms(2) by (cases "dropWhile (\<lambda>c. c = 0x30) ds") auto
  have "d \<noteq> 0x30" using w(1) by (metis (mono_tags) dropWhile_eq_Cons_conv)
  with dec_lower [of d w] dropWhile_digits [OF assms(1), of "\<lambda>c. c = 0x30"] dec_leading_zeros [of ds] w
  have "10 ^ length w \<le> dec ds" by simp
  moreover have "(10 :: int) ^ n \<le> 10 ^ length w" using w(2) by (intro power_increasing) simp_all
  ultimately show ?thesis by linarith
qed

section \<open>Quoting\<close>

text \<open>The quoted form of a name: the quote character doubled.\<close>

definition double_quotes :: "u8 \<Rightarrow> u8 list \<Rightarrow> u8 list" where
  "double_quotes q s = concat (map (\<lambda>c. if c = q then [q, q] else [c]) s)"

lemma double_quotes_simps [simp]:
  "double_quotes q [] = []"
  "double_quotes q (c # s) = (if c = q then q # q # double_quotes q s else c # double_quotes q s)"
  by (simp_all add: double_quotes_def)

lemma dequote_loop_spec:
  assumes "c \<noteq> q"
  shows "g \<noteq> [] \<Longrightarrow> \<exists>g'. dequote_loop q (out @ g @ double_quotes q s @ q # c # r) (length out + length g) (length out)
      = Some (length (out @ s), out @ s @ g') \<and> g' \<noteq> [] \<and>
      length (s @ g') = length (g @ double_quotes q s @ q # c # r)"
proof (induction s arbitrary: out g)
  case Nil
  with assms show ?case by (subst dequote_loop.simps) (simp add: rd_def nth_append)
next
  case (Cons x s)
  then obtain g0 gs where g: "g = g0 # gs" by (cases g) auto
  let ?rest = "double_quotes q s @ q # c # r"
  let ?t = "if x = q then [q, q] else [x]"
  have "dequote_loop q (out @ g @ double_quotes q (x # s) @ q # c # r) (length out + length g) (length out) =
      dequote_loop q ((out @ [x]) @ (gs @ ?t) @ ?rest) (length (out @ [x]) + length (gs @ ?t)) (length (out @ [x]))"
    by (subst dequote_loop.simps) (simp add: g rd_def nth_append list_update_append wr_def)
  moreover have "gs @ ?t \<noteq> []" by simp
  ultimately show ?case using Cons.IH [of "gs @ ?t" "out @ [x]"] g by (auto split: if_splits)
qed

section \<open>Hexadecimal\<close>

definition hexdigit :: "bool \<Rightarrow> u8 \<Rightarrow> u8" where
  "hexdigit upper n = (if n < 10 then 0x30 + n else if upper then 0x37 + n else 0x57 + n)"

definition hextext :: "bool \<Rightarrow> u8 list \<Rightarrow> u8 list" where
  "hextext upper bs = concat (map (\<lambda>b. [hexdigit upper (drop_bit 4 b), hexdigit upper (b AND 0xf)]) bs)"

lemma HexToInt_hexdigit:
  "push_bit 4 (sqlite3HexToInt (hexdigit up (drop_bit 4 b))) OR sqlite3HexToInt (hexdigit up (b AND 0xf)) = b"
proof (cases up)
  case True
  then have T: "up = True" by simp
  show ?thesis unfolding T
    by (rule u8_all [of "\<lambda>b. push_bit 4 (sqlite3HexToInt (hexdigit True (drop_bit 4 b))) OR
      sqlite3HexToInt (hexdigit True (b AND 0xf)) = b"]) code_simp
next
  case False
  then have F: "up = False" by simp
  show ?thesis unfolding F
    by (rule u8_all [of "\<lambda>b. push_bit 4 (sqlite3HexToInt (hexdigit False (drop_bit 4 b))) OR
      sqlite3HexToInt (hexdigit False (b AND 0xf)) = b"]) code_simp
qed

lemma hexToBlob_loop_spec:
  "length out = i \<Longrightarrow> length g = length bs \<Longrightarrow> length pre = 2 * i \<Longrightarrow>
   hexToBlob_loop (pre @ hextext up bs @ r) (2 * (i + length bs)) i (out @ g @ e) = Some (i + length bs, out @ bs @ e)"
proof (induction bs arbitrary: out g i pre)
  case Nil
  then show ?case by (subst hexToBlob_loop.simps) simp
next
  case (Cons b bs)
  then obtain g0 gs where g: "g = g0 # gs" by (cases g) auto
  let ?h = "[hexdigit up (drop_bit 4 b), hexdigit up (b AND 0xf)]"
  have h: "hextext up (b # bs) = ?h @ hextext up bs" by (simp add: hextext_def)
  have "hexToBlob_loop (pre @ hextext up (b # bs) @ r) (2 * (i + length (b # bs))) i (out @ g @ e) =
      hexToBlob_loop ((pre @ ?h) @ hextext up bs @ r) (2 * (Suc i + length bs)) (Suc i) ((out @ [b]) @ gs @ e)"
    using Cons.prems
    by (subst hexToBlob_loop.simps) (simp add: h g rd_def wr_def nth_append list_update_append HexToInt_hexdigit)
  also have "\<dots> = Some (Suc i + length bs, (out @ [b]) @ bs @ e)"
    using Cons.prems g by (intro Cons.IH) simp_all
  finally show ?case by simp
qed

section \<open>Properties\<close>

lemma atoi64_decimal:
  assumes "enc \<in> {SQLITE_UTF8, SQLITE_UTF16LE, SQLITE_UTF16BE}"
    and "list_all sqlite3Isspace sp" and "sg \<in> {[], [0x2b], [0x2d]}"
    and "ds \<noteq> []" and "list_all digit ds"
    and "v = (if sg = [0x2d] then - dec ds else dec ds)"
    and "s = enc_text enc (sp @ sg @ ds)"
  shows "\<exists>x. sqlite3Atoi64 s (length s) enc =
      Some (if i64_range v then 0 else if v = 2 ^ 63 then 2 else 1, x) \<and> (i64_range v \<longrightarrow> x = v)"
proof -
  obtain d ds' where ds: "ds = d # ds'" "digit d" using assms(4,5) by (cases ds) auto
  have "\<not> sqlite3Isspace (hd (sg @ ds))" "sg @ ds \<noteq> []"
    using assms(3) ds not_space_digit [OF ds(2)] by (auto simp: Isspace_eq)
  then have "dropWhile sqlite3Isspace (sp @ sg @ ds) = sg @ ds"
    using assms(2) by (subst dropWhile_append2) (auto simp: list_all_iff dropWhile_eq_self_iff)
  moreover have "atoi64_sign (sg @ ds) = (sg = [0x2d], ds)"
    using assms(3) ds by (auto simp: atoi64_sign_def)
  moreover have "enc = SQLITE_UTF8 \<or> enc = SQLITE_UTF16LE \<or> enc = SQLITE_UTF16BE" using assms(1) by simp
  ultimately show ?thesis
    using sqlite3Atoi64_ref [of enc "sp @ sg @ ds"] atoi64_ref_digits [OF assms(4,5,6)] assms(7)
    by simp
qed

text \<open>C33. Leading white space, an optional sign and at least one digit, in any of the three
  encodings, convert to the value they denote: code 0 and the value when it is a 64-bit integer,
  code 2 for exactly \<open>2\<^sup>6\<^sup>3\<close>, code 1 for anything larger in magnitude.\<close>

theorem sqlite3Atoi64_decimal:
  assumes "enc \<in> {SQLITE_UTF8, SQLITE_UTF16LE, SQLITE_UTF16BE}"
    and "list_all sqlite3Isspace sp" and "sg \<in> {[], [0x2b], [0x2d]}"
    and "ds \<noteq> []" and "list_all digit ds"
    and "v = (if sg = [0x2d] then - dec ds else dec ds)"
    and "s = enc_text enc (sp @ sg @ ds)"
  shows "\<exists>x. sqlite3Atoi64 s (length s) enc =
      Some (if i64_range v then 0 else if v = 2 ^ 63 then 2 else 1, x) \<and> (i64_range v \<longrightarrow> x = v)"
  using assms by (rule atoi64_decimal)

theorem sqlite3Atoi64_decimal_witness:
  "sqlite3Atoi64 (enc_text SQLITE_UTF16LE (map of_char ''  -42'')) 10 SQLITE_UTF16LE = Some (0, - 42)"
proof -
  have l: "list_all sqlite3Isspace [0x20, 0x20]" "list_all digit [0x34, 0x32]" "dec [0x34, 0x32] = 42"
    "length (enc_text SQLITE_UTF16LE ([0x20, 0x20] @ [0x2d] @ [0x34, 0x32])) = 10"
    "map of_char ''  -42'' = [0x20, 0x20] @ [0x2d] @ [0x34, 0x32 :: u8]"
    by code_simp+
  have "i64_range (- 42)" by (simp add: i64_range_def)
  then show ?thesis
    using sqlite3Atoi64_decimal [OF _ l(1) _ _ l(2) refl refl, of SQLITE_UTF16LE "[0x2d]"] l(3,4) unfolding l(5)
    by (auto simp: SQLITE_UTF8_def SQLITE_UTF16LE_def SQLITE_UTF16BE_def)
qed

text \<open>A sign and digits followed by any other character convert to their value when it fits in
  32 bits and are refused otherwise; with no digit at all the result is 0 and is not
  refused.\<close>

lemma sqlite3GetInt32_decimal:
  assumes "sg \<in> {[], [0x2b], [0x2d]}" and "list_all digit ds" and "\<not> digit c"
    and "sg = [] \<and> ds = [] \<longrightarrow> c \<noteq> 0x2b \<and> c \<noteq> 0x2d"
    and "v = (if sg = [0x2d] then - dec ds else dec ds)"
  shows "sqlite3GetInt32 (sg @ ds @ c # r) = Some (if i32_range v then Some v else None)"
proof -
  let ?z = "dropWhile (\<lambda>c. c = 0x30) ds"
  let ?neg = "(if sg = [0x2d] then 1 else 0) :: int"
  have z: "list_all digit ?z" "dec ?z = dec ds"
    using dropWhile_digits [OF assms(2)] by (simp_all add: dec_leading_zeros)
  obtain x xs where hd: "sg @ ds @ c # r = x # xs" by (cases "sg @ ds @ c # r") auto
  have "(if x = 0x2d then (1, tl (x # xs)) else if x = 0x2b then (0, tl (x # xs)) else (0, x # xs)) = (?neg, ds @ c # r)"
    using hd assms(1,2,4) by (cases ds) auto
  moreover have "c \<noteq> 0x30" using assms(3) by auto
  ultimately have "sqlite3GetInt32 (sg @ ds @ c # r) = (case (min 11 (length ?z), dec (take 11 ?z)) of (i, v) \<Rightarrow>
      if i > 10 then Some None else if v - ?neg > 2147483647 then Some None
      else Some (Some (if ?neg = 1 then - v else v)))"
    using getInt32_digits_append [OF assms(3) z(1), of 11 r 0 0]
    by (simp add: sqlite3GetInt32_def hd getInt32_zeros_append dec_def)
  also have "\<dots> = Some (if i32_range v then Some v else None)"
  proof (cases "10 < length ?z")
    case True
    from dec_significant [OF assms(2) this] True show ?thesis by (auto simp: i32_range_def assms(5))
  next
    case False
    with dec_bounds [OF z(1)] z(2) show ?thesis by (auto simp: i32_range_def assms(5))
  qed
  finally show ?thesis .
qed

lemma dequote_quoted:
  assumes "q \<in> {0x27, 0x22, 0x60, 0x5b}" and "e = (if q = 0x5b then 0x5d else q)" and "c \<noteq> e"
    and "z = q # double_quotes e s @ e # c # r"
  shows "\<exists>z'. sqlite3Dequote z = Some (int (length s), s @ 0 # z') \<and> length (s @ 0 # z') \<le> length z"
proof -
  obtain g where "dequote_loop e z 1 0 = Some (length s, s @ g)" "g \<noteq> []" "length (s @ g) = length z"
    using dequote_loop_spec [OF assms(3), of "[q]" "[]" s r] unfolding assms(4) by auto
  then show ?thesis
    using assms(1,2,4) by (cases g) (auto simp: sqlite3Dequote_def wr_def)
qed

text \<open>Removing the quotes of a quoted name gives the name back, in place and terminated, for
  every quoting style, and returns its length; the closing quote is found even if the name
  contains doubled quotes.\<close>

lemma sqlite3Dequote_quoted:
  assumes "q \<in> {0x27, 0x22, 0x60, 0x5b}" and "e = (if q = 0x5b then 0x5d else q)" and "c \<noteq> e"
    and "z = q # double_quotes e s @ e # c # r"
  shows "\<exists>z'. sqlite3Dequote z = Some (int (length s), s @ 0 # z') \<and> length (s @ 0 # z') \<le> length z"
  using assms by (rule dequote_quoted)

text \<open>A blob literal decodes to the bytes it spells, in either case of letters, inside the buffer of
  \<^verbatim>\<open>n/2 + 1\<close> bytes that was allocated for it, and is terminated.\<close>

lemma sqlite3HexToBlob_hextext:
  assumes "n = 2 * length bs + 1" and "length b = n div 2 + 1"
  shows "sqlite3HexToBlob (Some b) (hextext upper bs @ r) n = Some (Some (bs @ [0]))"
proof -
  obtain g e where b: "b = g @ [e]" "length g = length bs" using assms by (cases b rule: rev_cases) auto
  have "hexToBlob_loop ([] @ hextext upper bs @ r) (2 * (0 + length bs)) 0 ([] @ g @ [e]) =
      Some (0 + length bs, [] @ bs @ [e])"
    using b by (intro hexToBlob_loop_spec) simp_all
  then show ?thesis using assms b by (simp add: sqlite3HexToBlob_def wr_def list_update_append)
qed

end
