(* ===== verification/Hash.thy ===== *)
theory Hash
  imports Ctype
begin

text \<open>
  The generic hash table (\<^verbatim>\<open>hash.c\<close>, \<^verbatim>\<open>hash.h\<close>). All elements are on one doubly linked list; it
  is the list \<open>first\<close>, whose elements carry the address of their object, so that the
  pointers that buckets hold into the middle of the list are addresses. Following a bucket pointer
  to an object that is not on the list any more is \<open>None\<close>. A key is the byte list at
  \<open>pKey\<close>, of length \<open>nKey\<close>; the null data pointer is \<open>None\<close>. What \<^verbatim>\<open>sqlite3Malloc\<close> and
  \<^verbatim>\<open>sqlite3MallocSize\<close> answer is an argument.

  The table refines a finite map from case-folded keys to data, whatever allocations fail.
\<close>

section \<open>Data\<close>

record 'd HashElem =
  addr :: nat
  data :: 'd
  pKey :: "u8 list"

record 'd Hash =
  htsize :: nat
  count :: nat
  first :: "'d HashElem list"
  ht :: "(int \<times> nat option) list option"

text \<open>The outcome of the allocations of one insertion: the address of a new element, and for a
  bucket array of a given number of bytes the usable size of what was obtained.\<close>

record alloc =
  newElem :: "nat option"
  newHt :: "nat \<Rightarrow> nat option"

section \<open>Operations\<close>

definition sqlite3HashInit :: "'d Hash" where
  "sqlite3HashInit = \<lparr>htsize = 0, count = 0, first = [], ht = None\<rparr>"

definition sqlite3HashClear :: "'d Hash \<Rightarrow> 'd Hash" where
  "sqlite3HashClear pH = pH\<lparr>first := [], ht := None, htsize := 0, count := 0\<rparr>"

fun strHash_loop :: "u32 \<Rightarrow> u8 list \<Rightarrow> u32" where
  "strHash_loop h [] = h"
| "strHash_loop h (c # z) = strHash_loop (push_bit 3 h XOR h XOR ucast (sqlite3Tolower c)) z"

definition strHash :: "u8 list \<Rightarrow> u32" where
  "strHash z = strHash_loop 0 z"

fun insert_before :: "nat \<Rightarrow> 'd HashElem \<Rightarrow> 'd HashElem list \<Rightarrow> 'd HashElem list option" where
  "insert_before a pNew [] = None"
| "insert_before a pNew (e # es) =
     (if addr e = a then Some (pNew # e # es) else map_option ((#) e) (insert_before a pNew es))"

definition insertElement :: "'d Hash \<Rightarrow> nat option \<Rightarrow> 'd HashElem \<Rightarrow> 'd Hash option" where
  "insertElement pH pEntry pNew =
     (case (pEntry, ht pH) of
        (Some h, Some t) \<Rightarrow> do {
          (cnt, chain) \<leftarrow> rd t h;
          let pHead = (if cnt \<noteq> 0 then chain else None);
          let pH = pH\<lparr>ht := Some (t[h := (cnt + 1, Some (addr pNew))])\<rparr>;
          (case pHead of
             Some a \<Rightarrow> do {
               es \<leftarrow> insert_before a pNew (first pH);
               Some (pH\<lparr>first := es\<rparr>)
             }
           | None \<Rightarrow> Some (pH\<lparr>first := pNew # first pH\<rparr>))
        }
      | _ \<Rightarrow> Some (pH\<lparr>first := pNew # first pH\<rparr>))"

fun rehash_loop :: "'d HashElem list \<Rightarrow> 'd Hash \<Rightarrow> 'd Hash option" where
  "rehash_loop [] pH = Some pH"
| "rehash_loop (e # es) pH = do {
     pH \<leftarrow> insertElement pH (Some (unat (strHash (pKey e)) mod htsize pH)) e;
     rehash_loop es pH
   }"

definition SIZEOF_HT :: nat where "SIZEOF_HT = 16"
definition SQLITE_MALLOC_SOFT_LIMIT :: nat where "SQLITE_MALLOC_SOFT_LIMIT = 1024"

definition rehash :: "alloc \<Rightarrow> 'd Hash \<Rightarrow> nat \<Rightarrow> (bool \<times> 'd Hash) option" where
  "rehash mem pH new_size =
     (let new_size = (if new_size * SIZEOF_HT > SQLITE_MALLOC_SOFT_LIMIT
                      then SQLITE_MALLOC_SOFT_LIMIT div SIZEOF_HT else new_size) in
      if new_size = htsize pH then Some (False, pH)
      else (case newHt mem (new_size * SIZEOF_HT) of
              None \<Rightarrow> Some (False, pH)
            | Some sz \<Rightarrow>
                (let new_size = sz div SIZEOF_HT in do {
                   pH' \<leftarrow> rehash_loop (first pH)
                     (pH\<lparr>ht := Some (replicate new_size (0, None)), htsize := new_size, first := []\<rparr>);
                   Some (True, pH')
                 })))"

fun from_addr :: "nat option \<Rightarrow> 'd HashElem list \<Rightarrow> 'd HashElem list option" where
  "from_addr None es = Some []"
| "from_addr (Some a) [] = None"
| "from_addr (Some a) (e # es) = (if addr e = a then Some (e # es) else from_addr (Some a) es)"

fun findElement_loop :: "int \<Rightarrow> 'd HashElem list \<Rightarrow> u8 list \<Rightarrow> 'd HashElem option option" where
  "findElement_loop cnt [] key = Some None"
| "findElement_loop cnt (elem # es) key =
     (if cnt = 0 then Some None
      else if length (pKey elem) = length key then do {
        c \<leftarrow> sqlite3_strnicmp (pKey elem) key (length key);
        if c = 0 then Some (Some elem) else findElement_loop (cnt - 1) es key
      } else findElement_loop (cnt - 1) es key)"

definition findElementGivenHash :: "'d Hash \<Rightarrow> u8 list \<Rightarrow> nat \<Rightarrow> 'd HashElem option option" where
  "findElementGivenHash pH key h =
     (case ht pH of
        Some t \<Rightarrow> do {
          (cnt, chain) \<leftarrow> rd t h;
          if cnt = 0 then Some None
          else do {
            es \<leftarrow> from_addr chain (first pH);
            findElement_loop cnt es key
          }
        }
      | None \<Rightarrow> findElement_loop (int (count pH)) (first pH) key)"

fun next_addr :: "nat \<Rightarrow> 'd HashElem list \<Rightarrow> nat option" where
  "next_addr a (e # e' # es) = (if addr e = a then Some (addr e') else next_addr a (e' # es))"
| "next_addr a _ = None"

definition removeElementGivenHash :: "'d Hash \<Rightarrow> 'd HashElem \<Rightarrow> nat \<Rightarrow> 'd Hash option" where
  "removeElementGivenHash pH elem h = do {
     let nxt = next_addr (addr elem) (first pH);
     let pH = pH\<lparr>first := filter (\<lambda>e. addr e \<noteq> addr elem) (first pH)\<rparr>;
     pH \<leftarrow> (case ht pH of
              Some t \<Rightarrow> do {
                (cnt, chain) \<leftarrow> rd t h;
                Some (pH\<lparr>ht := Some (t[h := (cnt - 1, if chain = Some (addr elem) then nxt else chain)])\<rparr>)
              }
            | None \<Rightarrow> Some pH);
     let pH = pH\<lparr>count := count pH - 1\<rparr>;
     Some (if count pH = 0 then sqlite3HashClear pH else pH)
   }"

definition sqlite3HashFind :: "'d Hash \<Rightarrow> u8 list \<Rightarrow> 'd option option" where
  "sqlite3HashFind pH key = do {
     elem \<leftarrow> findElementGivenHash pH key (case ht pH of Some t \<Rightarrow> unat (strHash key) mod htsize pH | None \<Rightarrow> 0);
     Some (map_option data elem)
   }"

text \<open>The part of \<^verbatim>\<open>sqlite3HashInsert\<close> that enlarges a crowded table.\<close>

definition hashGrow :: "alloc \<Rightarrow> 'd Hash \<Rightarrow> u8 list \<Rightarrow> nat \<Rightarrow> (nat \<times> 'd Hash) option" where
  "hashGrow mem pH key h =
     (if count pH \<ge> 10 \<and> count pH > 2 * htsize pH then do {
        (resized, pH) \<leftarrow> rehash mem pH (count pH * 2);
        Some (if resized then unat (strHash key) mod htsize pH else h, pH)
      } else Some (h, pH))"

definition sqlite3HashInsert :: "alloc \<Rightarrow> 'd Hash \<Rightarrow> u8 list \<Rightarrow> 'd option \<Rightarrow> ('d option \<times> 'd Hash) option" where
  "sqlite3HashInsert mem pH key d = do {
     let h = (if htsize pH \<noteq> 0 then unat (strHash key) mod htsize pH else 0);
     elem \<leftarrow> findElementGivenHash pH key h;
     (case elem of
        Some e \<Rightarrow>
          (case d of
             None \<Rightarrow> do {
               pH \<leftarrow> removeElementGivenHash pH e h;
               Some (Some (data e), pH)
             }
           | Some v \<Rightarrow>
               Some (Some (data e),
                 pH\<lparr>first := map (\<lambda>x. if addr x = addr e then x\<lparr>data := v, pKey := key\<rparr> else x) (first pH)\<rparr>))
      | None \<Rightarrow>
          (case d of
             None \<Rightarrow> Some (None, pH)
           | Some v \<Rightarrow>
               (case newElem mem of
                  None \<Rightarrow> Some (Some v, pH)
                | Some a \<Rightarrow> do {
                    let new_elem = \<lparr>addr = a, data = v, pKey = key\<rparr>;
                    let pH = pH\<lparr>count := count pH + 1\<rparr>;
                    (h, pH) \<leftarrow> hashGrow mem pH key h;
                    pH \<leftarrow> insertElement pH (case ht pH of Some t \<Rightarrow> Some h | None \<Rightarrow> None) new_elem;
                    Some (None, pH)
                  })))
   }"

section \<open>Invariant and abstraction\<close>

abbreviation bucket :: "nat \<Rightarrow> 'd HashElem \<Rightarrow> nat" where
  "bucket n e \<equiv> unat (strHash (pKey e)) mod n"

abbreviation folded :: "'d HashElem \<Rightarrow> u8 list" where
  "folded e \<equiv> fold_case (pKey e)"

text \<open>The elements of bucket \<open>b\<close> are consecutive on the list and the bucket counts them and points at
  the first.\<close>

definition bucket_ok :: "(int \<times> nat option) list \<Rightarrow> 'd HashElem list \<Rightarrow> nat \<Rightarrow> bool" where
  "bucket_ok t es b \<longleftrightarrow>
     (let seg = filter (\<lambda>e. bucket (length t) e = b) es in
      fst (t ! b) = int (length seg) \<and> (\<exists>pre post. es = pre @ seg @ post) \<and>
      (seg \<noteq> [] \<longrightarrow> snd (t ! b) = Some (addr (hd seg))))"

definition table_inv :: "'d Hash \<Rightarrow> bool" where
  "table_inv pH \<longleftrightarrow>
     distinct (map addr (first pH)) \<and>
     (case ht pH of None \<Rightarrow> htsize pH = 0
      | Some t \<Rightarrow> htsize pH = length t \<and> 0 < length t \<and> (\<forall>b < length t. bucket_ok t (first pH) b))"

definition hash_inv :: "'d Hash \<Rightarrow> bool" where
  "hash_inv pH \<longleftrightarrow>
     table_inv pH \<and> count pH = length (first pH) \<and> inj_on folded (set (first pH)) \<and>
     (\<forall>e \<in> set (first pH). 0 \<notin> set (pKey e))"

definition hash_map :: "'d Hash \<Rightarrow> u8 list \<rightharpoonup> 'd" where
  "hash_map pH k = map_option data (find (\<lambda>e. folded e = k) (first pH))"

section \<open>Keys\<close>

lemma strHash_fold: "fold_case a = fold_case b \<Longrightarrow> strHash a = strHash b"
proof -
  have *: "strHash_loop h k = strHash_loop h (fold_case k)" for h k
    by (induction k arbitrary: h) simp_all
  assume "fold_case a = fold_case b"
  then show ?thesis unfolding strHash_def by (metis *)
qed

lemma strnicmp_exact:
  "length a = length b \<Longrightarrow> 0 \<notin> set a \<Longrightarrow>
    \<exists>c. sqlite3_strnicmp a b (length b) = Some c \<and> (c = 0 \<longleftrightarrow> fold_case a = fold_case b)"
  using strnicmp_take [of "length b" a b] by simp

lemma findElement_loop_spec:
  "\<forall>e \<in> set es. 0 \<notin> set (pKey e) \<Longrightarrow>
    findElement_loop (int n) es key = Some (find (\<lambda>e. folded e = fold_case key) (take n es))"
proof (induction es arbitrary: n)
  case (Cons e es)
  show ?case
  proof (cases n)
    case (Suc m)
    have len: "folded e = fold_case key \<Longrightarrow> length (pKey e) = length key"
      by (metis length_map)
    obtain c where "length (pKey e) = length key \<longrightarrow> sqlite3_strnicmp (pKey e) key (length key) = Some c \<and>
        (c = 0 \<longleftrightarrow> folded e = fold_case key)"
      using strnicmp_exact [of "pKey e" key] Cons.prems by auto
    then show ?thesis
      using Cons.IH [of m] Cons.prems len Suc by auto
  qed simp
qed simp

lemma find_filter: "(\<And>x. P x \<Longrightarrow> Q x) \<Longrightarrow> find P (filter Q xs) = find P xs"
  by (induction xs) auto

lemma from_addr_append:
  "distinct (map addr (pre @ s # post)) \<Longrightarrow> from_addr (Some (addr s)) (pre @ s # post) = Some (s # post)"
  by (induction pre) (auto simp: image_iff)

lemma findElement_spec:
  assumes "hash_inv pH"
  shows "findElementGivenHash pH key (case ht pH of Some t \<Rightarrow> unat (strHash key) mod htsize pH | None \<Rightarrow> 0) =
    Some (find (\<lambda>e. folded e = fold_case key) (first pH))"
proof (cases "ht pH")
  case None
  with assms show ?thesis
    by (simp add: findElementGivenHash_def hash_inv_def findElement_loop_spec)
next
  case (Some t)
  define h where "h = unat (strHash key) mod length t"
  define seg where "seg = filter (\<lambda>e. bucket (length t) e = h) (first pH)"
  have inv: "distinct (map addr (first pH))" "htsize pH = length t" "0 < length t"
    "bucket_ok t (first pH) h" "\<forall>e \<in> set (first pH). 0 \<notin> set (pKey e)"
    using assms Some unfolding hash_inv_def table_inv_def by (auto simp: h_def)
  then obtain pre post chain where b: "t ! h = (int (length seg), chain)" "first pH = pre @ seg @ post"
      "seg \<noteq> [] \<longrightarrow> chain = Some (addr (hd seg))"
    unfolding bucket_ok_def Let_def seg_def [symmetric] by (cases "t ! h") auto
  have f: "find (\<lambda>e. folded e = fold_case key) seg = find (\<lambda>e. folded e = fold_case key) (first pH)"
    unfolding seg_def by (rule find_filter) (metis h_def strHash_fold)
  have r: "rd t h = Some (int (length seg), chain)"
    using b(1) inv(3) by (simp add: h_def rd_def)
  show ?thesis
  proof (cases seg)
    case Nil
    with r f Some inv(2) show ?thesis by (simp add: findElementGivenHash_def h_def)
  next
    case (Cons s seg')
    have "from_addr chain (first pH) = Some (seg @ post)"
      using from_addr_append [of pre s "seg' @ post"] inv(1) b(2,3) Cons by simp
    moreover have "findElement_loop (int (length seg)) (seg @ post) key = Some (find (\<lambda>e. folded e = fold_case key) seg)"
      using findElement_loop_spec [of "seg @ post" "length seg" key] inv(5) b(2) by auto
    ultimately show ?thesis
      using r f Some inv(2) Cons by (simp add: findElementGivenHash_def h_def)
  qed
qed

section \<open>Insertion into the list\<close>

lemma insert_before_append:
  "distinct (map addr (pre @ s # post)) \<Longrightarrow>
    insert_before (addr s) e (pre @ s # post) = Some (pre @ e # s # post)"
  by (induction pre) (auto simp: image_iff)

text \<open>Inserting in front of an element that satisfies \<open>\<not> P\<close> does not break up the elements that
  satisfy \<open>P\<close>.\<close>

lemma contiguous_insert:
  assumes seg: "seg = filter P (pre @ s # post)" and eq: "pre @ s # post = u @ seg @ v"
    and "\<not> P s" and "\<not> P e"
  shows "\<exists>u v. pre @ e # s # post = u @ filter P (pre @ e # s # post) @ v"
proof -
  have seg': "filter P (pre @ e # s # post) = seg" using seg assms(3,4) by simp
  have s: "s \<notin> set seg" using seg assms(3) by simp
  from eq have "pre @ s # post = (u @ seg) @ v" by simp
  then consider (left) w where "pre = (u @ seg) @ w" | (right) w where "u @ seg = pre @ w" "s # post = w @ v"
    unfolding append_eq_append_conv2 by blast
  then show ?thesis
  proof cases
    case left
    then have "pre @ e # s # post = u @ seg @ w @ e # s # post" by simp
    then show ?thesis unfolding seg' by blast
  next
    case right
    from right(1) consider x where "u = pre @ x" "w = x @ seg" | x where "pre = u @ x" "seg = x @ w"
      unfolding append_eq_append_conv2 by blast
    then show ?thesis
    proof cases
      case 1
      show ?thesis
      proof (cases x)
        case Nil
        with 1 right s have "seg = []" by (cases seg) auto
        then show ?thesis unfolding seg' by (intro exI [of _ "[]"] exI [of _ "pre @ e # s # post"]) simp
      next
        case (Cons y x')
        with 1 right have "pre @ e # s # post = (pre @ e # x) @ seg @ v" by simp
        then show ?thesis unfolding seg' by blast
      qed
    next
      case 2
      with right s have "w = []" by (cases w) auto
      with 2 right have "pre @ e # s # post = u @ seg @ e # v" by simp
      then show ?thesis unfolding seg' by blast
    qed
  qed
qed

lemma filter_segment:
  assumes "filter P (pre @ seg @ post) = seg"
  shows "filter P pre = []" "filter P post = []" "filter P seg = seg"
proof -
  have "list_all P seg" using arg_cong [OF assms, of set] by (auto simp: list_all_iff)
  then show seg: "filter P seg = seg" by (simp add: list_all_iff)
  have "length (filter P pre) + length (filter P post) = 0"
    using arg_cong [OF assms, of length] by (simp add: seg)
  then show "filter P pre = []" "filter P post = []" by simp_all
qed

lemma bucket_ok_update_other:
  assumes "bucket_ok t es b" and "b \<noteq> h" and "filter (\<lambda>e. bucket (length t) e = b) es' =
      filter (\<lambda>e. bucket (length t) e = b) es"
    and "\<exists>pre post. es' = pre @ filter (\<lambda>e. bucket (length t) e = b) es' @ post"
  shows "bucket_ok (t[h := x]) es' b"
  using assms by (simp add: bucket_ok_def Let_def)

lemma insertElement_table:
  assumes "ht pH = Some t" and "table_inv pH" and "addr e \<notin> addr ` set (first pH)"
    and "h = bucket (htsize pH) e"
  shows "\<exists>es t'. insertElement pH (Some h) e = Some (pH\<lparr>ht := Some t', first := es\<rparr>) \<and>
    table_inv (pH\<lparr>ht := Some t', first := es\<rparr>) \<and> set es = insert e (set (first pH)) \<and>
    length es = Suc (length (first pH)) \<and> length t' = length t"
proof -
  let ?es = "first pH" and ?n = "length t"
  define seg where "seg = filter (\<lambda>e. bucket ?n e = h) ?es"
  have inv: "distinct (map addr ?es)" "htsize pH = ?n" "0 < ?n" "\<And>b. b < ?n \<Longrightarrow> bucket_ok t ?es b"
    using assms(1,2) unfolding table_inv_def by simp_all
  have h: "h < ?n" "bucket ?n e = h" using assms(4) inv(2,3) by simp_all
  obtain pre post chain where b: "t ! h = (int (length seg), chain)" "?es = pre @ seg @ post"
      "seg \<noteq> [] \<longrightarrow> chain = Some (addr (hd seg))"
    using inv(4) [OF h(1)] unfolding bucket_ok_def Let_def seg_def [symmetric] by (cases "t ! h") auto
  define es where "es = (if seg = [] then e # ?es else pre @ e # seg @ post)"
  define t' where "t' = t[h := (int (length seg) + 1, Some (addr e))]"
  have ins: "insertElement pH (Some h) e = Some (pH\<lparr>ht := Some t', first := es\<rparr>)"
  proof (cases seg)
    case Nil
    with b h(1) assms(1) show ?thesis by (simp add: insertElement_def t'_def es_def)
  next
    case (Cons s seg')
    then have "insert_before (addr s) e ?es = Some es"
      using insert_before_append [of pre s "seg' @ post" e] inv(1) b(2) by (simp add: es_def)
    with Cons b h(1) assms(1) show ?thesis by (simp add: insertElement_def t'_def)
  qed
  have set: "set es = insert e (set ?es)" "length es = Suc (length ?es)"
    using b(2) by (auto simp: es_def)
  have dist: "distinct (map addr es)"
    using inv(1) assms(3) b(2) by (auto simp: es_def)
  have "bucket_ok t' es b'" if b': "b' < ?n" for b'
  proof (cases "b' = h")
    case True
    have "filter (\<lambda>e. bucket ?n e = h) es = e # seg \<and> (\<exists>u v. es = u @ (e # seg) @ v)"
    proof (cases "seg = []")
      case True
      then show ?thesis using h(2) by (auto simp: es_def seg_def [symmetric] intro: exI [of _ "[]"])
    next
      case False
      have "filter (\<lambda>e. bucket ?n e = h) (pre @ seg @ post) = seg" using b(2) by (simp add: seg_def)
      from filter_segment [OF this] False h(2) show ?thesis by (auto simp: es_def)
    qed
    then show ?thesis using True h(1) by (auto simp: bucket_ok_def Let_def t'_def)
  next
    case False
    show ?thesis unfolding t'_def
    proof (rule bucket_ok_update_other [OF inv(4) [OF b'] False])
      show "filter (\<lambda>e. bucket ?n e = b') es = filter (\<lambda>e. bucket ?n e = b') ?es"
        using False h(2) b(2) by (auto simp: es_def)
      obtain u v where uv: "?es = u @ filter (\<lambda>e. bucket ?n e = b') ?es @ v"
        using inv(4) [OF b'] unfolding bucket_ok_def Let_def by blast
      show "\<exists>u v. es = u @ filter (\<lambda>e. bucket ?n e = b') es @ v"
      proof (cases seg)
        case Nil
        with uv have "e # ?es = (e # u) @ filter (\<lambda>e. bucket ?n e = b') ?es @ v" by simp
        moreover have "es = e # ?es" "filter (\<lambda>e. bucket ?n e = b') es = filter (\<lambda>e. bucket ?n e = b') ?es"
          using Nil False h(2) by (simp_all add: es_def)
        ultimately show ?thesis by metis
      next
        case (Cons s seg')
        then have "s \<in> set (filter (\<lambda>e. bucket ?n e = h) ?es)" unfolding seg_def by simp
        then have "bucket ?n s = h" by simp
        with contiguous_insert [OF refl, of pre s "seg' @ post" u "\<lambda>e. bucket ?n e = b'" v e] uv b(2) Cons False h(2)
        show ?thesis by (simp add: es_def)
      qed
    qed
  qed
  then have "table_inv (pH\<lparr>ht := Some t', first := es\<rparr>)"
    using dist inv(2,3) by (simp add: table_inv_def t'_def)
  moreover have "length t' = ?n" by (simp add: t'_def)
  ultimately show ?thesis using ins set by blast
qed

section \<open>Rehashing\<close>

lemma ht_update_id: "ht pH = Some t \<Longrightarrow> pH\<lparr>ht := Some t\<rparr> = pH"
  by (cases pH) simp

lemma rehash_loop_spec:
  assumes "table_inv pH" and "ht pH = Some t" and "distinct (map addr (es @ first pH))"
  shows "\<exists>t' l. rehash_loop es pH = Some (pH\<lparr>ht := Some t', first := l\<rparr>) \<and> length t' = length t \<and>
    table_inv (pH\<lparr>ht := Some t', first := l\<rparr>) \<and> set l = set es \<union> set (first pH) \<and>
    length l = length es + length (first pH)"
  using assms
proof (induction es arbitrary: pH t)
  case Nil
  then show ?case by (intro exI [of _ t] exI [of _ "first pH"]) (simp add: ht_update_id)
next
  case (Cons e es)
  obtain l1 t1 where 1: "insertElement pH (Some (bucket (htsize pH) e)) e = Some (pH\<lparr>ht := Some t1, first := l1\<rparr>)"
      "table_inv (pH\<lparr>ht := Some t1, first := l1\<rparr>)" "set l1 = insert e (set (first pH))"
      "length l1 = Suc (length (first pH))" "length t1 = length t"
    using insertElement_table [OF Cons.prems(2,1) _ refl, of e] Cons.prems(3) by auto
  have "distinct (map addr (es @ first (pH\<lparr>ht := Some t1, first := l1\<rparr>)))"
    using Cons.prems(3) 1(2,3) by (auto simp: table_inv_def)
  with Cons.IH [OF 1(2), of t1] 1 show ?case by auto
qed

lemma rehash_spec:
  assumes "table_inv pH" and "20 \<le> n"
    and "\<And>sz r. newHt mem sz = Some r \<Longrightarrow> sz \<le> r"
  shows "\<exists>pH' b. rehash mem pH n = Some (b, pH') \<and> table_inv pH' \<and> count pH' = count pH \<and>
    set (first pH') = set (first pH) \<and> length (first pH') = length (first pH) \<and>
    (b \<longrightarrow> ht pH' \<noteq> None) \<and> (\<not> b \<longrightarrow> pH' = pH)"
proof -
  define m where "m = (if n * SIZEOF_HT > SQLITE_MALLOC_SOFT_LIMIT
    then SQLITE_MALLOC_SOFT_LIMIT div SIZEOF_HT else n)"
  have m: "20 \<le> m" using assms(2) by (simp add: m_def SIZEOF_HT_def SQLITE_MALLOC_SOFT_LIMIT_def)
  show ?thesis
  proof (cases "m = htsize pH \<or> newHt mem (m * SIZEOF_HT) = None")
    case True
    then have "rehash mem pH n = Some (False, pH)" by (auto simp: rehash_def Let_def m_def [symmetric])
    with assms(1) show ?thesis by blast
  next
    case False
    then obtain sz where sz: "newHt mem (m * SIZEOF_HT) = Some sz" by auto
    define k where "k = sz div SIZEOF_HT"
    define pH0 where "pH0 = pH\<lparr>ht := Some (replicate k (0, None)), htsize := k, first := []\<rparr>"
    have "m * SIZEOF_HT div SIZEOF_HT \<le> k" unfolding k_def using assms(3) [OF sz] by (rule div_le_mono)
    with m have k: "0 < k" by (simp add: SIZEOF_HT_def)
    then have "table_inv pH0" by (simp add: table_inv_def pH0_def bucket_ok_def)
    moreover have "distinct (map addr (first pH @ first pH0))"
      using assms(1) by (simp add: table_inv_def pH0_def)
    moreover have "ht pH0 = Some (replicate k (0, None))" by (simp add: pH0_def)
    ultimately obtain t' l where "rehash_loop (first pH) pH0 = Some (pH0\<lparr>ht := Some t', first := l\<rparr>)"
        "table_inv (pH0\<lparr>ht := Some t', first := l\<rparr>)" "set l = set (first pH)" "length l = length (first pH)"
      using rehash_loop_spec [of pH0] by (fastforce simp: pH0_def)
    moreover have "rehash mem pH n = map_option (Pair True) (rehash_loop (first pH) pH0)"
      using False sz
      by (cases "rehash_loop (first pH) pH0") (auto simp: rehash_def Let_def m_def [symmetric] k_def [symmetric] pH0_def [symmetric])
    ultimately have "rehash mem pH n = Some (True, pH0\<lparr>ht := Some t', first := l\<rparr>)"
        "table_inv (pH0\<lparr>ht := Some t', first := l\<rparr>)" "set l = set (first pH)" "length l = length (first pH)"
      by simp_all
    moreover have "count pH0 = count pH" by (simp add: pH0_def)
    ultimately show ?thesis
      by (intro exI [of _ "pH0\<lparr>ht := Some t', first := l\<rparr>"] exI [of _ True]) simp
  qed
qed

section \<open>Removal\<close>

lemma next_addr_append:
  "distinct (map addr (pre @ s # post)) \<Longrightarrow>
    next_addr (addr s) (pre @ s # post) = (case post of [] \<Rightarrow> None | e # _ \<Rightarrow> Some (addr e))"
proof (induction pre)
  case Nil
  then show ?case by (cases post) simp_all
next
  case (Cons p pre)
  have "addr p \<noteq> addr s" using Cons.prems by simp
  with Cons show ?case by (cases "pre @ s # post") auto
qed

lemma remove_bucket_ok:
  assumes "table_inv pH" and "ht pH = Some t" and "e \<in> set (first pH)" and "h = bucket (htsize pH) e"
    and "t ! h = (cnt, chain)" and "b < length t"
    and "t' = t[h := (cnt - 1, if chain = Some (addr e) then next_addr (addr e) (first pH) else chain)]"
  shows "bucket_ok t' (filter (\<lambda>x. addr x \<noteq> addr e) (first pH)) b"
proof -
  let ?es = "first pH" and ?n = "length t" and ?F = "filter (\<lambda>x. addr x \<noteq> addr e)"
  define seg where "seg = filter (\<lambda>e. bucket ?n e = b) ?es"
  have inv: "distinct (map addr ?es)" "htsize pH = ?n" "0 < ?n" "bucket_ok t ?es b"
    using assms(1,2,6) unfolding table_inv_def by simp_all
  then obtain pre post where b: "?es = pre @ seg @ post" "fst (t ! b) = int (length seg)"
      "seg \<noteq> [] \<longrightarrow> snd (t ! b) = Some (addr (hd seg))"
    unfolding bucket_ok_def Let_def seg_def [symmetric] by blast
  have seg': "filter (\<lambda>x. bucket ?n x = b) (?F ?es) = ?F seg"
    by (simp add: seg_def filter_filter conj_commute)
  have contig: "?F ?es = ?F pre @ ?F seg @ ?F post" using b(1) by simp
  show ?thesis
  proof (cases "b = h")
    case False
    have "x \<noteq> e" if "x \<in> set seg" for x using that False assms(4) inv(2) by (auto simp: seg_def)
    moreover have "x = e" if "x \<in> set ?es" "addr x = addr e" for x
      using inv(1) that assms(3) by (simp add: distinct_map inj_on_def)
    ultimately have "?F seg = seg" using b(1) by (auto simp: filter_id_conv)
    with seg' contig b False show ?thesis
      unfolding bucket_ok_def Let_def assms(7) by (auto simp: seg_def [symmetric] simp del: filter_filter)
  next
    case True
    have "e \<in> set seg" using assms(3,4) inv(2) True by (simp add: seg_def)
    then obtain s1 s2 where s: "seg = s1 @ e # s2" by (meson split_list)
    have d: "distinct (map addr (pre @ s1 @ e # s2 @ post))" using inv(1) b(1) s by simp
    then have "addr e \<notin> addr ` set s1" "addr e \<notin> addr ` set s2" by auto
    then have "?F s1 = s1" "?F s2 = s2" by (metis (mono_tags, lifting) filter_True imageI)+
    then have F: "?F seg = s1 @ s2" by (simp add: s)
    have nx: "next_addr (addr e) ?es = (case s2 @ post of [] \<Rightarrow> None | x # _ \<Rightarrow> Some (addr x))"
      using next_addr_append [of "pre @ s1" e "s2 @ post"] d b(1) s by simp
    have cnt: "cnt = int (length seg)" "chain = Some (addr (hd seg))"
      using b(2,3) assms(5) True s by auto
    have t': "length t' = ?n" "t' ! b = (cnt - 1, if chain = Some (addr e) then next_addr (addr e) ?es else chain)"
      using assms(6,7) True by simp_all
    have head: "s1 @ s2 \<noteq> [] \<Longrightarrow> snd (t' ! b) = Some (addr (hd (s1 @ s2)))"
      using d s cnt nx t'(2) by (cases s1; cases s2) auto
    have "fst (t' ! b) = int (length (s1 @ s2))" using cnt s t'(2) by simp
    with head seg' F contig t'(1) show ?thesis unfolding bucket_ok_def Let_def by metis
  qed
qed

lemma remove_spec:
  assumes "hash_inv pH" and "e \<in> set (first pH)"
    and h: "h = (if htsize pH \<noteq> 0 then bucket (htsize pH) e else 0)"
  shows "\<exists>pH'. removeElementGivenHash pH e h = Some pH' \<and> hash_inv pH' \<and>
    set (first pH') = set (first pH) - {e}"
proof -
  let ?F = "filter (\<lambda>x. addr x \<noteq> addr e) (first pH)"
  have inv: "table_inv pH" "count pH = length (first pH)" "inj_on folded (set (first pH))"
    "\<forall>e \<in> set (first pH). 0 \<notin> set (pKey e)" "distinct (map addr (first pH))"
    using assms(1) by (simp_all add: hash_inv_def table_inv_def)
  have set: "set ?F = set (first pH) - {e}"
    using inv(5) assms(2) by (auto simp: distinct_map inj_on_def)
  have "length ?F = card (set ?F)" "length (first pH) = card (set (first pH))"
    using inv(5) by (metis distinct_card distinct_filter distinct_map)+
  with set assms(2) inv(2) have len: "length ?F = count pH - 1" by simp
  define t' where "t' = (case ht pH of None \<Rightarrow> None | Some t \<Rightarrow>
    Some (t[h := (fst (t ! h) - 1, if snd (t ! h) = Some (addr e) then next_addr (addr e) (first pH) else snd (t ! h))]))"
  define pH1 where "pH1 = pH\<lparr>first := ?F, ht := t', count := count pH - 1\<rparr>"
  have rem: "removeElementGivenHash pH e h = Some (if count pH1 = 0 then sqlite3HashClear pH1 else pH1)"
  proof (cases "ht pH")
    case None
    then show ?thesis
      by (simp add: removeElementGivenHash_def Let_def pH1_def t'_def sqlite3HashClear_def)
  next
    case (Some t)
    then have "h < length t" using inv(1) h by (simp add: table_inv_def)
    with Some show ?thesis
      by (simp add: removeElementGivenHash_def Let_def pH1_def t'_def case_prod_beta)
  qed
  have "table_inv pH1"
  proof (cases "ht pH")
    case None
    with inv(1,5) show ?thesis by (simp add: table_inv_def pH1_def t'_def distinct_map_filter)
  next
    case (Some t)
    have "0 < htsize pH" "htsize pH = length t" using inv(1) Some by (simp_all add: table_inv_def)
    then have h': "h = bucket (htsize pH) e" using h by simp
    have "bucket_ok (the t') ?F b" if "b < length t" for b
      using remove_bucket_ok [OF inv(1) Some assms(2) h' _ that] Some by (simp add: t'_def)
    then show ?thesis
      using inv(1,5) Some by (simp add: table_inv_def pH1_def t'_def distinct_map_filter)
  qed
  moreover have "inj_on folded (set ?F)" using inv(3) set by (auto intro: inj_on_subset)
  ultimately have "hash_inv pH1" using inv(4) len by (simp add: hash_inv_def pH1_def)
  moreover have "hash_inv (sqlite3HashClear pH1)"
    by (simp add: hash_inv_def table_inv_def sqlite3HashClear_def)
  moreover have "set (first (sqlite3HashClear pH1)) = set (first pH) - {e}" if "count pH1 = 0"
  proof -
    have "?F = []" using len that by (simp add: pH1_def)
    then have "set ?F = {}" by (simp only: list.set)
    with set show ?thesis by (simp add: sqlite3HashClear_def)
  qed
  moreover have "first pH1 = ?F" by (simp add: pH1_def)
  then have "set (first pH1) = set (first pH) - {e}" using set by (simp only:)
  ultimately show ?thesis using rem by (cases "count pH1 = 0") simp_all
qed

section \<open>The map a table stands for\<close>

lemma hash_map_iff:
  assumes "inj_on folded (set (first pH))"
  shows "hash_map pH k = Some d \<longleftrightarrow> (\<exists>e \<in> set (first pH). folded e = k \<and> data e = d)"
proof
  assume "hash_map pH k = Some d"
  then show "\<exists>e \<in> set (first pH). folded e = k \<and> data e = d"
    by (auto simp: hash_map_def find_Some_iff)
next
  assume "\<exists>e \<in> set (first pH). folded e = k \<and> data e = d"
  then obtain e where e: "e \<in> set (first pH)" "folded e = k" "data e = d" by blast
  have "find (\<lambda>e. folded e = k) (first pH) \<noteq> None" using e by (auto simp: find_None_iff)
  then obtain e' where e': "find (\<lambda>e. folded e = k) (first pH) = Some e'" by auto
  then have "e' \<in> set (first pH)" "folded e' = k" by (auto simp: find_Some_iff)
  with e assms have "e' = e" by (simp add: inj_on_def)
  with e' e(3) show "hash_map pH k = Some d" by (simp add: hash_map_def)
qed

lemma map_eqI: "(\<And>k d. f k = Some d \<longleftrightarrow> g k = Some d) \<Longrightarrow> f = (g :: 'a \<rightharpoonup> 'b)"
  by (rule ext) (metis not_None_eq)

lemma hash_map_insert:
  assumes "inj_on folded (set (first pH))" and "inj_on folded (set (first pH'))"
    and "set (first pH') = insert e (set (first pH) - {e'})" and "folded e' = folded e"
    and "folded e \<notin> folded ` (set (first pH) - {e'})"
  shows "hash_map pH' = (hash_map pH)(folded e \<mapsto> data e)"
  unfolding fun_upd_def
  using assms(3-5) hash_map_iff [OF assms(1)] hash_map_iff [OF assms(2)] by (intro map_eqI) (auto, metis DiffI image_eqI singletonD)

lemma hash_map_remove:
  assumes "inj_on folded (set (first pH))" and "set (first pH') = set (first pH) - {e}"
    and "e \<in> set (first pH)"
  shows "hash_map pH' = (hash_map pH)(folded e := None)"
proof -
  have "inj_on folded (set (first pH'))" using assms(1,2) by (auto intro: inj_on_subset)
  then show ?thesis
    using assms by (intro map_eqI) (auto simp: hash_map_iff fun_upd_def inj_on_def)
qed

section \<open>Insertion\<close>

text \<open>What the code relies on from the allocator: a new element is at a fresh address and a block
  is at least as large as was asked for.\<close>

definition alloc_ok :: "alloc \<Rightarrow> 'd Hash \<Rightarrow> bool" where
  "alloc_ok mem pH \<longleftrightarrow>
     (\<forall>a. newElem mem = Some a \<longrightarrow> a \<notin> addr ` set (first pH)) \<and> (\<forall>sz r. newHt mem sz = Some r \<longrightarrow> sz \<le> r)"

lemma hash_index:
  assumes "table_inv pH"
  shows "(if htsize pH \<noteq> 0 then unat (strHash key) mod htsize pH else 0) =
    (case ht pH of Some t \<Rightarrow> unat (strHash key) mod htsize pH | None \<Rightarrow> 0)"
  using assms by (auto simp: table_inv_def split: option.splits)

lemma insertElement_spec:
  assumes "table_inv pH" and "addr e \<notin> addr ` set (first pH)" and "h = bucket (htsize pH) e"
  shows "\<exists>pH'. insertElement pH (case ht pH of Some t \<Rightarrow> Some h | None \<Rightarrow> None) e = Some pH' \<and> table_inv pH' \<and>
    set (first pH') = insert e (set (first pH)) \<and> length (first pH') = Suc (length (first pH)) \<and>
    count pH' = count pH"
proof (cases "ht pH")
  case None
  with assms show ?thesis by (auto simp: insertElement_def table_inv_def)
next
  case (Some t)
  from insertElement_table [OF this assms] Some show ?thesis by fastforce
qed

lemma hashGrow_spec:
  assumes "table_inv pH" and "ht pH \<noteq> None \<longrightarrow> h = unat (strHash key) mod htsize pH" and "alloc_ok mem pH"
  shows "\<exists>h' pH'. hashGrow mem pH key h = Some (h', pH') \<and> table_inv pH' \<and> count pH' = count pH \<and>
    set (first pH') = set (first pH) \<and> length (first pH') = length (first pH) \<and>
    (ht pH' \<noteq> None \<longrightarrow> h' = unat (strHash key) mod htsize pH')"
proof (cases "count pH \<ge> 10 \<and> count pH > 2 * htsize pH")
  case True
  obtain p b where "rehash mem pH (count pH * 2) = Some (b, p)" "table_inv p" "count p = count pH"
      "set (first p) = set (first pH)" "length (first p) = length (first pH)" "\<not> b \<longrightarrow> p = pH"
    using rehash_spec [OF assms(1), of "count pH * 2" mem] True assms(3) unfolding alloc_ok_def by auto
  with True assms(2) show ?thesis by (cases b) (simp_all add: hashGrow_def)
next
  case False
  then have "hashGrow mem pH key h = Some (h, pH)" by (auto simp: hashGrow_def)
  with assms show ?thesis by simp
qed

lemma HashInsert_new:
  assumes "hash_inv pH" and "0 \<notin> set key" and "alloc_ok mem pH" and "newElem mem = Some a"
    and "find (\<lambda>e. folded e = fold_case key) (first pH) = None"
  shows "\<exists>pH'. sqlite3HashInsert mem pH key (Some v) = Some (None, pH') \<and> hash_inv pH' \<and>
    hash_map pH' = (hash_map pH)(fold_case key \<mapsto> v)"
proof -
  define e where "e = \<lparr>addr = a, data = v, pKey = key\<rparr>"
  define h where "h = (if htsize pH \<noteq> 0 then unat (strHash key) mod htsize pH else 0)"
  define p1 where "p1 = pH\<lparr>count := count pH + 1\<rparr>"
  have inv: "table_inv pH" "count pH = length (first pH)" "inj_on folded (set (first pH))"
    "\<forall>e \<in> set (first pH). 0 \<notin> set (pKey e)" using assms(1) by (simp_all add: hash_inv_def)
  have t1: "table_inv p1" using inv(1) by (cases "ht pH") (simp_all add: p1_def table_inv_def)
  have "ht p1 \<noteq> None \<longrightarrow> h = unat (strHash key) mod htsize p1"
    using inv(1) by (auto simp: h_def p1_def table_inv_def)
  moreover have "alloc_ok mem p1" using assms(3) by (simp add: p1_def alloc_ok_def)
  ultimately obtain h2 p2 where p2: "hashGrow mem p1 key h = Some (h2, p2)" "table_inv p2" "count p2 = count p1"
      "set (first p2) = set (first pH)" "length (first p2) = length (first pH)"
      "ht p2 \<noteq> None \<longrightarrow> h2 = unat (strHash key) mod htsize p2"
    using hashGrow_spec [OF t1, of h key mem] by (auto simp: p1_def)
  have fresh: "addr e \<notin> addr ` set (first p2)"
    using assms(3,4) p2(4) by (simp add: alloc_ok_def e_def)
  have "insertElement p2 (case ht p2 of Some t \<Rightarrow> Some h2 | None \<Rightarrow> None) e =
      insertElement p2 (case ht p2 of Some t \<Rightarrow> Some (bucket (htsize p2) e) | None \<Rightarrow> None) e"
    using p2(6) by (auto simp: e_def split: option.splits)
  then obtain p3 where p3: "insertElement p2 (case ht p2 of Some t \<Rightarrow> Some h2 | None \<Rightarrow> None) e = Some p3"
      "table_inv p3" "set (first p3) = insert e (set (first pH))" "length (first p3) = Suc (length (first pH))"
      "count p3 = Suc (count pH)"
    using insertElement_spec [OF p2(2) fresh refl] p2 by (auto simp: p1_def)
  have "findElementGivenHash pH key h = Some None"
    using findElement_spec [OF assms(1), of key] assms(5) unfolding h_def hash_index [OF inv(1)] by simp
  then have run: "sqlite3HashInsert mem pH key (Some v) = Some (None, p3)"
    using assms(4) p2(1) p3(1) unfolding h_def p1_def e_def by (simp add: sqlite3HashInsert_def Let_def)
  have new: "folded e \<notin> folded ` set (first pH)"
    using assms(5) by (auto simp: find_None_iff e_def)
  have "hash_inv p3"
    using inv p3 new assms(2) by (auto simp: hash_inv_def e_def)
  moreover have "hash_map p3 = (hash_map pH)(folded e \<mapsto> data e)"
    using hash_map_insert [of pH p3 e e] inv(3) \<open>hash_inv p3\<close> p3(3) new by (auto simp: hash_inv_def)
  ultimately show ?thesis using run by (simp add: e_def)
qed

lemma table_inv_map:
  assumes "table_inv pH" and "\<And>x. x \<in> set (first pH) \<Longrightarrow> addr (g x) = addr x \<and> strHash (pKey (g x)) = strHash (pKey x)"
  shows "table_inv (pH\<lparr>first := map g (first pH)\<rparr>)"
proof -
  let ?es = "first pH"
  have addrs: "map addr (map g ?es) = map addr ?es" using assms(2) by simp
  have "bucket_ok t (map g ?es) b" if ok: "bucket_ok t ?es b" for t b
  proof -
    define seg where "seg = filter (\<lambda>e. bucket (length t) e = b) ?es"
    have seg: "filter (\<lambda>e. bucket (length t) e = b) (map g ?es) = map g seg"
      using assms(2) by (auto simp: seg_def filter_map o_def intro!: arg_cong [of _ _ "map g"] filter_cong)
    obtain pre post where "?es = pre @ seg @ post" "fst (t ! b) = int (length seg)"
        "seg \<noteq> [] \<longrightarrow> snd (t ! b) = Some (addr (hd seg))"
      using ok unfolding bucket_ok_def Let_def seg_def [symmetric] by blast
    moreover from this have "seg \<noteq> [] \<longrightarrow> addr (hd (map g seg)) = addr (hd seg)"
      using assms(2) by (cases seg) auto
    ultimately show ?thesis unfolding bucket_ok_def Let_def seg
      by (metis length_map list.map_disc_iff map_append)
  qed
  with assms(1) addrs show ?thesis
    by (cases "ht pH") (simp_all add: table_inv_def del: map_map)
qed

lemma HashInsert_found:
  assumes "findElementGivenHash pH key (if htsize pH \<noteq> 0 then unat (strHash key) mod htsize pH else 0) = Some (Some e)"
  shows "sqlite3HashInsert mem pH key d =
    (case d of
       None \<Rightarrow> map_option (Pair (Some (data e)))
         (removeElementGivenHash pH e (if htsize pH \<noteq> 0 then unat (strHash key) mod htsize pH else 0))
     | Some v \<Rightarrow> Some (Some (data e),
         pH\<lparr>first := map (\<lambda>x. if addr x = addr e then x\<lparr>data := v, pKey := key\<rparr> else x) (first pH)\<rparr>))"
  unfolding sqlite3HashInsert_def Let_def assms bind.bind_lunit option.case
  by (cases d; cases "removeElementGivenHash pH e (if htsize pH \<noteq> 0 then unat (strHash key) mod htsize pH else 0)") simp_all

lemma HashInsert_old:
  assumes "hash_inv pH" and "0 \<notin> set key"
    and e: "find (\<lambda>e. folded e = fold_case key) (first pH) = Some e"
  shows "\<exists>pH'. sqlite3HashInsert mem pH key d = Some (Some (data e), pH') \<and> hash_inv pH' \<and>
    hash_map pH' = (hash_map pH)(fold_case key := d)"
proof -
  let ?h = "if htsize pH \<noteq> 0 then unat (strHash key) mod htsize pH else 0"
  have inv: "table_inv pH" "count pH = length (first pH)" "inj_on folded (set (first pH))"
    "\<forall>e \<in> set (first pH). 0 \<notin> set (pKey e)" "distinct (map addr (first pH))"
    using assms(1) by (simp_all add: hash_inv_def table_inv_def)
  have mem: "e \<in> set (first pH)" and key: "folded e = fold_case key"
    using e by (auto simp: find_Some_iff)
  have he: "?h = (if htsize pH \<noteq> 0 then bucket (htsize pH) e else 0)"
    using strHash_fold [OF key] by simp
  have f: "findElementGivenHash pH key ?h = Some (Some e)"
    using findElement_spec [OF assms(1), of key] e unfolding hash_index [OF inv(1)] by simp
  show ?thesis
  proof (cases d)
    case None
    obtain p where "removeElementGivenHash pH e ?h = Some p" "hash_inv p" "set (first p) = set (first pH) - {e}"
      using remove_spec [OF assms(1) mem he] by blast
    with hash_map_remove [OF inv(3) _ mem, of p] None key show ?thesis
      unfolding HashInsert_found [OF f] by simp
  next
    case (Some v)
    define g where "g = (\<lambda>x :: 'a HashElem. if addr x = addr e then x\<lparr>data := v, pKey := key\<rparr> else x)"
    define p where "p = pH\<lparr>first := map g (first pH)\<rparr>"
    have uniq: "x = e" if "x \<in> set (first pH)" "addr x = addr e" for x
      using that mem inv(5) by (simp add: distinct_map inj_on_def)
    have g: "addr (g x) = addr x \<and> strHash (pKey (g x)) = strHash (pKey x)" "folded (g x) = folded x"
      if "x \<in> set (first pH)" for x
      using uniq [OF that] key strHash_fold [OF key] by (auto simp: g_def)
    have "g x = x" if "x \<in> set (first pH) - {e}" for x using uniq [of x] that by (auto simp: g_def)
    then have "g ` (set (first pH) - {e}) = set (first pH) - {e}" by simp
    moreover have "set (first p) = g ` insert e (set (first pH) - {e})"
      using mem by (simp add: p_def insert_absorb)
    ultimately have set: "set (first p) = insert (g e) (set (first pH) - {e})" by (metis image_insert)
    have new: "fold_case key \<notin> folded ` (set (first pH) - {e})"
    proof
      assume "fold_case key \<in> folded ` (set (first pH) - {e})"
      then obtain x where x: "x \<in> set (first pH) - {e}" "fold_case key = folded x" by blast
      have "x = e" using inj_onD [OF inv(3), of x e] x key mem by simp
      with x(1) show False by simp
    qed
    have ge: "folded (g e) = fold_case key" "data (g e) = v" "pKey (g e) = key" by (simp_all add: g_def)
    have "inj_on folded (set (first p))"
      unfolding set inj_on_insert using inj_on_diff [OF inv(3)] new ge(1) by auto
    moreover have "table_inv p" unfolding p_def using table_inv_map [OF inv(1) g(1)] by blast
    ultimately have "hash_inv p"
      using inv(2,4) assms(2) set ge(3) unfolding hash_inv_def by (auto simp: p_def)
    moreover have "hash_map p = (hash_map pH)(fold_case key \<mapsto> v)"
      using hash_map_insert [OF inv(3) \<open>inj_on folded (set (first p))\<close> set] key new ge by simp
    ultimately show ?thesis
      unfolding p_def g_def HashInsert_found [OF f] Some option.case by blast
  qed
qed

section \<open>A keyed store\<close>

text \<open>The contract: lookups answer the map the store stands for, insertions of data update it and
  removals (insertion of the null pointer) delete from it, and both return the previous
  value. Clients may run any sequence of insertions for which memory is available.\<close>

locale keyed_store =
  fixes inv :: "'s \<Rightarrow> bool" and abs :: "'s \<Rightarrow> 'a \<rightharpoonup> 'd" and norm :: "'k \<Rightarrow> 'a" and key_ok :: "'k \<Rightarrow> bool"
    and env_ok :: "'e \<Rightarrow> 's \<Rightarrow> bool"
    and lookup :: "'s \<Rightarrow> 'k \<Rightarrow> 'd option option"
    and put :: "'e \<Rightarrow> 's \<Rightarrow> 'k \<Rightarrow> 'd option \<Rightarrow> ('d option \<times> 's) option"
  assumes lookup_abs: "inv s \<Longrightarrow> lookup s k = Some (abs s (norm k))"
    and put_abs: "inv s \<Longrightarrow> key_ok k \<Longrightarrow> env_ok m s \<Longrightarrow>
      \<exists>s'. put m s k d = Some (abs s (norm k), s') \<and> inv s' \<and> abs s' = (abs s)(norm k := d)"
begin

lemma lookup_after_put:
  assumes "inv s" and "key_ok k" and "env_ok m s"
  shows "\<exists>r s'. put m s k d = Some (r, s') \<and> inv s' \<and>
    lookup s' k' = Some (if norm k' = norm k then d else abs s (norm k'))"
  using put_abs [OF assms, of d] lookup_abs by fastforce

lemma put_twice:
  assumes "inv s" and "key_ok k" and "env_ok m s"
  shows "\<exists>s1. put m s k d = Some (abs s (norm k), s1) \<and>
    (env_ok m' s1 \<longrightarrow> (\<exists>s2. put m' s1 k d' = Some (d, s2) \<and> abs s2 = (abs s)(norm k := d')))"
proof -
  obtain s1 where 1: "put m s k d = Some (abs s (norm k), s1)" "inv s1" "abs s1 = (abs s)(norm k := d)"
    using put_abs [OF assms] by blast
  show ?thesis using 1 put_abs [OF 1(2) assms(2), of m' d'] by auto
qed

end

lemma HashFind_spec: "hash_inv pH \<Longrightarrow> sqlite3HashFind pH key = Some (hash_map pH (fold_case key))"
  by (simp add: sqlite3HashFind_def findElement_spec hash_map_def)

lemma HashInsert_spec:
  assumes "hash_inv pH" and "0 \<notin> set key" and "alloc_ok mem pH" and "newElem mem \<noteq> None"
  shows "\<exists>pH'. sqlite3HashInsert mem pH key d = Some (hash_map pH (fold_case key), pH') \<and> hash_inv pH' \<and>
    hash_map pH' = (hash_map pH)(fold_case key := d)"
proof (cases "find (\<lambda>e. folded e = fold_case key) (first pH)")
  case (Some e)
  with HashInsert_old [OF assms(1,2) Some, of mem d] show ?thesis by (simp add: hash_map_def)
next
  case None
  then have k: "hash_map pH (fold_case key) = None" by (simp add: hash_map_def)
  obtain a where a: "newElem mem = Some a" using assms(4) by auto
  show ?thesis
  proof (cases d)
    case (Some v)
    with HashInsert_new [OF assms(1-3) a None, of v] k show ?thesis by simp
  next
    assume "d = None"
    moreover have "findElementGivenHash pH key (if htsize pH \<noteq> 0 then unat (strHash key) mod htsize pH else 0) = Some None"
      using findElement_spec [OF assms(1), of key] None hash_index [of pH key] assms(1) by (simp add: hash_inv_def)
    ultimately have "sqlite3HashInsert mem pH key d = Some (None, pH)"
      unfolding sqlite3HashInsert_def Let_def by simp
    with assms(1) k \<open>d = None\<close> show ?thesis by (simp add: fun_upd_idem)
  qed
qed

interpretation hash: keyed_store hash_inv hash_map fold_case "\<lambda>k. 0 \<notin> set k"
  "\<lambda>mem pH. alloc_ok mem pH \<and> newElem mem \<noteq> None" sqlite3HashFind sqlite3HashInsert
  by unfold_locales (auto simp: HashFind_spec intro: HashInsert_spec)

section \<open>Properties\<close>

text \<open>C1. The table implements a map from case-folded keys. With memory available, an insertion
  into a well-formed table follows no dangling pointer, returns the previous data of the
  key, leaves a well-formed table, and a later lookup of any key finds the new data under the
  same key up to case and the old data otherwise; inserting the null pointer removes the key.\<close>

theorem sqlite3HashInsert_refines_map:
  assumes "hash_inv pH" and "0 \<notin> set key" and "alloc_ok mem pH" and "newElem mem \<noteq> None"
  shows "\<exists>pH'. sqlite3HashInsert mem pH key d = Some (hash_map pH (fold_case key), pH') \<and> hash_inv pH' \<and>
    (\<forall>k. sqlite3HashFind pH' k =
      Some (if fold_case k = fold_case key then d else hash_map pH (fold_case k)))"
proof -
  obtain s where "sqlite3HashInsert mem pH key d = Some (hash_map pH (fold_case key), s)" "hash_inv s"
      "hash_map s = (hash_map pH)(fold_case key := d)"
    using hash.put_abs [OF assms(1,2), of mem d] assms(3,4) by blast
  with hash.lookup_abs [OF \<open>hash_inv s\<close>] show ?thesis by auto
qed

theorem sqlite3HashInsert_refines_map_witness:
  "\<exists>pH'. sqlite3HashInsert \<lparr>newElem = Some 7, newHt = (\<lambda>n. Some n)\<rparr> sqlite3HashInit [0x54, 0x31] (Some (5 :: int)) =
      Some (None, pH') \<and> hash_inv pH' \<and> sqlite3HashFind pH' [0x74, 0x31] = Some (Some 5)"
proof -
  have i: "hash_inv (sqlite3HashInit :: int Hash)" "hash_map (sqlite3HashInit :: int Hash) = (\<lambda>_. None)"
    by (auto simp: hash_inv_def table_inv_def sqlite3HashInit_def hash_map_def)
  have a: "alloc_ok \<lparr>newElem = Some 7, newHt = (\<lambda>n. Some n)\<rparr> (sqlite3HashInit :: int Hash)"
    by (simp add: alloc_ok_def sqlite3HashInit_def)
  have "fold_case [0x74, 0x31] = fold_case [0x54, 0x31]" by code_simp
  with sqlite3HashInsert_refines_map [OF i(1) _ a, of "[0x54, 0x31]" "Some 5"] i(2) show ?thesis
    by fastforce
qed

text \<open>When no element can be allocated for a new key the table is left exactly as it was and
  the new data is returned to the caller; failing to enlarge the bucket array is harmless.\<close>

lemma sqlite3HashInsert_nomem:
  assumes "hash_inv pH" and "hash_map pH (fold_case key) = None" and "newElem mem = None"
  shows "sqlite3HashInsert mem pH key (Some v) = Some (Some v, pH)"
proof -
  have "find (\<lambda>e. folded e = fold_case key) (first pH) = None" using assms(2) by (simp add: hash_map_def)
  then have "findElementGivenHash pH key (if htsize pH \<noteq> 0 then unat (strHash key) mod htsize pH else 0) = Some None"
    using findElement_spec [OF assms(1), of key] hash_index [of pH key] assms(1) by (simp add: hash_inv_def)
  then show ?thesis unfolding sqlite3HashInsert_def Let_def using assms(3) by simp
qed

end
