(* ===== verification/Prng.thy ===== *)
theory Prng
  imports Sqlite_Prelude "HOL-Library.Multiset"
begin

text \<open>
  The pseudo-random generator (\<^verbatim>\<open>random.c\<close>): an RC4 key stream. The seed bytes that
  \<^verbatim>\<open>sqlite3OsRandomness\<close> delivers are an argument; the mutex is not modelled. The indices are
  unsigned characters, so they never leave the 256-byte state vector, and the state vector is
  always a permutation of the 256 bytes.
\<close>

record sqlite3PrngType =
  isInit :: bool
  prng_i :: u8
  prng_j :: u8
  prng_s :: "u8 list"

section \<open>Operations\<close>

definition swap_state :: "u8 list \<Rightarrow> u8 \<Rightarrow> u8 \<Rightarrow> u8 list" where
  "swap_state s i j = (s[unat j := s ! unat i])[unat i := s ! unat j]"

text \<open>Key scheduling: \<open>i\<close> counts from 0 to 255, \<open>k\<close> is the rest of the seed.\<close>

fun prng_schedule :: "u8 \<Rightarrow> u8 list \<Rightarrow> u8 list \<Rightarrow> u8 \<Rightarrow> u8 list \<times> u8" where
  "prng_schedule i [] s j = (s, j)"
| "prng_schedule i (c # k) s j =
     (let j = j + (s ! unat i + c) in prng_schedule (i + 1) k (swap_state s i j) j)"

definition prng_init :: "u8 list \<Rightarrow> sqlite3PrngType" where
  "prng_init k =
     (case prng_schedule 0 k all_bytes 0 of
        (s, j) \<Rightarrow> \<lparr>isInit = True, prng_i = 0, prng_j = j, prng_s = s\<rparr>)"

definition prng_byte :: "sqlite3PrngType \<Rightarrow> u8 \<times> sqlite3PrngType" where
  "prng_byte p =
     (let i = prng_i p + 1;
          t = prng_s p ! unat i;
          j = prng_j p + t;
          s = (prng_s p)[unat i := prng_s p ! unat j];
          s = s[unat j := t];
          t = t + s ! unat i
      in (s ! unat t, p\<lparr>prng_i := i, prng_j := j, prng_s := s\<rparr>))"

fun prng_bytes :: "nat \<Rightarrow> sqlite3PrngType \<Rightarrow> u8 list \<times> sqlite3PrngType" where
  "prng_bytes 0 p = ([], p)"
| "prng_bytes (Suc n) p =
     (case prng_byte p of (b, p) \<Rightarrow> case prng_bytes n p of (bs, p) \<Rightarrow> (b # bs, p))"

definition sqlite3_randomness :: "u8 list \<Rightarrow> int \<Rightarrow> sqlite3PrngType \<Rightarrow> u8 list \<times> sqlite3PrngType" where
  "sqlite3_randomness k N p =
     (if N \<le> 0 then ([], p\<lparr>isInit := False\<rparr>)
      else prng_bytes (nat N) (if \<not> isInit p then prng_init k else p))"

text \<open>The saved copy and the current generator.\<close>

type_synonym prng_globals = "sqlite3PrngType \<times> sqlite3PrngType"

definition sqlite3PrngSaveState :: "prng_globals \<Rightarrow> prng_globals" where
  "sqlite3PrngSaveState g = (case g of (saved, p) \<Rightarrow> (p, p))"

definition sqlite3PrngRestoreState :: "prng_globals \<Rightarrow> prng_globals" where
  "sqlite3PrngRestoreState g = (case g of (saved, p) \<Rightarrow> (saved, saved))"

section \<open>Invariant\<close>

definition prng_inv :: "sqlite3PrngType \<Rightarrow> bool" where
  "prng_inv p \<longleftrightarrow> (isInit p \<longrightarrow> mset (prng_s p) = mset all_bytes)"

lemma unat_u8_less: "unat (x :: u8) < 256"
  by (rule order_less_le_trans [OF unsigned_less]) simp

lemma mset_all_bytes_length: "mset s = mset all_bytes \<Longrightarrow> length s = 256"
  using nth_all_bytes(1) by (metis size_mset)

lemma mset_swap_state:
  "mset s = mset all_bytes \<Longrightarrow> mset (swap_state s i j) = mset all_bytes"
  using mset_all_bytes_length [of s] unat_u8_less [of i] unat_u8_less [of j]
  by (simp add: swap_state_def mset_swap)

lemma prng_schedule_inv:
  "mset s = mset all_bytes \<Longrightarrow> mset (fst (prng_schedule i k s j)) = mset all_bytes"
  by (induction i k s j rule: prng_schedule.induct) (simp_all add: Let_def mset_swap_state)

lemma prng_byte_inv:
  assumes "mset (prng_s p) = mset all_bytes"
  shows "mset (prng_s (snd (prng_byte p))) = mset all_bytes" and "isInit (snd (prng_byte p)) = isInit p"
proof -
  let ?i = "prng_i p + 1"
  let ?j = "prng_j p + prng_s p ! unat ?i"
  have "prng_s (snd (prng_byte p)) = swap_state (prng_s p) ?j ?i"
    by (simp add: prng_byte_def Let_def swap_state_def)
  with mset_swap_state [OF assms] show "mset (prng_s (snd (prng_byte p))) = mset all_bytes" by simp
  show "isInit (snd (prng_byte p)) = isInit p" by (simp add: prng_byte_def Let_def)
qed

lemma prng_bytes_inv:
  "mset (prng_s p) = mset all_bytes \<Longrightarrow> prng_bytes n p = (out, p') \<Longrightarrow>
     mset (prng_s p') = mset all_bytes \<and> isInit p' = isInit p \<and> length out = n"
proof (induction n arbitrary: p out)
  case (Suc n)
  obtain b q where b: "prng_byte p = (b, q)" by (cases "prng_byte p")
  then have "mset (prng_s q) = mset all_bytes" "isInit q = isInit p"
    using prng_byte_inv [OF Suc.prems(1)] by simp_all
  moreover obtain bs where "prng_bytes n q = (bs, p')" "out = b # bs"
    using Suc.prems(2) b by (auto split: prod.splits)
  ultimately show ?case using Suc.IH [of q bs] by simp
qed simp

lemma prng_init_inv: "mset (prng_s (prng_init k)) = mset all_bytes" "isInit (prng_init k)"
  using prng_schedule_inv [of all_bytes 0 k 0] by (auto simp: prng_init_def split: prod.splits)

section \<open>Properties\<close>

text \<open>From any state, with any seed, a request for \<open>N > 0\<close> bytes delivers exactly \<open>N\<close> and leaves
  an initialised generator whose state vector is a permutation of the 256 bytes, provided it
  was one before if the generator was already initialised.\<close>

lemma sqlite3_randomness_permutation:
  assumes "prng_inv p" and "0 < N" and "sqlite3_randomness k N p = (out, p')"
  shows "length out = nat N \<and> isInit p' \<and> mset (prng_s p') = mset all_bytes"
proof -
  let ?q = "if \<not> isInit p then prng_init k else p"
  have "mset (prng_s ?q) = mset all_bytes" "isInit ?q"
    using assms(1) prng_init_inv [of k] by (auto simp: prng_inv_def)
  moreover have "prng_bytes (nat N) ?q = (out, p')" using assms(2,3) by (simp add: sqlite3_randomness_def)
  ultimately show ?thesis using prng_bytes_inv [of ?q "nat N" out p'] by auto
qed

text \<open>Restoring a saved state replays the generator: the bytes delivered after the restoration are
  those that were delivered after the state was saved.\<close>

lemma sqlite3Prng_replay:
  assumes "sqlite3PrngSaveState (s0, p) = (s1, p1)" and "isInit p"
    and "sqlite3_randomness k N p1 = (out, p2)"
    and "sqlite3PrngRestoreState (s1, p2) = (s3, p3)"
  shows "0 < N \<longrightarrow> sqlite3_randomness k' N p3 = (out, p2)"
  using assms by (auto simp: sqlite3PrngSaveState_def sqlite3PrngRestoreState_def sqlite3_randomness_def)

end
