(* ===== verification/Keywords.thy ===== *)
theory Keywords
  imports Ctype
begin

text \<open>
  Token codes (\<^verbatim>\<open>parse.h\<close>) and keyword recognition (\<^verbatim>\<open>keywordCode\<close> of \<^verbatim>\<open>keywordhash.h\<close>): a hash table
  with chaining whose keywords overlap in one string. The generated tables are copied as they are;
  \<open>keyword_table\<close> is the readable list of keywords they encode, and the theory shows that the
  search is exactly a lookup in that list, whatever the case of the letters. The chains
  terminate because every link leads to a smaller index.
\<close>

named_theorems tk_defs \<open>the numbers of the token codes\<close>

section \<open>Token codes\<close>

definition TK_SEMI :: nat where [tk_defs]: "TK_SEMI = 1"
definition TK_EXPLAIN :: nat where [tk_defs]: "TK_EXPLAIN = 2"
definition TK_QUERY :: nat where [tk_defs]: "TK_QUERY = 3"
definition TK_PLAN :: nat where [tk_defs]: "TK_PLAN = 4"
definition TK_BEGIN :: nat where [tk_defs]: "TK_BEGIN = 5"
definition TK_TRANSACTION :: nat where [tk_defs]: "TK_TRANSACTION = 6"
definition TK_DEFERRED :: nat where [tk_defs]: "TK_DEFERRED = 7"
definition TK_IMMEDIATE :: nat where [tk_defs]: "TK_IMMEDIATE = 8"
definition TK_EXCLUSIVE :: nat where [tk_defs]: "TK_EXCLUSIVE = 9"
definition TK_COMMIT :: nat where [tk_defs]: "TK_COMMIT = 10"
definition TK_END :: nat where [tk_defs]: "TK_END = 11"
definition TK_ROLLBACK :: nat where [tk_defs]: "TK_ROLLBACK = 12"
definition TK_SAVEPOINT :: nat where [tk_defs]: "TK_SAVEPOINT = 13"
definition TK_RELEASE :: nat where [tk_defs]: "TK_RELEASE = 14"
definition TK_TO :: nat where [tk_defs]: "TK_TO = 15"
definition TK_TABLE :: nat where [tk_defs]: "TK_TABLE = 16"
definition TK_CREATE :: nat where [tk_defs]: "TK_CREATE = 17"
definition TK_IF :: nat where [tk_defs]: "TK_IF = 18"
definition TK_NOT :: nat where [tk_defs]: "TK_NOT = 19"
definition TK_EXISTS :: nat where [tk_defs]: "TK_EXISTS = 20"
definition TK_TEMP :: nat where [tk_defs]: "TK_TEMP = 21"
definition TK_LP :: nat where [tk_defs]: "TK_LP = 22"
definition TK_RP :: nat where [tk_defs]: "TK_RP = 23"
definition TK_AS :: nat where [tk_defs]: "TK_AS = 24"
definition TK_WITHOUT :: nat where [tk_defs]: "TK_WITHOUT = 25"
definition TK_COMMA :: nat where [tk_defs]: "TK_COMMA = 26"
definition TK_ID :: nat where [tk_defs]: "TK_ID = 27"
definition TK_INDEXED :: nat where [tk_defs]: "TK_INDEXED = 28"
definition TK_ABORT :: nat where [tk_defs]: "TK_ABORT = 29"
definition TK_ACTION :: nat where [tk_defs]: "TK_ACTION = 30"
definition TK_AFTER :: nat where [tk_defs]: "TK_AFTER = 31"
definition TK_ANALYZE :: nat where [tk_defs]: "TK_ANALYZE = 32"
definition TK_ASC :: nat where [tk_defs]: "TK_ASC = 33"
definition TK_ATTACH :: nat where [tk_defs]: "TK_ATTACH = 34"
definition TK_BEFORE :: nat where [tk_defs]: "TK_BEFORE = 35"
definition TK_BY :: nat where [tk_defs]: "TK_BY = 36"
definition TK_CASCADE :: nat where [tk_defs]: "TK_CASCADE = 37"
definition TK_CAST :: nat where [tk_defs]: "TK_CAST = 38"
definition TK_COLUMNKW :: nat where [tk_defs]: "TK_COLUMNKW = 39"
definition TK_CONFLICT :: nat where [tk_defs]: "TK_CONFLICT = 40"
definition TK_DATABASE :: nat where [tk_defs]: "TK_DATABASE = 41"
definition TK_DESC :: nat where [tk_defs]: "TK_DESC = 42"
definition TK_DETACH :: nat where [tk_defs]: "TK_DETACH = 43"
definition TK_EACH :: nat where [tk_defs]: "TK_EACH = 44"
definition TK_FAIL :: nat where [tk_defs]: "TK_FAIL = 45"
definition TK_FOR :: nat where [tk_defs]: "TK_FOR = 46"
definition TK_IGNORE :: nat where [tk_defs]: "TK_IGNORE = 47"
definition TK_INITIALLY :: nat where [tk_defs]: "TK_INITIALLY = 48"
definition TK_INSTEAD :: nat where [tk_defs]: "TK_INSTEAD = 49"
definition TK_LIKE_KW :: nat where [tk_defs]: "TK_LIKE_KW = 50"
definition TK_MATCH :: nat where [tk_defs]: "TK_MATCH = 51"
definition TK_NO :: nat where [tk_defs]: "TK_NO = 52"
definition TK_KEY :: nat where [tk_defs]: "TK_KEY = 53"
definition TK_OF :: nat where [tk_defs]: "TK_OF = 54"
definition TK_OFFSET :: nat where [tk_defs]: "TK_OFFSET = 55"
definition TK_PRAGMA :: nat where [tk_defs]: "TK_PRAGMA = 56"
definition TK_RAISE :: nat where [tk_defs]: "TK_RAISE = 57"
definition TK_RECURSIVE :: nat where [tk_defs]: "TK_RECURSIVE = 58"
definition TK_REPLACE :: nat where [tk_defs]: "TK_REPLACE = 59"
definition TK_RESTRICT :: nat where [tk_defs]: "TK_RESTRICT = 60"
definition TK_ROW :: nat where [tk_defs]: "TK_ROW = 61"
definition TK_TRIGGER :: nat where [tk_defs]: "TK_TRIGGER = 62"
definition TK_VACUUM :: nat where [tk_defs]: "TK_VACUUM = 63"
definition TK_VIEW :: nat where [tk_defs]: "TK_VIEW = 64"
definition TK_VIRTUAL :: nat where [tk_defs]: "TK_VIRTUAL = 65"
definition TK_WITH :: nat where [tk_defs]: "TK_WITH = 66"
definition TK_REINDEX :: nat where [tk_defs]: "TK_REINDEX = 67"
definition TK_RENAME :: nat where [tk_defs]: "TK_RENAME = 68"
definition TK_CTIME_KW :: nat where [tk_defs]: "TK_CTIME_KW = 69"
definition TK_OR :: nat where [tk_defs]: "TK_OR = 71"
definition TK_AND :: nat where [tk_defs]: "TK_AND = 72"
definition TK_IS :: nat where [tk_defs]: "TK_IS = 73"
definition TK_BETWEEN :: nat where [tk_defs]: "TK_BETWEEN = 74"
definition TK_IN :: nat where [tk_defs]: "TK_IN = 75"
definition TK_ISNULL :: nat where [tk_defs]: "TK_ISNULL = 76"
definition TK_NOTNULL :: nat where [tk_defs]: "TK_NOTNULL = 77"
definition TK_NE :: nat where [tk_defs]: "TK_NE = 78"
definition TK_EQ :: nat where [tk_defs]: "TK_EQ = 79"
definition TK_GT :: nat where [tk_defs]: "TK_GT = 80"
definition TK_LE :: nat where [tk_defs]: "TK_LE = 81"
definition TK_LT :: nat where [tk_defs]: "TK_LT = 82"
definition TK_GE :: nat where [tk_defs]: "TK_GE = 83"
definition TK_ESCAPE :: nat where [tk_defs]: "TK_ESCAPE = 84"
definition TK_BITAND :: nat where [tk_defs]: "TK_BITAND = 85"
definition TK_BITOR :: nat where [tk_defs]: "TK_BITOR = 86"
definition TK_LSHIFT :: nat where [tk_defs]: "TK_LSHIFT = 87"
definition TK_RSHIFT :: nat where [tk_defs]: "TK_RSHIFT = 88"
definition TK_PLUS :: nat where [tk_defs]: "TK_PLUS = 89"
definition TK_MINUS :: nat where [tk_defs]: "TK_MINUS = 90"
definition TK_STAR :: nat where [tk_defs]: "TK_STAR = 91"
definition TK_SLASH :: nat where [tk_defs]: "TK_SLASH = 92"
definition TK_REM :: nat where [tk_defs]: "TK_REM = 93"
definition TK_CONCAT :: nat where [tk_defs]: "TK_CONCAT = 94"
definition TK_COLLATE :: nat where [tk_defs]: "TK_COLLATE = 95"
definition TK_BITNOT :: nat where [tk_defs]: "TK_BITNOT = 96"
definition TK_STRING :: nat where [tk_defs]: "TK_STRING = 97"
definition TK_JOIN_KW :: nat where [tk_defs]: "TK_JOIN_KW = 98"
definition TK_CONSTRAINT :: nat where [tk_defs]: "TK_CONSTRAINT = 99"
definition TK_DEFAULT :: nat where [tk_defs]: "TK_DEFAULT = 100"
definition TK_NULL :: nat where [tk_defs]: "TK_NULL = 101"
definition TK_PRIMARY :: nat where [tk_defs]: "TK_PRIMARY = 102"
definition TK_UNIQUE :: nat where [tk_defs]: "TK_UNIQUE = 103"
definition TK_CHECK :: nat where [tk_defs]: "TK_CHECK = 104"
definition TK_REFERENCES :: nat where [tk_defs]: "TK_REFERENCES = 105"
definition TK_AUTOINCR :: nat where [tk_defs]: "TK_AUTOINCR = 106"
definition TK_ON :: nat where [tk_defs]: "TK_ON = 107"
definition TK_INSERT :: nat where [tk_defs]: "TK_INSERT = 108"
definition TK_DELETE :: nat where [tk_defs]: "TK_DELETE = 109"
definition TK_UPDATE :: nat where [tk_defs]: "TK_UPDATE = 110"
definition TK_SET :: nat where [tk_defs]: "TK_SET = 111"
definition TK_DEFERRABLE :: nat where [tk_defs]: "TK_DEFERRABLE = 112"
definition TK_FOREIGN :: nat where [tk_defs]: "TK_FOREIGN = 113"
definition TK_DROP :: nat where [tk_defs]: "TK_DROP = 114"
definition TK_UNION :: nat where [tk_defs]: "TK_UNION = 115"
definition TK_ALL :: nat where [tk_defs]: "TK_ALL = 116"
definition TK_EXCEPT :: nat where [tk_defs]: "TK_EXCEPT = 117"
definition TK_INTERSECT :: nat where [tk_defs]: "TK_INTERSECT = 118"
definition TK_SELECT :: nat where [tk_defs]: "TK_SELECT = 119"
definition TK_VALUES :: nat where [tk_defs]: "TK_VALUES = 120"
definition TK_DISTINCT :: nat where [tk_defs]: "TK_DISTINCT = 121"
definition TK_DOT :: nat where [tk_defs]: "TK_DOT = 122"
definition TK_FROM :: nat where [tk_defs]: "TK_FROM = 123"
definition TK_JOIN :: nat where [tk_defs]: "TK_JOIN = 124"
definition TK_USING :: nat where [tk_defs]: "TK_USING = 125"
definition TK_ORDER :: nat where [tk_defs]: "TK_ORDER = 126"
definition TK_GROUP :: nat where [tk_defs]: "TK_GROUP = 127"
definition TK_HAVING :: nat where [tk_defs]: "TK_HAVING = 128"
definition TK_LIMIT :: nat where [tk_defs]: "TK_LIMIT = 129"
definition TK_WHERE :: nat where [tk_defs]: "TK_WHERE = 130"
definition TK_INTO :: nat where [tk_defs]: "TK_INTO = 131"
definition TK_INTEGER :: nat where [tk_defs]: "TK_INTEGER = 132"
definition TK_FLOAT :: nat where [tk_defs]: "TK_FLOAT = 133"
definition TK_BLOB :: nat where [tk_defs]: "TK_BLOB = 134"
definition TK_VARIABLE :: nat where [tk_defs]: "TK_VARIABLE = 135"
definition TK_CASE :: nat where [tk_defs]: "TK_CASE = 136"
definition TK_WHEN :: nat where [tk_defs]: "TK_WHEN = 137"
definition TK_THEN :: nat where [tk_defs]: "TK_THEN = 138"
definition TK_ELSE :: nat where [tk_defs]: "TK_ELSE = 139"
definition TK_INDEX :: nat where [tk_defs]: "TK_INDEX = 140"
definition TK_ALTER :: nat where [tk_defs]: "TK_ALTER = 141"
definition TK_ADD :: nat where [tk_defs]: "TK_ADD = 142"
definition TK_ILLEGAL :: nat where [tk_defs]: "TK_ILLEGAL = 150"
definition TK_SPACE :: nat where [tk_defs]: "TK_SPACE = 151"

section \<open>Tables\<close>

definition zText_chars :: string where
  "zText_chars =
     ''REINDEXEDESCAPEACHECKEYBEFOREIGNOREGEXPLAINSTEADDATABASELECT'' @
     ''ABLEFTHENDEFERRABLELSEXCEPTRANSACTIONATURALTERAISEXCLUSIVEXI'' @
     ''STSAVEPOINTERSECTRIGGEREFERENCESCONSTRAINTOFFSETEMPORARYUNIQ'' @
     ''UERYWITHOUTERELEASEATTACHAVINGROUPDATEBEGINNERECURSIVEBETWEE'' @
     ''NOTNULLIKECASCADELETECASECOLLATECREATECURRENT_DATEDETACHIMME'' @
     ''DIATEJOINSERTMATCHPLANALYZEPRAGMABORTVALUESVIRTUALIMITWHENWH'' @
     ''ERENAMEAFTEREPLACEANDEFAULTAUTOINCREMENTCASTCOLUMNCOMMITCONF'' @
     ''LICTCROSSCURRENT_TIMESTAMPRIMARYDEFERREDISTINCTDROPFAILFROMF'' @
     ''ULLGLOBYIFISNULLORDERESTRICTRIGHTROLLBACKROWUNIONUSINGVACUUM'' @
     ''VIEWINITIALLY''"

definition zText :: "u8 list" where
  "zText = map of_char zText_chars"

definition aHash :: "nat list" where
  "aHash =
    [76, 105, 117, 74, 0, 45, 0, 0, 82, 0, 77, 0, 0,
     42, 12, 78, 15, 0, 116, 85, 54, 112, 0, 19, 0, 0,
     121, 0, 119, 115, 0, 22, 93, 0, 9, 0, 0, 70, 71,
     0, 69, 6, 0, 48, 90, 102, 0, 118, 101, 0, 0, 44,
     0, 103, 24, 0, 17, 0, 122, 53, 23, 0, 5, 110, 25,
     96, 0, 0, 124, 106, 60, 123, 57, 28, 55, 0, 91, 0,
     100, 26, 0, 99, 0, 0, 0, 95, 92, 97, 88, 109, 14,
     39, 108, 0, 81, 0, 18, 89, 111, 32, 0, 120, 80, 113,
     62, 46, 84, 0, 0, 94, 40, 59, 114, 0, 36, 0, 0,
     29, 0, 86, 63, 64, 0, 20, 61, 0, 56]"

definition aNext :: "nat list" where
  "aNext =
    [0, 0, 0, 0, 4, 0, 0, 0, 0, 0, 0, 0, 0,
     0, 2, 0, 0, 0, 0, 0, 0, 13, 0, 0, 0, 0,
     0, 7, 0, 0, 0, 0, 0, 0, 0, 0, 0, 0, 0,
     0, 0, 0, 0, 33, 0, 21, 0, 0, 0, 0, 0, 50,
     0, 43, 3, 47, 0, 0, 0, 0, 30, 0, 58, 0, 38,
     0, 0, 0, 1, 66, 0, 0, 67, 0, 41, 0, 0, 0,
     0, 0, 0, 49, 65, 0, 0, 0, 0, 31, 52, 16, 34,
     10, 0, 0, 0, 0, 0, 0, 0, 11, 72, 79, 0, 8,
     0, 104, 98, 0, 107, 0, 87, 0, 75, 51, 0, 27, 37,
     73, 83, 0, 35, 68, 0, 0]"

definition aLen :: "nat list" where
  "aLen =
    [7, 7, 5, 4, 6, 4, 5, 3, 6, 7, 3, 6, 6,
     7, 7, 3, 8, 2, 6, 5, 4, 4, 3, 10, 4, 6,
     11, 6, 2, 7, 5, 5, 9, 6, 9, 9, 7, 10, 10,
     4, 6, 2, 3, 9, 4, 2, 6, 5, 7, 4, 5, 7,
     6, 6, 5, 6, 5, 5, 9, 7, 7, 3, 2, 4, 4,
     7, 3, 6, 4, 7, 6, 12, 6, 9, 4, 6, 5, 4,
     7, 6, 5, 6, 7, 5, 4, 5, 6, 5, 7, 3, 7,
     13, 2, 2, 4, 6, 6, 8, 5, 17, 12, 7, 8, 8,
     2, 4, 4, 4, 4, 4, 2, 2, 6, 5, 8, 5, 8,
     3, 5, 5, 6, 4, 9, 3]"

definition aOffset :: "nat list" where
  "aOffset =
    [0, 2, 2, 8, 9, 14, 16, 20, 23, 25, 25, 29, 33,
     36, 41, 46, 48, 53, 54, 59, 62, 65, 67, 69, 78, 81,
     86, 91, 95, 96, 101, 105, 109, 117, 122, 128, 136, 142, 152,
     159, 162, 162, 165, 167, 167, 171, 176, 179, 184, 184, 188, 192,
     199, 204, 209, 212, 218, 221, 225, 234, 240, 240, 240, 243, 246,
     250, 251, 255, 261, 265, 272, 278, 290, 296, 305, 307, 313, 318,
     320, 327, 332, 337, 343, 349, 354, 358, 361, 367, 371, 378, 380,
     387, 389, 391, 400, 404, 410, 416, 424, 429, 429, 445, 452, 459,
     460, 467, 471, 475, 479, 483, 486, 488, 490, 496, 500, 508, 513,
     521, 524, 529, 534, 540, 544, 549]"

definition aCode :: "nat list" where
  "aCode =
    [TK_REINDEX, TK_INDEXED, TK_INDEX, TK_DESC, TK_ESCAPE,
     TK_EACH, TK_CHECK, TK_KEY, TK_BEFORE, TK_FOREIGN,
     TK_FOR, TK_IGNORE, TK_LIKE_KW, TK_EXPLAIN, TK_INSTEAD,
     TK_ADD, TK_DATABASE, TK_AS, TK_SELECT, TK_TABLE,
     TK_JOIN_KW, TK_THEN, TK_END, TK_DEFERRABLE, TK_ELSE,
     TK_EXCEPT, TK_TRANSACTION, TK_ACTION, TK_ON, TK_JOIN_KW,
     TK_ALTER, TK_RAISE, TK_EXCLUSIVE, TK_EXISTS, TK_SAVEPOINT,
     TK_INTERSECT, TK_TRIGGER, TK_REFERENCES, TK_CONSTRAINT, TK_INTO,
     TK_OFFSET, TK_OF, TK_SET, TK_TEMP, TK_TEMP,
     TK_OR, TK_UNIQUE, TK_QUERY, TK_WITHOUT, TK_WITH,
     TK_JOIN_KW, TK_RELEASE, TK_ATTACH, TK_HAVING, TK_GROUP,
     TK_UPDATE, TK_BEGIN, TK_JOIN_KW, TK_RECURSIVE, TK_BETWEEN,
     TK_NOTNULL, TK_NOT, TK_NO, TK_NULL, TK_LIKE_KW,
     TK_CASCADE, TK_ASC, TK_DELETE, TK_CASE, TK_COLLATE,
     TK_CREATE, TK_CTIME_KW, TK_DETACH, TK_IMMEDIATE, TK_JOIN,
     TK_INSERT, TK_MATCH, TK_PLAN, TK_ANALYZE, TK_PRAGMA,
     TK_ABORT, TK_VALUES, TK_VIRTUAL, TK_LIMIT, TK_WHEN,
     TK_WHERE, TK_RENAME, TK_AFTER, TK_REPLACE, TK_AND,
     TK_DEFAULT, TK_AUTOINCR, TK_TO, TK_IN, TK_CAST,
     TK_COLUMNKW, TK_COMMIT, TK_CONFLICT, TK_JOIN_KW, TK_CTIME_KW,
     TK_CTIME_KW, TK_PRIMARY, TK_DEFERRED, TK_DISTINCT, TK_IS,
     TK_DROP, TK_FAIL, TK_FROM, TK_JOIN_KW, TK_LIKE_KW,
     TK_BY, TK_IF, TK_ISNULL, TK_ORDER, TK_RESTRICT,
     TK_JOIN_KW, TK_ROLLBACK, TK_ROW, TK_UNION, TK_USING,
     TK_VACUUM, TK_VIEW, TK_INITIALLY, TK_ALL]"

section \<open>Lookup\<close>

definition charMap :: "u8 \<Rightarrow> int" where
  "charMap x = uint (sqlite3Tolower x)"

lemma aNext_decreases: "rd aNext i = Some j \<Longrightarrow> j \<le> i"
proof -
  have "list_all (\<lambda>(i, j). j \<le> i) (enumerate 0 aNext)" by code_simp
  then have "\<forall>i < length aNext. aNext ! i \<le> i" by (auto simp: list_all_length nth_enumerate_eq)
  moreover assume "rd aNext i = Some j"
  ultimately show ?thesis by (auto simp: rd_eq_Some)
qed

text \<open>The argument is the loop variable plus one, as it is stored in the tables: 0 ends the chain.
  Reading past \<open>zText\<close>, past a table or past \<open>z\<close> is \<open>None\<close>.\<close>

function keywordCode_loop :: "u8 list \<Rightarrow> nat \<Rightarrow> nat \<Rightarrow> nat option" where
  "keywordCode_loop z n 0 = Some TK_ID"
| "keywordCode_loop z n (Suc i) = do {
     len \<leftarrow> rd aLen i;
     off \<leftarrow> rd aOffset i;
     c \<leftarrow> (if len = n then sqlite3_strnicmp (drop off zText) z n else Some 1);
     if len = n \<and> c = 0 then rd aCode i
     else do {
       j \<leftarrow> rd aNext i;
       keywordCode_loop z n j
     }
   }"
  by pat_completeness auto
termination
  by (relation "measure (\<lambda>(z, n, i). i)") (auto simp: less_Suc_eq_le dest: aNext_decreases)

definition keywordCode :: "u8 list \<Rightarrow> nat \<Rightarrow> nat option" where
  "keywordCode z n =
     (if n < 2 then Some TK_ID
      else do {
        a \<leftarrow> rd z 0;
        b \<leftarrow> rd z (n - 1);
        i \<leftarrow> rd aHash (nat (((charMap a * 4) XOR (charMap b * 3) XOR int n) mod 127));
        keywordCode_loop z n i
      })"

definition sqlite3KeywordCode :: "u8 list \<Rightarrow> nat \<Rightarrow> nat option" where
  "sqlite3KeywordCode z n = keywordCode z n"

section \<open>The keywords\<close>

definition keyword_table :: "(string \<times> nat) list" where
  "keyword_table =
    [(''REINDEX'', TK_REINDEX), (''INDEXED'', TK_INDEXED), (''INDEX'', TK_INDEX), (''DESC'', TK_DESC),
     (''ESCAPE'', TK_ESCAPE), (''EACH'', TK_EACH), (''CHECK'', TK_CHECK), (''KEY'', TK_KEY),
     (''BEFORE'', TK_BEFORE), (''FOREIGN'', TK_FOREIGN), (''FOR'', TK_FOR), (''IGNORE'', TK_IGNORE),
     (''REGEXP'', TK_LIKE_KW), (''EXPLAIN'', TK_EXPLAIN), (''INSTEAD'', TK_INSTEAD), (''ADD'', TK_ADD),
     (''DATABASE'', TK_DATABASE), (''AS'', TK_AS), (''SELECT'', TK_SELECT), (''TABLE'', TK_TABLE),
     (''LEFT'', TK_JOIN_KW), (''THEN'', TK_THEN), (''END'', TK_END), (''DEFERRABLE'', TK_DEFERRABLE),
     (''ELSE'', TK_ELSE), (''EXCEPT'', TK_EXCEPT), (''TRANSACTION'', TK_TRANSACTION), (''ACTION'', TK_ACTION),
     (''ON'', TK_ON), (''NATURAL'', TK_JOIN_KW), (''ALTER'', TK_ALTER), (''RAISE'', TK_RAISE),
     (''EXCLUSIVE'', TK_EXCLUSIVE), (''EXISTS'', TK_EXISTS), (''SAVEPOINT'', TK_SAVEPOINT), (''INTERSECT'', TK_INTERSECT),
     (''TRIGGER'', TK_TRIGGER), (''REFERENCES'', TK_REFERENCES), (''CONSTRAINT'', TK_CONSTRAINT), (''INTO'', TK_INTO),
     (''OFFSET'', TK_OFFSET), (''OF'', TK_OF), (''SET'', TK_SET), (''TEMPORARY'', TK_TEMP),
     (''TEMP'', TK_TEMP), (''OR'', TK_OR), (''UNIQUE'', TK_UNIQUE), (''QUERY'', TK_QUERY),
     (''WITHOUT'', TK_WITHOUT), (''WITH'', TK_WITH), (''OUTER'', TK_JOIN_KW), (''RELEASE'', TK_RELEASE),
     (''ATTACH'', TK_ATTACH), (''HAVING'', TK_HAVING), (''GROUP'', TK_GROUP), (''UPDATE'', TK_UPDATE),
     (''BEGIN'', TK_BEGIN), (''INNER'', TK_JOIN_KW), (''RECURSIVE'', TK_RECURSIVE), (''BETWEEN'', TK_BETWEEN),
     (''NOTNULL'', TK_NOTNULL), (''NOT'', TK_NOT), (''NO'', TK_NO), (''NULL'', TK_NULL),
     (''LIKE'', TK_LIKE_KW), (''CASCADE'', TK_CASCADE), (''ASC'', TK_ASC), (''DELETE'', TK_DELETE),
     (''CASE'', TK_CASE), (''COLLATE'', TK_COLLATE), (''CREATE'', TK_CREATE), (''CURRENT_DATE'', TK_CTIME_KW),
     (''DETACH'', TK_DETACH), (''IMMEDIATE'', TK_IMMEDIATE), (''JOIN'', TK_JOIN), (''INSERT'', TK_INSERT),
     (''MATCH'', TK_MATCH), (''PLAN'', TK_PLAN), (''ANALYZE'', TK_ANALYZE), (''PRAGMA'', TK_PRAGMA),
     (''ABORT'', TK_ABORT), (''VALUES'', TK_VALUES), (''VIRTUAL'', TK_VIRTUAL), (''LIMIT'', TK_LIMIT),
     (''WHEN'', TK_WHEN), (''WHERE'', TK_WHERE), (''RENAME'', TK_RENAME), (''AFTER'', TK_AFTER),
     (''REPLACE'', TK_REPLACE), (''AND'', TK_AND), (''DEFAULT'', TK_DEFAULT), (''AUTOINCREMENT'', TK_AUTOINCR),
     (''TO'', TK_TO), (''IN'', TK_IN), (''CAST'', TK_CAST), (''COLUMN'', TK_COLUMNKW),
     (''COMMIT'', TK_COMMIT), (''CONFLICT'', TK_CONFLICT), (''CROSS'', TK_JOIN_KW), (''CURRENT_TIMESTAMP'', TK_CTIME_KW),
     (''CURRENT_TIME'', TK_CTIME_KW), (''PRIMARY'', TK_PRIMARY), (''DEFERRED'', TK_DEFERRED), (''DISTINCT'', TK_DISTINCT),
     (''IS'', TK_IS), (''DROP'', TK_DROP), (''FAIL'', TK_FAIL), (''FROM'', TK_FROM),
     (''FULL'', TK_JOIN_KW), (''GLOB'', TK_LIKE_KW), (''BY'', TK_BY), (''IF'', TK_IF),
     (''ISNULL'', TK_ISNULL), (''ORDER'', TK_ORDER), (''RESTRICT'', TK_RESTRICT), (''RIGHT'', TK_JOIN_KW),
     (''ROLLBACK'', TK_ROLLBACK), (''ROW'', TK_ROW), (''UNION'', TK_UNION), (''USING'', TK_USING),
     (''VACUUM'', TK_VACUUM), (''VIEW'', TK_VIEW), (''INITIALLY'', TK_INITIALLY), (''ALL'', TK_ALL)]"

text \<open>The same words as lower-case bytes.\<close>

definition kw_words :: "u8 list list" where
  "kw_words =
    [[114, 101, 105, 110, 100, 101, 120],
     [105, 110, 100, 101, 120, 101, 100],
     [105, 110, 100, 101, 120],
     [100, 101, 115, 99],
     [101, 115, 99, 97, 112, 101],
     [101, 97, 99, 104],
     [99, 104, 101, 99, 107],
     [107, 101, 121],
     [98, 101, 102, 111, 114, 101],
     [102, 111, 114, 101, 105, 103, 110],
     [102, 111, 114],
     [105, 103, 110, 111, 114, 101],
     [114, 101, 103, 101, 120, 112],
     [101, 120, 112, 108, 97, 105, 110],
     [105, 110, 115, 116, 101, 97, 100],
     [97, 100, 100],
     [100, 97, 116, 97, 98, 97, 115, 101],
     [97, 115],
     [115, 101, 108, 101, 99, 116],
     [116, 97, 98, 108, 101],
     [108, 101, 102, 116],
     [116, 104, 101, 110],
     [101, 110, 100],
     [100, 101, 102, 101, 114, 114, 97, 98, 108, 101],
     [101, 108, 115, 101],
     [101, 120, 99, 101, 112, 116],
     [116, 114, 97, 110, 115, 97, 99, 116, 105, 111, 110],
     [97, 99, 116, 105, 111, 110],
     [111, 110],
     [110, 97, 116, 117, 114, 97, 108],
     [97, 108, 116, 101, 114],
     [114, 97, 105, 115, 101],
     [101, 120, 99, 108, 117, 115, 105, 118, 101],
     [101, 120, 105, 115, 116, 115],
     [115, 97, 118, 101, 112, 111, 105, 110, 116],
     [105, 110, 116, 101, 114, 115, 101, 99, 116],
     [116, 114, 105, 103, 103, 101, 114],
     [114, 101, 102, 101, 114, 101, 110, 99, 101, 115],
     [99, 111, 110, 115, 116, 114, 97, 105, 110, 116],
     [105, 110, 116, 111],
     [111, 102, 102, 115, 101, 116],
     [111, 102],
     [115, 101, 116],
     [116, 101, 109, 112, 111, 114, 97, 114, 121],
     [116, 101, 109, 112],
     [111, 114],
     [117, 110, 105, 113, 117, 101],
     [113, 117, 101, 114, 121],
     [119, 105, 116, 104, 111, 117, 116],
     [119, 105, 116, 104],
     [111, 117, 116, 101, 114],
     [114, 101, 108, 101, 97, 115, 101],
     [97, 116, 116, 97, 99, 104],
     [104, 97, 118, 105, 110, 103],
     [103, 114, 111, 117, 112],
     [117, 112, 100, 97, 116, 101],
     [98, 101, 103, 105, 110],
     [105, 110, 110, 101, 114],
     [114, 101, 99, 117, 114, 115, 105, 118, 101],
     [98, 101, 116, 119, 101, 101, 110],
     [110, 111, 116, 110, 117, 108, 108],
     [110, 111, 116],
     [110, 111],
     [110, 117, 108, 108],
     [108, 105, 107, 101],
     [99, 97, 115, 99, 97, 100, 101],
     [97, 115, 99],
     [100, 101, 108, 101, 116, 101],
     [99, 97, 115, 101],
     [99, 111, 108, 108, 97, 116, 101],
     [99, 114, 101, 97, 116, 101],
     [99, 117, 114, 114, 101, 110, 116, 95, 100, 97, 116, 101],
     [100, 101, 116, 97, 99, 104],
     [105, 109, 109, 101, 100, 105, 97, 116, 101],
     [106, 111, 105, 110],
     [105, 110, 115, 101, 114, 116],
     [109, 97, 116, 99, 104],
     [112, 108, 97, 110],
     [97, 110, 97, 108, 121, 122, 101],
     [112, 114, 97, 103, 109, 97],
     [97, 98, 111, 114, 116],
     [118, 97, 108, 117, 101, 115],
     [118, 105, 114, 116, 117, 97, 108],
     [108, 105, 109, 105, 116],
     [119, 104, 101, 110],
     [119, 104, 101, 114, 101],
     [114, 101, 110, 97, 109, 101],
     [97, 102, 116, 101, 114],
     [114, 101, 112, 108, 97, 99, 101],
     [97, 110, 100],
     [100, 101, 102, 97, 117, 108, 116],
     [97, 117, 116, 111, 105, 110, 99, 114, 101, 109, 101, 110, 116],
     [116, 111],
     [105, 110],
     [99, 97, 115, 116],
     [99, 111, 108, 117, 109, 110],
     [99, 111, 109, 109, 105, 116],
     [99, 111, 110, 102, 108, 105, 99, 116],
     [99, 114, 111, 115, 115],
     [99, 117, 114, 114, 101, 110, 116, 95, 116, 105, 109, 101, 115, 116, 97, 109, 112],
     [99, 117, 114, 114, 101, 110, 116, 95, 116, 105, 109, 101],
     [112, 114, 105, 109, 97, 114, 121],
     [100, 101, 102, 101, 114, 114, 101, 100],
     [100, 105, 115, 116, 105, 110, 99, 116],
     [105, 115],
     [100, 114, 111, 112],
     [102, 97, 105, 108],
     [102, 114, 111, 109],
     [102, 117, 108, 108],
     [103, 108, 111, 98],
     [98, 121],
     [105, 102],
     [105, 115, 110, 117, 108, 108],
     [111, 114, 100, 101, 114],
     [114, 101, 115, 116, 114, 105, 99, 116],
     [114, 105, 103, 104, 116],
     [114, 111, 108, 108, 98, 97, 99, 107],
     [114, 111, 119],
     [117, 110, 105, 111, 110],
     [117, 115, 105, 110, 103],
     [118, 97, 99, 117, 117, 109],
     [118, 105, 101, 119],
     [105, 110, 105, 116, 105, 97, 108, 108, 121],
     [97, 108, 108]]"

abbreviation bytes :: "string \<Rightarrow> u8 list" where
  "bytes \<equiv> map of_char"

text \<open>The offsets increase, so the words can be cut out of the text in one pass.\<close>

fun cut_words :: "nat \<Rightarrow> 'a list \<Rightarrow> (nat \<times> nat) list \<Rightarrow> 'a list list" where
  "cut_words p t [] = []"
| "cut_words p t ((len, off) # xs) = take len (drop (off - p) t) # cut_words off (drop (off - p) t) xs"

lemma cut_words_eq:
  "sorted (p # map snd xs) \<Longrightarrow> cut_words p (drop p t) xs = map (\<lambda>(len, off). take len (drop off t)) xs"
proof (induction xs arbitrary: p)
  case (Cons x xs)
  obtain len off where x: "x = (len, off)" by (cases x)
  with Cons.prems have le: "p \<le> off" and "sorted (off # map snd xs)" by auto
  with Cons.IH [of off] x show ?case by (simp add: drop_drop)
qed simp

lemma kw_lengths:
  "length aLen = 124" "length aOffset = 124" "length aNext = 124" "length aCode = 124"
  "length aHash = 127" "length keyword_table = 124" "length kw_words = 124" "length zText = 553"
  by (simp_all add: aLen_def aOffset_def aNext_def aCode_def aHash_def keyword_table_def kw_words_def
      zText_def zText_chars_def)

lemma sorted_aOffset: "sorted (0 # aOffset)"
  unfolding aOffset_def by (simp only: sorted2_simps) simp

lemma kw_strings: "map (\<lambda>(len, off). take len (drop off zText_chars)) (zip aLen aOffset) = map fst keyword_table"
proof -
  have "cut_words 0 zText_chars (zip aLen aOffset) = map fst keyword_table"
    by (simp add: zText_chars_def aLen_def aOffset_def keyword_table_def)
  moreover have "sorted (0 # map snd (zip aLen aOffset))"
    using sorted_aOffset by (simp only: map_snd_zip kw_lengths)
  ultimately show ?thesis using cut_words_eq [of 0 "zip aLen aOffset" zText_chars] by simp
qed

lemma kw_words_eq: "map (fold_case \<circ> bytes \<circ> fst) keyword_table = kw_words"
  by (simp add: keyword_table_def kw_words_def Tolower_eq)

lemma aCode_eq: "aCode = map snd keyword_table"
  by (simp add: aCode_def keyword_table_def)

section \<open>The hash chains reach every keyword\<close>

definition kw_hash :: "u8 list \<Rightarrow> nat" where
  "kw_hash w = nat (((uint (hd w) * 4) XOR (uint (last w) * 3) XOR int (length w)) mod 127)"

fun reaches :: "nat \<Rightarrow> nat \<Rightarrow> nat \<Rightarrow> bool" where
  "reaches 0 k t = False"
| "reaches (Suc f) k t = (if k = t then True else if k = 0 then False else reaches f (aNext ! (k - 1)) t)"

definition kw_hashes :: "nat list" where
  "kw_hashes =
    [40, 16, 74, 62, 62, 41, 73, 69, 34, 86, 78, 14, 31,
     90, 16, 44, 56, 96, 23, 123, 105, 31, 60, 54, 64, 79,
     18, 73, 117, 124, 88, 99, 51, 76, 26, 114, 2, 28, 91,
     110, 103, 13, 20, 51, 5, 105, 126, 43, 8, 97, 112, 97,
     59, 20, 74, 126, 72, 120, 111, 70, 124, 104, 120, 121, 28,
     37, 47, 58, 40, 37, 38, 48, 47, 3, 103, 0, 10, 15,
     45, 102, 94, 8, 28, 106, 19, 119, 98, 88, 97, 44, 76,
     86, 32, 109, 85, 65, 87, 89, 81, 78, 48, 45, 53, 69,
     1, 69, 89, 92, 89, 63, 98, 21, 103, 112, 29, 18, 2,
     47, 28, 101, 26, 58, 71, 68]"

lemma kw_hashes_eq: "map kw_hash kw_words = kw_hashes"
  by (simp add: kw_hash_def kw_words_def kw_hashes_def)

definition kw_heads :: "nat list" where
  "kw_heads =
    [69, 15, 55, 5, 5, 6, 28, 106, 9, 92, 100, 12, 22,
     14, 15, 90, 17, 18, 19, 20, 46, 22, 23, 24, 25, 26,
     116, 28, 29, 61, 88, 32, 44, 91, 121, 36, 117, 119, 39,
     40, 113, 42, 54, 44, 45, 46, 56, 48, 82, 89, 114, 89,
     53, 54, 55, 56, 57, 63, 59, 60, 61, 62, 63, 64, 119,
     70, 118, 122, 69, 70, 71, 101, 118, 74, 113, 76, 77, 78,
     102, 80, 81, 82, 119, 84, 85, 86, 111, 88, 89, 90, 91,
     92, 93, 94, 95, 96, 97, 109, 99, 100, 101, 102, 103, 106,
     105, 106, 109, 108, 109, 110, 111, 112, 113, 114, 115, 116, 117,
     118, 119, 120, 121, 122, 123, 124]"

definition kw_targets :: "nat list" where
  "kw_targets =
    [1, 2, 3, 4, 5, 6, 7, 8, 9, 10, 11, 12, 13,
     14, 15, 16, 17, 18, 19, 20, 21, 22, 23, 24, 25, 26,
     27, 28, 29, 30, 31, 32, 33, 34, 35, 36, 37, 38, 39,
     40, 41, 42, 43, 44, 45, 46, 47, 48, 49, 50, 51, 52,
     53, 54, 55, 56, 57, 58, 59, 60, 61, 62, 63, 64, 65,
     66, 67, 68, 69, 70, 71, 72, 73, 74, 75, 76, 77, 78,
     79, 80, 81, 82, 83, 84, 85, 86, 87, 88, 89, 90, 91,
     92, 93, 94, 95, 96, 97, 98, 99, 100, 101, 102, 103, 104,
     105, 106, 107, 108, 109, 110, 111, 112, 113, 114, 115, 116, 117,
     118, 119, 120, 121, 122, 123, 124]"

lemma kw_heads_eq: "map ((!) aHash) kw_hashes = kw_heads"
  by (simp add: kw_heads_def kw_hashes_def aHash_def)

lemma kw_targets_eq: "kw_targets = map Suc [0..<124]"
  by (simp add: kw_targets_def upt_rec)

lemma aNext_links:
  "aNext ! 4 = 4" "aNext ! 14 = 2" "aNext ! 21 = 13" "aNext ! 27 = 7"
  "aNext ! 43 = 33" "aNext ! 45 = 21" "aNext ! 51 = 50" "aNext ! 53 = 43"
  "aNext ! 54 = 3" "aNext ! 55 = 47" "aNext ! 60 = 30" "aNext ! 62 = 58"
  "aNext ! 64 = 38" "aNext ! 68 = 1" "aNext ! 69 = 66" "aNext ! 72 = 67"
  "aNext ! 74 = 41" "aNext ! 81 = 49" "aNext ! 82 = 65" "aNext ! 87 = 31"
  "aNext ! 88 = 52" "aNext ! 89 = 16" "aNext ! 90 = 34" "aNext ! 91 = 10"
  "aNext ! 99 = 11" "aNext ! 100 = 72" "aNext ! 101 = 79" "aNext ! 103 = 8"
  "aNext ! 105 = 104" "aNext ! 106 = 98" "aNext ! 108 = 107" "aNext ! 110 = 87"
  "aNext ! 112 = 75" "aNext ! 113 = 51" "aNext ! 115 = 27" "aNext ! 116 = 37"
  "aNext ! 117 = 73" "aNext ! 118 = 83" "aNext ! 120 = 35" "aNext ! 121 = 68"
  by (simp_all add: aNext_def)

lemma kw_reaches: "list_all2 (reaches (Suc (Suc (Suc (Suc 0))))) kw_heads kw_targets"
  by (simp add: kw_heads_def kw_targets_def aNext_links)

section \<open>Lookup is lookup in the table\<close>

lemma kw_nth:
  assumes "i < 124"
  shows "fold_case (take (aLen ! i) (drop (aOffset ! i) zText)) = kw_words ! i"
    and "aLen ! i = length (kw_words ! i)" and "aLen ! i \<le> length (drop (aOffset ! i) zText)"
proof -
  let ?f = "\<lambda>(len, off). take len (drop off zText_chars)"
  have "map ?f (zip aLen aOffset) ! i = ?f (aLen ! i, aOffset ! i)"
    using assms by (simp add: kw_lengths)
  then have w: "take (aLen ! i) (drop (aOffset ! i) zText_chars) = fst (keyword_table ! i)"
    unfolding kw_strings using assms by (simp add: kw_lengths)
  have k: "kw_words ! i = fold_case (bytes (fst (keyword_table ! i)))"
    unfolding kw_words_eq [symmetric] using assms by (simp add: kw_lengths)
  show "fold_case (take (aLen ! i) (drop (aOffset ! i) zText)) = kw_words ! i"
    unfolding k w [symmetric] by (simp add: zText_def take_map drop_map)
  have "list_all2 (\<lambda>l w. l = length w) aLen kw_words" "list_all2 (\<lambda>l off. off + l \<le> 553) aLen aOffset"
    by (simp_all add: aLen_def kw_words_def aOffset_def)
  then show "aLen ! i = length (kw_words ! i)" "aLen ! i \<le> length (drop (aOffset ! i) zText)"
    using assms by (auto simp: list_all2_conv_all_nth kw_lengths)
qed

lemma zText_no_nul: "0 \<notin> set zText"
  by (simp add: zText_def zText_chars_def)

lemma keywordCode_step:
  assumes "i < 124" and "n \<le> length z"
  shows "keywordCode_loop z n (Suc i) =
    (if kw_words ! i = fold_case (take n z) then Some (aCode ! i) else keywordCode_loop z n (aNext ! i))"
proof (cases "aLen ! i = n")
  case True
  note k = kw_nth [OF assms(1)]
  have "0 \<notin> set (take n (drop (aOffset ! i) zText))"
    using zText_no_nul by (meson in_set_dropD in_set_takeD)
  then obtain c where "sqlite3_strnicmp (drop (aOffset ! i) zText) z n = Some c"
      "c = 0 \<longleftrightarrow> kw_words ! i = fold_case (take n z)"
    using strnicmp_take [of n "drop (aOffset ! i) zText" z] k True assms(2) by auto
  with True assms(1) show ?thesis by (simp add: kw_lengths)
next
  case False
  have "kw_words ! i \<noteq> fold_case (take n z)"
    using False kw_nth(2) [OF assms(1)] assms(2) by (metis length_map length_take min.absorb2)
  with False assms(1) show ?thesis by (simp add: kw_lengths)
qed

lemma aNext_bound: "i < 124 \<Longrightarrow> aNext ! i \<le> i"
  using aNext_decreases [of i "aNext ! i"] by (simp add: rd_def kw_lengths)

lemma keywordCode_loop_sound:
  "k \<le> 124 \<Longrightarrow> n \<le> length z \<Longrightarrow> \<exists>c. keywordCode_loop z n k = Some c \<and>
    (c = TK_ID \<and> fold_case (take n z) \<notin> set kw_words \<or>
     (fold_case (take n z), c) \<in> set (zip kw_words aCode) \<or>
     (\<forall>f i. \<not> (reaches f k (Suc i) \<and> i < 124 \<and> kw_words ! i = fold_case (take n z))) \<and> c = TK_ID)"
proof (induction k rule: less_induct)
  case (less k)
  let ?w = "fold_case (take n z)"
  show ?case
  proof (cases k)
    case 0
    have "\<not> reaches f 0 (Suc i)" for f i by (cases f) simp_all
    with 0 show ?thesis by simp
  next
    case (Suc i)
    then have i: "i < 124" using less.prems by simp
    note st = keywordCode_step [OF i less.prems(2)]
    show ?thesis
    proof (cases "kw_words ! i = ?w")
      case True
      then have "(?w, aCode ! i) \<in> set (zip kw_words aCode)"
        using i by (auto simp: set_zip kw_lengths intro!: exI [of _ i])
      moreover have "keywordCode_loop z n k = Some (aCode ! i)" using st True Suc by simp
      ultimately show ?thesis by blast
    next
      case False
      have n: "aNext ! i < k" "aNext ! i \<le> 124" using aNext_bound [OF i] Suc i by simp_all
      have "reaches f k (Suc j) \<Longrightarrow> kw_words ! j = ?w \<Longrightarrow> \<exists>f'. reaches f' (aNext ! i) (Suc j)" for f j
        using False Suc by (cases f) (auto split: if_splits)
      moreover have "keywordCode_loop z n k = keywordCode_loop z n (aNext ! i)" using st False Suc by simp
      ultimately show ?thesis using less.IH [OF n less.prems(2)] by metis
    qed
  qed
qed

lemma keywordCode_spec:
  assumes "2 \<le> n" and "n \<le> length z"
  shows "\<exists>c. keywordCode z n = Some c \<and>
    (if fold_case (take n z) \<in> set kw_words then (fold_case (take n z), c) \<in> set (zip kw_words aCode)
     else c = TK_ID)"
proof -
  let ?w = "fold_case (take n z)"
  let ?h = "nat (((charMap (z ! 0) * 4) XOR (charMap (z ! (n - 1)) * 3) XOR int n) mod 127)"
  have "hd ?w = sqlite3Tolower (z ! 0)" "last ?w = sqlite3Tolower (z ! (n - 1))" "length ?w = n"
  proof -
    have "take n z \<noteq> []" using assms by auto
    with assms show "hd ?w = sqlite3Tolower (z ! 0)" "last ?w = sqlite3Tolower (z ! (n - 1))" "length ?w = n"
      by (simp_all add: hd_map last_map last_conv_nth hd_conv_nth)
  qed
  then have h: "kw_hash ?w = ?h" by (simp add: kw_hash_def charMap_def)
  have "list_all (\<lambda>k. k \<le> 124) aHash" by (simp add: aHash_def)
  then have a: "?h < 127" "aHash ! ?h \<le> 124" by (simp_all add: list_all_length kw_lengths)
  have reach: "\<exists>f i. reaches f (aHash ! ?h) (Suc i) \<and> i < 124 \<and> kw_words ! i = ?w" if "?w \<in> set kw_words"
  proof -
    from that obtain i where i: "i < 124" "kw_words ! i = ?w" by (auto simp: in_set_conv_nth kw_lengths)
    have len: "length kw_hashes = 124" unfolding kw_hashes_eq [symmetric] by (simp add: kw_lengths)
    have "kw_hashes ! i = ?h" unfolding h [symmetric] kw_hashes_eq [symmetric] using i by (simp add: kw_lengths)
    moreover have "kw_heads ! i = aHash ! (kw_hashes ! i)" unfolding kw_heads_eq [symmetric] using i len by simp
    moreover have "kw_targets ! i = Suc i" unfolding kw_targets_eq using i by simp
    moreover have "i < length kw_heads" unfolding kw_heads_eq [symmetric] using i len by simp
    ultimately have "reaches (Suc (Suc (Suc (Suc 0)))) (aHash ! ?h) (Suc i)"
      using list_all2_nthD [OF kw_reaches, of i] by simp
    with i show ?thesis by blast
  qed
  have "keywordCode z n = keywordCode_loop z n (aHash ! ?h)"
  proof -
    have "rd z 0 = Some (z ! 0)" "rd z (n - 1) = Some (z ! (n - 1))" using assms by (auto intro!: rd_lt)
    with assms a(1) show ?thesis by (simp add: keywordCode_def kw_lengths)
  qed
  with keywordCode_loop_sound [OF a(2) assms(2)] reach show ?thesis by (auto dest: set_zip_leftD)
qed

lemma keywordCode_total: "n \<le> length z \<Longrightarrow> \<exists>c. keywordCode z n = Some c"
  using keywordCode_spec [of n z] by (cases "n < 2") (auto simp: keywordCode_def)

section \<open>Properties\<close>

text \<open>C34. The generated keyword recogniser is a lookup in the list of keywords: it never leaves its
  tables, recognises each of the 124 keywords in any mixture of upper and lower case with
  the code of that keyword, and answers \<^verbatim>\<open>TK_ID\<close> for every other word.\<close>

theorem keywordCode_table:
  assumes "n \<le> length z"
  shows "\<exists>c. keywordCode z n = Some c \<and>
    (if \<exists>w \<in> set keyword_table. fold_case (take n z) = fold_case (bytes (fst w))
     then (fold_case (take n z), c) \<in> set (map (\<lambda>(w, c). (fold_case (bytes w), c)) keyword_table)
     else c = TK_ID)"
proof -
  have words: "fold_case (take n z) \<in> set kw_words \<longleftrightarrow>
      (\<exists>w \<in> set keyword_table. fold_case (take n z) = fold_case (bytes (fst w)))"
    unfolding kw_words_eq [symmetric] by auto
  have zip: "zip kw_words aCode = map (\<lambda>(w, c). (fold_case (bytes w), c)) keyword_table"
    unfolding kw_words_eq [symmetric] aCode_eq by (simp add: zip_map1 zip_map2 zip_same_conv_map case_prod_beta)
  show ?thesis
  proof (cases "n < 2")
    case True
    have "list_all (\<lambda>w. 2 \<le> length w) kw_words" by (simp add: kw_words_def)
    then have "fold_case (take n z) \<notin> set kw_words" using True by (auto simp: list_all_iff)
    with True words show ?thesis by (simp add: keywordCode_def)
  next
    case False
    with keywordCode_spec [of n z] assms show ?thesis unfolding words zip by simp
  qed
qed

theorem keywordCode_table_witness:
  "\<exists>c. keywordCode (bytes ''SeLecT a'') 6 = Some c \<and>
    (fold_case (take 6 (bytes ''SeLecT a'')), c) \<in> set (map (\<lambda>(w, c). (fold_case (bytes w), c)) keyword_table)"
proof -
  have "(''SELECT'', TK_SELECT) \<in> set keyword_table" by (simp add: keyword_table_def)
  moreover have "fold_case (take 6 (bytes ''SeLecT a'')) = fold_case (bytes ''SELECT'')" by (simp add: Tolower_eq)
  ultimately have "\<exists>w \<in> set keyword_table. fold_case (take 6 (bytes ''SeLecT a'')) = fold_case (bytes (fst w))"
    by force
  with keywordCode_table [of 6 "bytes ''SeLecT a''"] show ?thesis by simp
qed

end
