(* ===== verification/Tokenize.thy ===== *)
theory Tokenize
  imports Keywords Numtext
begin

text \<open>
  The tokenizer (\<^verbatim>\<open>tokenize.c\<close>): \<^verbatim>\<open>sqlite3GetToken\<close>, one definition for each group of cases of its
  switch. The text is a byte list that starts at the token; reading past its end is \<open>None\<close>, so
  a result \<open>Some\<close> on a text that ends with its terminator means that nothing behind the
  terminator was read.
\<close>

abbreviation ch :: "char \<Rightarrow> u8" where
  "ch \<equiv> of_char"

section \<open>Scanning loops\<close>

text \<open>\<^verbatim>\<open>for(; P(z[i]); i++){}\<close>\<close>

fun scan_loop :: "(u8 \<Rightarrow> bool) \<Rightarrow> u8 list \<Rightarrow> nat \<Rightarrow> nat option" where
  "scan_loop P [] i = None"
| "scan_loop P (c # z) i = (if P c then scan_loop P z (i + 1) else Some i)"

definition scan :: "(u8 \<Rightarrow> bool) \<Rightarrow> u8 list \<Rightarrow> nat \<Rightarrow> nat option" where
  "scan P z i = scan_loop P (drop i z) i"

text \<open>\<^verbatim>\<open>for(i=3, c=z[2]; (c!='*' || z[i]!='/') && (c=z[i])!=0; i++){}\<close>\<close>

fun comment_scan :: "u8 \<Rightarrow> u8 list \<Rightarrow> nat \<Rightarrow> (nat \<times> u8) option" where
  "comment_scan c [] i = None"
| "comment_scan c (x # z) i =
     (if c \<noteq> ch CHR ''*'' \<or> x \<noteq> ch CHR ''/''
      then (if x \<noteq> 0 then comment_scan x z (i + 1) else Some (i, 0))
      else Some (i, c))"

fun quote_scan :: "u8 \<Rightarrow> u8 list \<Rightarrow> nat \<Rightarrow> (nat \<times> u8) option" where
  "quote_scan delim [] i = None"
| "quote_scan delim (c # z) i =
     (if c = 0 then Some (i, 0)
      else if c = delim then
        (case z of [] \<Rightarrow> None | d # z' \<Rightarrow> if d = delim then quote_scan delim z' (i + 2) else Some (i, c))
      else quote_scan delim z (i + 1))"

text \<open>\<^verbatim>\<open>for(i=1, c=z[0]; c!=']' && (c=z[i])!=0; i++){}\<close>\<close>

fun bracket_scan :: "u8 \<Rightarrow> u8 list \<Rightarrow> nat \<Rightarrow> (nat \<times> u8) option" where
  "bracket_scan c [] i = (if c = ch CHR '']'' then Some (i, c) else None)"
| "bracket_scan c (x # z) i =
     (if c = ch CHR '']'' then Some (i, c) else if x = 0 then Some (i, 0) else bracket_scan x z (i + 1))"

text \<open>The loop of a variable name; \<open>n\<close> counts its identifier characters, the last component of the
  result says whether a parenthesised part is left open.\<close>

fun var_scan :: "u8 list \<Rightarrow> nat \<Rightarrow> nat \<Rightarrow> (nat \<times> nat \<times> bool) option" where
  "var_scan [] i n = None"
| "var_scan (c # z) i n =
     (if c = 0 then Some (i, n, False)
      else if IdChar c then var_scan z (i + 1) (n + 1)
      else if c = ch CHR ''('' \<and> n > 0 then do {
        j \<leftarrow> scan_loop (\<lambda>c. c \<noteq> 0 \<and> \<not> sqlite3Isspace c \<and> c \<noteq> ch CHR '')'') z (i + 1);
        x \<leftarrow> rd z (j - (i + 1));
        Some (if x = ch CHR '')'' then (j + 1, n, False) else (j, n, True))
      }
      else if c = ch CHR '':'' then
        (case z of [] \<Rightarrow> None | d # z' \<Rightarrow> if d = ch CHR '':'' then var_scan z' (i + 2) n else Some (i, n, False))
      else Some (i, n, False))"

section \<open>Token classes\<close>

text \<open>Each returns the length of the token and its type.\<close>

definition tok_space :: "u8 list \<Rightarrow> (nat \<times> nat) option" where
  "tok_space z = map_option (\<lambda>i. (i, TK_SPACE)) (scan sqlite3Isspace z 1)"

definition tok_minus :: "u8 list \<Rightarrow> (nat \<times> nat) option" where
  "tok_minus z = do {
     c \<leftarrow> rd z 1;
     if c = ch CHR ''-'' then map_option (\<lambda>i. (i, TK_SPACE)) (scan (\<lambda>c. c \<noteq> 0 \<and> c \<noteq> 10) z 2)
     else Some (1, TK_MINUS)
   }"

definition tok_slash :: "u8 list \<Rightarrow> (nat \<times> nat) option" where
  "tok_slash z = do {
     c \<leftarrow> rd z 1;
     if c \<noteq> ch CHR ''*'' then Some (1, TK_SLASH)
     else do {
       c \<leftarrow> rd z 2;
       if c = 0 then Some (1, TK_SLASH)
       else do {
         (i, c) \<leftarrow> comment_scan c (drop 3 z) 3;
         Some (if c \<noteq> 0 then i + 1 else i, TK_SPACE)
       }
     }
   }"

definition tok_eq :: "u8 list \<Rightarrow> (nat \<times> nat) option" where
  "tok_eq z = do {
     c \<leftarrow> rd z 1;
     Some (1 + (if c = ch CHR ''='' then 1 else 0), TK_EQ)
   }"

definition tok_less :: "u8 list \<Rightarrow> (nat \<times> nat) option" where
  "tok_less z = do {
     c \<leftarrow> rd z 1;
     Some (if c = ch CHR ''='' then (2, TK_LE)
           else if c = ch CHR ''>'' then (2, TK_NE)
           else if c = ch CHR ''<'' then (2, TK_LSHIFT)
           else (1, TK_LT))
   }"

definition tok_greater :: "u8 list \<Rightarrow> (nat \<times> nat) option" where
  "tok_greater z = do {
     c \<leftarrow> rd z 1;
     Some (if c = ch CHR ''='' then (2, TK_GE)
           else if c = ch CHR ''>'' then (2, TK_RSHIFT)
           else (1, TK_GT))
   }"

definition tok_bang :: "u8 list \<Rightarrow> (nat \<times> nat) option" where
  "tok_bang z = do {
     c \<leftarrow> rd z 1;
     Some (if c \<noteq> ch CHR ''='' then (2, TK_ILLEGAL) else (2, TK_NE))
   }"

definition tok_bar :: "u8 list \<Rightarrow> (nat \<times> nat) option" where
  "tok_bar z = do {
     c \<leftarrow> rd z 1;
     Some (if c \<noteq> ch CHR ''|'' then (1, TK_BITOR) else (2, TK_CONCAT))
   }"

definition tok_quote :: "u8 list \<Rightarrow> (nat \<times> nat) option" where
  "tok_quote z = do {
     delim \<leftarrow> rd z 0;
     (i, c) \<leftarrow> quote_scan delim (drop 1 z) 1;
     Some (if c = ch CHR 0x27 then (i + 1, TK_STRING)
           else if c \<noteq> 0 then (i + 1, TK_ID)
           else (i, TK_ILLEGAL))
   }"

text \<open>The exponent of a number: whether \<open>z[i]\<close> starts one.\<close>

definition exponent_at :: "u8 list \<Rightarrow> nat \<Rightarrow> bool option" where
  "exponent_at z i = do {
     c \<leftarrow> rd z i;
     if c = ch CHR ''e'' \<or> c = ch CHR ''E'' then do {
       c1 \<leftarrow> rd z (i + 1);
       if sqlite3Isdigit c1 then Some True
       else if c1 = ch CHR ''+'' \<or> c1 = ch CHR ''-'' then map_option sqlite3Isdigit (rd z (i + 2))
       else Some False
     } else Some False
   }"

definition tok_number :: "u8 list \<Rightarrow> (nat \<times> nat) option" where
  "tok_number z = do {
     i \<leftarrow> scan sqlite3Isdigit z 0;
     c \<leftarrow> rd z i;
     (i, t) \<leftarrow> (if c = ch CHR ''.'' then map_option (\<lambda>i. (i, TK_FLOAT)) (scan sqlite3Isdigit z (i + 1))
               else Some (i, TK_INTEGER));
     e \<leftarrow> exponent_at z i;
     (i, t) \<leftarrow> (if e then map_option (\<lambda>i. (i, TK_FLOAT)) (scan sqlite3Isdigit z (i + 2)) else Some (i, t));
     j \<leftarrow> scan IdChar z i;
     Some (j, if i < j then TK_ILLEGAL else t)
   }"

definition tok_dot :: "u8 list \<Rightarrow> (nat \<times> nat) option" where
  "tok_dot z = do {
     c \<leftarrow> rd z 1;
     if \<not> sqlite3Isdigit c then Some (1, TK_DOT) else tok_number z
   }"

definition tok_bracket :: "u8 list \<Rightarrow> (nat \<times> nat) option" where
  "tok_bracket z = do {
     c \<leftarrow> rd z 0;
     (i, c) \<leftarrow> bracket_scan c (drop 1 z) 1;
     Some (i, if c = ch CHR '']'' then TK_ID else TK_ILLEGAL)
   }"

definition tok_qmark :: "u8 list \<Rightarrow> (nat \<times> nat) option" where
  "tok_qmark z = map_option (\<lambda>i. (i, TK_VARIABLE)) (scan sqlite3Isdigit z 1)"

definition tok_variable :: "u8 list \<Rightarrow> (nat \<times> nat) option" where
  "tok_variable z = do {
     (i, n, bad) \<leftarrow> var_scan (drop 1 z) 1 0;
     Some (i, if n = 0 \<or> bad then TK_ILLEGAL else TK_VARIABLE)
   }"

definition tok_id :: "u8 list \<Rightarrow> (nat \<times> nat) option" where
  "tok_id z = do {
     c \<leftarrow> rd z 0;
     if \<not> IdChar c then Some (1, TK_ILLEGAL)
     else do {
       i \<leftarrow> scan IdChar z 1;
       t \<leftarrow> keywordCode z i;
       Some (i, t)
     }
   }"

definition tok_blob :: "u8 list \<Rightarrow> (nat \<times> nat) option" where
  "tok_blob z = do {
     c \<leftarrow> rd z 1;
     if c = ch CHR 0x27 then do {
       i \<leftarrow> scan sqlite3Isxdigit z 2;
       c \<leftarrow> rd z i;
       (i, t) \<leftarrow> (if c \<noteq> ch CHR 0x27 \<or> i mod 2 \<noteq> 0
                 then map_option (\<lambda>i. (i, TK_ILLEGAL)) (scan (\<lambda>c. c \<noteq> 0 \<and> c \<noteq> ch CHR 0x27) z i)
                 else Some (i, TK_BLOB));
       c \<leftarrow> rd z i;
       Some (if c \<noteq> 0 then i + 1 else i, t)
     }
     else tok_id z
   }"

section \<open>The switch\<close>

definition sqlite3GetToken :: "u8 list \<Rightarrow> (nat \<times> nat) option" where
  "sqlite3GetToken z = do {
     c \<leftarrow> rd z 0;
     if c \<in> {0x20, 0x09, 0x0a, 0x0c, 0x0d} then tok_space z
     else if c = ch CHR ''-'' then tok_minus z
     else if c = ch CHR ''('' then Some (1, TK_LP)
     else if c = ch CHR '')'' then Some (1, TK_RP)
     else if c = ch CHR '';'' then Some (1, TK_SEMI)
     else if c = ch CHR ''+'' then Some (1, TK_PLUS)
     else if c = ch CHR ''*'' then Some (1, TK_STAR)
     else if c = ch CHR ''/'' then tok_slash z
     else if c = ch CHR ''%'' then Some (1, TK_REM)
     else if c = ch CHR ''='' then tok_eq z
     else if c = ch CHR ''<'' then tok_less z
     else if c = ch CHR ''>'' then tok_greater z
     else if c = ch CHR ''!'' then tok_bang z
     else if c = ch CHR ''|'' then tok_bar z
     else if c = ch CHR '','' then Some (1, TK_COMMA)
     else if c = ch CHR ''&'' then Some (1, TK_BITAND)
     else if c = ch CHR ''~'' then Some (1, TK_BITNOT)
     else if c \<in> {ch CHR ''`'', ch CHR 0x27, ch CHR 0x22} then tok_quote z
     else if c = ch CHR ''.'' then tok_dot z
     else if ch CHR ''0'' \<le> c \<and> c \<le> ch CHR ''9'' then tok_number z
     else if c = ch CHR ''['' then tok_bracket z
     else if c = ch CHR ''?'' then tok_qmark z
     else if c \<in> {ch CHR ''$'', ch CHR ''@'', ch CHR ''#'', ch CHR '':''} then tok_variable z
     else if c = ch CHR ''x'' \<or> c = ch CHR ''X'' then tok_blob z
     else tok_id z
   }"

section \<open>Tokens stay inside the text\<close>

text \<open>The text \<open>s\<close> without terminators, followed by its terminator and anything else.\<close>

definition char_at :: "u8 list \<Rightarrow> nat \<Rightarrow> u8" where
  "char_at s i = (if i < length s then s ! i else 0)"

declare rd_lt [simp del]

lemma rd_text: "i \<le> length s \<Longrightarrow> rd (s @ 0 # r) i = Some (char_at s i)"
  by (auto simp: rd_def char_at_def nth_append)

lemma char_at_inside: "char_at s i \<noteq> 0 \<Longrightarrow> i < length s"
  by (auto simp: char_at_def split: if_splits)

lemma drop_text: "i \<le> length s \<Longrightarrow> drop i (s @ 0 # r) = drop i s @ 0 # r"
  by simp

definition tok_ok :: "u8 list \<Rightarrow> (nat \<times> nat) option \<Rightarrow> bool" where
  "tok_ok s x \<longleftrightarrow> (\<exists>n t. x = Some (n, t) \<and> 1 \<le> n \<and> n \<le> length s)"

lemma tok_okI: "x = Some (n, t) \<Longrightarrow> 1 \<le> n \<Longrightarrow> n \<le> length s \<Longrightarrow> tok_ok s x"
  by (simp add: tok_ok_def)

lemma scan_loop_text:
  "\<not> P 0 \<Longrightarrow> scan_loop P (s @ 0 # r) i = Some (i + length (takeWhile P s))"
  by (induction s arbitrary: i) simp_all

lemma scan_text:
  assumes "\<not> P 0" and "i \<le> length s"
  obtains j where "scan P (s @ 0 # r) i = Some j" "i \<le> j" "j \<le> length s"
    "\<And>k. i \<le> k \<Longrightarrow> k < j \<Longrightarrow> P (s ! k)"
proof
  let ?t = "takeWhile P (drop i s)"
  show "scan P (s @ 0 # r) i = Some (i + length ?t)"
    using assms(2) by (simp add: scan_def scan_loop_text [of P, OF assms(1)])
  show "i \<le> i + length ?t" by simp
  have "length ?t \<le> length (drop i s)" by (rule length_takeWhile_le)
  with assms(2) show "i + length ?t \<le> length s" by simp
  fix k assume k: "i \<le> k" "k < i + length ?t"
  then have "?t ! (k - i) \<in> set ?t" by (intro nth_mem) simp
  moreover have "?t ! (k - i) = s ! k" using k assms(2) by (subst takeWhile_nth) simp_all
  ultimately show "P (s ! k)" by (metis set_takeWhileD)
qed

lemma comment_scan_text:
  "0 \<notin> set s \<Longrightarrow> c \<noteq> 0 \<Longrightarrow> \<exists>n x. comment_scan c (s @ 0 # r) i = Some (i + n, x) \<and> n \<le> length s \<and>
    (x \<noteq> 0 \<longrightarrow> n < length s)"
proof (induction s arbitrary: c i)
  case (Cons y s)
  have y: "y \<noteq> 0" "0 \<notin> set s" using Cons.prems by auto
  show ?case
  proof (cases "c \<noteq> ch CHR ''*'' \<or> y \<noteq> ch CHR ''/''")
    case True
    obtain n x where "comment_scan y (s @ 0 # r) (Suc i) = Some (Suc i + n, x)" "n \<le> length s"
        "x \<noteq> 0 \<longrightarrow> n < length s"
      using Cons.IH [OF y(2) y(1), of "Suc i"] by blast
    with True y show ?thesis by (intro exI [of _ "Suc n"]) auto
  next
    case False
    then show ?thesis by (intro exI [of _ 0] exI [of _ c]) auto
  qed
qed auto

lemma quote_scan_text:
  "0 \<notin> set s \<Longrightarrow> \<exists>n x. quote_scan d (s @ 0 # r) i = Some (i + n, x) \<and> n \<le> length s \<and>
    (x \<noteq> 0 \<longrightarrow> n < length s)"
proof (induction s arbitrary: i rule: length_induct)
  case (1 s)
  show ?case
  proof (cases s)
    case (Cons c s')
    have c: "c \<noteq> 0" "0 \<notin> set s'" using 1(2) Cons by auto
    consider (quote) "c = d" "\<exists>s''. s' = d # s''" | (stop) "c = d" "\<nexists>s''. s' = d # s''" | (other) "c \<noteq> d" by blast
    then show ?thesis
    proof cases
      case quote
      then obtain s'' where s'': "s' = d # s''" by blast
      obtain n x where "quote_scan d (s'' @ 0 # r) (i + 2) = Some (i + 2 + n, x)" "n \<le> length s''"
          "x \<noteq> 0 \<longrightarrow> n < length s''"
        using 1(1) c(2) s'' Cons by (metis Suc_lessI Suc_n_not_le_n length_Cons less_Suc_eq list.set_intros(2) nat_le_linear)
      with quote s'' Cons c show ?thesis by (intro exI [of _ "n + 2"]) auto
    next
      case stop
      with Cons c show ?thesis by (intro exI [of _ 0] exI [of _ d]) (cases s'; auto)
    next
      case other
      obtain n x where "quote_scan d (s' @ 0 # r) (i + 1) = Some (i + 1 + n, x)" "n \<le> length s'"
          "x \<noteq> 0 \<longrightarrow> n < length s'"
        using 1(1) c(2) Cons by (metis length_Cons lessI)
      with other Cons c show ?thesis by (intro exI [of _ "n + 1"]) auto
    qed
  qed auto
qed

lemma bracket_scan_text:
  "0 \<notin> set s \<Longrightarrow> \<exists>n x. bracket_scan c (s @ 0 # r) i = Some (i + n, x) \<and> n \<le> length s"
proof (induction s arbitrary: c i)
  case (Cons y s)
  obtain n x where "bracket_scan y (s @ 0 # r) (i + 1) = Some (i + 1 + n, x)" "n \<le> length s"
    using Cons.IH [of y "i + 1"] Cons.prems by auto
  with Cons.prems show ?case
    by (cases "c = ch CHR '']''") (auto intro: exI [of _ 0] exI [of _ "Suc n"])
qed (auto intro: exI [of _ 0])

lemma IdChar_0 [simp]: "\<not> IdChar 0"
  by (simp add: IdChar_eq)

lemma ctype_0 [simp]: "\<not> sqlite3Isspace 0" "\<not> sqlite3Isdigit 0" "\<not> sqlite3Isxdigit 0"
  by (simp_all add: ctype_simps)

lemma var_scan_text:
  "0 \<notin> set s \<Longrightarrow> \<exists>k m bad. var_scan (s @ 0 # r) i n = Some (i + k, m, bad) \<and> k \<le> length s"
proof (induction s arbitrary: i n rule: length_induct)
  case (1 s)
  show ?case
  proof (cases s)
    case (Cons c s')
    let ?P = "\<lambda>c. c \<noteq> 0 \<and> \<not> sqlite3Isspace c \<and> c \<noteq> ch CHR '')''"
    have c: "c \<noteq> 0" "0 \<notin> set s'" using 1(2) Cons by auto
    have IH: "\<exists>k m bad. var_scan (t @ 0 # r) j n' = Some (j + k, m, bad) \<and> k \<le> length t"
      if "length t < length s" "0 \<notin> set t" for t j n' using 1(1) that by blast
    consider (id) "IdChar c" | (paren) "\<not> IdChar c" "c = ch CHR ''(''" "n > 0"
      | (colon) s'' where "\<not> IdChar c" "c = ch CHR '':''" "s' = ch CHR '':'' # s''"
      | (stop) "\<not> IdChar c" "\<not> (c = ch CHR ''('' \<and> n > 0)" "c = ch CHR '':'' \<longrightarrow> (\<nexists>s''. s' = ch CHR '':'' # s'')"
      by blast
    then show ?thesis
    proof cases
      case id
      with IH [of s' "i + 1" "n + 1"] Cons c show ?thesis by (fastforce intro: exI [of _ "Suc k" for k])
    next
      case paren
      have l: "scan_loop ?P (s' @ 0 # r) (i + 1) = Some (i + 1 + length (takeWhile ?P s'))"
        by (rule scan_loop_text) simp
      have len: "length (takeWhile ?P s') \<le> length s'" by (rule length_takeWhile_le)
      define x where "x = char_at s' (length (takeWhile ?P s'))"
      have x: "rd (s' @ 0 # r) (length (takeWhile ?P s')) = Some x"
        unfolding x_def by (rule rd_text [OF len])
      have "x = ch CHR '')'' \<Longrightarrow> length (takeWhile ?P s') < length s'"
        using char_at_inside [of s' "length (takeWhile ?P s')"] unfolding x_def by simp
      then show ?thesis
        using paren Cons c l x len
        by (intro exI [of _ "if x = ch CHR '')'' then length (takeWhile ?P s') + 2 else length (takeWhile ?P s') + 1"]
            exI [of _ n] exI [of _ "x \<noteq> ch CHR '')''"]) auto
    next
      case colon
      with IH [of s'' "i + 2" n] Cons c show ?thesis by (fastforce intro: exI [of _ "k + 2" for k])
    next
      case stop
      with Cons c show ?thesis by (intro exI [of _ 0] exI [of _ n] exI [of _ False]) (cases s'; auto)
    qed
  qed auto
qed

text \<open>Every class of token ends inside the text, except that a lone \<^verbatim>\<open>!\<close> counts two characters.\<close>

lemma length_pos: "s \<noteq> [] \<Longrightarrow> 1 \<le> length s"
  by (cases s) simp_all

lemma Suc_0_le_length [simp]: "s \<noteq> [] \<Longrightarrow> Suc 0 \<le> length s"
  by (cases s) simp_all

lemma Suc_le_length [simp]: "s \<noteq> [] \<Longrightarrow> k \<le> length s - Suc 0 \<Longrightarrow> Suc k \<le> length s"
  by (cases s) simp_all

lemma rd_text_simps [simp]:
  "s \<noteq> [] \<Longrightarrow> rd (s @ 0 # r) 0 = Some (hd s)"
  "s \<noteq> [] \<Longrightarrow> rd (s @ 0 # r) (Suc 0) = Some (char_at s 1)"
  using rd_text [of 0 s r] rd_text [of 1 s r] length_pos [of s] by (auto simp: char_at_def hd_conv_nth)

lemma tok_scan_ok:
  assumes "\<not> P 0" and "s \<noteq> []"
  shows "tok_ok s (map_option (\<lambda>i. (i, t)) (scan P (s @ 0 # r) 1))"
  by (rule scan_text [of P 1 s r]) (use assms in \<open>auto intro: tok_okI simp: length_pos\<close>)

lemma tok_space_ok: "s \<noteq> [] \<Longrightarrow> tok_ok s (tok_space (s @ 0 # r))"
  unfolding tok_space_def by (rule tok_scan_ok) simp_all

lemma tok_qmark_ok: "s \<noteq> [] \<Longrightarrow> tok_ok s (tok_qmark (s @ 0 # r))"
  unfolding tok_qmark_def by (rule tok_scan_ok) simp_all

lemma tok_minus_ok:
  assumes "s \<noteq> []"
  shows "tok_ok s (tok_minus (s @ 0 # r))"
proof (cases "char_at s 1 = ch CHR ''-''")
  case True
  then have "2 \<le> length s" using char_at_inside [of s 1] by simp
  then obtain j where "scan (\<lambda>c. c \<noteq> 0 \<and> c \<noteq> 10) (s @ 0 # r) 2 = Some j" "2 \<le> j" "j \<le> length s"
    using scan_text [of "\<lambda>c. c \<noteq> 0 \<and> c \<noteq> 10" 2 s r] by auto
  with True assms show ?thesis by (simp add: tok_minus_def tok_ok_def)
next
  case False
  with assms show ?thesis by (simp add: tok_minus_def tok_ok_def length_pos)
qed

lemma tok_slash_ok:
  assumes "s \<noteq> []" and "0 \<notin> set s"
  shows "tok_ok s (tok_slash (s @ 0 # r))"
proof (cases "char_at s 1 = ch CHR ''*''")
  case False
  with assms show ?thesis by (simp add: tok_slash_def tok_ok_def length_pos)
next
  case True
  then have 2: "2 \<le> length s" using char_at_inside [of s 1] by simp
  show ?thesis
  proof (cases "char_at s 2 = 0")
    case True
    with 2 \<open>char_at s 1 = ch CHR ''*''\<close> assms show ?thesis
      by (simp add: tok_slash_def tok_ok_def length_pos rd_text)
  next
    case False
    then have 3: "3 \<le> length s" using char_at_inside [of s 2] by simp
    have "0 \<notin> set (drop 3 s)" using assms(2) by (meson in_set_dropD)
    then obtain n x where "comment_scan (char_at s 2) (drop 3 s @ 0 # r) 3 = Some (3 + n, x)"
        "n \<le> length (drop 3 s)" "x \<noteq> 0 \<longrightarrow> n < length (drop 3 s)"
      using comment_scan_text [of "drop 3 s" "char_at s 2" r 3] False by blast
    with False True 2 3 \<open>char_at s 1 = ch CHR ''*''\<close> assms show ?thesis
      by (auto simp: tok_slash_def tok_ok_def rd_text)
  qed
qed

lemma tok_ops_ok:
  assumes "s \<noteq> []"
  shows "tok_ok s (tok_eq (s @ 0 # r))" "tok_ok s (tok_less (s @ 0 # r))" "tok_ok s (tok_greater (s @ 0 # r))"
    "tok_ok s (tok_bar (s @ 0 # r))"
  using assms char_at_inside [of s 1] length_pos [of s]
  by (auto simp: tok_eq_def tok_less_def tok_greater_def tok_bar_def tok_ok_def)

lemma tok_bang_ok:
  assumes "s \<noteq> []" and "0 \<notin> set s"
  shows "tok_ok s (tok_bang (s @ 0 # r)) \<or> length s = 1 \<and> tok_bang (s @ 0 # r) = Some (2, TK_ILLEGAL)"
proof (cases "length s = 1")
  case True
  then have "char_at s 1 = 0" by (simp add: char_at_def)
  with True assms show ?thesis by (simp add: tok_bang_def)
next
  case False
  then have "2 \<le> length s" using length_pos [OF assms(1)] by simp
  with assms show ?thesis by (simp add: tok_bang_def tok_ok_def)
qed

lemma tl_no_nul: "0 \<notin> set s \<Longrightarrow> 0 \<notin> set (drop n s)"
  by (meson in_set_dropD)

lemma tok_quote_ok:
  assumes "s \<noteq> []" and "0 \<notin> set s"
  shows "tok_ok s (tok_quote (s @ 0 # r))"
proof -
  obtain n x where "quote_scan (hd s) (drop 1 s @ 0 # r) 1 = Some (1 + n, x)" "n \<le> length (drop 1 s)"
      "x \<noteq> 0 \<longrightarrow> n < length (drop 1 s)"
    using quote_scan_text [OF tl_no_nul [OF assms(2), of 1], of "hd s" r 1] by blast
  with assms length_pos [OF assms(1)] show ?thesis by (auto simp: tok_quote_def tok_ok_def)
qed

lemma tok_bracket_ok:
  assumes "s \<noteq> []" and "0 \<notin> set s"
  shows "tok_ok s (tok_bracket (s @ 0 # r))"
proof -
  obtain n x where "bracket_scan (hd s) (drop 1 s @ 0 # r) 1 = Some (1 + n, x)" "n \<le> length (drop 1 s)"
    using bracket_scan_text [OF tl_no_nul [OF assms(2), of 1], of "hd s" r 1] by blast
  with assms length_pos [OF assms(1)] show ?thesis by (auto simp: tok_bracket_def tok_ok_def)
qed

lemma tok_variable_ok:
  assumes "s \<noteq> []" and "0 \<notin> set s"
  shows "tok_ok s (tok_variable (s @ 0 # r))"
proof -
  obtain k m b where "var_scan (drop 1 s @ 0 # r) 1 0 = Some (1 + k, m, b)" "k \<le> length (drop 1 s)"
    using var_scan_text [OF tl_no_nul [OF assms(2), of 1], of r 1 0] by blast
  with assms length_pos [OF assms(1)] show ?thesis by (auto simp: tok_variable_def tok_ok_def)
qed

lemma tok_id_ok:
  assumes "s \<noteq> []"
  shows "tok_ok s (tok_id (s @ 0 # r))"
proof (cases "IdChar (hd s)")
  case True
  obtain j where j: "scan IdChar (s @ 0 # r) 1 = Some j" "1 \<le> j" "j \<le> length s"
    using scan_text [of IdChar 1 s r] length_pos [OF assms] by auto
  then obtain t where "keywordCode (s @ 0 # r) j = Some t"
    using keywordCode_total [of j "s @ 0 # r"] by auto
  with True j assms show ?thesis by (auto simp: tok_id_def tok_ok_def)
next
  case False
  with assms show ?thesis by (simp add: tok_id_def tok_ok_def length_pos)
qed

lemma tok_blob_ok:
  assumes "s \<noteq> []"
  shows "tok_ok s (tok_blob (s @ 0 # r))"
proof (cases "char_at s 1 = ch CHR 0x27")
  case False
  with tok_id_ok [OF assms] assms show ?thesis by (simp add: tok_blob_def)
next
  case True
  then have 2: "2 \<le> length s" using char_at_inside [of s 1] by simp
  obtain i where i: "scan sqlite3Isxdigit (s @ 0 # r) 2 = Some i" "2 \<le> i" "i \<le> length s"
    using scan_text [of sqlite3Isxdigit 2 s r] 2 by auto
  obtain j where j: "scan (\<lambda>c. c \<noteq> 0 \<and> c \<noteq> ch CHR 0x27) (s @ 0 # r) i = Some j" "i \<le> j" "j \<le> length s"
    using scan_text [of "\<lambda>c. c \<noteq> 0 \<and> c \<noteq> ch CHR 0x27" i s r] i by auto
  show ?thesis
    using True assms i j char_at_inside [of s i] char_at_inside [of s j]
    by (auto simp: tok_blob_def tok_ok_def rd_text)
qed

lemma Isdigit_inside: "sqlite3Isdigit (char_at s k) \<Longrightarrow> k < length s"
  by (rule char_at_inside) auto

lemma exponent_at_text:
  assumes "i \<le> length s"
  shows "\<exists>e. exponent_at (s @ 0 # r) i = Some e \<and> (e \<longrightarrow> i + 2 \<le> length s)"
proof (cases "char_at s i = ch CHR ''e'' \<or> char_at s i = ch CHR ''E''")
  case False
  then have "exponent_at (s @ 0 # r) i = Some False"
    unfolding exponent_at_def rd_text [OF assms] bind.bind_lunit by (rule if_not_P)
  then show ?thesis by blast
next
  case e: True
  then have 1: "i + 1 \<le> length s" using char_at_inside [of s i] by auto
  have "exponent_at (s @ 0 # r) i =
      (if sqlite3Isdigit (char_at s (i + 1)) then Some True
       else if char_at s (i + 1) = ch CHR ''+'' \<or> char_at s (i + 1) = ch CHR ''-''
       then map_option sqlite3Isdigit (rd (s @ 0 # r) (i + 2)) else Some False)"
    unfolding exponent_at_def rd_text [OF assms] rd_text [OF 1] bind.bind_lunit if_P [OF e] by (rule refl)
  moreover have "\<exists>e. map_option sqlite3Isdigit (rd (s @ 0 # r) (i + 2)) = Some e \<and> (e \<longrightarrow> i + 2 \<le> length s)"
    if "char_at s (i + 1) = ch CHR ''+'' \<or> char_at s (i + 1) = ch CHR ''-''"
  proof -
    have "char_at s (i + 1) \<noteq> 0" using that by (elim disjE) simp_all
    then have 2: "i + 2 \<le> length s" using char_at_inside [of s "i + 1"] by simp
    then show ?thesis by (simp only: rd_text option.map) blast
  qed
  moreover have "sqlite3Isdigit (char_at s (i + 1)) \<Longrightarrow> i + 2 \<le> length s"
    using Isdigit_inside [of s "i + 1"] by simp
  ultimately show ?thesis by (metis option.inject)
qed

lemma tok_number_ok:
  assumes "s \<noteq> []" and "0 \<notin> set s" and "sqlite3Isdigit (hd s) \<or> hd s = ch CHR ''.''"
  shows "tok_ok s (tok_number (s @ 0 # r))"
proof -
  let ?z = "s @ 0 # r"
  have sc: "\<exists>j. scan P ?z i = Some j \<and> i \<le> j \<and> j \<le> length s" if "\<not> P 0" "i \<le> length s" for P i
    using scan_text [of P, OF that, of r] by blast
  obtain i0 where i0: "scan sqlite3Isdigit ?z 0 = Some i0" "i0 \<le> length s" using sc [of sqlite3Isdigit 0] by auto
  have pos: "0 < i0 \<or> char_at s i0 = ch CHR ''.''"
  proof (cases "sqlite3Isdigit (hd s)")
    case True
    then obtain c s' where "s = c # s'" "sqlite3Isdigit c" using assms(1) by (cases s) auto
    with i0(1) show ?thesis by (auto simp: scan_def scan_loop_text [of sqlite3Isdigit])
  next
    case False
    then have "scan sqlite3Isdigit ?z 0 = Some 0" "hd s = ch CHR ''.''"
      using assms(1,3) by (cases s; simp add: scan_def)+
    with i0(1) assms(1) show ?thesis by (simp add: char_at_def hd_conv_nth)
  qed
  obtain i1 t1 where i1: "(if char_at s i0 = ch CHR ''.''
        then map_option (\<lambda>i. (i, TK_FLOAT)) (scan sqlite3Isdigit ?z (i0 + 1)) else Some (i0, TK_INTEGER)) = Some (i1, t1)"
      "1 \<le> i1" "i1 \<le> length s"
    using sc [of sqlite3Isdigit "i0 + 1"] char_at_inside [of s i0] i0(2) pos
    by (cases "char_at s i0 = ch CHR ''.''") auto
  obtain e where e: "exponent_at ?z i1 = Some e" "e \<longrightarrow> i1 + 2 \<le> length s"
    using exponent_at_text [OF i1(3)] by blast
  obtain i2 t2 where i2: "(if e then map_option (\<lambda>i. (i, TK_FLOAT)) (scan sqlite3Isdigit ?z (i1 + 2)) else Some (i1, t1))
        = Some (i2, t2)" "1 \<le> i2" "i2 \<le> length s"
    using sc [of sqlite3Isdigit "i1 + 2"] e(2) i1(2,3) by (cases e) auto
  obtain j where j: "scan IdChar ?z i2 = Some j" "i2 \<le> j" "j \<le> length s"
    using sc [of IdChar i2] i2(3) by auto
  have "tok_number ?z = Some (j, if i2 < j then TK_ILLEGAL else t2)"
    unfolding tok_number_def i0(1) bind.bind_lunit rd_text [OF i0(2)] i1(1) prod.case e(1) i2(1) j(1) by (rule refl)
  then show ?thesis by (rule tok_okI) (use j i2 in auto)
qed

lemma tok_dot_ok:
  assumes "s \<noteq> []" and "0 \<notin> set s" and "hd s = ch CHR ''.''"
  shows "tok_ok s (tok_dot (s @ 0 # r))"
  using tok_number_ok [OF assms(1,2), of r] assms by (simp add: tok_dot_def tok_ok_def)

lemma tok_ok_if: "(c \<Longrightarrow> tok_ok s x) \<Longrightarrow> (\<not> c \<Longrightarrow> tok_ok s y) \<Longrightarrow> tok_ok s (if c then x else y)"
  by simp

lemma GetToken_text:
  assumes "s \<noteq> []" and "0 \<notin> set s"
  shows "tok_ok s (sqlite3GetToken (s @ 0 # r)) \<or>
    s = [ch CHR ''!''] \<and> sqlite3GetToken (s @ 0 # r) = Some (2, TK_ILLEGAL)"
proof (cases "hd s = ch CHR ''!''")
  case True
  then have "sqlite3GetToken (s @ 0 # r) = tok_bang (s @ 0 # r)"
    using assms(1) by (simp add: sqlite3GetToken_def)
  with tok_bang_ok [OF assms, of r] True show ?thesis by (cases s) auto
next
  case False
  have one: "tok_ok s (Some (1, t))" for t using assms(1) by (simp add: tok_ok_def Suc_le_eq)
  have dig: "tok_ok s (tok_number (s @ 0 # r))" if "ch CHR ''0'' \<le> hd s \<and> hd s \<le> ch CHR ''9''"
    using tok_number_ok [OF assms, of r] that by (simp add: Isdigit_eq)
  have bang: "tok_ok s (tok_bang (s @ 0 # r))" if "hd s = ch CHR ''!''" using that False by blast
  note oks = tok_space_ok [OF assms(1), of r] tok_minus_ok [OF assms(1), of r] tok_slash_ok [OF assms, of r]
    tok_ops_ok [OF assms(1), of r] tok_quote_ok [OF assms, of r] tok_bracket_ok [OF assms, of r]
    tok_qmark_ok [OF assms(1), of r] tok_variable_ok [OF assms, of r] tok_blob_ok [OF assms(1), of r]
    tok_id_ok [OF assms(1), of r]
  have "tok_ok s (sqlite3GetToken (s @ 0 # r))"
    unfolding sqlite3GetToken_def rd_text_simps(1) [OF assms(1)] bind.bind_lunit
    by (intro tok_ok_if; (rule one oks | rule bang dig tok_dot_ok [OF assms]; assumption))
  then show ?thesis ..
qed

text \<open>C35. On a nonempty text that ends with its terminator the tokenizer reads nothing behind the
  terminator and returns a token of at least one byte that lies inside the text. The one
  exception is a text that is a lone exclamation mark, for which it reports two bytes: one more
  than there are.\<close>

theorem sqlite3GetToken_inside:
  assumes "s \<noteq> []" and "0 \<notin> set s"
  shows "\<exists>n t. sqlite3GetToken (s @ [0]) = Some (n, t) \<and> 1 \<le> n \<and>
    (n \<le> length s \<or> s = [ch CHR ''!''] \<and> n = 2 \<and> t = TK_ILLEGAL)"
  using GetToken_text [OF assms, of "[]"] by (auto simp: tok_ok_def)

theorem sqlite3GetToken_inside_witness:
  "\<exists>n t. sqlite3GetToken [ch CHR ''x'', ch CHR 0x27, ch CHR ''A'', 0] = Some (n, t) \<and> 1 \<le> n \<and> n \<le> 3"
  using sqlite3GetToken_inside [of "[ch CHR ''x'', ch CHR 0x27, ch CHR ''A'']"] by auto

section \<open>Every token has at least one byte\<close>

lemma scan_loop_ge: "scan_loop P z i = Some j \<Longrightarrow> i \<le> j"
  by (induction P z i rule: scan_loop.induct) (auto split: if_splits)

lemma scan_ge: "scan P z i = Some j \<Longrightarrow> i \<le> j"
  by (auto simp: scan_def dest: scan_loop_ge)

lemma comment_scan_ge: "comment_scan c z i = Some (j, x) \<Longrightarrow> i \<le> j"
  by (induction c z i rule: comment_scan.induct) (auto split: if_splits)

lemma quote_scan_ge: "quote_scan d z i = Some (j, x) \<Longrightarrow> i \<le> j"
  by (induction d z i rule: quote_scan.induct) (auto split: if_splits list.splits)

lemma bracket_scan_ge: "bracket_scan c z i = Some (j, x) \<Longrightarrow> i \<le> j"
  by (induction c z i rule: bracket_scan.induct) (auto split: if_splits)

lemma var_scan_ge: "var_scan z i n = Some (j, m, b) \<Longrightarrow> i \<le> j"
  by (induction z i n rule: var_scan.induct)
    (auto split: if_splits list.splits bind_splits dest: scan_loop_ge)

definition tok_pos :: "(nat \<times> nat) option \<Rightarrow> bool" where
  "tok_pos x \<longleftrightarrow> (\<forall>n t. x = Some (n, t) \<longrightarrow> 1 \<le> n)"

lemma tok_pos_if: "(c \<Longrightarrow> tok_pos x) \<Longrightarrow> (\<not> c \<Longrightarrow> tok_pos y) \<Longrightarrow> tok_pos (if c then x else y)"
  by simp

lemma tok_pos_bind: "(\<And>y. x = Some y \<Longrightarrow> tok_pos (f y)) \<Longrightarrow> tok_pos (x \<bind> f)"
  by (cases x) (simp_all add: tok_pos_def)

lemma tok_pos_map: "(\<And>i. x = Some i \<Longrightarrow> 1 \<le> i) \<Longrightarrow> tok_pos (map_option (\<lambda>i. (i, t)) x)"
  by (auto simp: tok_pos_def)

lemma tok_pos_Some: "1 \<le> fst x \<Longrightarrow> tok_pos (Some x)"
  by (cases x) (simp add: tok_pos_def)

lemma tok_pos_ops:
  "tok_pos (tok_eq z)" "tok_pos (tok_less z)" "tok_pos (tok_greater z)" "tok_pos (tok_bang z)" "tok_pos (tok_bar z)"
  unfolding tok_eq_def tok_less_def tok_greater_def tok_bang_def tok_bar_def
  by (intro tok_pos_bind tok_pos_Some; simp)+

lemma tok_pos_scans: "tok_pos (tok_space z)" "tok_pos (tok_qmark z)" "tok_pos (tok_minus z)"
  unfolding tok_space_def tok_qmark_def tok_minus_def
  by (intro tok_pos_bind tok_pos_if tok_pos_map tok_pos_Some; auto dest: scan_ge)+

lemma tok_pos_id: "tok_pos (tok_id z)"
  unfolding tok_id_def by (intro tok_pos_bind tok_pos_if tok_pos_Some; auto dest: scan_ge)

lemma tok_pos_slash: "tok_pos (tok_slash z)"
  unfolding tok_slash_def tok_pos_def by (auto split: if_splits bind_splits dest: comment_scan_ge)

lemma tok_pos_quote: "tok_pos (tok_quote z)"
  unfolding tok_quote_def tok_pos_def by (auto split: if_splits bind_splits dest: quote_scan_ge)

lemma tok_pos_bracket: "tok_pos (tok_bracket z)"
  unfolding tok_bracket_def tok_pos_def by (auto split: if_splits bind_splits dest: bracket_scan_ge)

lemma tok_pos_variable: "tok_pos (tok_variable z)"
  unfolding tok_variable_def tok_pos_def by (auto split: if_splits bind_splits dest: var_scan_ge)

lemma tok_pos_blob: "tok_pos (tok_blob z)"
  unfolding tok_blob_def using tok_pos_id
  by (intro tok_pos_bind tok_pos_if) (auto simp: tok_pos_def split: if_splits bind_splits dest!: scan_ge)

lemma tok_pos_number: "tok_pos (tok_number (c # z))" if "sqlite3Isdigit c \<or> c = ch CHR ''.''"
  unfolding tok_number_def
proof (rule tok_pos_bind, rule tok_pos_bind)
  fix i0 c0
  assume i0: "scan sqlite3Isdigit (c # z) 0 = Some i0" and c0: "rd (c # z) i0 = Some c0"
  have "1 \<le> i0 \<or> i0 = 0 \<and> c0 = ch CHR ''.''"
    using that i0 c0 by (auto simp: scan_def split: if_splits dest: scan_loop_ge)
  then show "tok_pos ((if c0 = ch CHR ''.'' then map_option (\<lambda>i. (i, TK_FLOAT)) (scan sqlite3Isdigit (c # z) (i0 + 1))
      else Some (i0, TK_INTEGER)) \<bind> (\<lambda>(i, t). exponent_at (c # z) i \<bind> (\<lambda>e.
      (if e then map_option (\<lambda>i. (i, TK_FLOAT)) (scan sqlite3Isdigit (c # z) (i + 2)) else Some (i, t)) \<bind>
      (\<lambda>(i, t). scan IdChar (c # z) i \<bind> (\<lambda>j. Some (j, if i < j then TK_ILLEGAL else t))))))"
    by (auto simp: tok_pos_def split: if_splits bind_splits dest!: scan_ge)
qed

lemma tok_pos_dot: "tok_pos (tok_dot (ch CHR ''.'' # z))"
  unfolding tok_dot_def by (intro tok_pos_bind tok_pos_if tok_pos_Some tok_pos_number) simp_all

lemma sqlite3GetToken_pos: "sqlite3GetToken z = Some (n, t) \<Longrightarrow> 1 \<le> n"
proof -
  have "tok_pos (sqlite3GetToken z)"
  proof (cases z)
    case (Cons c z')
    have dig: "tok_pos (tok_number (c # z'))" if "ch CHR ''0'' \<le> c \<and> c \<le> ch CHR ''9''"
      using that by (intro tok_pos_number) (simp add: Isdigit_eq)
    have dot: "tok_pos (tok_dot (c # z'))" if "c = ch CHR ''.''" using that tok_pos_dot by blast
    have one: "tok_pos (Some (1, t))" for t by (rule tok_pos_Some) simp
    show ?thesis
      unfolding sqlite3GetToken_def Cons rd_Cons bind.bind_lunit
      by (intro tok_pos_if; (rule one tok_pos_ops tok_pos_scans tok_pos_id tok_pos_slash tok_pos_quote
          tok_pos_bracket tok_pos_variable tok_pos_blob | rule dig dot; assumption))
  qed (simp add: sqlite3GetToken_def tok_pos_def)
  then show "sqlite3GetToken z = Some (n, t) \<Longrightarrow> 1 \<le> n" by (simp add: tok_pos_def)
qed

section \<open>Quoted text is one token\<close>

lemma quote_scan_double_quotes:
  assumes "d \<noteq> 0" and "c \<noteq> d"
  shows "0 \<notin> set s \<Longrightarrow> quote_scan d (double_quotes d s @ d # c # r) i = Some (i + length (double_quotes d s), d)"
  by (induction s arbitrary: i) (use assms in auto)

lemma tok_quote_literal:
  assumes "q \<in> {0x27, 0x22, 0x60}" and "c \<noteq> q" and "0 \<notin> set s"
  shows "sqlite3GetToken (q # double_quotes q s @ q # c # r) =
    Some (length (double_quotes q s) + 2, if q = 0x27 then TK_STRING else TK_ID)"
proof -
  have "sqlite3GetToken (q # z) = tok_quote (q # z)" for z
    using assms(1) by (elim insertE emptyE) (simp_all add: sqlite3GetToken_def)
  moreover have "q \<noteq> 0" using assms(1) by auto
  ultimately show ?thesis
    using quote_scan_double_quotes [OF _ assms(2,3), of r 1] by (simp add: tok_quote_def)
qed

end
