(* ===== verification/Result_Codes.thy ===== *)
theory Result_Codes
  imports Main
begin

text \<open>The result codes that the components return.\<close>

definition SQLITE_OK :: int where "SQLITE_OK = 0"
definition SQLITE_ERROR :: int where "SQLITE_ERROR = 1"
definition SQLITE_BUSY :: int where "SQLITE_BUSY = 5"
definition SQLITE_NOMEM :: int where "SQLITE_NOMEM = 7"
definition SQLITE_READONLY :: int where "SQLITE_READONLY = 8"
definition SQLITE_INTERRUPT :: int where "SQLITE_INTERRUPT = 9"
definition SQLITE_CORRUPT :: int where "SQLITE_CORRUPT = 11"
definition SQLITE_CANTOPEN :: int where "SQLITE_CANTOPEN = 14"
definition SQLITE_PROTOCOL :: int where "SQLITE_PROTOCOL = 15"
definition SQLITE_TOOBIG :: int where "SQLITE_TOOBIG = 18"
definition SQLITE_DONE :: int where "SQLITE_DONE = 101"
definition SQLITE_BUSY_RECOVERY :: int where "SQLITE_BUSY_RECOVERY = 5 + 256"
definition SQLITE_BUSY_SNAPSHOT :: int where "SQLITE_BUSY_SNAPSHOT = 5 + 512"
definition SQLITE_READONLY_RECOVERY :: int where "SQLITE_READONLY_RECOVERY = 8 + 256"
definition SQLITE_READONLY_CANTLOCK :: int where "SQLITE_READONLY_CANTLOCK = 8 + 512"

end
