(* ===== verification/RunParser.thy ===== *)
theory RunParser
  imports Tokenize Result_Codes
begin

text \<open>
  The loop of \<^verbatim>\<open>sqlite3RunParser\<close> (\<^verbatim>\<open>tokenize.c\<close>) that cuts an SQL text into tokens and feeds them to the
  LALR parser. The parser is a parameter: a function that consumes one token and may change
  everything the loop looks at. The fields of the parse context the loop does not look at are part
  of its state \<open>engine\<close>.
\<close>

section \<open>State\<close>

text \<open>The parse context: result code, whether an error message is set, whether an allocation
  failed, and where the text behind the last complete statement starts.\<close>

record 'e Parse =
  engine :: 'e
  rc :: int
  zErrMsg :: bool
  mallocFailed :: bool
  zTail :: nat

text \<open>The parser consumes a token type and the token, given by its position and length.\<close>

type_synonym 'e parser = "'e Parse \<Rightarrow> nat \<Rightarrow> nat \<times> nat \<Rightarrow> 'e Parse"

text \<open>The local variables; \<^verbatim>\<open>lastTokenParsed\<close> is \<open>None\<close> for its initial value -1.\<close>

record 'e run =
  pParse :: "'e Parse"
  pos :: nat
  nErr :: nat
  lastTokenParsed :: "nat option"
  sLastToken :: "nat \<times> nat"

section \<open>One round of the loop\<close>

text \<open>The body of the switch for a token that ends at \<open>pos\<close>. The flag tells whether the loop
  goes on.\<close>

definition run_token :: "'e parser \<Rightarrow> (nat \<Rightarrow> bool) \<Rightarrow> nat \<Rightarrow> 'e run \<Rightarrow> bool \<times> 'e run" where
  "run_token sqlite3Parser isInterrupted t st =
    (if t = TK_SPACE then
       if isInterrupted (pos st)
       then (False, st\<lparr>pParse := (pParse st)\<lparr>rc := SQLITE_INTERRUPT, zErrMsg := True\<rparr>\<rparr>)
       else (True, st)
     else if t = TK_ILLEGAL then (False, st\<lparr>nErr := nErr st + 1\<rparr>)
     else let p = (if t = TK_SEMI then (pParse st)\<lparr>zTail := pos st\<rparr> else pParse st);
              p' = sqlite3Parser p t (sLastToken st)
          in (rc p' = SQLITE_OK, st\<lparr>pParse := p', lastTokenParsed := Some t\<rparr>))"

lemma run_token_pos: "run_token sp isI t st = (b, st') \<Longrightarrow> pos st' = pos st"
  by (auto simp: run_token_def Let_def split: if_splits)

function run_loop :: "'e parser \<Rightarrow> (nat \<Rightarrow> bool) \<Rightarrow> nat \<Rightarrow> u8 list \<Rightarrow> 'e run \<Rightarrow> 'e run option" where
  "run_loop sqlite3Parser isInterrupted mxSqlLen zSql st =
    (if mallocFailed (pParse st) then Some st
     else do {
       c \<leftarrow> rd zSql (pos st);
       if c = 0 then Some st
       else do {
         (n, t) \<leftarrow> sqlite3GetToken (drop (pos st) zSql);
         let st1 = st\<lparr>sLastToken := (pos st, n), pos := pos st + n\<rparr>;
         if pos st1 > mxSqlLen then Some (st1\<lparr>pParse := (pParse st1)\<lparr>rc := SQLITE_TOOBIG\<rparr>\<rparr>)
         else case run_token sqlite3Parser isInterrupted t st1 of
             (True, st2) \<Rightarrow> run_loop sqlite3Parser isInterrupted mxSqlLen zSql st2
           | (False, st2) \<Rightarrow> Some st2
       }
     })"
  by pat_completeness auto
termination
  by (relation "measure (\<lambda>(_, _, _, z, st). length z - pos st)")
    (auto simp: rd_def split: if_splits dest!: sqlite3GetToken_pos run_token_pos [OF sym])

declare run_loop.simps [simp del]

section \<open>The whole run\<close>

definition run_finish :: "'e parser \<Rightarrow> u8 list \<Rightarrow> 'e run \<Rightarrow> 'e run option" where
  "run_finish sqlite3Parser zSql st = do {
     c \<leftarrow> rd zSql (pos st);
     Some (if c = 0 \<and> nErr st = 0 \<and> rc (pParse st) = SQLITE_OK then
       let st1 = (if lastTokenParsed st \<noteq> Some TK_SEMI
                  then st\<lparr>pParse := (sqlite3Parser (pParse st) TK_SEMI (sLastToken st))\<lparr>zTail := pos st\<rparr>\<rparr>
                  else st)
       in st1\<lparr>pParse := sqlite3Parser (pParse st1) 0 (sLastToken st1)\<rparr>
     else st)
   }"

text \<open>The result code and the number of errors that are reported. The text of a message is
  allocated, which fails once an allocation has failed.\<close>

definition run_report :: "'e Parse \<Rightarrow> nat \<Rightarrow> 'e Parse \<times> nat" where
  "run_report p n =
    (let p1 = (if mallocFailed p then p\<lparr>rc := SQLITE_NOMEM\<rparr> else p);
         msg = (zErrMsg p1 \<or> rc p1 \<noteq> SQLITE_OK \<and> rc p1 \<noteq> SQLITE_DONE \<and> \<not> mallocFailed p1);
         n1 = (if msg then n + 1 else n);
         p2 = p1\<lparr>zErrMsg := False\<rparr>
     in (if n1 > 0 \<and> rc p2 = SQLITE_OK then p2\<lparr>rc := SQLITE_ERROR\<rparr> else p2, n1))"

definition run_init :: "'e Parse \<Rightarrow> 'e run" where
  "run_init p = \<lparr>pParse = p\<lparr>rc := SQLITE_OK, zTail := 0\<rparr>, pos = 0, nErr = 0, lastTokenParsed = None, sLastToken = (0, 0)\<rparr>"

definition sqlite3RunParser ::
  "'e parser \<Rightarrow> (nat \<Rightarrow> bool) \<Rightarrow> nat \<Rightarrow> 'e Parse \<Rightarrow> u8 list \<Rightarrow> ('e Parse \<times> nat) option" where
  "sqlite3RunParser sqlite3Parser isInterrupted mxSqlLen p zSql = do {
     st \<leftarrow> run_loop sqlite3Parser isInterrupted mxSqlLen zSql (run_init p);
     st \<leftarrow> run_finish sqlite3Parser zSql st;
     Some (run_report (pParse st) (nErr st))
   }"

section \<open>The tokens of a text\<close>

text \<open>The reference: the tokens of a text as a list of types, positions and lengths, and the
  parser run on such a list.\<close>

function tokens :: "nat \<Rightarrow> u8 list \<Rightarrow> (nat \<times> nat \<times> nat) list" where
  "tokens i s = (if s = [] then [] else case sqlite3GetToken (s @ [0]) of
     None \<Rightarrow> []
   | Some (n, t) \<Rightarrow> (t, i, n) # tokens (i + n) (drop n s))"
  by pat_completeness auto
termination
  by (relation "measure (\<lambda>(_, s). length s)") (auto dest!: sqlite3GetToken_pos)

declare tokens.simps [simp del]

abbreviation significant :: "(nat \<times> nat \<times> nat) list \<Rightarrow> (nat \<times> nat \<times> nat) list" where
  "significant ts \<equiv> filter (\<lambda>(t, _). t \<noteq> TK_SPACE) (takeWhile (\<lambda>(t, _). t \<noteq> TK_ILLEGAL) ts)"

fun feed :: "'e parser \<Rightarrow> (nat \<times> nat \<times> nat) list \<Rightarrow> 'e Parse \<Rightarrow> 'e Parse" where
  "feed sp [] p = p"
| "feed sp ((t, i, n) # ts) p =
    (let p' = sp (if t = TK_SEMI then p\<lparr>zTail := i + n\<rparr> else p) t (i, n)
     in if rc p' = SQLITE_OK then feed sp ts p' else p')"

definition close :: "'e parser \<Rightarrow> (nat \<times> nat \<times> nat) list \<Rightarrow> nat \<Rightarrow> 'e Parse \<Rightarrow> 'e Parse" where
  "close sp ts n p =
    (let l = (if ts = [] then (0, 0) else snd (last ts));
         p1 = (if significant ts = [] \<or> fst (last (significant ts)) \<noteq> TK_SEMI
               then (sp p TK_SEMI l)\<lparr>zTail := n\<rparr> else p)
     in sp p1 0 l)"

fun run_tokens :: "'e parser \<Rightarrow> (nat \<times> nat \<times> nat) list \<Rightarrow> 'e run \<Rightarrow> 'e run" where
  "run_tokens sp [] st = st"
| "run_tokens sp ((t, i, n) # ts) st =
    (let r = run_token sp (\<lambda>_. False) t (st\<lparr>sLastToken := (i, n), pos := i + n\<rparr>)
     in if fst r then run_tokens sp ts (snd r) else snd r)"

lemma tokens_Nil [simp]: "tokens i [] = []"
  by (simp add: tokens.simps)

lemma tokens_step: "s \<noteq> [] \<Longrightarrow> sqlite3GetToken (s @ [0]) = Some (n, t) \<Longrightarrow>
  tokens i s = (t, i, n) # tokens (i + n) (drop n s)"
  by (subst tokens.simps) simp

text \<open>The tokens partition the text.\<close>

lemma bang_drop: "last s \<noteq> c \<Longrightarrow> i < length s \<Longrightarrow> drop i s \<noteq> [c]"
  by (metis last_drop last_ConsL)

lemma GetToken_drop:
  assumes "0 \<notin> set s" and "last s \<noteq> ch CHR ''!''" and "i < length s"
  obtains n t where "sqlite3GetToken (drop i s @ [0]) = Some (n, t)" "1 \<le> n" "i + n \<le> length s"
proof -
  have "drop i s \<noteq> []" "0 \<notin> set (drop i s)" using assms by (auto dest: in_set_dropD)
  then obtain n t where "sqlite3GetToken (drop i s @ [0]) = Some (n, t)" "1 \<le> n" "n \<le> length (drop i s)"
    using GetToken_text [of "drop i s" "[]"] bang_drop [OF assms(2,3)] by (auto simp: tok_ok_def)
  with assms(3) that show thesis by simp
qed

lemma run_loop_tokens:
  assumes "0 \<notin> set s" and "last s \<noteq> ch CHR ''!''" and "length s \<le> mx" and "pos st \<le> length s"
    and mem: "\<And>p t x. mallocFailed (sp p t x) = mallocFailed p" and "\<not> mallocFailed (pParse st)"
  shows "run_loop sp (\<lambda>_. False) mx (s @ [0]) st = Some (run_tokens sp (tokens (pos st) (drop (pos st) s)) st)"
  using assms(4,6)
proof (induction "length s - pos st" arbitrary: st rule: less_induct)
  case less
  show ?case
  proof (cases "pos st = length s")
    case True
    then show ?thesis by (subst run_loop.simps) (simp add: rd_text char_at_def)
  next
    case False
    then have lt: "pos st < length s" using less.prems by simp
    obtain n t where tok: "sqlite3GetToken (drop (pos st) s @ [0]) = Some (n, t)" "1 \<le> n" "pos st + n \<le> length s"
      using GetToken_drop [OF assms(1,2) lt] .
    let ?st = "st\<lparr>sLastToken := (pos st, n), pos := pos st + n\<rparr>"
    obtain b st2 where r: "run_token sp (\<lambda>_. False) t ?st = (b, st2)" by fastforce
    have st2: "pos st2 = pos st + n" "\<not> mallocFailed (pParse st2)"
      using run_token_pos [OF r] r less.prems(2) by (auto simp: run_token_def Let_def mem split: if_splits)
    have nz: "char_at s (pos st) \<noteq> 0" using lt assms(1) nth_mem [OF lt] by (metis char_at_def)
    have IH: "run_loop sp (\<lambda>_. False) mx (s @ [0]) st2 = Some (run_tokens sp (tokens (pos st2) (drop (pos st2) s)) st2)"
      by (rule less.hyps) (use st2 tok lt in auto)
    have ts: "tokens (pos st) (drop (pos st) s) = (t, pos st, n) # tokens (pos st + n) (drop (pos st + n) s)"
      using tokens_step [OF _ tok(1)] lt by (simp add: add.commute)
    show ?thesis
      by (subst run_loop.simps, unfold ts)
        (use less.prems lt nz tok st2 r IH assms(3) in \<open>auto simp: rd_text drop_text split: bool.splits\<close>)
  qed
qed

section \<open>What the parser is fed\<close>

lemma SPACE_not_ILLEGAL [simp]: "TK_SPACE \<noteq> TK_ILLEGAL" "TK_ILLEGAL \<noteq> TK_SPACE"
  by (simp_all add: TK_SPACE_def TK_ILLEGAL_def)

lemma run_tokens_feed:
  "rc (pParse st) = SQLITE_OK \<Longrightarrow> pParse (run_tokens sp ts st) = feed sp (significant ts) (pParse st)"
proof (induction ts arbitrary: st)
  case (Cons x ts)
  obtain t i n where x: "x = (t, i, n)" by (cases x)
  consider "t = TK_SPACE" | "t = TK_ILLEGAL" | "t \<noteq> TK_SPACE" "t \<noteq> TK_ILLEGAL" by blast
  then show ?case
    by cases (use Cons.prems in \<open>simp_all add: x run_token_def Let_def Cons.IH\<close>)
qed simp

lemma run_tokens_nErr:
  "rc (pParse st) = SQLITE_OK \<Longrightarrow> nErr (run_tokens sp ts st) =
    nErr st + (if rc (feed sp (significant ts) (pParse st)) = SQLITE_OK \<and> (\<exists>x\<in>set ts. fst x = TK_ILLEGAL) then 1 else 0)"
proof (induction ts arbitrary: st)
  case (Cons x ts)
  obtain t i n where x: "x = (t, i, n)" by (cases x)
  consider "t = TK_SPACE" | "t = TK_ILLEGAL" | "t \<noteq> TK_SPACE" "t \<noteq> TK_ILLEGAL" by blast
  then show ?case
    by cases (use Cons.prems in \<open>simp_all add: x run_token_def Let_def Cons.IH\<close>)
qed simp

lemma run_tokens_last:
  "rc (feed sp (significant ts) (pParse st)) = SQLITE_OK \<Longrightarrow> rc (pParse st) = SQLITE_OK \<Longrightarrow>
    \<forall>x\<in>set ts. fst x \<noteq> TK_ILLEGAL \<Longrightarrow>
    sLastToken (run_tokens sp ts st) = (if ts = [] then sLastToken st else snd (last ts)) \<and>
    pos (run_tokens sp ts st) = (if ts = [] then pos st else fst (snd (last ts)) + snd (snd (last ts))) \<and>
    lastTokenParsed (run_tokens sp ts st) =
      (if significant ts = [] then lastTokenParsed st else Some (fst (last (significant ts))))"
proof (induction ts arbitrary: st)
  case (Cons x ts)
  obtain t i n where x: "x = (t, i, n)" by (cases x)
  consider "t = TK_SPACE" | "t \<noteq> TK_SPACE" "t \<noteq> TK_ILLEGAL" using Cons.prems(3) x by fastforce
  then show ?case
  proof cases
    case 1
    with Cons show ?thesis by (simp add: x run_token_def)
  next
    case 2
    let ?p = "sp (if t = TK_SEMI then (pParse st)\<lparr>zTail := i + n\<rparr> else pParse st) t (i, n)"
    let ?st = "st\<lparr>sLastToken := (i, n), pos := i + n, pParse := ?p, lastTokenParsed := Some t\<rparr>"
    have ok: "rc ?p = SQLITE_OK"
      using Cons.prems(1) 2 by (cases "rc ?p = SQLITE_OK") (simp_all add: x Let_def)
    have step: "run_tokens sp (x # ts) st = run_tokens sp ts ?st"
      using 2 ok by (simp add: x run_token_def Let_def cong: if_cong)
    show ?thesis
      unfolding step using Cons.IH [of ?st] Cons.prems ok 2 by (simp add: x Let_def)
  qed
qed simp

lemma run_tokens_pos:
  "pos (run_tokens sp ts st) = pos st \<or> (\<exists>x\<in>set ts. pos (run_tokens sp ts st) = fst (snd x) + snd (snd x))"
proof (induction ts arbitrary: st)
  case (Cons x ts)
  obtain t i n where x: "x = (t, i, n)" by (cases x)
  obtain b st2 where r: "run_token sp (\<lambda>_. False) t (st\<lparr>sLastToken := (i, n), pos := i + n\<rparr>) = (b, st2)" by fastforce
  from run_token_pos [OF r] Cons.IH [of st2] show ?case by (cases b) (auto simp: r x)
qed simp

lemma tokens_end:
  assumes "0 \<notin> set s" and "last s \<noteq> ch CHR ''!''" and "s \<noteq> []"
  shows "tokens i s \<noteq> [] \<and> fst (snd (last (tokens i s))) + snd (snd (last (tokens i s))) = i + length s \<and>
    (\<forall>x\<in>set (tokens i s). fst (snd x) + snd (snd x) \<le> i + length s)"
  using assms
proof (induction "length s" arbitrary: s i rule: less_induct)
  case less
  obtain n t where tok: "sqlite3GetToken (s @ [0]) = Some (n, t)" "1 \<le> n" "n \<le> length s"
    using GetToken_drop [of s 0] less.prems by auto
  show ?case
  proof (cases "n = length s")
    case True
    with tok less.prems show ?thesis by (simp add: tokens_step [OF less.prems(3) tok(1)])
  next
    case False
    then have d: "drop n s \<noteq> []" "n < length s" using tok(3) by auto
    then have "last (drop n s) \<noteq> ch CHR ''!''" "0 \<notin> set (drop n s)"
      using less.prems by (auto dest: in_set_dropD)
    with less.hyps [of "drop n s" "i + n"] d tok show ?thesis
      by (auto simp: tokens_step [OF less.prems(3) tok(1)])
  qed
qed

lemma run_init_simps [simp]:
  "pos (run_init p) = 0" "nErr (run_init p) = 0" "lastTokenParsed (run_init p) = None" "sLastToken (run_init p) = (0, 0)"
  "pParse (run_init p) = p\<lparr>rc := SQLITE_OK, zTail := 0\<rparr>"
  by (simp_all add: run_init_def)

lemma run_loop_init:
  assumes "0 \<notin> set s" and "s = [] \<or> last s \<noteq> ch CHR ''!''" and "length s \<le> mx"
    and "\<And>p t x. mallocFailed (sp p t x) = mallocFailed p" and "\<not> mallocFailed p"
  shows "run_loop sp (\<lambda>_. False) mx (s @ [0]) (run_init p) = Some (run_tokens sp (tokens 0 s) (run_init p))"
proof (cases "s = []")
  case True
  then show ?thesis using assms(5) by (subst run_loop.simps) simp
next
  case False
  then show ?thesis using run_loop_tokens [of s mx "run_init p" sp] assms by simp
qed

text \<open>C7. Feeding the parser: on a text that fits the length limit, does not end with an
  exclamation mark and is not interrupted, and with a parser that does not run out of memory,
  \<^verbatim>\<open>sqlite3RunParser\<close> reads nothing outside the text and terminates; the parser consumes the tokens of
  the text in order, without the white space, until it reports a code other than \<^verbatim>\<open>SQLITE_OK\<close> or an
  illegal token comes up, which counts as an error. When neither happens a final semicolon, if
  the text lacks one, and the end marker 0 follow.\<close>

theorem sqlite3RunParser_feeds:
  assumes "0 \<notin> set s" and "s = [] \<or> last s \<noteq> ch CHR ''!''" and "length s \<le> mx"
    and "\<And>p t x. mallocFailed (sp p t x) = mallocFailed p" and "\<not> mallocFailed p"
  shows "sqlite3RunParser sp (\<lambda>_. False) mx p (s @ [0]) =
    (let ts = tokens 0 s; q = feed sp (significant ts) (p\<lparr>rc := SQLITE_OK, zTail := 0\<rparr>)
     in Some (if rc q \<noteq> SQLITE_OK then run_report q 0
              else if \<exists>x\<in>set ts. fst x = TK_ILLEGAL then run_report q 1
              else run_report (close sp ts (length s) q) 0))"
proof -
  let ?ts = "tokens 0 s" and ?st = "run_init p"
  let ?q = "feed sp (significant ?ts) (p\<lparr>rc := SQLITE_OK, zTail := 0\<rparr>)" and ?e = "run_tokens sp ?ts ?st"
  have run: "run_loop sp (\<lambda>_. False) mx (s @ [0]) ?st = Some ?e" using assms by (rule run_loop_init)
  have ends: "s \<noteq> [] \<Longrightarrow> ?ts \<noteq> []" "s \<noteq> [] \<Longrightarrow> fst (snd (last ?ts)) + snd (snd (last ?ts)) = length s"
      "\<forall>x\<in>set ?ts. fst (snd x) + snd (snd x) \<le> length s"
    using tokens_end [of s 0] assms(1,2) by (cases "s = []"; simp)+
  have "pos ?e \<le> length s" using run_tokens_pos [of sp ?ts ?st] ends(3) by fastforce
  then have rd: "rd (s @ [0]) (pos ?e) = Some (char_at s (pos ?e))" by (rule rd_text)
  have ps: "pParse ?e = ?q" "nErr ?e = (if rc ?q = SQLITE_OK \<and> (\<exists>x\<in>set ?ts. fst x = TK_ILLEGAL) then 1 else 0)"
    using run_tokens_feed [of ?st sp ?ts] run_tokens_nErr [of ?st sp ?ts] by simp_all
  show ?thesis
  proof (cases "rc ?q = SQLITE_OK \<and> (\<forall>x\<in>set ?ts. fst x \<noteq> TK_ILLEGAL)")
    case False
    then have "run_finish sp (s @ [0]) ?e = Some ?e"
      unfolding run_finish_def rd bind.bind_lunit by (auto simp: ps split: if_splits)
    with False show ?thesis
      unfolding sqlite3RunParser_def run bind.bind_lunit Let_def by (auto simp: ps)
  next
    case True
    then have l: "sLastToken ?e = (if ?ts = [] then (0, 0) else snd (last ?ts))" "pos ?e = length s"
        "lastTokenParsed ?e = (if significant ?ts = [] then None else Some (fst (last (significant ?ts))))"
      using run_tokens_last [of sp ?ts ?st] True ends by (cases "s = []"; simp)+
    have "char_at s (pos ?e) = 0" using l(2) by (simp add: char_at_def)
    then have "run_finish sp (s @ [0]) ?e = Some (?e\<lparr>pParse := close sp ?ts (length s) ?q\<rparr>)"
      unfolding run_finish_def rd bind.bind_lunit close_def Let_def using True l ps by auto
    with True show ?thesis
      unfolding sqlite3RunParser_def run bind.bind_lunit Let_def by (auto simp: ps)
  qed
qed

lemma GetToken_examples:
  "sqlite3GetToken [40, 49, 32, 41, 0] = Some (1, TK_LP)" "sqlite3GetToken [49, 32, 41, 0] = Some (1, TK_INTEGER)"
  "sqlite3GetToken [32, 41, 0] = Some (1, TK_SPACE)" "sqlite3GetToken [41, 0] = Some (1, TK_RP)"
  by (simp_all add: sqlite3GetToken_def tok_number_def tok_space_def scan_def exponent_at_def ctype_simps)

lemma tokens_example: "tokens 0 [40, 49, 32, 41] = [(TK_LP, 0, 1), (TK_INTEGER, 1, 1), (TK_SPACE, 2, 1), (TK_RP, 3, 1)]"
  using GetToken_examples by (simp add: tokens_step)

theorem sqlite3RunParser_feeds_witness:
  "sqlite3RunParser (\<lambda>p t x. p\<lparr>engine := engine p @ [t]\<rparr>) (\<lambda>_. False) 4
      \<lparr>engine = [], rc = 0, zErrMsg = False, mallocFailed = False, zTail = 0\<rparr> ([40, 49, 32, 41] @ [0]) =
    Some (\<lparr>engine = [TK_LP, TK_INTEGER, TK_RP, TK_SEMI, 0], rc = 0, zErrMsg = False, mallocFailed = False, zTail = 4\<rparr>, 0)"
  by (subst sqlite3RunParser_feeds, simp, simp, simp, simp, simp)
    (simp add: tokens_example close_def run_report_def SQLITE_OK_def tk_defs)

text \<open>A text that ends with a lone exclamation mark: the tokenizer reports two bytes, and the loop
  then looks at the byte behind the terminator.\<close>

lemma sqlite3RunParser_bang:
  assumes "\<not> mallocFailed p" and "2 \<le> mx"
  shows "sqlite3RunParser sp isI mx p [ch CHR ''!'', 0] = None"
proof -
  have "sqlite3GetToken [ch CHR ''!'', 0] = Some (2, TK_ILLEGAL)"
    by (simp add: sqlite3GetToken_def tok_bang_def)
  then show ?thesis
    using assms unfolding sqlite3RunParser_def
    by (subst run_loop.simps)
      (simp add: run_init_def run_token_def run_finish_def)
qed

end
