(* ===== verification/Complete.thy ===== *)
theory Complete
  imports Tokenize
begin

text \<open>
  \<^verbatim>\<open>sqlite3_complete\<close> (\<^verbatim>\<open>complete.c\<close>): does a text end with a complete SQL statement? A scanner cuts the
  text into eight kinds of tokens, which drive a state machine with eight states. A pointer into the
  text is the list of the bytes from there on.
\<close>

section \<open>Tokens and transitions\<close>

definition tkSEMI :: nat where "tkSEMI = 0"
definition tkWS :: nat where "tkWS = 1"
definition tkOTHER :: nat where "tkOTHER = 2"
definition tkEXPLAIN :: nat where "tkEXPLAIN = 3"
definition tkCREATE :: nat where "tkCREATE = 4"
definition tkTEMP :: nat where "tkTEMP = 5"
definition tkTRIGGER :: nat where "tkTRIGGER = 6"
definition tkEND :: nat where "tkEND = 7"

lemmas ctk_defs = tkSEMI_def tkWS_def tkOTHER_def tkEXPLAIN_def tkCREATE_def tkTEMP_def tkTRIGGER_def tkEND_def

definition trans_table :: "nat list list" where
  "trans_table =
   [[1, 0, 2, 3, 4, 2, 2, 2],
    [1, 1, 2, 3, 4, 2, 2, 2],
    [1, 2, 2, 2, 2, 2, 2, 2],
    [1, 3, 3, 2, 4, 2, 2, 2],
    [1, 4, 2, 2, 2, 4, 5, 2],
    [6, 5, 5, 5, 5, 5, 5, 5],
    [6, 6, 5, 5, 5, 5, 5, 7],
    [1, 7, 5, 5, 5, 5, 5, 5]]"

section \<open>The scanner\<close>

text \<open>\<^verbatim>\<open>while( *zSql && *zSql!=c ){ zSql++; }\<close>\<close>

fun skip_to :: "u8 \<Rightarrow> u8 list \<Rightarrow> u8 list option" where
  "skip_to e [] = None"
| "skip_to e (c # z) = (if c \<noteq> 0 \<and> c \<noteq> e then skip_to e z else Some (c # z))"

text \<open>\<^verbatim>\<open>while( zSql[0] && (zSql[0]!='*' || zSql[1]!='/') ){ zSql++; }\<close>\<close>

fun skip_comment :: "u8 list \<Rightarrow> u8 list option" where
  "skip_comment [] = None"
| "skip_comment (c # z) =
     (if c = 0 then Some (c # z)
      else if c \<noteq> ch CHR ''*'' then skip_comment z
      else case z of [] \<Rightarrow> None | d # _ \<Rightarrow> if d \<noteq> ch CHR ''/'' then skip_comment z else Some (c # z))"

text \<open>What the body of the loop does: a token and the text behind it, or a return of 0, or a return of
  \<^verbatim>\<open>state==1\<close>.\<close>

datatype scanned = Token nat "u8 list" | Return_0 | Return_state

text \<open>The quoted forms: the text behind the opening character up to the closing one.\<close>

definition complete_quoted :: "u8 \<Rightarrow> u8 list \<Rightarrow> scanned option" where
  "complete_quoted e z = do {
     z' \<leftarrow> skip_to e z;
     c \<leftarrow> rd z' 0;
     Some (if c = 0 then Return_0 else Token tkOTHER (drop 1 z'))
   }"

definition keyword_is :: "u8 list \<Rightarrow> nat \<Rightarrow> string \<Rightarrow> bool option" where
  "keyword_is z nId w =
    (if nId = length w then map_option (\<lambda>c. c = 0) (sqlite3_strnicmp z (bytes w) (length w)) else Some False)"

definition complete_word :: "u8 list \<Rightarrow> nat \<Rightarrow> nat option" where
  "complete_word z nId = do {
     c \<leftarrow> rd z 0;
     if c = ch CHR ''c'' \<or> c = ch CHR ''C'' then do {
       create \<leftarrow> keyword_is z nId ''create'';
       Some (if create then tkCREATE else tkOTHER)
     }
     else if c = ch CHR ''t'' \<or> c = ch CHR ''T'' then do {
       trigger \<leftarrow> keyword_is z nId ''trigger'';
       if trigger then Some tkTRIGGER
       else do {
         temp \<leftarrow> keyword_is z nId ''temp'';
         if temp then Some tkTEMP
         else do {
           temporary \<leftarrow> keyword_is z nId ''temporary'';
           Some (if temporary then tkTEMP else tkOTHER)
         }
       }
     }
     else if c = ch CHR ''e'' \<or> c = ch CHR ''E'' then do {
       end_kw \<leftarrow> keyword_is z nId ''end'';
       if end_kw then Some tkEND
       else do {
         explain \<leftarrow> keyword_is z nId ''explain'';
         Some (if explain then tkEXPLAIN else tkOTHER)
       }
     }
     else Some tkOTHER
   }"

definition complete_scan :: "u8 list \<Rightarrow> scanned option" where
  "complete_scan z = do {
     c \<leftarrow> rd z 0;
     if c = ch CHR '';'' then Some (Token tkSEMI (drop 1 z))
     else if c \<in> {0x20, 0x0d, 0x09, 0x0a, 0x0c} then Some (Token tkWS (drop 1 z))
     else if c = ch CHR ''/'' then do {
       c1 \<leftarrow> rd z 1;
       if c1 \<noteq> ch CHR ''*'' then Some (Token tkOTHER (drop 1 z))
       else do {
         z' \<leftarrow> skip_comment (drop 2 z);
         c2 \<leftarrow> rd z' 0;
         Some (if c2 = 0 then Return_0 else Token tkWS (drop 2 z'))
       }
     }
     else if c = ch CHR ''-'' then do {
       c1 \<leftarrow> rd z 1;
       if c1 \<noteq> ch CHR ''-'' then Some (Token tkOTHER (drop 1 z))
       else do {
         z' \<leftarrow> skip_to 10 z;
         c2 \<leftarrow> rd z' 0;
         Some (if c2 = 0 then Return_state else Token tkWS (drop 1 z'))
       }
     }
     else if c = ch CHR ''['' then complete_quoted (ch CHR '']'') (drop 1 z)
     else if c \<in> {ch CHR ''`'', ch CHR 0x22, ch CHR 0x27} then complete_quoted c (drop 1 z)
     else if IdChar c then do {
       nId \<leftarrow> scan IdChar z 1;
       t \<leftarrow> complete_word z nId;
       Some (Token t (drop nId z))
     }
     else Some (Token tkOTHER (drop 1 z))
   }"

lemma skip_to_length: "skip_to e z = Some z' \<Longrightarrow> length z' \<le> length z"
  by (induction e z rule: skip_to.induct) (auto split: if_splits)

lemma skip_comment_length: "skip_comment z = Some z' \<Longrightarrow> length z' \<le> length z"
  by (induction z rule: skip_comment.induct) (auto split: if_splits list.splits)

lemma rd_0_Some: "rd z 0 = Some c \<longleftrightarrow> (\<exists>z'. z = c # z')"
  by (cases z) auto

lemma complete_quoted_shorter: "complete_quoted e z = Some (Token t z') \<Longrightarrow> length z' \<le> length z"
  by (auto simp: complete_quoted_def rd_0_Some split: if_splits bind_splits dest!: skip_to_length)

lemma complete_scan_shorter: "complete_scan z = Some (Token t z') \<Longrightarrow> length z' < length z"
  by (auto simp: complete_scan_def rd_0_Some split: if_splits bind_splits
      dest!: skip_to_length skip_comment_length complete_quoted_shorter scan_ge)

section \<open>The loop\<close>

function complete_loop :: "nat \<Rightarrow> u8 list \<Rightarrow> bool option" where
  "complete_loop state z = do {
     c \<leftarrow> rd z 0;
     if c = 0 then Some (state = 1)
     else do {
       r \<leftarrow> complete_scan z;
       (case r of
          Return_0 \<Rightarrow> Some False
        | Return_state \<Rightarrow> Some (state = 1)
        | Token t z' \<Rightarrow> do {
            row \<leftarrow> rd trans_table state;
            state' \<leftarrow> rd row t;
            complete_loop state' z'
          })
     }
   }"
  by pat_completeness auto
termination
  by (relation "measure (\<lambda>(_, z). length z)") (auto dest: complete_scan_shorter)

declare complete_loop.simps [simp del]

definition sqlite3_complete :: "u8 list \<Rightarrow> bool option" where
  "sqlite3_complete zSql = complete_loop 0 zSql"

section \<open>The scanner stays inside the text\<close>

definition scan_ok :: "u8 list \<Rightarrow> scanned option \<Rightarrow> bool" where
  "scan_ok s x \<longleftrightarrow> (\<exists>r. x = Some r \<and> (\<forall>t z. r = Token t z \<longrightarrow> t < 8 \<and> (\<exists>k. 0 < k \<and> k \<le> length s \<and> z = drop k s @ [0])))"

lemma scan_okI: "t < 8 \<Longrightarrow> 0 < k \<Longrightarrow> k \<le> length s \<Longrightarrow> z = drop k s @ [0] \<Longrightarrow> scan_ok s (Some (Token t z))"
  unfolding scan_ok_def by blast

lemma scan_ok_return: "scan_ok s (Some Return_0)" "scan_ok s (Some Return_state)"
  by (simp_all add: scan_ok_def)

lemma scan_ok_if: "(c \<Longrightarrow> scan_ok s x) \<Longrightarrow> (\<not> c \<Longrightarrow> scan_ok s y) \<Longrightarrow> scan_ok s (if c then x else y)"
  by simp

lemma skip_to_text:
  "0 \<notin> set s \<Longrightarrow> \<exists>k. k \<le> length s \<and> skip_to e (s @ [0]) = Some (drop k s @ [0])"
proof (induction s)
  case (Cons c s)
  then obtain k where "k \<le> length s" "skip_to e (s @ [0]) = Some (drop k s @ [0])" by auto
  with Cons.prems show ?case
    by (cases "c = e") (auto intro: exI [of _ 0] exI [of _ "Suc k"])
qed simp

lemma skip_comment_text:
  "0 \<notin> set s \<Longrightarrow> \<exists>k. k \<le> length s \<and> skip_comment (s @ [0]) = Some (drop k s @ [0]) \<and>
     (k < length s \<longrightarrow> k + 2 \<le> length s)"
proof (induction s)
  case (Cons c s)
  then obtain k where k: "k \<le> length s" "skip_comment (s @ [0]) = Some (drop k s @ [0])" "k < length s \<longrightarrow> k + 2 \<le> length s"
    by auto
  show ?case
  proof (cases "\<exists>s'. c # s = ch CHR ''*'' # ch CHR ''/'' # s'")
    case True
    then show ?thesis by (auto intro!: exI [of _ 0])
  next
    case False
    then have "skip_comment ((c # s) @ [0]) = skip_comment (s @ [0])"
      using Cons.prems by (cases s) auto
    with k show ?thesis by (intro exI [of _ "Suc k"]) auto
  qed
qed simp

lemma drop_text_Cons:
  assumes "k < length s"
  shows "drop k s @ [0] = s ! k # drop (Suc k) s @ [0]"
  using assms by (simp add: Cons_nth_drop_Suc)

lemma complete_quoted_ok:
  assumes "0 \<notin> set s"
  shows "scan_ok (a # s) (complete_quoted e (s @ [0]))"
proof -
  obtain k where k: "k \<le> length s" "skip_to e (s @ [0]) = Some (drop k s @ [0])"
    using skip_to_text [OF assms] by blast
  show ?thesis
  proof (cases "k = length s")
    case True
    with k show ?thesis by (simp add: complete_quoted_def scan_ok_return)
  next
    case False
    then have kl: "k < length s" using k(1) by simp
    then have "s ! k \<noteq> 0" using assms nth_mem by metis
    then have "complete_quoted e (s @ [0]) = Some (Token tkOTHER (drop (Suc k) s @ [0]))"
      using k drop_text_Cons [OF kl] by (simp add: complete_quoted_def)
    then show ?thesis using kl by (simp add: scan_okI [of _ "Suc (Suc k)"] tkOTHER_def)
  qed
qed

lemma keyword_is_text:
  assumes "nId \<le> length s" and "0 \<notin> set s"
  shows "\<exists>b. keyword_is (s @ [0]) nId w = Some b"
proof (cases "nId = length w")
  case True
  with assms strnicmp_take [of "length w" "s @ [0]" "bytes w"] show ?thesis
    by (auto simp: keyword_is_def dest: in_set_takeD)
qed (unfold keyword_is_def, metis)

lemma complete_word_text:
  assumes "nId \<le> length s" and "0 \<notin> set s" and "s \<noteq> []"
  shows "\<exists>t < 8. complete_word (s @ [0]) nId = Some t"
proof -
  obtain f where f: "\<And>w. keyword_is (s @ [0]) nId w = Some (f w)"
    using keyword_is_text [OF assms(1,2)] by metis
  obtain c s' where "s = c # s'" using assms(3) by (cases s) auto
  then show ?thesis
    unfolding complete_word_def f by (simp add: ctk_defs)
qed

lemma complete_scan_ok:
  assumes "0 \<notin> set (a # s)"
  shows "scan_ok (a # s) (complete_scan (a # s @ [0]))"
proof -
  have one: "scan_ok (a # s) (Some (Token t (s @ [0])))" if "t < 8" for t
    using that by (intro scan_okI [of _ 1]) auto
  have s0: "0 \<notin> set s" using assms by simp
  have comment: "scan_ok (a # s) (do { z' \<leftarrow> skip_comment (drop 1 (s @ [0])); c2 \<leftarrow> rd z' 0;
      Some (if c2 = 0 then Return_0 else Token tkWS (drop 2 z')) })" if star: "rd (s @ [0]) 0 = Some (ch CHR ''*'')"
  proof -
    obtain x s' where s: "s = x # s'" using star by (cases s) auto
    obtain k where k: "k \<le> length s'" "skip_comment (s' @ [0]) = Some (drop k s' @ [0])" "k < length s' \<longrightarrow> k + 2 \<le> length s'"
      using skip_comment_text [of s'] s s0 by auto
    show ?thesis
    proof (cases "k = length s'")
      case False
      then have kl: "k < length s'" "Suc (Suc k) \<le> length s'" using k by auto
      then have "s' ! k \<noteq> 0" using s s0 nth_mem [OF kl(1)] by (metis list.set_intros(2))
      then have "drop 2 (drop k s' @ [0]) = drop (k + 2) s' @ [0]" using kl by (simp add: add.commute)
      with k kl drop_text_Cons [OF kl(1)] \<open>s' ! k \<noteq> 0\<close> s show ?thesis
        by (auto intro!: scan_okI [of _ "Suc (Suc (Suc (Suc k)))"] simp: tkWS_def)
    qed (use k s in \<open>simp add: scan_ok_return\<close>)
  qed
  have dash: "scan_ok (a # s) (do { z' \<leftarrow> skip_to 10 (a # s @ [0]); c2 \<leftarrow> rd z' 0;
      Some (if c2 = 0 then Return_state else Token tkWS (drop 1 z')) })"
  proof -
    obtain k where k: "k \<le> length (a # s)" "skip_to 10 ((a # s) @ [0]) = Some (drop k (a # s) @ [0])"
      using skip_to_text [OF assms] by blast
    show ?thesis
    proof (cases "k = length (a # s)")
      case False
      then have kl: "k < length (a # s)" using k by simp
      then show ?thesis using k drop_text_Cons [OF kl] scan_ok_return
        by (auto intro!: scan_okI [of _ "Suc k"] simp: tkWS_def)
    qed (use k in \<open>simp add: scan_ok_return\<close>)
  qed
  have word: "scan_ok (a # s) (do { nId \<leftarrow> scan IdChar (a # s @ [0]) 1; t \<leftarrow> complete_word (a # s @ [0]) nId;
      Some (Token t (drop nId (a # s @ [0]))) })"
  proof -
    obtain n where n: "scan IdChar (a # s @ [0]) 1 = Some n" "1 \<le> n" "n \<le> length (a # s)"
      using scan_text [of IdChar 1 "a # s" "[]"] by auto
    obtain t where "t < 8" "complete_word (a # s @ [0]) n = Some t"
      using complete_word_text [of n "a # s"] n assms by auto
    with n show ?thesis by (cases n) (auto intro!: scan_okI [of _ n])
  qed
  obtain c1 where c1: "rd (s @ [0]) 0 = Some c1" by (cases s) auto
  show ?thesis
    unfolding complete_scan_def rd_Cons bind.bind_lunit c1
    using comment dash word one complete_quoted_ok [OF s0] c1
    by (intro scan_ok_if) (auto simp: ctk_defs)
qed

section \<open>The statement machine\<close>

text \<open>The reference: the tokens of a text, with a mark when it ends inside a comment or a quoted
  name.\<close>

function complete_tokens :: "u8 list \<Rightarrow> (nat list \<times> bool) option" where
  "complete_tokens z = do {
     c \<leftarrow> rd z 0;
     if c = 0 then Some ([], False)
     else do {
       r \<leftarrow> complete_scan z;
       (case r of
          Return_0 \<Rightarrow> Some ([], True)
        | Return_state \<Rightarrow> Some ([], False)
        | Token t z' \<Rightarrow> do {
            (ts, open_end) \<leftarrow> complete_tokens z';
            Some (t # ts, open_end)
          })
     }
   }"
  by pat_completeness auto
termination
  by (relation "measure length") (auto dest: complete_scan_shorter)

declare complete_tokens.simps [simp del]

text \<open>A statement is a sequence of tokens that ends with its first semicolon, or, when it
  starts like the definition of a trigger, with the first semicolon, \<^verbatim>\<open>END\<close>, semicolon.\<close>

definition trigger_head :: "nat list \<Rightarrow> bool" where
  "trigger_head h \<longleftrightarrow> (\<exists>e k. (e = [] \<or> (\<exists>j. e = tkEXPLAIN # replicate j tkOTHER)) \<and>
     h = e @ tkCREATE # replicate k tkTEMP @ [tkTRIGGER])"

definition starts_trigger :: "nat list \<Rightarrow> bool" where
  "starts_trigger us \<longleftrightarrow> (\<exists>h v. us = h @ v \<and> trigger_head h)"

definition closes_trigger :: "nat list \<Rightarrow> bool" where
  "closes_trigger us \<longleftrightarrow> (\<exists>v. us = v @ [tkSEMI, tkEND, tkSEMI])"

inductive statement :: "nat list \<Rightarrow> bool" where
  plain: "tkSEMI \<notin> set us \<Longrightarrow> \<not> starts_trigger us \<Longrightarrow> statement (us @ [tkSEMI])"
| trigger: "trigger_head h \<Longrightarrow> closes_trigger us \<Longrightarrow> (\<forall>v w. us = v @ w \<longrightarrow> w \<noteq> [] \<longrightarrow> \<not> closes_trigger v) \<Longrightarrow>
    statement (h @ us)"

inductive statements :: "nat list \<Rightarrow> bool" where
  one: "statement us \<Longrightarrow> statements us"
| more: "statement us \<Longrightarrow> statements vs \<Longrightarrow> statements (us @ vs)"

definition delta :: "nat \<Rightarrow> nat \<Rightarrow> nat" where
  "delta s t = trans_table ! s ! t"

definition run_states :: "nat \<Rightarrow> nat list \<Rightarrow> nat" where
  "run_states s ts = foldl delta s ts"

lemma run_states_simps [simp]:
  "run_states s [] = s" "run_states s (t # ts) = run_states (delta s t) ts"
  "run_states s (us @ vs) = run_states (run_states s us) vs"
  by (simp_all add: run_states_def)

lemma less_8: "(n :: nat) < 8 \<longleftrightarrow> n \<in> {0, 1, 2, 3, 4, 5, 6, 7}"
  by auto

lemma delta_rows:
  "t < 8 \<Longrightarrow> delta 1 t = (if t = tkSEMI \<or> t = tkWS then 1 else if t = tkEXPLAIN then 3 else if t = tkCREATE then 4 else 2)"
  "t < 8 \<Longrightarrow> delta 0 t = (if t = tkWS then 0 else delta 1 t)"
  "t < 8 \<Longrightarrow> delta 2 t = (if t = tkSEMI then 1 else 2)"
  "t < 8 \<Longrightarrow> delta 3 t = (if t = tkSEMI then 1 else if t = tkWS \<or> t = tkOTHER then 3 else if t = tkCREATE then 4 else 2)"
  "t < 8 \<Longrightarrow> delta 4 t = (if t = tkSEMI then 1 else if t = tkWS \<or> t = tkTEMP then 4 else if t = tkTRIGGER then 5 else 2)"
  "t < 8 \<Longrightarrow> delta 5 t = (if t = tkSEMI then 6 else 5)"
  "t < 8 \<Longrightarrow> delta 6 t = (if t = tkSEMI \<or> t = tkWS then 6 else if t = tkEND then 7 else 5)"
  "t < 8 \<Longrightarrow> delta 7 t = (if t = tkSEMI then 1 else if t = tkWS then 7 else 5)"
  by (auto simp: less_8 delta_def trans_table_def ctk_defs)

lemma delta_less: "s < 8 \<Longrightarrow> t < 8 \<Longrightarrow> delta s t < 8"
  by (auto simp: less_8 delta_def trans_table_def)

lemma delta_WS: "s < 8 \<Longrightarrow> delta s tkWS = s"
  by (auto simp: less_8 delta_def trans_table_def ctk_defs)

lemma run_states_WS:
  "s < 8 \<Longrightarrow> \<forall>t\<in>set ts. t < 8 \<Longrightarrow> run_states s ts = run_states s (filter (\<lambda>t. t \<noteq> tkWS) ts)"
  by (induction ts arbitrary: s) (auto simp: delta_WS delta_less)

lemma run_states_less: "s < 8 \<Longrightarrow> \<forall>t\<in>set ts. t < 8 \<Longrightarrow> run_states s ts < 8"
  by (induction ts arbitrary: s) (auto simp: delta_less)

text \<open>Words of tokens without white space.\<close>

abbreviation word_ok :: "nat list \<Rightarrow> bool" where
  "word_ok ts \<equiv> \<forall>t\<in>set ts. t < 8 \<and> t \<noteq> tkWS"

lemma run_head: "trigger_head h \<Longrightarrow> s \<in> {0, 1} \<Longrightarrow> run_states s h = 5"
proof -
  have other: "run_states 3 (replicate j tkOTHER) = 3" for j
    by (induction j) (simp_all add: delta_def trans_table_def ctk_defs)
  have temp: "run_states 4 (replicate k tkTEMP) = 4" for k
    by (induction k) (simp_all add: delta_def trans_table_def ctk_defs)
  have d: "delta 0 tkEXPLAIN = 3" "delta 0 tkCREATE = 4" "delta (Suc 0) tkEXPLAIN = 3" "delta (Suc 0) tkCREATE = 4"
      "delta 3 tkCREATE = 4" "delta 4 tkTRIGGER = 5" by (simp_all add: delta_def trans_table_def ctk_defs)
  show "trigger_head h \<Longrightarrow> s \<in> {0, 1} \<Longrightarrow> run_states s h = 5"
    unfolding trigger_head_def by (auto simp: other temp d)
qed

lemma run_5_plain: "word_ok v \<Longrightarrow> tkSEMI \<notin> set v \<Longrightarrow> run_states 5 v = 5"
  by (induction v) (auto simp: delta_rows)

text \<open>The state after a word without semicolon.\<close>

definition explained :: "nat list \<Rightarrow> bool" where
  "explained us \<longleftrightarrow> (\<exists>j. us = tkEXPLAIN # replicate j tkOTHER)"

definition created :: "nat list \<Rightarrow> bool" where
  "created us \<longleftrightarrow> (\<exists>e k. (e = [] \<or> explained e) \<and> us = e @ tkCREATE # replicate k tkTEMP)"

lemma replicate_snoc: "replicate j x @ [x] = replicate (Suc j) x"
  by (simp add: replicate_append_same)

lemma head_grows:
  "explained [tkEXPLAIN]"
  "created [tkCREATE]"
  "explained us \<Longrightarrow> explained (us @ [tkOTHER])"
  "explained us \<Longrightarrow> created (us @ [tkCREATE])"
  "created us \<Longrightarrow> created (us @ [tkTEMP])"
  "created us \<Longrightarrow> starts_trigger (us @ [tkTRIGGER])"
  "starts_trigger us \<Longrightarrow> starts_trigger (us @ [t])"
proof -
  show "explained [tkEXPLAIN]" unfolding explained_def by (rule exI [of _ 0]) simp
  show "created [tkCREATE]" unfolding created_def by (rule exI [of _ "[]"], rule exI [of _ 0]) simp
  show "explained us \<Longrightarrow> explained (us @ [tkOTHER])" unfolding explained_def by (metis append_Cons replicate_snoc)
  show "explained us \<Longrightarrow> created (us @ [tkCREATE])" unfolding created_def by (rule exI [of _ us], rule exI [of _ 0]) simp
  show "created us \<Longrightarrow> created (us @ [tkTEMP])"
    unfolding created_def by (metis append_assoc append_Cons replicate_snoc)
  show "created us \<Longrightarrow> starts_trigger (us @ [tkTRIGGER])"
    unfolding created_def starts_trigger_def trigger_head_def explained_def
    by (metis append_assoc append_Cons append_Nil2)
  show "starts_trigger us \<Longrightarrow> starts_trigger (us @ [t])"
    unfolding starts_trigger_def by (metis append_assoc)
qed

lemma run_plain_cases:
  assumes "s \<in> {0, 1}"
  shows "word_ok us \<Longrightarrow> tkSEMI \<notin> set us \<Longrightarrow>
    us = [] \<and> run_states s us = s \<or> run_states s us = 2 \<or> run_states s us = 3 \<and> explained us \<or>
    run_states s us = 4 \<and> created us \<or> run_states s us = 5 \<and> starts_trigger us"
proof (induction us rule: rev_induct)
  case (snoc t us)
  have t: "t < 8" "t \<noteq> tkWS" "t \<noteq> tkSEMI" using snoc.prems by auto
  have "delta s t = delta 1 t" using assms t by (auto simp: delta_rows)
  note d = this [unfolded delta_rows(1) [OF t(1)]] delta_rows(3-6) [OF t(1)] t(2,3)
  from snoc.IH snoc.prems consider "us = []" "run_states s us = s" | "run_states s us = 2"
    | "run_states s us = 3" "explained us" | "run_states s us = 4" "created us"
    | "run_states s us = 5" "starts_trigger us" by auto
  then show ?case
    by cases (use d head_grows(1,2) head_grows(3-7) [of us] in \<open>simp_all split: if_splits\<close>)
qed simp

lemma run_plain_trigger:
  assumes "s \<in> {0, 1}" and "word_ok us" and "tkSEMI \<notin> set us"
  shows "run_states s us = 5 \<longleftrightarrow> starts_trigger us"
proof
  assume "run_states s us = 5"
  with run_plain_cases [OF assms] assms(1) show "starts_trigger us" by auto
next
  assume "starts_trigger us"
  then obtain h v where "us = h @ v" "trigger_head h" by (auto simp: starts_trigger_def)
  then show "run_states s us = 5" using run_head [OF _ assms(1)] run_5_plain [of v] assms(2,3) by simp
qed

text \<open>The states inside a trigger.\<close>

definition unclosed :: "nat list \<Rightarrow> bool" where
  "unclosed us \<longleftrightarrow> (\<forall>v w. us = v @ w \<longrightarrow> \<not> closes_trigger v)"

lemma unclosed_snoc: "unclosed (us @ [t]) \<longleftrightarrow> unclosed us \<and> \<not> closes_trigger (us @ [t])"
  unfolding unclosed_def by (metis append.assoc append.right_neutral append_butlast_last_id append_eq_append_conv2 butlast_append butlast_snoc)

lemma run_5_unclosed:
  "word_ok us \<Longrightarrow> unclosed us \<Longrightarrow>
    run_states 5 us = (if \<exists>v. us = v @ [tkSEMI] then 6 else if \<exists>v. us = v @ [tkSEMI, tkEND] then 7 else 5)"
proof (induction us rule: rev_induct)
  case (snoc t us)
  have t: "t < 8" "t \<noteq> tkWS" using snoc.prems by auto
  have IH: "run_states 5 us = (if \<exists>v. us = v @ [tkSEMI] then 6 else if \<exists>v. us = v @ [tkSEMI, tkEND] then 7 else 5)"
    using snoc unclosed_snoc by auto
  have ends: "(\<exists>v. us @ [t] = v @ [tkSEMI, tkEND]) \<longleftrightarrow> t = tkEND \<and> (\<exists>v. us = v @ [tkSEMI])"
    by (metis append.assoc append_Cons append_Nil append1_eq_conv)
  have closes: "closes_trigger (us @ [t]) \<longleftrightarrow> t = tkSEMI \<and> (\<exists>v. us = v @ [tkSEMI, tkEND])"
    unfolding closes_trigger_def by (metis append.assoc append_Cons append_Nil append1_eq_conv)
  have "tkEND \<noteq> tkSEMI" by (simp add: ctk_defs)
  then have excl: "\<not> ((\<exists>v. us = v @ [tkSEMI]) \<and> (\<exists>v. us = v @ [tkSEMI, tkEND]))"
    by (metis append.assoc append_Cons append_Nil append1_eq_conv)
  show ?case
    using IH ends closes excl snoc.prems(2) \<open>tkEND \<noteq> tkSEMI\<close> t by (auto simp: unclosed_snoc delta_rows)
qed simp

lemma statement_run:
  assumes "statement ts" and "word_ok ts" and "s \<in> {0, 1}"
  shows "run_states s ts = 1"
  using assms(1,2)
proof cases
  case (plain us)
  have "run_states s us \<noteq> 5" using run_plain_trigger [OF assms(3)] plain assms(2) by auto
  then have "run_states s us \<in> {0, 1, 2, 3, 4}"
    using run_plain_cases [OF assms(3), of us] plain assms(2,3) by auto
  then have "delta (run_states s us) tkSEMI = 1" by (auto simp: delta_def trans_table_def ctk_defs)
  then show ?thesis using plain by simp
next
  case (trigger h us)
  then obtain v where v: "us = v @ [tkSEMI, tkEND, tkSEMI]" by (auto simp: closes_trigger_def)
  have "unclosed (v @ [tkSEMI, tkEND])"
    unfolding unclosed_def
  proof (intro allI impI)
    fix x w assume "v @ [tkSEMI, tkEND] = x @ w"
    then have "us = x @ (w @ [tkSEMI])" using v by (metis append.assoc append_Cons append_Nil)
    then show "\<not> closes_trigger x" using trigger(4) by blast
  qed
  moreover have "tkEND \<noteq> tkSEMI" by (simp add: ctk_defs)
  ultimately have "run_states 5 (v @ [tkSEMI, tkEND]) = 7"
    using run_5_unclosed [of "v @ [tkSEMI, tkEND]"] assms(2) trigger(1) v by auto
  then have "run_states 5 us = 1" using v by (simp add: delta_rows ctk_defs delta_def trans_table_def)
  then show ?thesis using run_head [OF trigger(2) assms(3)] trigger(1) by simp
qed

lemma statements_run: "statements ts \<Longrightarrow> word_ok ts \<Longrightarrow> s \<in> {0, 1} \<Longrightarrow> run_states s ts = 1"
proof (induction arbitrary: s rule: statements.induct)
  case (one us)
  then show ?case by (rule statement_run)
next
  case (more us vs)
  then have "run_states s us = 1" using statement_run by simp
  then show ?case using more by simp
qed

text \<open>The first point where a trigger is closed.\<close>

lemma first_close:
  assumes "word_ok w" and "run_states 5 w = 1"
  obtains u v where "w = u @ v" "closes_trigger u" "\<forall>x y. u = x @ y \<longrightarrow> y \<noteq> [] \<longrightarrow> \<not> closes_trigger x"
proof -
  let ?P = "\<lambda>u. closes_trigger u \<and> (\<exists>v. w = u @ v)"
  have "\<not> unclosed w" using run_5_unclosed [OF assms(1)] assms(2) by (auto split: if_splits)
  then obtain x where "?P x" by (auto simp: unclosed_def)
  then obtain u v where u: "closes_trigger u" "w = u @ v" and least: "\<And>y. ?P y \<Longrightarrow> length u \<le> length y"
    using ex_has_least_nat [of ?P x length] by blast
  have "\<forall>x y. u = x @ y \<longrightarrow> y \<noteq> [] \<longrightarrow> \<not> closes_trigger x"
  proof (intro allI impI notI)
    fix x y assume xy: "u = x @ y" "y \<noteq> []" "closes_trigger x"
    then have "length u \<le> length x" using least [of x] u(2) by simp
    then show False using xy by simp
  qed
  with u that show thesis by blast
qed

lemma run_statements:
  "word_ok ts \<Longrightarrow> s \<in> {0, 1} \<Longrightarrow> run_states s ts = 1 \<Longrightarrow> ts = [] \<or> statements ts"
proof (induction ts arbitrary: s rule: length_induct)
  case (1 ts)
  have go: "statements (u @ v)" if "statement u" "ts = u @ v" "u \<noteq> []" for u v
  proof -
    have "run_states s u = 1" using statement_run [OF that(1)] 1(2,3) that(2) by auto
    then have "v = [] \<or> statements v" using 1 that by auto
    then show ?thesis using that(1) by (auto intro: statements.intros)
  qed
  show ?case
  proof (cases "tkSEMI \<in> set ts")
    case False
    with run_plain_cases [OF 1(3,2)] 1(3,4) show ?thesis by auto
  next
    case True
    then obtain us vs where ts: "ts = us @ tkSEMI # vs" "tkSEMI \<notin> set us" by (meson split_list_first)
    show ?thesis
    proof (cases "starts_trigger us")
      case False
      with ts go [of "us @ [tkSEMI]" vs] show ?thesis by (auto intro: statement.plain)
    next
      case True
      then obtain h v where h: "us = h @ v" "trigger_head h" by (auto simp: starts_trigger_def)
      let ?w = "v @ tkSEMI # vs"
      have "run_states 5 ?w = 1" using 1(4) run_head [OF h(2) 1(3)] h(1) ts(1) by simp
      then obtain u y where u: "?w = u @ y" "closes_trigger u" "\<forall>x y. u = x @ y \<longrightarrow> y \<noteq> [] \<longrightarrow> \<not> closes_trigger x"
        using first_close [of ?w] 1(2) ts(1) h(1) by auto
      then have "statement (h @ u)" using h(2) by (intro statement.trigger) auto
      moreover have "h \<noteq> []" using h(2) by (auto simp: trigger_head_def)
      ultimately show ?thesis using go [of "h @ u" y] u(1) ts(1) h(1) by auto
    qed
  qed
qed

lemma run_states_statements:
  assumes "\<forall>t\<in>set ts. t < 8"
  shows "run_states 0 ts = 1 \<longleftrightarrow> statements (filter (\<lambda>t. t \<noteq> tkWS) ts)"
proof -
  let ?ts = "filter (\<lambda>t. t \<noteq> tkWS) ts"
  have ok: "word_ok ?ts" using assms by auto
  have "run_states 0 ts = run_states 0 ?ts" by (rule run_states_WS) (use assms in auto)
  moreover have "run_states 0 ?ts = 1 \<Longrightarrow> statements ?ts" using run_statements [OF ok, of 0] by fastforce
  moreover have "statements ?ts \<Longrightarrow> run_states 0 ?ts = 1" by (rule statements_run [OF _ ok]) simp_all
  ultimately show ?thesis by argo
qed

section \<open>Correctness\<close>

lemma complete_loop_tokens:
  assumes "0 \<notin> set s"
  shows "st < 8 \<Longrightarrow> \<exists>ts b. complete_tokens (s @ [0]) = Some (ts, b) \<and> (\<forall>t\<in>set ts. t < 8) \<and>
    complete_loop st (s @ [0]) = Some (\<not> b \<and> run_states st ts = 1)"
  using assms
proof (induction s arbitrary: st rule: length_induct)
  case (1 s)
  show ?case
  proof (cases s)
    case Nil
    have "complete_tokens (s @ [0]) = Some ([], False)" "complete_loop st (s @ [0]) = Some (st = 1)"
      using Nil by (simp_all add: complete_loop.simps [of st "[0]"] complete_tokens.simps [of "[0]"])
    then show ?thesis by auto
  next
    case (Cons a s')
    obtain r where r: "complete_scan (s @ [0]) = Some r"
        "\<And>t z. r = Token t z \<Longrightarrow> t < 8 \<and> (\<exists>k. 0 < k \<and> k \<le> length s \<and> z = drop k s @ [0])"
      using complete_scan_ok [of a s'] 1(3) Cons by (auto simp: scan_ok_def)
    have a: "rd (s @ [0]) 0 = Some a" "a \<noteq> 0" using Cons 1(3) by auto
    show ?thesis
    proof (cases r)
      case (Token t z)
      then obtain k where k: "t < 8" "0 < k" "k \<le> length s" "z = drop k s @ [0]" using r(2) by blast
      have "length (drop k s) < length s" "0 \<notin> set (drop k s)" "delta st t < 8"
        using k 1(2,3) delta_less by (auto dest: in_set_dropD)
      then obtain ts b where ts: "complete_tokens z = Some (ts, b)" "\<forall>t\<in>set ts. t < 8"
          "complete_loop (delta st t) z = Some (\<not> b \<and> run_states (delta st t) ts = 1)"
        using 1(1) k(4) by meson
      have "rd trans_table st = Some (trans_table ! st)" "rd (trans_table ! st) t = Some (delta st t)"
        using 1(2) k(1) by (auto simp: less_8 rd_def trans_table_def delta_def)
      then show ?thesis
        using r(1) a Token ts k(1) by (simp add: complete_loop.simps [of st "s @ [0]"] complete_tokens.simps [of "s @ [0]"])
    next
      case Return_0
      have "complete_tokens (s @ [0]) = Some ([], True)" "complete_loop st (s @ [0]) = Some False"
        using r(1) a Return_0 by (simp_all add: complete_loop.simps [of st "s @ [0]"] complete_tokens.simps [of "s @ [0]"])
      then show ?thesis by auto
    next
      case Return_state
      have "complete_tokens (s @ [0]) = Some ([], False)" "complete_loop st (s @ [0]) = Some (st = 1)"
        using r(1) a Return_state by (simp_all add: complete_loop.simps [of st "s @ [0]"] complete_tokens.simps [of "s @ [0]"])
      then show ?thesis by auto
    qed
  qed
qed

text \<open>C5. \<^verbatim>\<open>sqlite3_complete\<close> reads nothing outside a terminated text and terminates; it answers yes
  exactly when the text does not end inside a comment or a quoted name and its tokens are a
  nonempty sequence of complete statements: an ordinary statement ends with its first semicolon, the
  definition of a trigger with the first semicolon, \<^verbatim>\<open>END\<close>, semicolon.\<close>

theorem sqlite3_complete_statements:
  assumes "0 \<notin> set s"
  shows "\<exists>ts b. complete_tokens (s @ [0]) = Some (ts, b) \<and>
    sqlite3_complete (s @ [0]) = Some (\<not> b \<and> statements (filter (\<lambda>t. t \<noteq> tkWS) ts))"
  using complete_loop_tokens [OF assms, of 0] run_states_statements unfolding sqlite3_complete_def by fastforce

theorem sqlite3_complete_statements_witness:
  "sqlite3_complete ([0x27, 0x3b, 0x27, 0x20, 0x3b] @ [0]) = Some (statements [tkOTHER, tkSEMI])"
proof -
  have "complete_tokens [0x27, 0x3b, 0x27, 0x20, 0x3b, 0] = Some ([tkOTHER, tkWS, tkSEMI], False)"
    by (simp add: complete_tokens.simps [of "[_, _, _, _, _, _]"] complete_tokens.simps [of "[_, _, _]"]
        complete_tokens.simps [of "[_, _]"] complete_tokens.simps [of "[_]"] complete_scan_def complete_quoted_def)
  then show ?thesis
    using sqlite3_complete_statements [of "[0x27, 0x3b, 0x27, 0x20, 0x3b]"] by (auto simp: ctk_defs)
qed

end
