(* ===== verification/Bitvec.thy ===== *)
theory Bitvec
  imports Sqlite_Prelude Result_Codes
begin

text \<open>
  Bitmaps (\<^verbatim>\<open>bitvec.c\<close>): which pages of the database are journalled. A bitmap is a plain bit
  array when it is small, a hash table with open addressing when it is large and sparse, and an
  array of bitmaps when it is large and dense.

  The unsigned fields are natural numbers: sizes and bit numbers are below \<open>2 ^ 32\<close>, and the
  arithmetic of the source on them, which mixes them with \<^verbatim>\<open>sizeof\<close> expressions of type \<^verbatim>\<open>size_t\<close>, stays
  below \<open>2 ^ 64\<close>. The outcomes of the allocations are a list of booleans that the operations consume;
  when it is used up allocations succeed. Pointers are 8 bytes long.
\<close>

section \<open>Data\<close>

definition BITVEC_USIZE :: nat where "BITVEC_USIZE = ((512 - 3 * 4) div 8) * 8"
definition BITVEC_NELEM :: nat where "BITVEC_NELEM = BITVEC_USIZE"
definition BITVEC_NBIT :: nat where "BITVEC_NBIT = BITVEC_NELEM * 8"
definition BITVEC_NINT :: nat where "BITVEC_NINT = BITVEC_USIZE div 4"
definition BITVEC_MXHASH :: nat where "BITVEC_MXHASH = BITVEC_NINT div 2"
definition BITVEC_NPTR :: nat where "BITVEC_NPTR = BITVEC_USIZE div 8"

definition BITVEC_HASH :: "nat \<Rightarrow> nat" where
  "BITVEC_HASH x = (x * 1) mod BITVEC_NINT"

lemma bitvec_consts [simp]:
  "BITVEC_NELEM = 496" "BITVEC_NBIT = 3968" "BITVEC_NINT = 124" "BITVEC_MXHASH = 62" "BITVEC_NPTR = 62"
  by (simp_all add: BITVEC_USIZE_def BITVEC_NELEM_def BITVEC_NBIT_def BITVEC_NINT_def BITVEC_MXHASH_def BITVEC_NPTR_def)

datatype bitvec = Bitvec (iSize: nat) (nSet: nat) (iDivisor: nat) (uni: bitvec_union)
  and bitvec_union = aBitmap "u8 list" | aHash "nat list" | apSub "bitvec option list"

fun next_alloc :: "bool list \<Rightarrow> bool \<times> bool list" where
  "next_alloc [] = (True, [])"
| "next_alloc (b # bs) = (b, bs)"

section \<open>Operations\<close>

text \<open>The zeroed union serves as an empty bit array or an empty hash table.\<close>

definition bitvec_new :: "nat \<Rightarrow> bitvec" where
  "bitvec_new n = Bitvec n 0 0 (if n \<le> BITVEC_NBIT then aBitmap (replicate BITVEC_NELEM 0) else aHash (replicate BITVEC_NINT 0))"

definition sqlite3BitvecCreate :: "nat \<Rightarrow> bool list \<Rightarrow> bitvec option \<times> bool list" where
  "sqlite3BitvecCreate n al = (let (b, al) = next_alloc al in (if b then Some (bitvec_new n) else None, al))"

text \<open>Following the chain of a hash table until the value or a free entry is found. The chain of a
  full table has no end; after as many steps as there are entries the result is \<open>None\<close>.\<close>

fun hash_probe :: "nat \<Rightarrow> nat list \<Rightarrow> nat \<Rightarrow> nat \<Rightarrow> nat option" where
  "hash_probe 0 a v h = None"
| "hash_probe (Suc n) a v h = do {
     x \<leftarrow> rd a h;
     if x = 0 \<or> x = v then Some h else hash_probe n a v (if h + 1 \<ge> BITVEC_NINT then 0 else h + 1)
   }"

lemma size_sub_mem [termination_simp]:
  assumes "Some q \<in> set ps"
  shows "size q < Suc (Suc (size_list (size_option size) ps))"
proof -
  have "size q < size_list (size_option size) ps" using assms by (rule size_list_estimation) simp
  then show ?thesis by simp
qed

lemma size_sub [termination_simp]:
  assumes "ps ! j = Some q" and "\<not> length ps \<le> j"
  shows "size q < Suc (Suc (size_list (size_option size) ps))"
  by (rule size_sub_mem) (use assms in \<open>metis linorder_not_le nth_mem\<close>)

fun bitvec_test :: "bitvec \<Rightarrow> nat \<Rightarrow> bool option" where
  "bitvec_test (Bitvec n k d (apSub ps)) i =
    (if d = 0 \<or> i div d \<ge> length ps then None
     else case ps ! (i div d) of None \<Rightarrow> Some False | Some q \<Rightarrow> bitvec_test q (i mod d))"
| "bitvec_test (Bitvec n k d (aBitmap bs)) i =
    (if d \<noteq> 0 \<or> n > BITVEC_NBIT then None
     else map_option (\<lambda>b. b AND push_bit (i mod 8) 1 \<noteq> 0) (rd bs (i div 8)))"
| "bitvec_test (Bitvec n k d (aHash a)) i =
    (if d \<noteq> 0 \<or> n \<le> BITVEC_NBIT then None
     else do {
       h \<leftarrow> hash_probe BITVEC_NINT a (i + 1) (BITVEC_HASH i);
       x \<leftarrow> rd a h;
       Some (x \<noteq> 0)
     })"

definition sqlite3BitvecTest :: "bitvec option \<Rightarrow> nat \<Rightarrow> bool option" where
  "sqlite3BitvecTest p i = (case p of None \<Rightarrow> Some False
    | Some p \<Rightarrow> if i > iSize p \<or> i = 0 then Some False else bitvec_test p (i - 1))"

definition bitmap_set :: "nat \<Rightarrow> u8 list \<Rightarrow> u8 list option" where
  "bitmap_set i bs = do { b \<leftarrow> rd bs (i div 8); wr bs (i div 8) (b OR push_bit (i mod 8) 1) }"

definition bitmap_clear :: "nat \<Rightarrow> u8 list \<Rightarrow> u8 list option" where
  "bitmap_clear i bs = do { b \<leftarrow> rd bs (i div 8); wr bs (i div 8) (b AND NOT (push_bit (i mod 8) 1)) }"

text \<open>The number of recursive calls: each of the at most four levels of sub-bitmaps takes two, one for
  rehashing and one for descending.\<close>

definition BITVEC_FUEL :: nat where
  "BITVEC_FUEL = 9"

text \<open>Setting bit \<open>i\<close>, counted from 0. The result holds the bitmap, the result code and the remaining
  outcomes of allocations. The recursive calls are the parameter \<open>self\<close> of the parts.\<close>

type_synonym bitvec_setter = "bitvec \<Rightarrow> nat \<Rightarrow> bool list \<Rightarrow> (bitvec \<times> int \<times> bool list) option"

primrec set_values :: "bitvec_setter \<Rightarrow> nat list \<Rightarrow> bitvec \<Rightarrow> int \<Rightarrow> bool list \<Rightarrow> (bitvec \<times> int \<times> bool list) option" where
  "set_values self [] p res al = Some (p, res, al)"
| "set_values self (v # vs) p res al =
    (if v = 0 then set_values self vs p res al
     else do {
       (p', res', al') \<leftarrow> self p (v - 1) al;
       set_values self vs p' (res OR res') al'
     })"

text \<open>Descending into the sub-bitmap that holds the bit, which is created when it is missing.\<close>

definition set_sub :: "bitvec_setter \<Rightarrow> nat \<Rightarrow> nat \<Rightarrow> nat \<Rightarrow> bitvec option list \<Rightarrow> bitvec_setter" where
  "set_sub self n k d ps p i al = do {
     sub \<leftarrow> rd ps (i div d);
     (case (case sub of Some q \<Rightarrow> (Some q, al) | None \<Rightarrow> sqlite3BitvecCreate d al) of
        (None, al') \<Rightarrow> Some (p, SQLITE_NOMEM, al')
      | (Some q, al') \<Rightarrow> do {
          (q', res, al'') \<leftarrow> self q (i mod d) al';
          Some (Bitvec n k d (apSub (ps[i div d := Some q'])), res, al'')
        })
   }"

text \<open>Replacing a full hash table by an array of sub-bitmaps.\<close>

definition set_rehash :: "bitvec_setter \<Rightarrow> nat \<Rightarrow> nat \<Rightarrow> nat list \<Rightarrow> bitvec_setter" where
  "set_rehash self n k a p i al =
    (case next_alloc al of
       (False, al') \<Rightarrow> Some (p, SQLITE_NOMEM, al')
     | (True, al') \<Rightarrow> do {
         (p', res, al'') \<leftarrow> self
           (Bitvec n k ((n + BITVEC_NPTR - 1) div BITVEC_NPTR) (apSub (replicate BITVEC_NPTR None))) i al';
         set_values self a p' res al''
       })"

definition set_hash :: "bitvec_setter \<Rightarrow> nat \<Rightarrow> nat \<Rightarrow> nat list \<Rightarrow> bitvec_setter" where
  "set_hash self n k a p i al = do {
     x0 \<leftarrow> rd a (BITVEC_HASH i);
     h \<leftarrow> hash_probe BITVEC_NINT a (i + 1) (BITVEC_HASH i);
     x \<leftarrow> rd a h;
     if x = i + 1 then Some (p, SQLITE_OK, al)
     else if x0 = 0 \<and> k < BITVEC_NINT - 1 \<or> k < BITVEC_MXHASH
     then Some (Bitvec n (k + 1) 0 (aHash (a[h := i + 1])), SQLITE_OK, al)
     else set_rehash self n k a p i al
   }"

primrec bitvec_set :: "nat \<Rightarrow> bitvec_setter" where
  "bitvec_set 0 p i al = None"
| "bitvec_set (Suc f) p i al =
    (case p of Bitvec n k d u \<Rightarrow>
       (case u of
          apSub ps \<Rightarrow> if n \<le> BITVEC_NBIT \<or> d = 0 then None else set_sub (bitvec_set f) n k d ps p i al
        | aBitmap bs \<Rightarrow> if n > BITVEC_NBIT then None
            else map_option (\<lambda>bs'. (Bitvec n k d (aBitmap bs'), SQLITE_OK, al)) (bitmap_set i bs)
        | aHash a \<Rightarrow> if n \<le> BITVEC_NBIT \<or> d \<noteq> 0 then None else set_hash (bitvec_set f) n k a p i al))"

definition sqlite3BitvecSet :: "bitvec option \<Rightarrow> nat \<Rightarrow> bool list \<Rightarrow> (bitvec option \<times> int \<times> bool list) option" where
  "sqlite3BitvecSet p i al = (case p of
     None \<Rightarrow> Some (None, SQLITE_OK, al)
   | Some p \<Rightarrow> if i = 0 \<or> i > iSize p then None
       else map_option (\<lambda>(p, res, al). (Some p, res, al)) (bitvec_set BITVEC_FUEL p (i - 1) al))"

text \<open>Clearing rebuilds a hash table from the values other than the cleared one.\<close>

fun hash_rebuild :: "nat \<Rightarrow> nat list \<Rightarrow> nat \<Rightarrow> nat list \<Rightarrow> (nat \<times> nat list) option" where
  "hash_rebuild i [] k a = Some (k, a)"
| "hash_rebuild i (v # vs) k a =
    (if v \<noteq> 0 \<and> v \<noteq> i + 1 then do {
       h \<leftarrow> hash_probe BITVEC_NINT a 0 (BITVEC_HASH (v - 1));
       a' \<leftarrow> wr a h v;
       hash_rebuild i vs (k + 1) a'
     }
     else hash_rebuild i vs k a)"

fun bitvec_clear :: "bitvec \<Rightarrow> nat \<Rightarrow> bitvec option" where
  "bitvec_clear (Bitvec n k d (apSub ps)) i =
    (if d = 0 \<or> i div d \<ge> length ps then None
     else case ps ! (i div d) of
         None \<Rightarrow> Some (Bitvec n k d (apSub ps))
       | Some q \<Rightarrow> map_option (\<lambda>q'. Bitvec n k d (apSub (ps[i div d := Some q']))) (bitvec_clear q (i mod d)))"
| "bitvec_clear (Bitvec n k d (aBitmap bs)) i =
    (if d \<noteq> 0 \<or> n > BITVEC_NBIT then None
     else map_option (\<lambda>bs'. Bitvec n k d (aBitmap bs')) (bitmap_clear i bs))"
| "bitvec_clear (Bitvec n k d (aHash a)) i =
    (if d \<noteq> 0 \<or> n \<le> BITVEC_NBIT then None
     else map_option (\<lambda>(k', a'). Bitvec n k' d (aHash a')) (hash_rebuild i a 0 (replicate BITVEC_NINT 0)))"

definition sqlite3BitvecClear :: "bitvec option \<Rightarrow> nat \<Rightarrow> bitvec option option" where
  "sqlite3BitvecClear p i = (case p of
     None \<Rightarrow> Some None
   | Some p \<Rightarrow> if i = 0 then None else map_option Some (bitvec_clear p (i - 1)))"

definition sqlite3BitvecSize :: "bitvec \<Rightarrow> nat" where
  "sqlite3BitvecSize p = iSize p"

section \<open>Hash tables with open addressing\<close>

definition hash_slot :: "nat \<Rightarrow> nat \<Rightarrow> nat" where
  "hash_slot h k = (h + k) mod 124"

definition hash_inv :: "nat list \<Rightarrow> bool" where
  "hash_inv a \<longleftrightarrow> length a = 124 \<and>
    (\<forall>v\<in>set a. v \<noteq> 0 \<longrightarrow> (\<exists>k. a ! hash_slot (v - 1) k = v \<and> (\<forall>j<k. a ! hash_slot (v - 1) j \<noteq> 0)))"

lemma hash_slot_less [simp]: "hash_slot h k < 124"
  by (simp add: hash_slot_def)

lemma hash_slot_Suc: "h < 124 \<Longrightarrow> hash_slot (if h + 1 \<ge> 124 then 0 else h + 1) k = hash_slot h (Suc k)"
proof (cases "h = 123")
  case True
  have "Suc (123 + k) = k + 124" by simp
  then have "Suc (123 + k) mod 124 = k mod 124" by (simp only: mod_add_self2)
  then show ?thesis using True by (simp add: hash_slot_def)
qed (simp add: hash_slot_def)

lemma hash_slot_mod: "hash_slot (i mod 124) k = hash_slot i k"
  by (simp add: hash_slot_def mod_add_left_eq)

lemma hash_probe_spec:
  assumes "length a = 124"
  shows "h < 124 \<Longrightarrow> k < n \<Longrightarrow> a ! hash_slot h k \<in> {0, v} \<Longrightarrow> \<forall>j<k. a ! hash_slot h j \<notin> {0, v} \<Longrightarrow>
    hash_probe n a v h = Some (hash_slot h k)"
proof (induction n arbitrary: h k)
  case (Suc n)
  have rd: "rd a h = Some (a ! h)" using Suc.prems(1) assms by (simp add: rd_def)
  have h0: "hash_slot h 0 = h" using Suc.prems(1) by (simp add: hash_slot_def)
  show ?case
  proof (cases k)
    case 0
    then show ?thesis using Suc.prems rd h0 by auto
  next
    case (Suc k')
    let ?h = "if h + 1 \<ge> 124 then 0 else h + 1"
    have "a ! h \<notin> {0, v}" using Suc.prems(4) h0 Suc by (metis zero_less_Suc)
    moreover have "hash_probe n a v ?h = Some (hash_slot ?h k')"
      by (rule Suc.IH) (use Suc.prems Suc in \<open>auto simp only: hash_slot_Suc\<close>, auto)
    ultimately show ?thesis using rd Suc hash_slot_Suc [OF Suc.prems(1)] by simp
  qed
qed simp

abbreviation used :: "nat list \<Rightarrow> nat" where
  "used a \<equiv> length (filter (\<lambda>v. v \<noteq> 0) a)"

lemma free_slot:
  assumes "length a = 124" and "used a < 124"
  obtains k where "k < 124" "a ! hash_slot h k = 0"
proof -
  have "\<exists>v\<in>set a. v = 0"
  proof (rule ccontr)
    assume "\<not> (\<exists>v\<in>set a. v = 0)"
    then have "\<forall>v\<in>set a. v \<noteq> 0" by metis
    then have "filter (\<lambda>v. v \<noteq> 0) a = a" by (rule filter_True)
    then show False using assms by simp
  qed
  then obtain z where z: "z < 124" "a ! z = 0" using assms(1) by (auto simp: in_set_conv_nth)
  let ?k = "(z + 124 - h mod 124) mod 124"
  have "hash_slot h ?k = (h mod 124 + (z + 124 - h mod 124)) mod 124"
    unfolding hash_slot_def mod_add_right_eq by (simp only: mod_add_left_eq)
  also have "h mod 124 + (z + 124 - h mod 124) = z + 124"
    using mod_less_divisor [of 124 h] by linarith
  finally have "hash_slot h ?k = z" using z(1) by simp
  then show thesis using that [of ?k] z(2) by simp
qed

lemma hash_probe_ok:
  assumes "length a = 124" and "used a < 124"
  obtains k where "hash_probe 124 a v (h mod 124) = Some (hash_slot h k)" "a ! hash_slot h k \<in> {0, v}"
    "\<forall>j<k. a ! hash_slot h j \<notin> {0, v}"
proof -
  let ?P = "\<lambda>k. k < 124 \<and> a ! hash_slot h k \<in> {0, v}"
  obtain k0 where "?P k0" using free_slot [OF assms, of h] by auto
  then obtain k where k: "?P k" and least: "\<forall>j<k. \<not> ?P j"
    using exists_least_iff [of ?P] by blast
  have "\<forall>j<k. a ! hash_slot h j \<notin> {0, v}" using least k by auto
  moreover from this have "hash_probe 124 a v (h mod 124) = Some (hash_slot (h mod 124) k)"
    using k by (intro hash_probe_spec [OF assms(1)]) (simp_all add: hash_slot_mod)
  ultimately show thesis using that k by (simp only: hash_slot_mod)
qed

lemma hash_member:
  assumes "hash_inv a" and "a ! hash_slot i k \<in> {0, i + 1}" and "\<forall>j<k. a ! hash_slot i j \<notin> {0, i + 1}"
  shows "i + 1 \<in> set a \<longleftrightarrow> a ! hash_slot i k = i + 1"
proof
  assume "i + 1 \<in> set a"
  then obtain k' where "a ! hash_slot i k' = i + 1" "\<forall>j<k'. a ! hash_slot i j \<noteq> 0"
    using assms(1) unfolding hash_inv_def by (metis Suc_eq_plus1 diff_Suc_1 nat.distinct(1))
  then show "a ! hash_slot i k = i + 1" using assms(2,3) by (metis insert_iff linorder_neqE_nat singletonD)
next
  assume "a ! hash_slot i k = i + 1"
  then show "i + 1 \<in> set a" using assms(1) hash_slot_less unfolding hash_inv_def by (metis nth_mem)
qed

lemma split_at: "h < length a \<Longrightarrow> a = take h a @ a ! h # drop (Suc h) a"
  by (simp add: id_take_nth_drop)

lemma used_update: "h < length a \<Longrightarrow> a ! h = 0 \<Longrightarrow> v \<noteq> 0 \<Longrightarrow> used (a[h := v]) = Suc (used a)"
  using arg_cong [OF split_at [of h a], of used] by (simp add: upd_conv_take_nth_drop)

lemma set_update_0: "h < length a \<Longrightarrow> a ! h = 0 \<Longrightarrow> v \<noteq> 0 \<Longrightarrow> set (a[h := v]) - {0} = insert v (set a - {0})"
  using arg_cong [OF split_at [of h a], of set] by (simp add: upd_conv_take_nth_drop) blast

lemma hash_insert:
  assumes "hash_inv a" and "v \<noteq> 0" and "a ! hash_slot (v - 1) k = 0" and "\<forall>j<k. a ! hash_slot (v - 1) j \<noteq> 0"
  shows "hash_inv (a[hash_slot (v - 1) k := v])"
    "set (a[hash_slot (v - 1) k := v]) - {0} = insert v (set a - {0})"
    "used (a[hash_slot (v - 1) k := v]) = Suc (used a)"
proof -
  let ?h = "hash_slot (v - 1) k"
  have l: "length a = 124" using assms(1) by (simp add: hash_inv_def)
  then show s: "set (a[?h := v]) - {0} = insert v (set a - {0})" and "used (a[?h := v]) = Suc (used a)"
    using set_update_0 [of ?h a v] used_update [of ?h a v] assms(2,3) by simp_all
  have grow: "a ! x \<noteq> 0 \<Longrightarrow> a[?h := v] ! x = a ! x" for x using assms(3) by (cases "x = ?h") auto
  have nz: "a ! x \<noteq> 0 \<Longrightarrow> a[?h := v] ! x \<noteq> 0" for x using grow by simp
  have "\<exists>k. a[?h := v] ! hash_slot (w - 1) k = w \<and> (\<forall>j<k. a[?h := v] ! hash_slot (w - 1) j \<noteq> 0)"
    if w: "w \<in> set (a[?h := v])" "w \<noteq> 0" for w
  proof (cases "w = v")
    case True
    then show ?thesis using assms(4) nz l by (intro exI [of _ k]) simp
  next
    case False
    then have "w \<in> set a" using s w by auto
    then obtain k' where "a ! hash_slot (w - 1) k' = w" "\<forall>j<k'. a ! hash_slot (w - 1) j \<noteq> 0"
      using assms(1) w(2) by (auto simp: hash_inv_def)
    then show ?thesis using grow nz w(2) by (intro exI [of _ k']) auto
  qed
  then show "hash_inv (a[?h := v])" using l by (auto simp: hash_inv_def)
qed

lemma hash_inv_empty: "hash_inv (replicate 124 0)"
  by (auto simp: hash_inv_def)

text \<open>Rebuilding a table.\<close>

lemma hash_rebuild_spec:
  "hash_inv a \<Longrightarrow> used a + used vs < 124 \<Longrightarrow> \<exists>a'. hash_rebuild i vs (used a) a = Some (used a', a') \<and> hash_inv a' \<and>
    used a' < 124 \<and> set a' - {0} = set a \<union> (set vs - {i + 1}) - {0}"
proof (induction vs arbitrary: a)
  case (Cons v vs)
  show ?case
  proof (cases "v \<noteq> 0 \<and> v \<noteq> i + 1")
    case False
    then have "set (v # vs) - {i + 1} - {0} = set vs - {i + 1} - {0}" "used (v # vs) \<le> used vs + 1" by auto
    moreover have "hash_rebuild i (v # vs) (used a) a = hash_rebuild i vs (used a) a" using False by auto
    moreover have "used a + used vs < 124" using Cons.prems(2) by (simp split: if_splits)
    ultimately show ?thesis using Cons.IH [OF Cons.prems(1)] by (simp only: Un_Diff)
  next
    case True
    have l: "length a = 124" "used a < 124" using Cons.prems by (auto simp: hash_inv_def)
    obtain k where k: "hash_probe 124 a 0 ((v - 1) mod 124) = Some (hash_slot (v - 1) k)" "a ! hash_slot (v - 1) k = 0"
        "\<forall>j<k. a ! hash_slot (v - 1) j \<noteq> 0"
      using hash_probe_ok [OF l, of 0 "v - 1"] by auto
    let ?a = "a[hash_slot (v - 1) k := v]"
    note ins = hash_insert [OF Cons.prems(1) _ k(2,3)]
    have "hash_rebuild i (v # vs) (used a) a = hash_rebuild i vs (used ?a) ?a"
      using True k(1) l(1) ins(3) by (simp add: BITVEC_HASH_def wr_def)
    moreover have "used ?a + used vs < 124" using Cons.prems(2) True ins(3) by simp
    moreover have "set ?a \<union> (set vs - {i + 1}) - {0} = set a \<union> (set (v # vs) - {i + 1}) - {0}"
      using ins(2) True by (simp add: Un_Diff insert_Diff_if)
    ultimately show ?thesis using Cons.IH [OF ins(1)] True by simp
  qed
qed auto

section \<open>The invariant and the set of bits\<close>

text \<open>Bits are counted from 0 below the interface.\<close>

fun holds :: "bitvec \<Rightarrow> nat \<Rightarrow> bool" where
  "holds (Bitvec n k d (apSub ps)) i \<longleftrightarrow>
    (if length ps \<le> i div d then False else case ps ! (i div d) of None \<Rightarrow> False | Some q \<Rightarrow> holds q (i mod d))"
| "holds (Bitvec n k d (aBitmap bs)) i \<longleftrightarrow> i < 3968 \<and> bit (bs ! (i div 8)) (i mod 8)"
| "holds (Bitvec n k d (aHash a)) i \<longleftrightarrow> i + 1 \<in> set a"

fun binv :: "bitvec \<Rightarrow> bool" where
  "binv (Bitvec n k d (apSub ps)) \<longleftrightarrow> n > 3968 \<and> d = (n + 61) div 62 \<and> length ps = 62 \<and>
    (\<forall>sub\<in>set ps. case sub of None \<Rightarrow> True | Some q \<Rightarrow> iSize q = d \<and> binv q)"
| "binv (Bitvec n k d (aBitmap bs)) \<longleftrightarrow> n \<le> 3968 \<and> d = 0 \<and> length bs = 496"
| "binv (Bitvec n k d (aHash a)) \<longleftrightarrow> n > 3968 \<and> d = 0 \<and> hash_inv a \<and> k = used a \<and> k < 124 \<and> (\<forall>v\<in>set a. v \<le> n)"

lemma binv_new: "binv (bitvec_new n)" and iSize_new: "iSize (bitvec_new n) = n" and holds_new: "\<not> holds (bitvec_new n) i"
  by (simp_all add: bitvec_new_def hash_inv_empty Ball_def)

lemma bit_set_clear:
  assumes "j < 8" and "k < 8"
  shows "bit (b OR push_bit j 1 :: u8) k \<longleftrightarrow> k = j \<or> bit b k"
    "bit (b AND NOT (push_bit j 1) :: u8) k \<longleftrightarrow> k \<noteq> j \<and> bit b k"
  using assms by (auto simp: bit_simps)

lemma index_eq: "(x :: nat) = i \<longleftrightarrow> x div d = i div d \<and> x mod d = i mod d"
  by (metis div_mult_mod_eq)

section \<open>Testing\<close>

lemma bitvec_test_spec: "binv p \<Longrightarrow> i < iSize p \<Longrightarrow> bitvec_test p i = Some (holds p i)"
proof (induction p i rule: bitvec_test.induct)
  case (1 n k d ps i)
  have d: "0 < d" "i div d < 62" "length ps = 62"
    using 1(2,3) by (auto simp: div_less_iff_less_mult)
  show ?case
  proof (cases "ps ! (i div d)")
    case (Some q)
    then have "Some q \<in> set ps" using d by (metis nth_mem)
    with 1(2) have "binv q" "iSize q = d" by (auto split: option.splits)
    then show ?thesis using 1(1) Some d by simp
  qed (use d in simp)
next
  case (2 n k d bs i)
  then have "i div 8 < 496" by (intro less_mult_imp_div_less) simp
  with 2 show ?case by (simp add: rd_def and_exp_eq_0_iff_not_bit)
next
  case (3 n k d a i)
  then have l: "length a = 124" "used a < 124" by (auto simp: hash_inv_def)
  obtain h where h: "hash_probe 124 a (i + 1) (i mod 124) = Some (hash_slot i h)" "a ! hash_slot i h \<in> {0, i + 1}"
      "\<forall>j<h. a ! hash_slot i j \<notin> {0, i + 1}"
    using hash_probe_ok [OF l, of "i + 1" i] by blast
  have "i + 1 \<in> set a \<longleftrightarrow> a ! hash_slot i h = i + 1" using 3 h by (intro hash_member) auto
  then show ?case using 3 h l(1) by (auto simp: BITVEC_HASH_def rd_def)
qed

section \<open>Setting\<close>

definition set_ok :: "bitvec \<Rightarrow> nat \<Rightarrow> bool list \<Rightarrow> (bitvec \<times> int \<times> bool list) option \<Rightarrow> bool" where
  "set_ok p i al r \<longleftrightarrow> (\<exists>p' res al'. r = Some (p', res, al') \<and> binv p' \<and> iSize p' = iSize p \<and>
     res \<in> {SQLITE_OK, SQLITE_NOMEM} \<and> (\<forall>x. holds p' x \<longrightarrow> x = i \<or> holds p x) \<and>
     (res = SQLITE_OK \<longrightarrow> (\<forall>x. x = i \<or> holds p x \<longrightarrow> holds p' x)) \<and>
     (False \<notin> set al \<longrightarrow> res = SQLITE_OK \<and> False \<notin> set al'))"

lemma set_okI:
  assumes "binv p'" and "iSize p' = iSize p" and "\<And>x. holds p' x \<longleftrightarrow> x = i \<or> holds p x" and "set al' \<subseteq> set al"
  shows "set_ok p i al (Some (p', SQLITE_OK, al'))"
  using assms by (auto simp: set_ok_def)

lemma set_ok_nomem:
  assumes "binv p" and "False \<in> set al"
  shows "set_ok p i al (Some (p, SQLITE_NOMEM, al'))"
  using assms by (auto simp: set_ok_def SQLITE_OK_def SQLITE_NOMEM_def)

lemma next_alloc_set: "next_alloc al = (b, al') \<Longrightarrow> set al' \<subseteq> set al" "next_alloc al = (False, al') \<Longrightarrow> False \<in> set al"
  by (cases al; auto)+

lemma Create_cases:
  obtains al' where "sqlite3BitvecCreate n al = (None, al')" "False \<in> set al"
  | al' where "sqlite3BitvecCreate n al = (Some (bitvec_new n), al')" "set al' \<subseteq> set al"
proof (cases "next_alloc al")
  case (Pair b al')
  then show thesis using that next_alloc_set [of al] by (cases b) (auto simp: sqlite3BitvecCreate_def)
qed

lemma set_bitmap_ok:
  assumes "binv (Bitvec n k d (aBitmap bs))" and "i < n"
  shows "set_ok (Bitvec n k d (aBitmap bs)) i al (bitvec_set (Suc f) (Bitvec n k d (aBitmap bs)) i al)"
proof -
  let ?bs = "bs[i div 8 := bs ! (i div 8) OR push_bit (i mod 8) 1]"
  have l: "length bs = 496" "i < 3968" "n \<le> 3968" using assms by auto
  then have "bitmap_set i bs = Some ?bs" by (simp add: bitmap_set_def rd_def wr_def)
  then have "bitvec_set (Suc f) (Bitvec n k d (aBitmap bs)) i al = Some (Bitvec n k d (aBitmap ?bs), SQLITE_OK, al)"
    using l by simp
  moreover have "holds (Bitvec n k d (aBitmap ?bs)) x \<longleftrightarrow> x = i \<or> holds (Bitvec n k d (aBitmap bs)) x" for x
    using l index_eq [of x i 8] bit_set_clear(1) [of "i mod 8" "x mod 8" "bs ! (i div 8)"]
    by (cases "x div 8 = i div 8") auto
  ultimately show ?thesis using assms by (simp del: holds.simps bitvec_set.simps add: set_okI)
qed

lemma set_sub_ok:
  assumes inv: "binv (Bitvec n k d (apSub ps))" and i: "i < n"
    and self: "\<And>q i al. binv q \<Longrightarrow> iSize q = d \<Longrightarrow> i < d \<Longrightarrow> set_ok q i al (self q i al)"
  shows "set_ok (Bitvec n k d (apSub ps)) i al (set_sub self n k d ps (Bitvec n k d (apSub ps)) i al) \<and>
    (\<forall>p' res al'. set_sub self n k d ps (Bitvec n k d (apSub ps)) i al = Some (p', res, al') \<longrightarrow>
      (\<exists>ps'. p' = Bitvec n k d (apSub ps')))"
proof -
  let ?p = "Bitvec n k d (apSub ps)"
  have d: "0 < d" "i div d < 62" "length ps = 62" "i mod d < d"
    using inv i by (auto simp: div_less_iff_less_mult)
  have rd: "rd ps (i div d) = Some (ps ! (i div d))" using d by (simp add: rd_def)
  have go: "set_ok ?p i al (self q (i mod d) al' \<bind> (\<lambda>(q', res, al''). Some (Bitvec n k d (apSub (ps[i div d := Some q'])), res, al'')))"
    if q: "binv q" "iSize q = d" "set al' \<subseteq> set al" "\<And>x. holds q x \<longleftrightarrow> (case ps ! (i div d) of None \<Rightarrow> False | Some r \<Rightarrow> holds r x)" for q al'
  proof -
    obtain q' res al'' where r: "self q (i mod d) al' = Some (q', res, al'')" "binv q'" "iSize q' = d"
        "res \<in> {SQLITE_OK, SQLITE_NOMEM}" "\<forall>x. holds q' x \<longrightarrow> x = i mod d \<or> holds q x"
        "res = SQLITE_OK \<longrightarrow> (\<forall>x. x = i mod d \<or> holds q x \<longrightarrow> holds q' x)"
        "False \<notin> set al' \<longrightarrow> res = SQLITE_OK \<and> False \<notin> set al''"
      using self [OF q(1,2) d(4), of al'] q(2) by (auto simp: set_ok_def)
    let ?p' = "Bitvec n k d (apSub (ps[i div d := Some q']))"
    have h: "holds ?p' x \<longleftrightarrow> (if x div d = i div d then holds q' (x mod d) else holds ?p x)" for x
      using d by auto
    have hp: "holds ?p x \<longleftrightarrow> holds q (x mod d)" if "x div d = i div d" for x
      using that d q(4) by (auto split: option.splits)
    have "binv ?p'" using inv r(2,3) by (auto dest!: set_update_subset_insert [THEN subsetD])
    moreover have "holds ?p' x \<longrightarrow> x = i \<or> holds ?p x" for x
      using h [of x] hp [of x] r(5) index_eq [of x i d] by presburger
    moreover have "res = SQLITE_OK \<longrightarrow> x = i \<or> holds ?p x \<longrightarrow> holds ?p' x" for x
      using h [of x] hp [of x] r(6) index_eq [of x i d] by metis
    ultimately show ?thesis
      using r(1,4,7) q(3) by (auto simp: set_ok_def simp del: holds.simps binv.simps)
  qed
  have new: "set_ok ?p i al (case sqlite3BitvecCreate d al of (None, al') \<Rightarrow> Some (?p, SQLITE_NOMEM, al')
      | (Some q, al') \<Rightarrow> self q (i mod d) al' \<bind> (\<lambda>(q', res, al''). Some (Bitvec n k d (apSub (ps[i div d := Some q'])), res, al'')))"
    if "ps ! (i div d) = None"
    using that by (cases rule: Create_cases [of d al]) (auto intro!: set_ok_nomem [OF inv] go simp: binv_new iSize_new holds_new)
  have old: "set_ok ?p i al (self q (i mod d) al \<bind> (\<lambda>(q', res, al''). Some (Bitvec n k d (apSub (ps[i div d := Some q'])), res, al'')))"
    if "ps ! (i div d) = Some q" for q
  proof -
    have "Some q \<in> set ps" using that d by (metis nth_mem)
    then have "binv q" "iSize q = d" using inv by auto
    then show ?thesis using that by (intro go) auto
  qed
  have "set_ok ?p i al (set_sub self n k d ps ?p i al)"
    unfolding set_sub_def rd bind.bind_lunit using new old by (cases "ps ! (i div d)") simp_all
  moreover have "\<exists>ps'. p' = Bitvec n k d (apSub ps')" if "set_sub self n k d ps ?p i al = Some (p', res, al')" for p' res al'
    using that unfolding set_sub_def rd bind.bind_lunit
    by (auto split: option.splits prod.splits bind_splits)
  ultimately show ?thesis by blast
qed

text \<open>Setters that work on the array form of one size.\<close>

definition sub_setter :: "bitvec_setter \<Rightarrow> nat \<Rightarrow> nat \<Rightarrow> nat \<Rightarrow> bool" where
  "sub_setter self n k d \<longleftrightarrow> (\<forall>ps i al. binv (Bitvec n k d (apSub ps)) \<longrightarrow> i < n \<longrightarrow>
     set_ok (Bitvec n k d (apSub ps)) i al (self (Bitvec n k d (apSub ps)) i al) \<and>
     (\<forall>p' res al'. self (Bitvec n k d (apSub ps)) i al = Some (p', res, al') \<longrightarrow> (\<exists>ps'. p' = Bitvec n k d (apSub ps'))))"

lemma sub_setterD:
  assumes "sub_setter self n k d" and "binv (Bitvec n k d (apSub ps))" and "i < n"
  obtains ps' res al' where "self (Bitvec n k d (apSub ps)) i al = Some (Bitvec n k d (apSub ps'), res, al')"
    "binv (Bitvec n k d (apSub ps'))" "res \<in> {SQLITE_OK, SQLITE_NOMEM}"
    "\<forall>x. holds (Bitvec n k d (apSub ps')) x \<longrightarrow> x = i \<or> holds (Bitvec n k d (apSub ps)) x"
    "res = SQLITE_OK \<longrightarrow> (\<forall>x. x = i \<or> holds (Bitvec n k d (apSub ps)) x \<longrightarrow> holds (Bitvec n k d (apSub ps')) x)"
    "False \<notin> set al \<longrightarrow> res = SQLITE_OK \<and> False \<notin> set al'"
proof -
  let ?p = "Bitvec n k d (apSub ps)"
  have ok: "set_ok ?p i al (self ?p i al)"
      and sub: "\<And>p' res al'. self ?p i al = Some (p', res, al') \<Longrightarrow> \<exists>ps'. p' = Bitvec n k d (apSub ps')"
    using assms unfolding sub_setter_def by blast+
  from ok obtain p' res al' where r: "self ?p i al = Some (p', res, al')" "binv p'" "res \<in> {SQLITE_OK, SQLITE_NOMEM}"
      "\<forall>x. holds p' x \<longrightarrow> x = i \<or> holds ?p x" "res = SQLITE_OK \<longrightarrow> (\<forall>x. x = i \<or> holds ?p x \<longrightarrow> holds p' x)"
      "False \<notin> set al \<longrightarrow> res = SQLITE_OK \<and> False \<notin> set al'"
    unfolding set_ok_def by metis
  moreover obtain ps' where "p' = Bitvec n k d (apSub ps')" using sub [OF r(1)] by blast
  ultimately show thesis using that by metis
qed

lemma res_OR: "res \<in> {SQLITE_OK, SQLITE_NOMEM} \<Longrightarrow> res' \<in> {SQLITE_OK, SQLITE_NOMEM} \<Longrightarrow>
  res OR res' \<in> {SQLITE_OK, SQLITE_NOMEM} \<and> (res OR res' = SQLITE_OK \<longleftrightarrow> res = SQLITE_OK \<and> res' = SQLITE_OK)"
  by (auto simp: SQLITE_OK_def SQLITE_NOMEM_def)

lemma set_values_ok:
  assumes "sub_setter self n k d"
  shows "binv (Bitvec n k d (apSub ps)) \<Longrightarrow> \<forall>v\<in>set vs. v \<le> n \<Longrightarrow> res \<in> {SQLITE_OK, SQLITE_NOMEM} \<Longrightarrow>
    \<exists>ps' res' al'. set_values self vs (Bitvec n k d (apSub ps)) res al = Some (Bitvec n k d (apSub ps'), res', al') \<and>
      binv (Bitvec n k d (apSub ps')) \<and> res' \<in> {SQLITE_OK, SQLITE_NOMEM} \<and>
      (\<forall>x. holds (Bitvec n k d (apSub ps')) x \<longrightarrow> x + 1 \<in> set vs \<or> holds (Bitvec n k d (apSub ps)) x) \<and>
      (res' = SQLITE_OK \<longrightarrow> res = SQLITE_OK \<and>
        (\<forall>x. x + 1 \<in> set vs \<or> holds (Bitvec n k d (apSub ps)) x \<longrightarrow> holds (Bitvec n k d (apSub ps')) x)) \<and>
      (False \<notin> set al \<longrightarrow> (res = SQLITE_OK \<longrightarrow> res' = SQLITE_OK) \<and> False \<notin> set al')"
proof (induction vs arbitrary: ps res al)
  case (Cons v vs)
  show ?case
  proof (cases "v = 0")
    case True
    then show ?thesis using Cons.IH [OF Cons.prems(1) _ Cons.prems(3), of al] Cons.prems(2) by simp
  next
    case False
    then have "v - 1 < n" and v: "x + 1 = v \<longleftrightarrow> x = v - 1" for x using Cons.prems(2) by auto
    then obtain ps1 res1 al1 where 1: "self (Bitvec n k d (apSub ps)) (v - 1) al = Some (Bitvec n k d (apSub ps1), res1, al1)"
        "binv (Bitvec n k d (apSub ps1))" "res1 \<in> {SQLITE_OK, SQLITE_NOMEM}"
        "\<forall>x. holds (Bitvec n k d (apSub ps1)) x \<longrightarrow> x = v - 1 \<or> holds (Bitvec n k d (apSub ps)) x"
        "res1 = SQLITE_OK \<longrightarrow> (\<forall>x. x = v - 1 \<or> holds (Bitvec n k d (apSub ps)) x \<longrightarrow> holds (Bitvec n k d (apSub ps1)) x)"
        "False \<notin> set al \<longrightarrow> res1 = SQLITE_OK \<and> False \<notin> set al1"
      using sub_setterD [OF assms Cons.prems(1), of "v - 1" al] by metis
    note res = res_OR [OF Cons.prems(3) 1(3)]
    have step: "set_values self (v # vs) (Bitvec n k d (apSub ps)) res al =
        set_values self vs (Bitvec n k d (apSub ps1)) (res OR res1) al1"
      using False 1(1) by simp
    have "\<forall>v\<in>set vs. v \<le> n" using Cons.prems(2) by simp
    then obtain ps' res' al' where 2: "set_values self vs (Bitvec n k d (apSub ps1)) (res OR res1) al1 = Some (Bitvec n k d (apSub ps'), res', al')"
        "binv (Bitvec n k d (apSub ps'))" "res' \<in> {SQLITE_OK, SQLITE_NOMEM}"
        "\<forall>x. holds (Bitvec n k d (apSub ps')) x \<longrightarrow> x + 1 \<in> set vs \<or> holds (Bitvec n k d (apSub ps1)) x"
        "res' = SQLITE_OK \<longrightarrow> res OR res1 = SQLITE_OK \<and>
          (\<forall>x. x + 1 \<in> set vs \<or> holds (Bitvec n k d (apSub ps1)) x \<longrightarrow> holds (Bitvec n k d (apSub ps')) x)"
        "False \<notin> set al1 \<longrightarrow> (res OR res1 = SQLITE_OK \<longrightarrow> res' = SQLITE_OK) \<and> False \<notin> set al'"
      using Cons.IH [OF 1(2) _ res [THEN conjunct1], of al1] by metis
    have mem: "x + 1 \<in> set (v # vs) \<longleftrightarrow> x = v - 1 \<or> x + 1 \<in> set vs" for x using v by auto
    show ?thesis
      unfolding step 2(1) mem using 1(4-6) 2(2-6) res by blast
  qed
qed (simp del: holds.simps binv.simps)

lemma set_rehash_ok:
  assumes inv: "binv (Bitvec n k 0 (aHash a))" and i: "i < n"
    and self: "sub_setter self n k ((n + 61) div 62)"
  shows "set_ok (Bitvec n k 0 (aHash a)) i al (set_rehash self n k a (Bitvec n k 0 (aHash a)) i al)"
proof (cases "next_alloc al")
  case (Pair b al0)
  let ?p = "Bitvec n k 0 (aHash a)" and ?d = "(n + 61) div 62"
  let ?s = "\<lambda>ps. Bitvec n k ?d (apSub ps)"
  have n: "n > 3968" "\<forall>v\<in>set a. v \<le> n" using inv by auto
  show ?thesis
  proof (cases b)
    case False
    then show ?thesis using Pair next_alloc_set(2) [of al al0] by (simp add: set_rehash_def set_ok_nomem [OF inv])
  next
    case True
    have "binv (?s (replicate 62 None))" and empty: "\<not> holds (?s (replicate 62 None)) x" for x
      using n by (auto split: option.splits)
    then obtain ps1 res1 al1 where 1: "self (?s (replicate 62 None)) i al0 = Some (?s ps1, res1, al1)"
        "binv (?s ps1)" "res1 \<in> {SQLITE_OK, SQLITE_NOMEM}" "\<forall>x. holds (?s ps1) x \<longrightarrow> x = i"
        "res1 = SQLITE_OK \<longrightarrow> holds (?s ps1) i" "False \<notin> set al0 \<longrightarrow> res1 = SQLITE_OK \<and> False \<notin> set al1"
      using sub_setterD [OF self _ i, of "replicate 62 None" al0] by metis
    obtain ps' res' al' where 2: "set_values self a (?s ps1) res1 al1 = Some (?s ps', res', al')"
        "binv (?s ps')" "res' \<in> {SQLITE_OK, SQLITE_NOMEM}"
        "\<forall>x. holds (?s ps') x \<longrightarrow> x + 1 \<in> set a \<or> holds (?s ps1) x"
        "res' = SQLITE_OK \<longrightarrow> res1 = SQLITE_OK \<and> (\<forall>x. x + 1 \<in> set a \<or> holds (?s ps1) x \<longrightarrow> holds (?s ps') x)"
        "False \<notin> set al1 \<longrightarrow> (res1 = SQLITE_OK \<longrightarrow> res' = SQLITE_OK) \<and> False \<notin> set al'"
      using set_values_ok [OF self 1(2) n(2) 1(3), of al1] by metis
    have h: "holds ?p x \<longleftrightarrow> x + 1 \<in> set a" for x by simp
    have "set_rehash self n k a ?p i al = Some (?s ps', res', al')"
      using Pair True 1(1) 2(1) by (simp add: set_rehash_def add.commute)
    moreover have "False \<notin> set al \<longrightarrow> False \<notin> set al0" using next_alloc_set(1) [OF Pair] by blast
    moreover have "iSize (?s ps') = n" by simp
    ultimately show ?thesis
      unfolding set_ok_def h bitvec.sel(1) [of n k 0] using 1(3-6) 2(2-6) by blast
  qed
qed

lemma set_hash_ok:
  assumes inv: "binv (Bitvec n k 0 (aHash a))" and i: "i < n" and self: "sub_setter self n k ((n + 61) div 62)"
  shows "set_ok (Bitvec n k 0 (aHash a)) i al (set_hash self n k a (Bitvec n k 0 (aHash a)) i al)"
proof -
  let ?p = "Bitvec n k 0 (aHash a)"
  have a: "length a = 124" "used a < 124" "hash_inv a" "k = used a" "n > 3968" "\<forall>v\<in>set a. v \<le> n"
    using inv by (auto simp: hash_inv_def)
  obtain h where h: "hash_probe 124 a (i + 1) (i mod 124) = Some (hash_slot i h)" "a ! hash_slot i h \<in> {0, i + 1}"
      "\<forall>j<h. a ! hash_slot i j \<notin> {0, i + 1}"
    using hash_probe_ok [OF a(1,2), of "i + 1" i] by blast
  have mem: "i + 1 \<in> set a \<longleftrightarrow> a ! hash_slot i h = i + 1" using a(3) h(2,3) by (rule hash_member)
  let ?a = "a[hash_slot i h := i + 1]"
  have rd: "rd a (i mod 124) = Some (a ! (i mod 124))" "rd a (hash_slot i h) = Some (a ! hash_slot i h)"
    using a(1) by (simp_all add: rd_def)
  consider (found) "a ! hash_slot i h = i + 1"
    | (add) "a ! hash_slot i h = 0" "a ! (i mod 124) = 0 \<and> k < 123 \<or> k < 62"
    | (full) "a ! hash_slot i h = 0" "\<not> (a ! (i mod 124) = 0 \<and> k < 123 \<or> k < 62)"
    using h(2) by fast
  then show ?thesis
  proof cases
    case found
    then have "set_hash self n k a ?p i al = Some (?p, SQLITE_OK, al)"
      using h(1) rd by (simp add: set_hash_def BITVEC_HASH_def)
    then show ?thesis using inv found mem by (auto intro!: set_okI)
  next
    case add
    then have r: "set_hash self n k a ?p i al = Some (Bitvec n (k + 1) 0 (aHash ?a), SQLITE_OK, al)"
      using h(1) rd by (simp add: set_hash_def BITVEC_HASH_def)
    note ins = hash_insert [OF a(3), of "i + 1" h, simplified]
    have ins': "hash_inv ?a" "set ?a - {0} = insert (i + 1) (set a - {0})" "used ?a = Suc (used a)"
      using ins add(1) h(3) by auto
    have mem': "v \<in> set ?a \<longleftrightarrow> v = i + 1 \<or> v \<in> set a" if "v \<noteq> 0" for v
      using ins'(2) that by (metis DiffD1 DiffI insert_iff singletonD)
    then have "\<forall>v\<in>set ?a. v \<le> n" using a(6) i by (metis Suc_eq_plus1 Suc_leI zero_le)
    then have "binv (Bitvec n (k + 1) 0 (aHash ?a))" using ins' a add(2) by auto
    then show ?thesis unfolding r using mem' [of "_ + 1"] by (intro set_okI) auto
  next
    case full
    then have "set_hash self n k a ?p i al = set_rehash self n k a ?p i al"
      using h(1) rd by (auto simp: set_hash_def BITVEC_HASH_def)
    then show ?thesis using set_rehash_ok [OF inv i self] by simp
  qed
qed

lemma bitvec_set_ok:
  "binv p \<Longrightarrow> i < iSize p \<Longrightarrow> iSize p \<le> 62 ^ j * 3968 \<Longrightarrow> 2 * j < f \<Longrightarrow> set_ok p i al (bitvec_set f p i al)"
proof (induction j arbitrary: p i f al)
  case 0
  obtain n k d u where p: "p = Bitvec n k d u" by (cases p)
  obtain f' where f: "f = Suc f'" using 0 by (cases f) auto
  obtain bs where "u = aBitmap bs" using 0 p by (cases u) auto
  then show ?case using set_bitmap_ok 0 p f by simp
next
  case (Suc j)
  obtain n k d u where p: "p = Bitvec n k d u" by (cases p)
  obtain f1 f2 where f: "f = Suc f1" "f1 = Suc f2" "2 * j < f2" "2 * j < f1" using Suc.prems(4) by (cases f; cases "f - 1") auto
  have le: "(n + 61) div 62 \<le> 62 ^ j * 3968" using Suc.prems(3) p by simp
  have IH: "set_ok q i al (bitvec_set g q i al)" if "binv q" "iSize q = (n + 61) div 62" "i < (n + 61) div 62" "2 * j < g" for g q i al
    using Suc.IH [of q i g al] that le by simp
  have sub: "set_ok (Bitvec n k d (apSub ps)) i al (bitvec_set (Suc g) (Bitvec n k d (apSub ps)) i al) \<and>
      (\<forall>p' res al'. bitvec_set (Suc g) (Bitvec n k d (apSub ps)) i al = Some (p', res, al') \<longrightarrow> (\<exists>ps'. p' = Bitvec n k d (apSub ps')))"
    if "binv (Bitvec n k d (apSub ps))" "i < n" "2 * j < g" for d ps i al g
  proof -
    have "n > 3968" "d = (n + 61) div 62" "d \<noteq> 0" using that(1) by auto
    then show ?thesis using set_sub_ok [OF that(1,2), of "bitvec_set g" al] IH [OF _ _ _ that(3)] by simp
  qed
  show ?case
  proof (cases u)
    case (aBitmap bs)
    then show ?thesis using set_bitmap_ok Suc.prems p f(1) by simp
  next
    case (apSub ps)
    then have "binv (Bitvec n k d (apSub ps))" "i < n" using Suc.prems(1,2) p by (simp_all del: binv.simps)
    then show ?thesis unfolding p apSub f(1) using sub [OF _ _ f(4)] by blast
  next
    case (aHash a)
    then have "sub_setter (bitvec_set f1) n k ((n + 61) div 62)"
      unfolding sub_setter_def f(2) using sub [OF _ _ f(3)] by blast
    then show ?thesis using set_hash_ok [of n k a i "bitvec_set f1" al] Suc.prems(1,2) aHash p f(1) by simp
  qed
qed

section \<open>Clearing\<close>

lemma bitvec_clear_ok:
  "binv p \<Longrightarrow> i < iSize p \<Longrightarrow> \<exists>p'. bitvec_clear p i = Some p' \<and> binv p' \<and> iSize p' = iSize p \<and>
    (\<forall>x. holds p' x \<longleftrightarrow> x \<noteq> i \<and> holds p x)"
proof (induction p i rule: bitvec_clear.induct)
  case (1 n k d ps i)
  let ?p = "Bitvec n k d (apSub ps)"
  have d: "0 < d" "i div d < 62" "length ps = 62" "i mod d < d"
    using 1(2,3) by (auto simp: div_less_iff_less_mult)
  show ?case
  proof (cases "ps ! (i div d)")
    case None
    then have "bitvec_clear ?p i = Some ?p" "\<not> holds ?p i" using d by auto
    then show ?thesis using 1(2) by (metis bitvec.sel(1))
  next
    case (Some q)
    then have "Some q \<in> set ps" using d by (metis nth_mem)
    then have q: "binv q" "iSize q = d" using 1(2) by auto
    then obtain q' where q': "bitvec_clear q (i mod d) = Some q'" "binv q'" "iSize q' = d"
        "\<forall>x. holds q' x \<longleftrightarrow> x \<noteq> i mod d \<and> holds q x"
      using 1(1) [OF _ Some] d by auto
    let ?p' = "Bitvec n k d (apSub (ps[i div d := Some q']))"
    have "bitvec_clear ?p i = Some ?p'" using Some d q'(1) by simp
    moreover have "binv ?p'" using 1(2) q'(2,3) by (auto dest!: set_update_subset_insert [THEN subsetD])
    moreover have "holds ?p' x \<longleftrightarrow> (if x div d = i div d then holds q' (x mod d) else holds ?p x)" for x
      using d by auto
    moreover have "holds ?p x \<longleftrightarrow> holds q (x mod d)" if "x div d = i div d" for x using that Some d by auto
    ultimately show ?thesis using q'(4) index_eq [of _ i d] by (metis bitvec.sel(1))
  qed
next
  case (2 n k d bs i)
  let ?bs = "bs[i div 8 := bs ! (i div 8) AND NOT (push_bit (i mod 8) 1)]"
  have l: "length bs = 496" "i < 3968" "n \<le> 3968" "d = 0" using 2 by auto
  then have "i div 8 < 496" by (intro less_mult_imp_div_less) simp
  then have "bitvec_clear (Bitvec n k d (aBitmap bs)) i = Some (Bitvec n k d (aBitmap ?bs))"
    using l by (simp add: bitmap_clear_def rd_def wr_def)
  moreover have "holds (Bitvec n k d (aBitmap ?bs)) x \<longleftrightarrow> x \<noteq> i \<and> holds (Bitvec n k d (aBitmap bs)) x" for x
    using l index_eq [of x i 8] bit_set_clear(2) [of "i mod 8" "x mod 8" "bs ! (i div 8)"]
    by (cases "x div 8 = i div 8") auto
  moreover have "binv (Bitvec n k d (aBitmap ?bs))" using 2 by simp
  ultimately show ?case by (metis bitvec.sel(1))
next
  case (3 n k d a i)
  have a: "used (replicate 124 0) + used a < 124" "n > 3968" "d = 0" "\<forall>v\<in>set a. v \<le> n" using 3 by auto
  obtain a' where a': "hash_rebuild i a 0 (replicate 124 0) = Some (used a', a')" "hash_inv a'" "used a' < 124"
      "set a' - {0} = set (replicate 124 0) \<union> (set a - {i + 1}) - {0}"
    using hash_rebuild_spec [OF hash_inv_empty a(1), of i] by auto
  have mem: "v \<in> set a' \<longleftrightarrow> v \<noteq> i + 1 \<and> v \<in> set a" if "v \<noteq> 0" for v
    using a'(4) that by auto
  then have "\<forall>v\<in>set a'. v \<le> n" using a(4) by (metis zero_le)
  then have "binv (Bitvec n (used a') d (aHash a'))" using a' a by simp
  moreover have "bitvec_clear (Bitvec n k d (aHash a)) i = Some (Bitvec n (used a') d (aHash a'))"
    using a'(1) a by simp
  ultimately show ?case using mem [of "_ + 1"] by auto
qed

section \<open>The interface\<close>

text \<open>The set of bits, counted from 1 as the callers do.\<close>

definition bitset :: "bitvec \<Rightarrow> nat set" where
  "bitset p = {i. 1 \<le> i \<and> i \<le> iSize p \<and> holds p (i - 1)}"

lemma bitset_iff: "i \<in> bitset p \<longleftrightarrow> 1 \<le> i \<and> i \<le> iSize p \<and> holds p (i - 1)"
  by (simp add: bitset_def)

lemma BitvecTest_ok: "binv p \<Longrightarrow> sqlite3BitvecTest (Some p) i = Some (i \<in> bitset p)"
  by (auto simp: sqlite3BitvecTest_def bitset_iff bitvec_test_spec)

lemma BitvecSet_ok:
  assumes "binv p" and "iSize p < 2 ^ 32" and "1 \<le> i" and "i \<le> iSize p"
  obtains p' res al' where "sqlite3BitvecSet (Some p) i al = Some (Some p', res, al')" "binv p'" "iSize p' = iSize p"
    "res \<in> {SQLITE_OK, SQLITE_NOMEM}" "bitset p' \<subseteq> insert i (bitset p)" "res = SQLITE_OK \<longrightarrow> bitset p' = insert i (bitset p)"
    "False \<notin> set al \<longrightarrow> res = SQLITE_OK \<and> False \<notin> set al'"
proof -
  have "i - 1 < iSize p" using assms(3,4) by simp
  moreover have "iSize p \<le> 62 ^ 4 * 3968" using assms(2) by simp
  ultimately have "set_ok p (i - 1) al (bitvec_set BITVEC_FUEL p (i - 1) al)"
    using bitvec_set_ok [OF assms(1), of "i - 1" 4] by (simp add: BITVEC_FUEL_def del: bitvec_set.simps)
  then obtain p' res al' where r: "bitvec_set BITVEC_FUEL p (i - 1) al = Some (p', res, al')" "binv p'" "iSize p' = iSize p"
      "res \<in> {SQLITE_OK, SQLITE_NOMEM}" "\<forall>x. holds p' x \<longrightarrow> x = i - 1 \<or> holds p x"
      "res = SQLITE_OK \<longrightarrow> (\<forall>x. x = i - 1 \<or> holds p x \<longrightarrow> holds p' x)"
      "False \<notin> set al \<longrightarrow> res = SQLITE_OK \<and> False \<notin> set al'"
    unfolding set_ok_def by metis
  have eq: "x = i \<longleftrightarrow> x - 1 = i - 1" if "1 \<le> x" for x using that assms(3) by auto
  show thesis
  proof (rule that)
    show "sqlite3BitvecSet (Some p) i al = Some (Some p', res, al')"
      using assms(3,4) r(1) by (simp add: sqlite3BitvecSet_def)
    show "bitset p' \<subseteq> insert i (bitset p)" using r(3,5) eq by (auto simp: bitset_iff)
    show "res = SQLITE_OK \<longrightarrow> bitset p' = insert i (bitset p)"
      using r(3,5,6) eq assms(3,4) by (auto simp: bitset_iff)
  qed (use r in auto)
qed

lemma BitvecClear_ok:
  assumes "binv p" and "1 \<le> i" and "i \<le> iSize p"
  shows "\<exists>p'. sqlite3BitvecClear (Some p) i = Some (Some p') \<and> binv p' \<and> iSize p' = iSize p \<and> bitset p' = bitset p - {i}"
proof -
  have "i - 1 < iSize p" using assms(2,3) by simp
  then obtain p' where p': "bitvec_clear p (i - 1) = Some p'" "binv p'" "iSize p' = iSize p"
      "\<forall>x. holds p' x \<longleftrightarrow> x \<noteq> i - 1 \<and> holds p x"
    using bitvec_clear_ok [OF assms(1)] by blast
  have "x = i \<longleftrightarrow> x - 1 = i - 1" if "1 \<le> x" for x using that assms(2) by auto
  then have "bitset p' = bitset p - {i}" using p'(3,4) by (auto simp: bitset_iff)
  then show ?thesis using p' assms(2) by (simp add: sqlite3BitvecClear_def)
qed

text \<open>Sequences of additions (\<open>True\<close>) and removals, and what a user of page sets relies on.\<close>

primrec run_ops :: "(nat \<Rightarrow> 's \<Rightarrow> 's option) \<Rightarrow> (nat \<Rightarrow> 's \<Rightarrow> 's option) \<Rightarrow> (nat \<times> bool) list \<Rightarrow> 's \<Rightarrow> 's option" where
  "run_ops add remove [] s = Some s"
| "run_ops add remove (x # xs) s = (if snd x then add (fst x) s else remove (fst x) s) \<bind> run_ops add remove xs"

locale page_set =
  fixes inv :: "'s \<Rightarrow> bool" and limit :: "'s \<Rightarrow> nat" and pages :: "'s \<Rightarrow> nat set"
    and add :: "nat \<Rightarrow> 's \<Rightarrow> 's option" and remove :: "nat \<Rightarrow> 's \<Rightarrow> 's option"
  assumes add: "inv s \<Longrightarrow> 1 \<le> i \<Longrightarrow> i \<le> limit s \<Longrightarrow>
      \<exists>s'. add i s = Some s' \<and> inv s' \<and> limit s' = limit s \<and> pages s' = insert i (pages s)"
    and remove: "inv s \<Longrightarrow> 1 \<le> i \<Longrightarrow> i \<le> limit s \<Longrightarrow>
      \<exists>s'. remove i s = Some s' \<and> inv s' \<and> limit s' = limit s \<and> pages s' = pages s - {i}"
begin

lemma run_ops_pages:
  "inv s \<Longrightarrow> \<forall>(i, b)\<in>set xs. 1 \<le> i \<and> i \<le> limit s \<Longrightarrow>
    \<exists>s'. run_ops add remove xs s = Some s' \<and> inv s' \<and> limit s' = limit s \<and>
      pages s' = foldl (\<lambda>S (i, b). if b then insert i S else S - {i}) (pages s) xs"
proof (induction xs arbitrary: s)
  case (Cons x xs)
  obtain i b where x: "x = (i, b)" by (cases x)
  then have i: "1 \<le> i" "i \<le> limit s" using Cons.prems(2) by auto
  obtain s' where "(if b then add i s else remove i s) = Some s'" "inv s'" "limit s' = limit s"
      "pages s' = (if b then insert i (pages s) else pages s - {i})"
    using add [OF Cons.prems(1) i] remove [OF Cons.prems(1) i] by (cases b) auto
  then show ?case using Cons.IH [of s'] Cons.prems(2) x by auto
qed simp

end

definition bitvec_add :: "nat \<Rightarrow> bitvec \<Rightarrow> bitvec option" where
  "bitvec_add i p = (case sqlite3BitvecSet (Some p) i [] of
     Some (Some p', res, al) \<Rightarrow> if res = SQLITE_OK then Some p' else None | _ \<Rightarrow> None)"

definition bitvec_remove :: "nat \<Rightarrow> bitvec \<Rightarrow> bitvec option" where
  "bitvec_remove i p = (case sqlite3BitvecClear (Some p) i of Some p' \<Rightarrow> p' | None \<Rightarrow> None)"

interpretation bv: page_set "\<lambda>p. binv p \<and> iSize p < 2 ^ 32" iSize bitset bitvec_add bitvec_remove
proof
  fix p i assume p: "binv p \<and> iSize p < 2 ^ 32" "1 \<le> i" "i \<le> iSize p"
  show "\<exists>s'. bitvec_add i p = Some s' \<and> (binv s' \<and> iSize s' < 2 ^ 32) \<and> iSize s' = iSize p \<and> bitset s' = insert i (bitset p)"
    by (rule BitvecSet_ok [of p i "[]"]) (use p in \<open>auto simp: bitvec_add_def\<close>)
  show "\<exists>s'. bitvec_remove i p = Some s' \<and> (binv s' \<and> iSize s' < 2 ^ 32) \<and> iSize s' = iSize p \<and> bitset s' = bitset p - {i}"
    using BitvecClear_ok [of p i] p by (auto simp: bitvec_remove_def)
qed

text \<open>C2. A bitmap is a set of page numbers: whatever sequence of additions and removals is applied to
  a new bitmap of any size below \<open>2 ^ 32\<close>, with memory for its allocations, every operation succeeds
  inside its memory, through all changes of representation, and the test finds exactly the numbers
  whose last operation was an addition.\<close>

theorem sqlite3Bitvec_refines_set:
  assumes "n < 2 ^ 32" and "\<forall>(i, b)\<in>set ops. 1 \<le> i \<and> i \<le> n"
  shows "\<exists>p. run_ops bitvec_add bitvec_remove ops (bitvec_new n) = Some p \<and>
    (\<forall>i. sqlite3BitvecTest (Some p) i =
      Some (i \<in> foldl (\<lambda>S (i, b). if b then insert i S else S - {i}) {} ops))"
proof -
  have "bitset (bitvec_new n) = {}" by (auto simp: bitset_iff holds_new)
  then show ?thesis
    using bv.run_ops_pages [of "bitvec_new n" ops] assms BitvecTest_ok by (auto simp: binv_new iSize_new)
qed

theorem sqlite3Bitvec_refines_set_witness:
  "\<exists>p. run_ops bitvec_add bitvec_remove [(5, True), (7, True), (5, False)] (bitvec_new 100000) = Some p \<and>
    sqlite3BitvecTest (Some p) 7 = Some True \<and> sqlite3BitvecTest (Some p) 5 = Some False"
  using sqlite3Bitvec_refines_set [of 100000 "[(5, True), (7, True), (5, False)]"] by fastforce

text \<open>C36. Setting a bit without enough memory: the operation returns \<^verbatim>\<open>SQLITE_OK\<close> or \<^verbatim>\<open>SQLITE_NOMEM\<close> whatever
  allocations fail; the bitmap stays well formed and holds no bit that was not set, and with
  \<^verbatim>\<open>SQLITE_OK\<close> it holds exactly the old bits and the new one. Testing, which does not allocate, still
  answers for the bits the bitmap holds.\<close>

theorem sqlite3BitvecSet_nomem:
  assumes "binv p" and "iSize p < 2 ^ 32" and "1 \<le> i" and "i \<le> iSize p"
  shows "\<exists>p' res al'. sqlite3BitvecSet (Some p) i al = Some (Some p', res, al') \<and> binv p' \<and> iSize p' = iSize p \<and>
    (res = SQLITE_OK \<and> bitset p' = insert i (bitset p) \<or>
     res = SQLITE_NOMEM \<and> False \<in> set al \<and> bitset p' \<subseteq> insert i (bitset p)) \<and>
    (\<forall>j. sqlite3BitvecTest (Some p') j = Some (j \<in> bitset p'))"
  by (rule BitvecSet_ok [OF assms, of al]) (use BitvecTest_ok in blast)

theorem sqlite3BitvecSet_nomem_witness:
  "\<exists>p' res al'. sqlite3BitvecSet (Some (bitvec_new 10)) 3 [False] = Some (Some p', res, al') \<and> binv p' \<and>
    (\<forall>j. sqlite3BitvecTest (Some p') j = Some (j \<in> bitset p'))"
  using sqlite3BitvecSet_nomem [of "bitvec_new 10" 3 "[False]"] by (simp only: iSize_new binv_new) fastforce

end
