(* ===== verification/Like.thy ===== *)
theory Like
  imports Utf Ctype
begin

text \<open>
  \<^verbatim>\<open>LIKE\<close> and \<^verbatim>\<open>GLOB\<close> (\<^verbatim>\<open>func.c\<close>): \<^verbatim>\<open>patternCompare\<close> compares a UTF-8 text with a pattern, both ended by a zero
  byte. A pointer into a text is the list of the bytes from there on; \<open>None\<close> is a read behind it.
\<close>

section \<open>Operations\<close>

record compareInfo =
  matchAll :: u8
  matchOne :: u8
  matchSet :: u8
  noCase :: bool

definition globInfo :: compareInfo where
  "globInfo = \<lparr>matchAll = of_char CHR ''*'', matchOne = of_char CHR ''?'', matchSet = of_char CHR ''['', noCase = False\<rparr>"

definition likeInfoNorm :: compareInfo where
  "likeInfoNorm = \<lparr>matchAll = of_char CHR ''%'', matchOne = of_char CHR ''_'', matchSet = 0, noCase = True\<rparr>"

definition likeInfoAlt :: compareInfo where
  "likeInfoAlt = \<lparr>matchAll = of_char CHR ''%'', matchOne = of_char CHR ''_'', matchSet = 0, noCase = False\<rparr>"

definition GlobUpperToLower :: "u32 \<Rightarrow> u32" where
  "GlobUpperToLower c = (if c AND NOT 0x7f = 0 then ucast (sqlite3UpperToLower ! unat c) else c)"

definition glob_fold :: "compareInfo \<Rightarrow> u32 \<Rightarrow> u32" where
  "glob_fold pInfo c = (if noCase pInfo then GlobUpperToLower c else c)"

lemma Utf8Read_length: "sqlite3Utf8Read z = Some (c, z') \<Longrightarrow> length z' < length z"
  by (auto dest!: READ_UTF8_utf8Read READ_UTF8_length)

text \<open>The wildcards behind a \<^verbatim>\<open>matchAll\<close>. The inner result is \<open>None\<close> when the text is too short, and
  otherwise the first character that is no wildcard, the pattern from that character on and behind
  it, and the rest of the text.\<close>

function skip_wild :: "compareInfo \<Rightarrow> u8 list \<Rightarrow> u8 list \<Rightarrow> (u32 \<times> u8 list \<times> u8 list \<times> u8 list) option option" where
  "skip_wild pInfo zPattern zString = do {
     (c, z) \<leftarrow> sqlite3Utf8Read zPattern;
     if c = ucast (matchAll pInfo) \<or> c = ucast (matchOne pInfo) then
       if c = ucast (matchOne pInfo) then do {
         (c2, s) \<leftarrow> sqlite3Utf8Read zString;
         if c2 = 0 then Some None else skip_wild pInfo z s
       }
       else skip_wild pInfo z zString
     else Some (Some (c, zPattern, z, zString))
   }"
  by pat_completeness auto
termination
  by (relation "measure (length \<circ> fst \<circ> snd)") (auto dest: Utf8Read_length)

text \<open>The list of a character set: \<open>c\<close> is the character of the text, \<open>c2\<close> the current one of the
  pattern. The result is the character that ended the list, whether \<open>c\<close> was seen, and the rest of the
  pattern.\<close>

function set_list :: "u32 \<Rightarrow> u32 \<Rightarrow> bool \<Rightarrow> u32 \<Rightarrow> u8 list \<Rightarrow> (u32 \<times> bool \<times> u8 list) option" where
  "set_list c prior_c seen c2 z =
    (if c2 = 0 \<or> c2 = of_char CHR '']'' then Some (c2, seen, z)
     else do {
       x \<leftarrow> rd z 0;
       if c2 = of_char CHR ''-'' \<and> x \<noteq> of_char CHR '']'' \<and> x \<noteq> 0 \<and> prior_c > 0 then do {
         (c2, z) \<leftarrow> sqlite3Utf8Read z;
         (c2', z') \<leftarrow> sqlite3Utf8Read z;
         set_list c 0 (seen \<or> c \<ge> prior_c \<and> c \<le> c2) c2' z'
       }
       else do {
         (c2', z') \<leftarrow> sqlite3Utf8Read z;
         set_list c c2 (seen \<or> c = c2) c2' z'
       }
     })"
  by pat_completeness auto
termination
  by (relation "measure (\<lambda>(_, _, _, _, z). length z)") (auto dest!: Utf8Read_length)

text \<open>A character set behind its opening bracket, against the character \<open>c\<close>: whether it matches, and
  the rest of the pattern.\<close>

definition read_if :: "u32 \<Rightarrow> u32 \<Rightarrow> u8 list \<Rightarrow> (bool \<times> u32 \<times> u8 list) option" where
  "read_if x c2 z = (if c2 = x then map_option (\<lambda>(c2, z). (True, c2, z)) (sqlite3Utf8Read z) else Some (False, c2, z))"

definition set_match :: "u32 \<Rightarrow> u8 list \<Rightarrow> (bool \<times> u8 list) option" where
  "set_match c z = do {
     (c2, z) \<leftarrow> sqlite3Utf8Read z;
     (invert, c2, z) \<leftarrow> read_if (of_char CHR ''^'') c2 z;
     (first, c2, z) \<leftarrow> read_if (of_char CHR '']'') c2 z;
     (c2, seen, z) \<leftarrow> set_list c 0 (first \<and> c = of_char CHR '']'') c2 z;
     Some (\<not> (c2 = 0 \<or> seen = invert), z)
   }"

declare skip_wild.simps [simp del] set_list.simps [simp del]

lemma skip_wild_length:
  "skip_wild pInfo z s = Some (Some (c, z0, z', s')) \<Longrightarrow> length z0 \<le> length z \<and> length z' < length z"
proof (induction z arbitrary: s rule: length_induct)
  case (1 z)
  have IH: "skip_wild pInfo y s = Some (Some (c, z0, z', s')) \<Longrightarrow> length y < length z \<Longrightarrow>
      length z0 \<le> length z \<and> length z' < length z" for y s
    using 1(1) by fastforce
  from 1(2) show ?case
    by (subst (asm) skip_wild.simps) (auto split: if_splits bind_splits dest!: Utf8Read_length IH)
qed

lemma set_list_length: "set_list c p b c2 z = Some (x, b', z') \<Longrightarrow> length z' \<le> length z"
proof (induction z arbitrary: p b c2 rule: length_induct)
  case (1 z)
  have IH: "set_list c p b c2 y = Some (x, b', z') \<Longrightarrow> length y < length z \<Longrightarrow> length z' \<le> length z" for p b c2 y
    using 1(1) by fastforce
  from 1(2) show ?case
    by (subst (asm) set_list.simps) (auto split: if_splits bind_splits dest!: Utf8Read_length IH)
qed

lemma set_match_length: "set_match c z = Some (b, z') \<Longrightarrow> length z' < length z"
  by (auto simp: set_match_def read_if_def split: if_splits bind_splits dest!: Utf8Read_length set_list_length)

lemma SKIP_UTF8_length: "SQLITE_SKIP_UTF8 z = Some z' \<Longrightarrow> length z' < length z"
proof -
  have "skip_utf8_tail z = Some z' \<Longrightarrow> length z' \<le> length z" for z
    by (induction z) (auto split: if_splits)
  then show "SQLITE_SKIP_UTF8 z = Some z' \<Longrightarrow> length z' < length z"
    by (cases z) (auto split: if_splits simp: less_Suc_eq_le)
qed

text \<open>The comparison. \<open>match_set\<close> and \<open>match_char\<close> are the two loops over the text behind a
  \<^verbatim>\<open>matchAll\<close>; the loops of the source that skip to the next candidate are merged with the loop around
  them.\<close>

function patternCompare :: "compareInfo \<Rightarrow> u32 \<Rightarrow> bool \<Rightarrow> u8 list \<Rightarrow> u8 list \<Rightarrow> bool option"
  and match_set :: "compareInfo \<Rightarrow> u32 \<Rightarrow> u8 list \<Rightarrow> u8 list \<Rightarrow> bool option"
  and match_char :: "compareInfo \<Rightarrow> u32 \<Rightarrow> u32 \<Rightarrow> u8 list \<Rightarrow> u8 list \<Rightarrow> bool option" where
  "patternCompare pInfo esc prevEscape zPattern zString = do {
     (c, z) \<leftarrow> sqlite3Utf8Read zPattern;
     if c = 0 then map_option (\<lambda>x. x = 0) (rd zString 0)
     else if c = ucast (matchAll pInfo) \<and> \<not> prevEscape then do {
       r \<leftarrow> skip_wild pInfo z zString;
       (case r of
          None \<Rightarrow> Some False
        | Some (c, z0, z, s) \<Rightarrow>
            if c = 0 then Some True
            else if c = esc then do {
              (c, z) \<leftarrow> sqlite3Utf8Read z;
              if c = 0 then Some False else match_char pInfo esc c z s
            }
            else if c = ucast (matchSet pInfo) then match_set pInfo esc z0 s
            else match_char pInfo esc c z s)
     }
     else if c = ucast (matchOne pInfo) \<and> \<not> prevEscape then do {
       (c2, s) \<leftarrow> sqlite3Utf8Read zString;
       if c2 = 0 then Some False else patternCompare pInfo esc prevEscape z s
     }
     else if c = ucast (matchSet pInfo) then do {
       (c, s) \<leftarrow> sqlite3Utf8Read zString;
       if c = 0 then Some False
       else do {
         (ok, z) \<leftarrow> set_match c z;
         if ok then patternCompare pInfo esc prevEscape z s else Some False
       }
     }
     else if esc = c \<and> \<not> prevEscape then patternCompare pInfo esc True z zString
     else do {
       (c2, s) \<leftarrow> sqlite3Utf8Read zString;
       if glob_fold pInfo c \<noteq> glob_fold pInfo c2 then Some False
       else patternCompare pInfo esc False z s
     }
   }"
| "match_set pInfo esc z s = do {
     x \<leftarrow> rd s 0;
     if x = 0 then Some False
     else do {
       b \<leftarrow> patternCompare pInfo esc False z s;
       if b then Some True
       else do {
         s \<leftarrow> SQLITE_SKIP_UTF8 s;
         match_set pInfo esc z s
       }
     }
   }"
| "match_char pInfo esc c z s = do {
     (c2, s) \<leftarrow> sqlite3Utf8Read s;
     if c2 = 0 then Some False
     else if glob_fold pInfo c2 \<noteq> glob_fold pInfo c then match_char pInfo esc c z s
     else do {
       b \<leftarrow> patternCompare pInfo esc False z s;
       if b then Some True else match_char pInfo esc c z s
     }
   }"
  by pat_completeness auto
termination
  by (relation "measures
      [\<lambda>x. case x of Inl (_, _, _, z, _) \<Rightarrow> length z | Inr (Inl (_, _, z, _)) \<Rightarrow> length z | Inr (Inr (_, _, _, z, _)) \<Rightarrow> length z,
       \<lambda>x. case x of Inl (_, _, _, _, s) \<Rightarrow> length s | Inr (Inl (_, _, _, s)) \<Rightarrow> length s | Inr (Inr (_, _, _, _, s)) \<Rightarrow> length s,
       \<lambda>x. case x of Inl _ \<Rightarrow> 0 | Inr _ \<Rightarrow> 1]")
    (auto dest!: Utf8Read_length SKIP_UTF8_length set_match_length skip_wild_length)

declare patternCompare.simps [simp del] match_set.simps [simp del] match_char.simps [simp del]

definition sqlite3_strglob :: "u8 list \<Rightarrow> u8 list \<Rightarrow> bool option" where
  "sqlite3_strglob zGlobPattern zString = map_option Not (patternCompare globInfo 0 False zGlobPattern zString)"

text \<open>The SQL functions \<^verbatim>\<open>like\<close> and \<^verbatim>\<open>glob\<close>. The arguments are the texts of the values, \<open>None\<close> for NULL, and
  \<open>mx\<close> is the limit on the length of a pattern; without a third argument \<open>argEsc\<close> is \<open>None\<close>.\<close>

datatype like_result = Result_null | Result_int bool | Result_error string

definition likeFunc :: "compareInfo \<Rightarrow> nat \<Rightarrow> u8 list option \<Rightarrow> u8 list option \<Rightarrow> u8 list option option \<Rightarrow> like_result option" where
  "likeFunc pInfo mx zB zA argEsc =
    (let nPat = (case zB of None \<Rightarrow> 0 | Some b \<Rightarrow> length b);
         compare = (\<lambda>escape. case (zA, zB) of
             (Some a, Some b) \<Rightarrow> map_option Result_int (patternCompare pInfo escape False (b @ [0]) (a @ [0]))
           | _ \<Rightarrow> Some Result_null)
     in if nPat > mx then Some (Result_error ''LIKE or GLOB pattern too complex'')
        else case argEsc of
            None \<Rightarrow> compare 0
          | Some None \<Rightarrow> Some Result_null
          | Some (Some zEsc) \<Rightarrow> do {
              n \<leftarrow> sqlite3Utf8CharLen (zEsc @ [0]) (- 1);
              if n \<noteq> 1 then Some (Result_error ''ESCAPE expression must be a single character'')
              else do {
                (escape, _) \<leftarrow> sqlite3Utf8Read (zEsc @ [0]);
                compare escape
              }
            })"

section \<open>Texts as lists of characters\<close>

text \<open>\<open>text_at z cs\<close>: behind the pointer \<open>z\<close> there are the characters \<open>cs\<close> and then the terminator.\<close>

inductive text_at :: "u8 list \<Rightarrow> u32 list \<Rightarrow> bool" where
  Nil: "text_at [0] []"
| Cons: "b \<noteq> 0 \<Longrightarrow> READ_UTF8 (b # s) = Some (c, s') \<Longrightarrow> text_at (s' @ [0]) cs \<Longrightarrow> text_at (b # s @ [0]) (c # cs)"

inductive_cases text_at_NilE: "text_at z []"

lemma utf8_check_ge: "utf8_check c \<ge> 0x80"
  by (auto simp: utf8_check_def)

lemma text_at_end: "text_at z [] \<Longrightarrow> sqlite3Utf8Read z = Some (0, []) \<and> rd z 0 = Some 0"
  by (elim text_at_NilE) auto

lemma ucast_u8_less: "x < 0x80 \<Longrightarrow> (ucast (x :: u8) :: u32) < 0x80"
  by (simp add: word_less_nat_alt unat_ucast_u8)

lemma READ_UTF8_first:
  assumes "READ_UTF8 (b # s) = Some (c, s')" and "b \<noteq> 0"
  shows "c \<noteq> 0" and "x < 0x80 \<Longrightarrow> c = ucast x \<longleftrightarrow> b = x"
proof -
  consider (lead) "b \<ge> 0xc0" "c \<ge> 0x80" | (single) "c = ucast b"
    using assms utf8_check_ge by (auto split: if_splits bind_splits prod.splits simp: Let_def not_le)
  then show "c \<noteq> 0" and "x < 0x80 \<Longrightarrow> c = ucast x \<longleftrightarrow> b = x"
  proof (atomize (full), cases)
    case lead
    then show "c \<noteq> 0 \<and> (x < 0x80 \<longrightarrow> (c = ucast x) = (b = x))"
      using ucast_u8_less [of x] by (auto simp: word_le_nat_alt word_less_nat_alt)
  next
    case single
    then show "c \<noteq> 0 \<and> (x < 0x80 \<longrightarrow> (c = ucast x) = (b = x))"
      using assms(2) ucast_u8_inj [of b 0] ucast_u8_inj [of b x] by simp
  qed
qed

lemma skip_utf8_tail_read: "utf8Read_tail c z = Some (c', z') \<Longrightarrow> skip_utf8_tail z = Some z'"
  by (induction z arbitrary: c) (auto split: if_splits)

lemma SKIP_UTF8_read: "sqlite3Utf8Read z = Some (c, z') \<Longrightarrow> SQLITE_SKIP_UTF8 z = Some z'"
  by (cases z) (auto split: if_splits bind_splits dest: skip_utf8_tail_read)

lemma text_at_step:
  assumes "text_at z (c # cs)"
  obtains z' b where "sqlite3Utf8Read z = Some (c, z')" "text_at z' cs" "c \<noteq> 0" "rd z 0 = Some b" "b \<noteq> 0"
    "\<And>x. x < 0x80 \<Longrightarrow> c = ucast x \<longleftrightarrow> b = x" "SQLITE_SKIP_UTF8 z = Some z'"
  using assms
proof cases
  case 1: (Cons b s s')
  have "sqlite3Utf8Read z = Some (c, s' @ [0])"
    using READ_UTF8_append_0 [OF 1(3)] 1(1) by simp
  moreover from this have "SQLITE_SKIP_UTF8 z = Some (s' @ [0])" by (rule SKIP_UTF8_read)
  moreover have "rd z 0 = Some b" using 1(1) by simp
  ultimately show thesis using that 1(2,4) READ_UTF8_first [OF 1(3,2)] by blast
qed

text \<open>Every text without zero bytes is a list of characters.\<close>

lemma READ_UTF8_suffix: "READ_UTF8 s = Some (c, s') \<Longrightarrow> set s' \<subseteq> set s"
proof -
  have "set (snd (read_utf8_tail c z)) \<subseteq> set z" for c z
    by (induction z arbitrary: c) auto
  then have "read_utf8_tail x z = (c, s') \<Longrightarrow> set s' \<subseteq> set z" for x z c by (metis snd_conv)
  then show "READ_UTF8 s = Some (c, s') \<Longrightarrow> set s' \<subseteq> set s"
    by (cases s) (fastforce split: if_splits bind_splits prod.splits simp: Let_def)+
qed

function chars :: "u8 list \<Rightarrow> u32 list" where
  "chars s = (case READ_UTF8 s of None \<Rightarrow> [] | Some (c, s') \<Rightarrow> c # chars s')"
  by pat_completeness auto
termination
  by (relation "measure length") (auto dest: READ_UTF8_length)

declare chars.simps [simp del]

lemma text_at_chars: "0 \<notin> set s \<Longrightarrow> text_at (s @ [0]) (chars s)"
proof (induction s rule: length_induct)
  case (1 s)
  show ?case
  proof (cases s)
    case Nil
    then show ?thesis by (simp add: chars.simps [of "[]"] text_at.Nil)
  next
    case (Cons b s1)
    obtain c s' where r: "READ_UTF8 s = Some (c, s')" "length s' < length s"
      using READ_UTF8_spec [of s] Cons by blast
    then have "text_at (s' @ [0]) (chars s')" using READ_UTF8_suffix 1 by blast
    then have "text_at (b # s1 @ [0]) (c # chars s')" using r(1) Cons 1(2) by (intro text_at.Cons) auto
    then show ?thesis using Cons r(1) by (simp add: chars.simps [of "b # s1"])
  qed
qed

section \<open>Reference: patterns as lists of elements\<close>

datatype pat = PAny | POne | PSet bool "(u32 \<times> u32) list" | PLit u32 | PBad | PEsc

text \<open>The ranges of a set up to its closing bracket; \<open>p\<close> is the character before, 0 for none.\<close>

fun parse_items :: "u32 \<Rightarrow> u32 list \<Rightarrow> ((u32 \<times> u32) list \<times> u32 list) option" where
  "parse_items p [] = None"
| "parse_items p (c # cs) =
    (if c = of_char CHR '']'' then Some ([], cs)
     else if c = of_char CHR ''-'' \<and> p > 0 \<and> cs \<noteq> [] \<and> hd cs \<noteq> of_char CHR '']''
     then map_option (\<lambda>(is, r). ((p, hd cs) # is, r)) (parse_items 0 (tl cs))
     else map_option (\<lambda>(is, r). ((c, c) # is, r)) (parse_items c cs))"

definition parse_set :: "u32 list \<Rightarrow> (bool \<times> (u32 \<times> u32) list \<times> u32 list) option" where
  "parse_set cs =
    (let invert = (cs \<noteq> [] \<and> hd cs = of_char CHR ''^''); cs1 = (if invert then tl cs else cs)
     in if cs1 \<noteq> [] \<and> hd cs1 = of_char CHR '']''
        then map_option (\<lambda>(is, r). (invert, (of_char CHR '']'', of_char CHR '']'') # is, r)) (parse_items 0 (tl cs1))
        else map_option (\<lambda>(is, r). (invert, is, r)) (parse_items 0 cs1))"

lemma parse_items_length: "parse_items p cs = Some (is, r) \<Longrightarrow> length r \<le> length cs"
  by (induction p cs arbitrary: "is" rule: parse_items.induct) (fastforce split: if_splits)+

lemma parse_set_length: "parse_set cs = Some (b, is, r) \<Longrightarrow> length r \<le> length cs"
  by (auto simp: parse_set_def Let_def split: if_splits dest!: parse_items_length intro: order_trans)

function parse :: "compareInfo \<Rightarrow> u32 \<Rightarrow> u32 list \<Rightarrow> pat list" where
  "parse pInfo esc [] = []"
| "parse pInfo esc (c # cs) =
    (if c = ucast (matchAll pInfo) then PAny # parse pInfo esc cs
     else if c = ucast (matchOne pInfo) then POne # parse pInfo esc cs
     else if c = ucast (matchSet pInfo) then
       (case parse_set cs of None \<Rightarrow> [PBad] | Some (b, is, r) \<Rightarrow> PSet b is # parse pInfo esc r)
     else if c = esc then
       (case cs of [] \<Rightarrow> [PEsc] | d # cs' \<Rightarrow> PLit d # parse pInfo esc cs')
     else PLit c # parse pInfo esc cs)"
  by pat_completeness auto
termination
  by (relation "measure (\<lambda>(_, _, cs). length cs)") (auto dest!: parse_set_length)

fun in_ranges :: "u32 \<Rightarrow> (u32 \<times> u32) list \<Rightarrow> bool" where
  "in_ranges c [] \<longleftrightarrow> False"
| "in_ranges c ((lo, hi) # is) \<longleftrightarrow> lo \<le> c \<and> c \<le> hi \<or> in_ranges c is"

fun matches :: "compareInfo \<Rightarrow> pat list \<Rightarrow> u32 list \<Rightarrow> bool" where
  "matches pInfo [] s \<longleftrightarrow> s = []"
| "matches pInfo (PAny # ts) s \<longleftrightarrow> (\<exists>k \<le> length s. matches pInfo ts (drop k s))"
| "matches pInfo (POne # ts) s \<longleftrightarrow> (case s of [] \<Rightarrow> False | c # s' \<Rightarrow> matches pInfo ts s')"
| "matches pInfo (PSet b is # ts) s \<longleftrightarrow> (case s of [] \<Rightarrow> False | c # s' \<Rightarrow> in_ranges c is \<noteq> b \<and> matches pInfo ts s')"
| "matches pInfo (PLit d # ts) s \<longleftrightarrow>
    (case s of [] \<Rightarrow> False | c # s' \<Rightarrow> glob_fold pInfo d = glob_fold pInfo c \<and> matches pInfo ts s')"
| "matches pInfo (PBad # ts) s \<longleftrightarrow> False"
| "matches pInfo (PEsc # ts) s \<longleftrightarrow> False"

lemma matches_any_Cons: "matches i (PAny # ts) (c # s) \<longleftrightarrow> matches i ts (c # s) \<or> matches i (PAny # ts) s"
proof -
  have "(\<exists>k \<le> Suc n. P k) \<longleftrightarrow> P 0 \<or> (\<exists>k \<le> n. P (Suc k))" for n and P :: "nat \<Rightarrow> bool"
    by (metis Suc_le_mono not0_implies_Suc zero_le)
  from this [of "length s" "\<lambda>k. matches i ts (drop k (c # s))"] show ?thesis by simp
qed

lemma matches_any_any: "matches i (PAny # PAny # ts) s \<longleftrightarrow> matches i (PAny # ts) s"
  by (induction s) (simp_all add: matches_any_Cons del: matches.simps(2), simp)

lemma matches_any_one: "matches i (PAny # POne # ts) s \<longleftrightarrow> (case s of [] \<Rightarrow> False | c # s' \<Rightarrow> matches i (PAny # ts) s')"
proof (induction s)
  case (Cons c s)
  then show ?case
    by (cases s) (simp_all add: matches_any_Cons del: matches.simps(2), simp)
qed simp

section \<open>Equivalence\<close>

text \<open>What the three kinds of comparison have in common.\<close>

definition info_ok :: "compareInfo \<Rightarrow> u32 \<Rightarrow> bool" where
  "info_ok pInfo esc \<longleftrightarrow> matchAll pInfo \<noteq> 0 \<and> matchOne pInfo \<noteq> 0 \<and> matchAll pInfo \<noteq> matchOne pInfo \<and>
     (matchSet pInfo = 0 \<or> esc = 0)"

lemma info_ok_instances: "info_ok globInfo 0" "info_ok likeInfoNorm esc" "info_ok likeInfoAlt esc"
  by (simp_all add: info_ok_def globInfo_def likeInfoNorm_def likeInfoAlt_def)

lemma set_list_spec:
  assumes "c2 \<noteq> 0"
  shows "text_at z cs \<Longrightarrow>
    (case parse_items p (c2 # cs) of
       None \<Rightarrow> \<exists>b z'. set_list c p seen c2 z = Some (0, b, z')
     | Some (is, r) \<Rightarrow> \<exists>z'. set_list c p seen c2 z = Some (of_char CHR '']'', seen \<or> in_ranges c is, z') \<and> text_at z' r)"
  using assms
proof (induction "length cs" arbitrary: cs p seen c2 z rule: less_induct)
  case less
  have eq: "c = x \<longleftrightarrow> x \<le> c \<and> c \<le> x" for x :: u32 by auto
  show ?case
  proof (cases "c2 = of_char CHR '']''")
    case True
    then show ?thesis using less.prems by (simp add: set_list.simps [of c p seen 93 z])
  next
    case nb: False
    have stop: "set_list c p' seen' 0 [] = Some (0, seen', [])" for p' seen'
      by (simp add: set_list.simps [of c p' seen' 0])
    show ?thesis
    proof (cases cs)
      case Nil
      then have "set_list c p seen c2 z = Some (0, seen \<or> c = c2, [])"
        using less.prems nb text_at_end [of z] stop by (simp add: set_list.simps [of c p seen c2 z])
      then show ?thesis using Nil nb by simp
    next
      case (Cons d ds)
      obtain z' b where d: "sqlite3Utf8Read z = Some (d, z')" "text_at z' ds" "d \<noteq> 0" "rd z 0 = Some b" "b \<noteq> 0"
          "\<And>x. x < 0x80 \<Longrightarrow> d = ucast x \<longleftrightarrow> b = x"
        using text_at_step [of z d ds] less.prems(1) Cons by metis
      have b: "b = of_char CHR '']'' \<longleftrightarrow> d = of_char CHR '']''" using d(6) [of "of_char CHR '']''"] by simp
      show ?thesis
      proof (cases "c2 = of_char CHR ''-'' \<and> p > 0 \<and> d \<noteq> of_char CHR '']''")
        case True
        show ?thesis
        proof (cases ds)
          case Nil
          then have "set_list c p seen c2 z = Some (0, seen \<or> p \<le> c \<and> c \<le> d, [])"
            using True nb d b less.prems(2) text_at_end [of z'] stop by (subst set_list.simps) simp
          then show ?thesis using True Cons Nil nb by simp
        next
          case (Cons e es)
          obtain z'' where e: "sqlite3Utf8Read z' = Some (e, z'')" "text_at z'' es" "e \<noteq> 0"
            using text_at_step [of z' e es] d(2) Cons by metis
          have "set_list c p seen c2 z = set_list c 0 (seen \<or> p \<le> c \<and> c \<le> d) e z''"
            using True nb d b e less.prems(2) by (subst set_list.simps) simp
          moreover have "parse_items p (c2 # cs) = map_option (\<lambda>(is, r). ((p, d) # is, r)) (parse_items 0 ds)"
            using True nb \<open>cs = d # ds\<close> by auto
          ultimately show ?thesis
            using less.hyps [OF _ e(2,3), of 0 "seen \<or> p \<le> c \<and> c \<le> d"] Cons \<open>cs = d # ds\<close>
            by (cases "parse_items 0 ds") (auto simp del: parse_items.simps)
        qed
      next
        case False
        then have "set_list c p seen c2 z = set_list c c2 (seen \<or> c = c2) d z'"
          using nb d b less.prems(2) by (subst set_list.simps) auto
        moreover have "parse_items p (c2 # cs) = map_option (\<lambda>(is, r). ((c2, c2) # is, r)) (parse_items c2 cs)"
          using False nb Cons by auto
        ultimately show ?thesis
          using less.hyps [OF _ d(2,3), of c2 "seen \<or> c = c2"] Cons eq [of c2]
          by (cases "parse_items c2 cs") (auto simp del: parse_items.simps)
      qed
    qed
  qed
qed

lemma set_list_text:
  assumes "text_at z cs" and "sqlite3Utf8Read z = Some (c2, z1)"
  shows "case parse_items 0 cs of
      None \<Rightarrow> \<exists>b z'. set_list c 0 seen c2 z1 = Some (0, b, z')
    | Some (is, r) \<Rightarrow> \<exists>z'. set_list c 0 seen c2 z1 = Some (of_char CHR '']'', seen \<or> in_ranges c is, z') \<and> text_at z' r"
proof (cases cs)
  case Nil
  then have "c2 = 0" using assms text_at_end by simp
  then show ?thesis using Nil by (simp add: set_list.simps [of c 0 seen 0])
next
  case (Cons d ds)
  then have "text_at z1 ds" "c2 = d" "d \<noteq> 0" using assms by (metis option.inject prod.inject text_at_step)+
  then show ?thesis using set_list_spec [of c2 z1 ds c 0 seen] Cons by simp
qed

lemma text_at_read: "text_at z cs \<Longrightarrow> \<exists>z'. sqlite3Utf8Read z = Some (if cs = [] then 0 else hd cs, z') \<and> (cs \<noteq> [] \<longrightarrow> text_at z' (tl cs))"
  by (cases cs) (auto elim: text_at_step dest: text_at_end)

lemma read_if_spec:
  assumes "text_at z cs" and "sqlite3Utf8Read z = Some (c2, z1)" and "x \<noteq> 0"
  obtains c3 z3 y where "read_if x c2 z1 = Some (cs \<noteq> [] \<and> hd cs = x, c3, z3)"
    "text_at y (if cs \<noteq> [] \<and> hd cs = x then tl cs else cs)" "sqlite3Utf8Read y = Some (c3, z3)"
proof (cases "cs \<noteq> [] \<and> hd cs = x")
  case True
  then have "c2 = x" "text_at z1 (tl cs)" using text_at_read [OF assms(1)] assms(2) by auto
  with text_at_read [of z1 "tl cs"] True that show thesis by (auto simp: read_if_def)
next
  case False
  then have "c2 \<noteq> x" using text_at_read [OF assms(1)] assms(2,3) by (auto split: if_splits)
  with False assms that show thesis by (auto simp: read_if_def)
qed

lemma set_match_spec:
  assumes "text_at z cs"
  shows "case parse_set cs of
      None \<Rightarrow> \<exists>z'. set_match c z = Some (False, z')
    | Some (b, is, r) \<Rightarrow> \<exists>z'. set_match c z = Some (in_ranges c is \<noteq> b, z') \<and> text_at z' r"
proof -
  let ?cl = "of_char CHR '']'' :: u32"
  define inv where "inv \<longleftrightarrow> cs \<noteq> [] \<and> hd cs = of_char CHR ''^''"
  define cs1 where "cs1 = (if inv then tl cs else cs)"
  define first where "first \<longleftrightarrow> cs1 \<noteq> [] \<and> hd cs1 = ?cl"
  define cs2 where "cs2 = (if first then tl cs1 else cs1)"
  obtain c0 z0 where 0: "sqlite3Utf8Read z = Some (c0, z0)" using text_at_read [OF assms] by blast
  obtain c1 z1 y1 where 1: "read_if (of_char CHR ''^'') c0 z0 = Some (inv, c1, z1)" "text_at y1 cs1" "sqlite3Utf8Read y1 = Some (c1, z1)"
    by (rule read_if_spec [OF assms 0, of "of_char CHR ''^''"]) (auto simp: inv_def cs1_def)
  obtain c2 z2 y2 where 2: "read_if ?cl c1 z1 = Some (first, c2, z2)" "text_at y2 cs2" "sqlite3Utf8Read y2 = Some (c2, z2)"
    by (rule read_if_spec [OF 1(2,3), of ?cl]) (auto simp: first_def cs2_def)
  have m: "set_match c z = set_list c 0 (first \<and> c = ?cl) c2 z2 \<bind> (\<lambda>(c2, seen, z). Some (\<not> (c2 = 0 \<or> seen = inv), z))"
    unfolding set_match_def 0 1(1) 2(1) bind.bind_lunit prod.case ..
  have p: "parse_set cs = map_option (\<lambda>(is, r). (inv, (if first then (?cl, ?cl) # is else is), r)) (parse_items 0 cs2)"
    unfolding parse_set_def Let_def inv_def [symmetric] cs1_def [symmetric] first_def [symmetric] cs2_def by simp
  have cl: "in_ranges c ((?cl, ?cl) # is) \<longleftrightarrow> c = ?cl \<or> in_ranges c is" "?cl \<noteq> 0" for "is" by auto
  show ?thesis
  proof (cases "parse_items 0 cs2")
    case None
    then show ?thesis using set_list_text [OF 2(2,3), of c "first \<and> c = ?cl"] m p by auto
  next
    case (Some ir)
    obtain "is" r where ir: "ir = (is, r)" by (cases ir)
    then obtain z' where "set_list c 0 (first \<and> c = ?cl) c2 z2 = Some (?cl, first \<and> c = ?cl \<or> in_ranges c is, z')" "text_at z' r"
      using set_list_text [OF 2(2,3), of c "first \<and> c = ?cl"] Some by auto
    then show ?thesis using m p Some ir cl by (cases first) auto
  qed
qed

lemma skip_wild_spec:
  assumes ok: "info_ok i esc"
  shows "text_at z p \<Longrightarrow> text_at s t \<Longrightarrow>
    skip_wild i z s = Some None \<and> \<not> matches i (PAny # parse i esc p) t \<or>
    (\<exists>c z0 z' s' p' t'. skip_wild i z s = Some (Some (c, z0, z', s')) \<and> text_at z0 p' \<and> sqlite3Utf8Read z0 = Some (c, z') \<and>
      text_at s' t' \<and> length p' \<le> length p \<and> c \<noteq> ucast (matchAll i) \<and> c \<noteq> ucast (matchOne i) \<and>
      (PEsc \<in> set (parse i esc p') \<longrightarrow> PEsc \<in> set (parse i esc p)) \<and>
      matches i (PAny # parse i esc p) t = matches i (PAny # parse i esc p') t')"
proof (induction p arbitrary: z s t)
  case Nil
  have nz: "ucast (matchAll i) \<noteq> (0 :: u32)" "ucast (matchOne i) \<noteq> (0 :: u32)"
    using ok ucast_u8_inj [of _ 0] by (auto simp: info_ok_def)
  have "skip_wild i z s = Some (Some (0, z, [], s))"
    using text_at_end [OF Nil(1)] nz by (subst skip_wild.simps) auto
  then show ?case using Nil text_at_end [OF Nil(1)] nz [symmetric] order_refl by blast
next
  case (Cons c p)
  obtain z1 where z: "sqlite3Utf8Read z = Some (c, z1)" "text_at z1 p"
    using text_at_step [OF Cons.prems(1)] by metis
  have ne: "ucast (matchAll i) \<noteq> (ucast (matchOne i) :: u32)" using ok ucast_u8_inj by (auto simp: info_ok_def)
  consider (all) "c = ucast (matchAll i)" | (one) "c = ucast (matchOne i)" "c \<noteq> ucast (matchAll i)"
    | (other) "c \<noteq> ucast (matchAll i)" "c \<noteq> ucast (matchOne i)" by blast
  then show ?case
  proof cases
    case all
    then have "skip_wild i z s = skip_wild i z1 s" using z(1) ne by (subst skip_wild.simps) simp
    moreover have "parse i esc (c # p) = PAny # parse i esc p" using all by simp
    ultimately show ?thesis
      using Cons.IH [OF z(2) Cons.prems(2)] matches_any_any by (fastforce simp del: matches.simps parse.simps)
  next
    case one
    have pr: "parse i esc (c # p) = POne # parse i esc p" using one by simp
    show ?thesis
    proof (cases t)
      case Nil
      then have "skip_wild i z s = Some None" using z(1) one text_at_end [of s] Cons.prems(2) by (subst skip_wild.simps) simp
      then show ?thesis unfolding pr matches_any_one using Nil by simp
    next
      case (Cons d t')
      obtain s1 where s: "sqlite3Utf8Read s = Some (d, s1)" "text_at s1 t'" "d \<noteq> 0"
        using text_at_step [of s d t'] Cons.prems(2) Cons by metis
      then have "skip_wild i z s = skip_wild i z1 s1" using z(1) one by (subst skip_wild.simps) simp
      then show ?thesis
        using Cons.IH [OF z(2) s(2)] unfolding pr matches_any_one Cons
        by (fastforce simp del: matches.simps parse.simps)
    qed
  next
    case other
    then have "skip_wild i z s = Some (Some (c, z, z1, s))" using z(1) by (subst skip_wild.simps) simp
    then show ?thesis using Cons.prems z(1) other by blast
  qed
qed

lemma match_char_spec:
  assumes "\<And>s t. text_at s t \<Longrightarrow> patternCompare i esc False z s = Some (matches i ts t)"
  shows "text_at s t \<Longrightarrow> match_char i esc c z s = Some (matches i (PAny # PLit c # ts) t)"
proof (induction t arbitrary: s)
  case Nil
  then show ?case using text_at_end [of s] by (subst match_char.simps) simp
next
  case (Cons d t)
  obtain s1 where s: "sqlite3Utf8Read s = Some (d, s1)" "text_at s1 t" "d \<noteq> 0"
    using text_at_step [OF Cons.prems] by metis
  have "matches i (PAny # PLit c # ts) (d # t) \<longleftrightarrow>
      glob_fold i c = glob_fold i d \<and> matches i ts t \<or> matches i (PAny # PLit c # ts) t"
    by (subst matches_any_Cons) simp
  then show ?case
    using s assms [OF s(2)] Cons.IH [OF s(2)] by (subst match_char.simps) (auto simp del: matches.simps)
qed

lemma match_set_spec:
  assumes "\<And>s t. text_at s t \<Longrightarrow> patternCompare i esc False z s = Some (matches i ts t)" and "\<not> matches i ts []"
  shows "text_at s t \<Longrightarrow> match_set i esc z s = Some (matches i (PAny # ts) t)"
proof (induction t arbitrary: s)
  case Nil
  then show ?case using text_at_end [of s] assms(2) by (subst match_set.simps) simp
next
  case (Cons d t)
  obtain s1 b where s: "SQLITE_SKIP_UTF8 s = Some s1" "text_at s1 t" "rd s 0 = Some b" "b \<noteq> 0"
    using text_at_step [OF Cons.prems] by metis
  then show ?case
    using assms(1) [OF Cons.prems] Cons.IH [OF s(2)]
    by (subst match_set.simps) (auto simp add: matches_any_Cons simp del: matches.simps)
qed

text \<open>One round of the comparison, given that shorter patterns are compared correctly.\<close>

definition correct_below :: "compareInfo \<Rightarrow> u32 \<Rightarrow> nat \<Rightarrow> bool" where
  "correct_below i esc n \<longleftrightarrow> (\<forall>q y s t. length q < n \<longrightarrow> text_at y q \<longrightarrow> text_at s t \<longrightarrow> PEsc \<notin> set (parse i esc q) \<longrightarrow>
     patternCompare i esc False y s = Some (matches i (parse i esc q) t))"

lemma correct_belowD:
  "correct_below i esc n \<Longrightarrow> length q < n \<Longrightarrow> text_at y q \<Longrightarrow> PEsc \<notin> set (parse i esc q) \<Longrightarrow> text_at s t \<Longrightarrow>
    patternCompare i esc False y s = Some (matches i (parse i esc q) t)"
  unfolding correct_below_def by blast

lemma ucast_matchSet: "info_ok i esc \<Longrightarrow> c \<noteq> 0 \<Longrightarrow> \<not> (c = ucast (matchSet i) \<and> c = esc)"
  by (auto simp: info_ok_def)

text \<open>Behind the wildcards that follow a \<^verbatim>\<open>matchAll\<close>.\<close>

lemma after_wild:
  assumes ok: "info_ok i esc" and below: "correct_below i esc (Suc (length p))" and z: "text_at z0 p" "sqlite3Utf8Read z0 = Some (c, z)"
    and s: "text_at s t" and c: "c \<noteq> ucast (matchAll i)" "c \<noteq> ucast (matchOne i)" and pe: "PEsc \<notin> set (parse i esc p)"
  shows "(if c = 0 then Some True
    else if c = esc then do { (c, z) \<leftarrow> sqlite3Utf8Read z; if c = 0 then Some False else match_char i esc c z s }
    else if c = ucast (matchSet i) then match_set i esc z0 s
    else match_char i esc c z s) = Some (matches i (PAny # parse i esc p) t)"
proof (cases p)
  case Nil
  then have "c = 0" using text_at_end z by simp
  then show ?thesis using Nil by auto
next
  case (Cons c' q)
  then have q: "c' = c" "text_at z q" "c \<noteq> 0" using z text_at_step [of z0 c' q] by auto
  have pc: "patternCompare i esc False y s = Some (matches i (parse i esc r) t)"
    if "text_at y r" "PEsc \<notin> set (parse i esc r)" "length r \<le> length p" "text_at s t" for y r s t
    using correct_belowD [OF below] that by simp
  consider (esc) "c = esc" "c \<noteq> ucast (matchSet i)" | (set) "c = ucast (matchSet i)" "c \<noteq> esc"
    | (lit) "c \<noteq> ucast (matchSet i)" "c \<noteq> esc" using ucast_matchSet [OF ok q(3)] by blast
  then show ?thesis
  proof cases
    case esc
    obtain d r where r: "q = d # r" using pe Cons q(1) esc c by (cases q) auto
    obtain z' where z': "sqlite3Utf8Read z = Some (d, z')" "text_at z' r" "d \<noteq> 0"
      using text_at_step [of z d r] q(2) r by metis
    have pr: "parse i esc p = PLit d # parse i esc r" using Cons q(1) r esc c by simp
    have "match_char i esc d z' s = Some (matches i (PAny # PLit d # parse i esc r) t)"
      by (rule match_char_spec [OF pc]) (use z' pe pr Cons r s in auto)
    then show ?thesis using esc q(3) z' pr by (simp del: matches.simps parse.simps)
  next
    case set
    have "\<not> matches i (parse i esc p) []" using Cons q(1) set c by (auto split: option.splits)
    then have "match_set i esc z0 s = Some (matches i (PAny # parse i esc p) t)"
      by (intro match_set_spec [OF pc]) (use z pe s in auto)
    then show ?thesis using set q(3) by (simp del: matches.simps parse.simps)
  next
    case lit
    have pr: "parse i esc p = PLit c # parse i esc q" using Cons q(1) lit c by simp
    have "match_char i esc c z s = Some (matches i (PAny # PLit c # parse i esc q) t)"
      by (rule match_char_spec [OF pc]) (use q pe pr Cons s in auto)
    then show ?thesis using lit q(3) pr by (simp del: matches.simps parse.simps)
  qed
qed

lemma step_all:
  assumes ok: "info_ok i esc" and below: "correct_below i esc (length (c # q))" and z: "sqlite3Utf8Read z = Some (c, z1)" "text_at z1 q"
    and c: "c = ucast (matchAll i)" "c \<noteq> 0" and s: "text_at s t" and pe: "PEsc \<notin> set (parse i esc (c # q))"
  shows "patternCompare i esc False z s = Some (matches i (parse i esc (c # q)) t)"
proof -
  let ?k = "\<lambda>r. case r of None \<Rightarrow> Some False
        | Some (c, z0, z, s) \<Rightarrow>
            if c = 0 then Some True
            else if c = esc then do { (c, z) \<leftarrow> sqlite3Utf8Read z; if c = 0 then Some False else match_char i esc c z s }
            else if c = ucast (matchSet i) then match_set i esc z0 s
            else match_char i esc c z s"
  have eq: "patternCompare i esc False z s = skip_wild i z1 s \<bind> ?k"
    using z(1) c by (subst patternCompare.simps) simp
  have pr: "parse i esc (c # q) = PAny # parse i esc q" using c by simp
  from skip_wild_spec [OF ok z(2) s] show ?thesis
  proof (elim disjE exE conjE)
    fix c' z0 z' s' p' t'
    assume w: "skip_wild i z1 s = Some (Some (c', z0, z', s'))" "text_at z0 p'" "sqlite3Utf8Read z0 = Some (c', z')"
      "text_at s' t'" "length p' \<le> length q" "c' \<noteq> ucast (matchAll i)" "c' \<noteq> ucast (matchOne i)"
      "PEsc \<in> set (parse i esc p') \<longrightarrow> PEsc \<in> set (parse i esc q)"
      "matches i (PAny # parse i esc q) t = matches i (PAny # parse i esc p') t'"
    have "correct_below i esc (Suc (length p'))" using below w(5) unfolding correct_below_def by fastforce
    moreover have "PEsc \<notin> set (parse i esc p')" using w(8) pe pr by auto
    ultimately show ?thesis
      unfolding eq w(1) bind.bind_lunit option.case prod.case pr w(9)
      by (intro after_wild [OF ok _ w(2,3,4,6,7)])
  qed (simp add: eq pr del: matches.simps parse.simps)
qed

lemma step_one:
  assumes below: "correct_below i esc (length (c # q))" and z: "sqlite3Utf8Read z = Some (c, z1)" "text_at z1 q" "c \<noteq> 0"
    and c: "c \<noteq> ucast (matchAll i)" "c = ucast (matchOne i)" and s: "text_at s t" and pe: "PEsc \<notin> set (parse i esc (c # q))"
  shows "patternCompare i esc False z s = Some (matches i (parse i esc (c # q)) t)"
proof (cases t)
  case Nil
  then show ?thesis using z c text_at_end [of s] s by (subst patternCompare.simps) simp
next
  case (Cons d t')
  obtain s1 where s1: "sqlite3Utf8Read s = Some (d, s1)" "text_at s1 t'" "d \<noteq> 0"
    using text_at_step [of s d t'] s Cons by metis
  have pr: "parse i esc (c # q) = POne # parse i esc q" using c by simp
  have "patternCompare i esc False z s = patternCompare i esc False z1 s1"
    using z c s1 by (subst patternCompare.simps) simp
  also have "\<dots> = Some (matches i (parse i esc q) t')"
    using correct_belowD [OF below _ z(2) _ s1(2)] pe pr by simp
  finally show ?thesis unfolding pr Cons by simp
qed

lemma step_set:
  assumes below: "correct_below i esc (length (c # q))" and z: "sqlite3Utf8Read z = Some (c, z1)" "text_at z1 q" "c \<noteq> 0"
    and c: "c \<noteq> ucast (matchAll i)" "c \<noteq> ucast (matchOne i)" "c = ucast (matchSet i)" and s: "text_at s t"
    and pe: "PEsc \<notin> set (parse i esc (c # q))"
  shows "patternCompare i esc False z s = Some (matches i (parse i esc (c # q)) t)"
proof (cases t)
  case Nil
  then show ?thesis using z c text_at_end [of s] s by (subst patternCompare.simps) (simp split: option.split)
next
  case (Cons d t')
  obtain s1 where s1: "sqlite3Utf8Read s = Some (d, s1)" "text_at s1 t'" "d \<noteq> 0"
    using text_at_step [of s d t'] s Cons by metis
  have eq: "patternCompare i esc False z s = set_match d z1 \<bind>
      (\<lambda>(ok, z). if ok then patternCompare i esc False z s1 else Some False)"
    using z c s1 by (subst patternCompare.simps) simp
  show ?thesis
  proof (cases "parse_set q")
    case None
    then show ?thesis using eq set_match_spec [OF z(2), of d] c by auto
  next
    case (Some x)
    obtain b "is" r where x: "x = (b, is, r)" by (cases x)
    have pr: "parse i esc (c # q) = PSet b is # parse i esc r" using c Some x by simp
    obtain z' where z': "set_match d z1 = Some (in_ranges d is \<noteq> b, z')" "text_at z' r"
      using set_match_spec [OF z(2), of d] Some x by auto
    have "length r < length (c # q)" using parse_set_length Some x by (auto simp: less_Suc_eq_le)
    then have "patternCompare i esc False z' s1 = Some (matches i (parse i esc r) t')"
      using correct_belowD [OF below _ z'(2) _ s1(2)] pe pr by simp
    then show ?thesis unfolding eq z'(1) pr Cons by simp
  qed
qed

lemma ascii_bound:
  assumes "(c :: u32) AND NOT 0x7f = 0"
  shows "unat c < 128"
proof -
  have "c = take_bit 7 c"
  proof (rule bit_word_eqI)
    fix n assume "n < LENGTH(32)"
    moreover have "\<not> bit (c AND NOT 0x7f) n" using assms by simp
    moreover have "bit (0x7f :: u32) n \<longleftrightarrow> n < 7"
      using bit_mask_iff [of 7 n, where 'a = "32 word"] \<open>n < LENGTH(32)\<close> by (simp add: mask_eq_exp_minus_1)
    ultimately show "bit c n \<longleftrightarrow> bit (take_bit 7 c) n" by (auto simp: bit_simps)
  qed
  then have "unat c = take_bit 7 (unat c)" by (metis unsigned_take_bit_eq)
  then show ?thesis using take_bit_nat_less_exp [of 7 "unat c"] by simp
qed

lemma glob_fold_0: "glob_fold i c = 0 \<longleftrightarrow> c = 0"
proof -
  have "GlobUpperToLower c = 0 \<longleftrightarrow> c = 0"
  proof (cases "c AND NOT 0x7f = 0")
    case True
    let ?x = "word_of_nat (unat c) :: u8"
    have x: "unat ?x = unat c" using ascii_bound [OF True] by (simp add: unsigned_ucast_eq take_bit_nat_eq_self_iff)
    then have "GlobUpperToLower c = ucast (sqlite3Tolower ?x)" using True by (simp add: GlobUpperToLower_def sqlite3Tolower_def)
    then have "GlobUpperToLower c = 0 \<longleftrightarrow> ?x = 0" using ucast_u8_inj [of "sqlite3Tolower ?x" 0] by simp
    also have "\<dots> \<longleftrightarrow> c = 0" using x by (metis unat_eq_zero)
    finally show ?thesis .
  qed (auto simp: GlobUpperToLower_def)
  then show ?thesis by (simp add: glob_fold_def)
qed

lemma step_literal:
  assumes below: "correct_below i esc n" and "length q < n" and "text_at z1 q" and "PEsc \<notin> set (parse i esc q)"
    and s: "text_at s t" and c: "c \<noteq> 0"
  shows "do { (c2, s) \<leftarrow> sqlite3Utf8Read s; if glob_fold i c \<noteq> glob_fold i c2 then Some False else patternCompare i esc False z1 s } =
    Some (matches i (PLit c # parse i esc q) t)"
proof (cases t)
  case Nil
  have "glob_fold i c \<noteq> glob_fold i 0" using c glob_fold_0 by metis
  then show ?thesis using Nil text_at_end [of s] s by simp
next
  case (Cons d t')
  obtain s1 where s1: "sqlite3Utf8Read s = Some (d, s1)" "text_at s1 t'" using text_at_step [of s d t'] s Cons by metis
  then have "patternCompare i esc False z1 s1 = Some (matches i (parse i esc q) t')"
    using correct_belowD [OF below assms(2-4)] by blast
  then show ?thesis using s1 Cons by auto
qed

lemma step_esc:
  assumes ok: "info_ok i esc" and below: "correct_below i esc (length (c # q))" and z: "sqlite3Utf8Read z = Some (c, z1)" "text_at z1 q" "c \<noteq> 0"
    and c: "c \<noteq> ucast (matchAll i)" "c \<noteq> ucast (matchOne i)" "c \<noteq> ucast (matchSet i)" "c = esc" and s: "text_at s t"
    and pe: "PEsc \<notin> set (parse i esc (c # q))"
  shows "patternCompare i esc False z s = Some (matches i (parse i esc (c # q)) t)"
proof -
  obtain d r where r: "q = d # r" using pe c by (cases q) auto
  obtain z2 where z2: "sqlite3Utf8Read z1 = Some (d, z2)" "text_at z2 r" "d \<noteq> 0"
    using text_at_step [of z1 d r] z(2) r by metis
  have pr: "parse i esc (c # q) = PLit d # parse i esc r" using c r by simp
  have "matchSet i = 0" using ok c(4) z(3) by (auto simp: info_ok_def)
  then have "patternCompare i esc True z1 s =
      do { (c2, s) \<leftarrow> sqlite3Utf8Read s; if glob_fold i d \<noteq> glob_fold i c2 then Some False else patternCompare i esc False z2 s }"
    using z2 by (subst patternCompare.simps) simp
  moreover have "patternCompare i esc False z s = patternCompare i esc True z1 s"
    using z c by (subst patternCompare.simps) simp
  ultimately show ?thesis
    using step_literal [OF below _ z2(2) _ s z2(3)] pe pr r by simp
qed

lemma step_lit:
  assumes below: "correct_below i esc (length (c # q))" and z: "sqlite3Utf8Read z = Some (c, z1)" "text_at z1 q" "c \<noteq> 0"
    and c: "c \<noteq> ucast (matchAll i)" "c \<noteq> ucast (matchOne i)" "c \<noteq> ucast (matchSet i)" "c \<noteq> esc" and s: "text_at s t"
    and pe: "PEsc \<notin> set (parse i esc (c # q))"
  shows "patternCompare i esc False z s = Some (matches i (parse i esc (c # q)) t)"
proof -
  have pr: "parse i esc (c # q) = PLit c # parse i esc q" using c by simp
  have "patternCompare i esc False z s =
      do { (c2, s) \<leftarrow> sqlite3Utf8Read s; if glob_fold i c \<noteq> glob_fold i c2 then Some False else patternCompare i esc False z1 s }"
    using z c by (subst patternCompare.simps) simp
  then show ?thesis using step_literal [OF below _ z(2) _ s z(3)] pe pr by simp
qed

lemma patternCompare_spec:
  assumes ok: "info_ok i esc"
  shows "text_at z p \<Longrightarrow> text_at s t \<Longrightarrow> PEsc \<notin> set (parse i esc p) \<Longrightarrow>
    patternCompare i esc False z s = Some (matches i (parse i esc p) t)"
proof (induction "length p" arbitrary: p z s t rule: less_induct)
  case less
  have below: "correct_below i esc (length p)" unfolding correct_below_def using less.hyps by blast
  show ?case
  proof (cases p)
    case Nil
    obtain x where "rd s 0 = Some x" "x = 0 \<longleftrightarrow> t = []"
      using less.prems(2) text_at_end [of s] text_at_step [of s "hd t" "tl t"] by (cases t) auto
    then show ?thesis using text_at_end [of z] less.prems(1) Nil by (subst patternCompare.simps) simp
  next
    case (Cons c q)
    obtain z1 where z: "sqlite3Utf8Read z = Some (c, z1)" "text_at z1 q" "c \<noteq> 0"
      using text_at_step [of z c q] less.prems(1) Cons by metis
    note steps = step_all [OF ok _ z(1,2) _ z(3)] step_one [OF _ z] step_set [OF _ z] step_esc [OF ok _ z] step_lit [OF _ z]
    show ?thesis
      using steps below less.prems(2,3) unfolding Cons by blast
  qed
qed

text \<open>C6. \<^verbatim>\<open>LIKE\<close> and \<^verbatim>\<open>GLOB\<close> do what their patterns say: on texts \<open>p\<close> and \<open>s\<close> without zero bytes and for a
  pattern whose last character is not a dangling escape, the comparison reads nothing outside the
  texts, terminates, and answers whether the characters of \<open>s\<close> are a match of the parsed pattern:
  \<^verbatim>\<open>%\<close> or \<^verbatim>\<open>*\<close> stands for any sequence, \<^verbatim>\<open>_\<close> or \<^verbatim>\<open>?\<close> for any character, a set for a character in or not in its
  ranges, and any other or escaped character for itself, up to case for \<^verbatim>\<open>LIKE\<close>.\<close>

theorem patternCompare_matches:
  assumes "pInfo = globInfo \<and> esc = 0 \<or> pInfo = likeInfoNorm \<or> pInfo = likeInfoAlt"
    and "0 \<notin> set p" and "0 \<notin> set s" and "PEsc \<notin> set (parse pInfo esc (chars p))"
  shows "patternCompare pInfo esc False (p @ [0]) (s @ [0]) = Some (matches pInfo (parse pInfo esc (chars p)) (chars s))"
proof -
  have "info_ok pInfo esc" using assms(1) info_ok_instances by auto
  then show ?thesis by (rule patternCompare_spec) (use assms(2-4) in \<open>auto intro: text_at_chars\<close>)
qed

lemma chars_ascii: "c < 0xc0 \<Longrightarrow> chars (c # s) = ucast c # chars s" "chars [] = []"
  by (auto simp: chars.simps [of "c # s"] chars.simps [of "[]"])

theorem patternCompare_matches_witness:
  "patternCompare likeInfoNorm 0 False ([0x41, 0x25] @ [0]) ([0x61, 0x62, 0x63] @ [0]) = Some True"
proof -
  have "parse likeInfoNorm 0 (chars [0x41, 0x25]) = [PLit 0x41, PAny]"
    by (simp add: chars_ascii likeInfoNorm_def)
  moreover have "matches likeInfoNorm [PLit 0x41, PAny] (chars [0x61, 0x62, 0x63])"
    by (auto simp: chars_ascii glob_fold_def likeInfoNorm_def GlobUpperToLower_def sqlite3UpperToLower_def)
  ultimately show ?thesis
    using patternCompare_matches [of likeInfoNorm 0 "[0x41, 0x25]" "[0x61, 0x62, 0x63]"] by simp
qed

section \<open>The SQL functions\<close>

lemma utf8CharLen_text: "text_at z cs \<Longrightarrow> length cs < n \<Longrightarrow> utf8CharLen_loop n None r z = Some (r + length cs)"
proof (induction cs arbitrary: n z r)
  case Nil
  then show ?case using text_at_end [of z] by (cases n) auto
next
  case (Cons c cs)
  obtain z' b where "rd z 0 = Some b" "b \<noteq> 0" "SQLITE_SKIP_UTF8 z = Some z'" "text_at z' cs"
    using text_at_step [OF Cons.prems(1)] by metis
  then show ?case using Cons.IH [of z' "n - 1" "Suc r"] Cons.prems(2) by (cases n) auto
qed

lemma text_at_length: "text_at z cs \<Longrightarrow> length cs < length z"
proof (induction cs arbitrary: z)
  case (Cons c cs)
  then obtain z' where "sqlite3Utf8Read z = Some (c, z')" "text_at z' cs" using text_at_step [of z c cs] by metis
  then show ?case using Cons.IH Utf8Read_length by fastforce
qed (auto elim: text_at_NilE)

lemma sqlite3Utf8CharLen_chars:
  assumes "0 \<notin> set s"
  shows "sqlite3Utf8CharLen (s @ [0]) (- 1) = Some (length (chars s))"
  using utf8CharLen_text [OF text_at_chars [OF assms], of "length (s @ [0]) + 1" 0] text_at_length [OF text_at_chars [OF assms]]
  by (simp add: sqlite3Utf8CharLen_def)

text \<open>C37. The SQL functions \<^verbatim>\<open>like(B,A)\<close>, \<^verbatim>\<open>like(B,A,E)\<close> and \<^verbatim>\<open>glob(B,A)\<close> stay inside their arguments and
  terminate. A pattern longer than the limit is an error before anything else; an escape argument
  that is NULL gives NULL and one that is not a single character is an error; a NULL pattern or text
  gives NULL; and otherwise the result is whether the text matches the pattern, for patterns without
  a dangling escape.\<close>

theorem likeFunc_result:
  assumes "pInfo = globInfo \<and> argEsc = None \<or> pInfo = likeInfoNorm \<or> pInfo = likeInfoAlt"
    and "\<forall>b. zB = Some b \<longrightarrow> 0 \<notin> set b" and "\<forall>a. zA = Some a \<longrightarrow> 0 \<notin> set a" and "\<forall>e. argEsc = Some (Some e) \<longrightarrow> 0 \<notin> set e"
    and "esc = (case argEsc of Some (Some e) \<Rightarrow> if e = [] then 0 else hd (chars e) | _ \<Rightarrow> 0)"
    and "\<forall>b. zB = Some b \<longrightarrow> PEsc \<notin> set (parse pInfo esc (chars b))"
  shows "likeFunc pInfo mx zB zA argEsc = Some
    (if \<exists>b. zB = Some b \<and> length b > mx then Result_error ''LIKE or GLOB pattern too complex''
     else if argEsc = Some None then Result_null
     else if \<exists>e. argEsc = Some (Some e) \<and> length (chars e) \<noteq> 1 then Result_error ''ESCAPE expression must be a single character''
     else case (zA, zB) of
         (Some a, Some b) \<Rightarrow> Result_int (matches pInfo (parse pInfo esc (chars b)) (chars a))
       | _ \<Rightarrow> Result_null)"
proof -
  have ok: "info_ok pInfo esc" using assms(1,5) info_ok_instances by auto
  have cmp: "patternCompare pInfo esc False (b @ [0]) (a @ [0]) = Some (matches pInfo (parse pInfo esc (chars b)) (chars a))"
    if "zA = Some a" "zB = Some b" for a b
    using patternCompare_spec [OF ok] text_at_chars assms(2,3,6) that by simp
  have esc: "sqlite3Utf8CharLen (e @ [0]) (- 1) = Some (length (chars e))"
      "length (chars e) = 1 \<Longrightarrow> \<exists>z. sqlite3Utf8Read (e @ [0]) = Some (esc, z)" if e: "argEsc = Some (Some e)" for e
  proof -
    have e0: "0 \<notin> set e" using assms(4) e by simp
    then show "sqlite3Utf8CharLen (e @ [0]) (- 1) = Some (length (chars e))" by (rule sqlite3Utf8CharLen_chars)
    assume one: "length (chars e) = 1"
    then have "e \<noteq> []" by (auto simp: chars_ascii)
    then show "\<exists>z. sqlite3Utf8Read (e @ [0]) = Some (esc, z)"
      using text_at_read [OF text_at_chars [OF e0]] one assms(5) e by auto
  qed
  show ?thesis
  proof (cases argEsc)
    case None
    then show ?thesis using cmp assms(5) by (auto simp: likeFunc_def Let_def split: option.splits)
  next
    case (Some ae)
    show ?thesis
    proof (cases ae)
      case None
      then show ?thesis using Some by (auto simp: likeFunc_def Let_def split: option.splits)
    next
      case e: (Some e)
      note es = esc [of e, unfolded Some e, OF refl]
      show ?thesis
        using es cmp Some e by (cases "length (chars e) = 1") (auto simp: likeFunc_def Let_def split: option.splits)
    qed
  qed
qed

theorem likeFunc_result_witness:
  "likeFunc likeInfoAlt 10 (Some [0x5c, 0x25]) (Some [0x25]) (Some (Some [0x5c])) = Some (Result_int True)"
proof -
  have "parse likeInfoAlt 0x5c (chars [0x5c, 0x25]) = [PLit 0x25]" by (simp add: chars_ascii likeInfoAlt_def)
  then show ?thesis
    by (subst likeFunc_result [where esc = "0x5c"]) (simp_all add: chars_ascii)
qed

end
