(* ===== verification/RecordFormat.thy ===== *)
theory RecordFormat
  imports Varint
begin

text \<open>
  The record format (\<^verbatim>\<open>vdbeaux.c\<close>, and the opcode \<^verbatim>\<open>OP_MakeRecord\<close> of \<^verbatim>\<open>vdbe.c\<close>): serial types, the data of a value, and a whole
  record with its header, written and read back.

  A value is a constructor of \<open>Mem\<close>; the flags of the C structure are its case. The bytes of a text or blob
  are copied where the C code keeps a pointer into the record. A double is its 64 bits; an unsigned 32-bit
  offset is a natural number below \<open>2 ^ 32\<close>, with the wrap-around of additions written out.
\<close>

section \<open>Values\<close>

text \<open>\<open>MBlob z n\<close> is a blob of the bytes \<open>z\<close> followed by \<open>n\<close> zero bytes that are not spelled out (\<^verbatim>\<open>MEM_Zero\<close>).\<close>

datatype Mem = MNull | MInt int | MReal u64 | MStr "u8 list" | MBlob "u8 list" nat

definition MAX_6BYTE :: int where
  "MAX_6BYTE = 0x00008000 * 2 ^ 32 - 1"

definition sqlite3VdbeSerialType :: "Mem \<Rightarrow> int \<Rightarrow> u32" where
  "sqlite3VdbeSerialType pMem file_format = (case pMem of
     MNull \<Rightarrow> 0
   | MInt i \<Rightarrow>
       if i < - MAX_6BYTE then 6
       else let u = (if i < 0 then - i else i) in
         if u \<le> 127 then (if (i = 0 \<or> i = 1) \<and> file_format \<ge> 4 then 8 + word_of_int u else 1)
         else if u \<le> 32767 then 2
         else if u \<le> 8388607 then 3
         else if u \<le> 2147483647 then 4
         else if u \<le> MAX_6BYTE then 5
         else 6
   | MReal _ \<Rightarrow> 7
   | MStr z \<Rightarrow> of_nat (length z * 2 + 12 + 1)
   | MBlob z n \<Rightarrow> of_nat ((length z + n) * 2 + 12))"

definition serial_aSize :: "nat list" where
  "serial_aSize = [0, 1, 2, 3, 4, 6, 8, 8, 0, 0, 0, 0]"

definition sqlite3VdbeSerialTypeLen :: "u32 \<Rightarrow> nat" where
  "sqlite3VdbeSerialTypeLen serial_type =
    (if serial_type \<ge> 12 then (unat serial_type - 12) div 2 else serial_aSize ! unat serial_type)"

section \<open>Writing a value\<close>

primrec serial_put_loop :: "nat \<Rightarrow> u8 list \<Rightarrow> u64 \<Rightarrow> u8 list option" where
  "serial_put_loop 0 buf v = Some buf"
| "serial_put_loop (Suc i) buf v = do { buf \<leftarrow> wr buf i (ucast (v AND 0xff)); serial_put_loop i buf (drop_bit 8 v) }"

definition mem_word :: "Mem \<Rightarrow> u64" where
  "mem_word pMem = (case pMem of MInt i \<Rightarrow> word_of_int i | MReal r \<Rightarrow> r | _ \<Rightarrow> 0)"

definition sqlite3VdbeSerialPut :: "u8 list \<Rightarrow> Mem \<Rightarrow> u32 \<Rightarrow> (u8 list \<times> nat) option" where
  "sqlite3VdbeSerialPut buf pMem serial_type =
    (if serial_type \<le> 7 \<and> serial_type > 0 then do {
       let len = sqlite3VdbeSerialTypeLen serial_type;
       buf \<leftarrow> serial_put_loop len buf (mem_word pMem);
       Some (buf, len)
     } else if serial_type \<ge> 12 then (case pMem of
         MStr z \<Rightarrow> map_option (\<lambda>buf. (buf, length z)) (copy_bytes buf 0 z)
       | MBlob z n \<Rightarrow> map_option (\<lambda>buf. (buf, length z)) (copy_bytes buf 0 z)
       | _ \<Rightarrow> None)
     else Some (buf, 0))"

section \<open>Reading a value\<close>

text \<open>The macros, on the bytes at a pointer. A signed byte is \<open>sint\<close>; \<open>int\<close> is wide enough for the intermediate results.\<close>

definition ONE_BYTE_INT :: "u8 list \<Rightarrow> int option" where
  "ONE_BYTE_INT x = do { a \<leftarrow> rd x 0; Some (sint a) }"

definition TWO_BYTE_INT :: "u8 list \<Rightarrow> int option" where
  "TWO_BYTE_INT x = do { a \<leftarrow> rd x 0; b \<leftarrow> rd x 1; Some (256 * sint a OR uint b) }"

definition THREE_BYTE_INT :: "u8 list \<Rightarrow> int option" where
  "THREE_BYTE_INT x = do { a \<leftarrow> rd x 0; b \<leftarrow> rd x 1; c \<leftarrow> rd x 2; Some (65536 * sint a OR push_bit 8 (uint b) OR uint c) }"

definition FOUR_BYTE_UINT :: "u8 list \<Rightarrow> u32 option" where
  "FOUR_BYTE_UINT x = do {
     a \<leftarrow> rd x 0; b \<leftarrow> rd x 1; c \<leftarrow> rd x 2; d \<leftarrow> rd x 3;
     Some (push_bit 24 (ucast a) OR push_bit 16 (ucast b) OR push_bit 8 (ucast c) OR ucast d)
   }"

definition EIGHT_BYTE_UINT :: "u8 list \<Rightarrow> u64 option" where
  "EIGHT_BYTE_UINT x = do {
     a \<leftarrow> FOUR_BYTE_UINT x; b \<leftarrow> FOUR_BYTE_UINT (drop 4 x);
     Some (push_bit 32 (ucast a) OR ucast b)
   }"

text \<open>An exponent of all ones with a non-zero fraction.\<close>

definition sqlite3IsNaN :: "u64 \<Rightarrow> bool" where
  "sqlite3IsNaN r \<longleftrightarrow> drop_bit 52 r AND 0x7ff = 0x7ff \<and> take_bit 52 r \<noteq> 0"

definition sqlite3VdbeSerialGet :: "u8 list \<Rightarrow> u32 \<Rightarrow> (Mem \<times> nat) option" where
  "sqlite3VdbeSerialGet buf serial_type =
    (if serial_type = 10 \<or> serial_type = 11 \<or> serial_type = 0 then Some (MNull, 0)
     else if serial_type = 1 then do { i \<leftarrow> ONE_BYTE_INT buf; Some (MInt i, 1) }
     else if serial_type = 2 then do { i \<leftarrow> TWO_BYTE_INT buf; Some (MInt i, 2) }
     else if serial_type = 3 then do { i \<leftarrow> THREE_BYTE_INT buf; Some (MInt i, 3) }
     else if serial_type = 4 then do { y \<leftarrow> FOUR_BYTE_UINT buf; Some (MInt (sint y), 4) }
     else if serial_type = 5 then do {
       y \<leftarrow> FOUR_BYTE_UINT (drop 2 buf); t \<leftarrow> TWO_BYTE_INT buf;
       Some (MInt (uint y + 2 ^ 32 * t), 6) }
     else if serial_type = 6 then do { x \<leftarrow> EIGHT_BYTE_UINT buf; Some (MInt (sint x), 8) }
     else if serial_type = 7 then do {
       x \<leftarrow> EIGHT_BYTE_UINT buf; Some (if sqlite3IsNaN x then MNull else MReal x, 8) }
     else if serial_type = 8 \<or> serial_type = 9 then Some (MInt (uint (serial_type - 8)), 0)
     else let len = (unat serial_type - 12) div 2 in
       if len \<le> length buf
       then Some (if serial_type AND 1 \<noteq> 0 then MStr (take len buf) else MBlob (take len buf) 0, len)
       else None)"

definition vdbeRecordDecodeInt :: "u32 \<Rightarrow> u8 list \<Rightarrow> int option" where
  "vdbeRecordDecodeInt serial_type aKey =
    (if serial_type = 0 \<or> serial_type = 1 then ONE_BYTE_INT aKey
     else if serial_type = 2 then TWO_BYTE_INT aKey
     else if serial_type = 3 then THREE_BYTE_INT aKey
     else if serial_type = 4 then map_option sint (FOUR_BYTE_UINT aKey)
     else if serial_type = 5 then do {
       y \<leftarrow> FOUR_BYTE_UINT (drop 2 aKey); t \<leftarrow> TWO_BYTE_INT aKey; Some (uint y + 2 ^ 32 * t) }
     else if serial_type = 6 then map_option sint (EIGHT_BYTE_UINT aKey)
     else Some (uint (serial_type - 8)))"

section \<open>Making a record\<close>

datatype make_result = MakeTooBig | MakeNoMem | Made "u8 list" nat

text \<open>The first loop, from the last field to the first: the bytes of data, the zero bytes at the end, the bytes of the header, and
  the fields with the zero bytes spelled out where data follows.\<close>

definition record_size_step :: "int \<Rightarrow> Mem \<Rightarrow> nat \<times> nat \<times> nat \<times> Mem list \<Rightarrow> nat \<times> nat \<times> nat \<times> Mem list" where
  "record_size_step file_format pRec acc = (case acc of (nData, nZero, nHdr, recs) \<Rightarrow>
     let serial_type = sqlite3VdbeSerialType pRec file_format;
         len = sqlite3VdbeSerialTypeLen serial_type;
         nHdr' = nHdr + (if serial_type \<le> 127 then 1 else sqlite3VarintLen (ucast serial_type))
     in case pRec of
          MBlob z n \<Rightarrow>
            if nData \<noteq> 0 then (nData + len, nZero, nHdr', MBlob (z @ replicate n 0) 0 # recs)
            else (nData + (len - n), nZero + n, nHdr', pRec # recs)
        | _ \<Rightarrow> (nData + len, nZero, nHdr', pRec # recs))"

definition record_header_size :: "nat \<Rightarrow> nat" where
  "record_header_size nHdr =
    (if nHdr \<le> 126 then nHdr + 1
     else let nVarint = sqlite3VarintLen (of_nat nHdr); n = nHdr + nVarint
          in if nVarint < sqlite3VarintLen (of_nat n) then n + 1 else n)"

text \<open>A routine that writes at a pointer, applied at an offset of a buffer.\<close>

definition at_offset :: "nat \<Rightarrow> (u8 list \<Rightarrow> (u8 list \<times> nat) option) \<Rightarrow> u8 list \<Rightarrow> (u8 list \<times> nat) option" where
  "at_offset i f z = (if i \<le> length z then map_option (\<lambda>(t, n). (take i z @ t, n)) (f (drop i z)) else None)"

fun record_write :: "int \<Rightarrow> nat \<Rightarrow> nat \<Rightarrow> u8 list \<Rightarrow> Mem list \<Rightarrow> u8 list option" where
  "record_write file_format i j z [] = Some z"
| "record_write file_format i j z (pRec # recs) = do {
     let serial_type = sqlite3VdbeSerialType pRec file_format;
     (z, n) \<leftarrow> at_offset i (\<lambda>p. putVarint32 p serial_type) z;
     (z, m) \<leftarrow> at_offset j (\<lambda>p. sqlite3VdbeSerialPut p pRec serial_type) z;
     record_write file_format (i + n) (j + m) z recs
   }"

text \<open>\<^verbatim>\<open>OP_MakeRecord\<close> after the affinities are applied: \<open>limit\<close> is \<^verbatim>\<open>SQLITE_LIMIT_LENGTH\<close> and \<open>grow n\<close> the buffer of \<open>n\<close> bytes that
  \<^verbatim>\<open>sqlite3VdbeMemGrow\<close> gives, with any content.\<close>

definition OP_MakeRecord :: "int \<Rightarrow> nat \<Rightarrow> (nat \<Rightarrow> u8 list option) \<Rightarrow> Mem list \<Rightarrow> make_result option" where
  "OP_MakeRecord file_format limit grow fields =
    (case foldr (record_size_step file_format) fields (0, 0, 0, []) of (nData, nZero, nHdr0, recs) \<Rightarrow>
     let nHdr = record_header_size nHdr0; nByte = nHdr + nData
     in if nByte > limit then Some MakeTooBig
        else case grow nByte of
            None \<Rightarrow> Some MakeNoMem
          | Some z \<Rightarrow> do {
              (z, i) \<leftarrow> putVarint32 z (of_nat nHdr);
              z \<leftarrow> record_write file_format i nHdr z recs;
              Some (Made z nZero)
            })"

section \<open>Unpacking a record\<close>

definition add32 :: "nat \<Rightarrow> nat \<Rightarrow> nat" where
  "add32 a b = (a + b) mod 2 ^ 32"

text \<open>The offset \<open>d\<close> is a signed integer in the loop condition.\<close>

definition as_int :: "nat \<Rightarrow> int" where
  "as_int n = (if n < 2 ^ 31 then int n else int n - 2 ^ 32)"

fun unpack_loop :: "int \<Rightarrow> u8 list \<Rightarrow> nat \<Rightarrow> nat \<Rightarrow> nat \<Rightarrow> nat \<Rightarrow> Mem list option" where
  "unpack_loop nKey aKey szHdr 0 idx d = Some []"
| "unpack_loop nKey aKey szHdr (Suc n) idx d =
    (if idx < szHdr \<and> as_int d \<le> nKey then do {
       (serial_type, k) \<leftarrow> getVarint32 (drop idx aKey);
       if as_int d < 0 \<or> length aKey < d then None else do {
       (m, l) \<leftarrow> sqlite3VdbeSerialGet (drop d aKey) serial_type;
       ms \<leftarrow> unpack_loop nKey aKey szHdr n (add32 idx k) (add32 d l);
       Some (m # ms)
     }} else Some [])"

definition sqlite3VdbeRecordUnpack :: "nat \<Rightarrow> int \<Rightarrow> u8 list \<Rightarrow> Mem list option" where
  "sqlite3VdbeRecordUnpack nField nKey aKey = do {
     (szHdr, idx) \<leftarrow> getVarint32 aKey;
     unpack_loop nKey aKey (unat szHdr) nField idx (unat szHdr)
   }"

section \<open>The data of a value\<close>

text \<open>The lowest \<open>n\<close> bytes of a word, the most significant first.\<close>

primrec be_bytes :: "nat \<Rightarrow> u64 \<Rightarrow> u8 list" where
  "be_bytes 0 v = []"
| "be_bytes (Suc n) v = be_bytes n (drop_bit 8 v) @ [ucast v]"

lemma length_be_bytes [simp]: "length (be_bytes n v) = n"
  by (induction n arbitrary: v) simp_all

lemma ucast_and_0xff: "ucast (v AND 0xff :: u64) = (ucast v :: u8)"
  by (rule u8_eqI) (simp add: bit_simps)

lemma serial_put_loop_bytes:
  "n \<le> length buf \<Longrightarrow> serial_put_loop n buf v = Some (be_bytes n v @ drop n buf)"
proof (induction n arbitrary: buf v)
  case (Suc n)
  then have "serial_put_loop n (buf[n := ucast v]) (drop_bit 8 v) = Some (be_bytes n (drop_bit 8 v) @ drop n (buf[n := ucast v]))"
    by simp
  moreover have "drop n (buf[n := ucast v]) = ucast v # drop (Suc n) buf"
    using Suc.prems by (metis Cons_nth_drop_Suc Suc_le_lessD drop_update_cancel length_list_update lessI nth_list_update_eq)
  ultimately show ?case using Suc.prems by (simp add: ucast_and_0xff)
qed simp

lemma FOUR_BYTE_UINT_bytes: "FOUR_BYTE_UINT (be_bytes 4 v @ r) = Some (ucast v)"
proof -
  have "push_bit 24 (ucast (ucast (drop_bit 24 v) :: u8)) OR push_bit 16 (ucast (ucast (drop_bit 16 v) :: u8)) OR
      push_bit 8 (ucast (ucast (drop_bit 8 v) :: u8)) OR ucast (ucast v :: u8) = (ucast v :: u32)"
    by (rule u32_eqI) (simp add: bit_simps)
  then show ?thesis by (simp add: FOUR_BYTE_UINT_def numeral_eq_Suc)
qed

lemma be_bytes_add: "be_bytes (m + n) v = be_bytes m (drop_bit (8 * n) v) @ be_bytes n v"
  by (induction n arbitrary: v) (simp_all add: algebra_simps)

lemma EIGHT_BYTE_UINT_bytes: "EIGHT_BYTE_UINT (be_bytes 8 v @ r) = Some v"
proof -
  have "be_bytes 8 v = be_bytes 4 (drop_bit 32 v) @ be_bytes 4 v" using be_bytes_add [of 4 4 v] by simp
  moreover have "push_bit 32 (ucast (ucast (drop_bit 32 v) :: u32)) OR ucast (ucast v :: u32) = v"
    by (rule bit_word_eqI) (auto simp: bit_simps)
  ultimately show ?thesis by (simp add: EIGHT_BYTE_UINT_def FOUR_BYTE_UINT_bytes)
qed

text \<open>The bytes of a signed integer.\<close>

lemma ucast_word_of_int: "ucast (word_of_int i :: u64) = (word_of_int i :: u8)" "ucast (word_of_int i :: u64) = (word_of_int i :: u32)"
  by (rule bit_word_eqI, simp add: bit_simps)+

lemma ucast_drop_word_of_int:
  assumes "k \<le> 56"
  shows "ucast (drop_bit k (word_of_int i :: u64)) = (word_of_int (i div 2 ^ k) :: u8)"
proof -
  have "ucast (drop_bit k (word_of_int i :: u64)) = (word_of_int (drop_bit k i) :: u8)"
    by (rule bit_word_eqI) (use assms in \<open>auto simp: bit_simps\<close>)
  then show ?thesis by (simp add: drop_bit_eq_div)
qed

lemma or_add: "0 \<le> b \<Longrightarrow> b < 2 ^ k \<Longrightarrow> 2 ^ k * a OR b = 2 ^ k * a + (b :: int)"
proof -
  assume b: "0 \<le> b" "b < 2 ^ k"
  have "\<not> bit b n" if "k \<le> n" for n
    using b that by (metis bit_take_bit_iff linorder_not_less take_bit_int_eq_self)
  then have "push_bit k a AND b = 0" by (intro bit_eqI) (auto simp: bit_simps)
  then show ?thesis by (simp add: disjunctive_add_eq_or [symmetric] push_bit_eq_mult mult.commute)
qed

lemma sint_byte: "- 128 \<le> k \<Longrightarrow> k < 128 \<Longrightarrow> sint (word_of_int k :: u8) = k"
  by (simp add: sint_sbintrunc' signed_take_bit_int_eq_self)

lemma uint_byte: "uint (word_of_int k :: u8) = k mod 256"
  by (simp add: uint_word_of_int take_bit_eq_mod)

lemma ONE_BYTE_INT_bytes: "- 128 \<le> i \<Longrightarrow> i < 128 \<Longrightarrow> ONE_BYTE_INT (word_of_int i # r) = Some i"
  by (simp add: ONE_BYTE_INT_def sint_byte)

lemma TWO_BYTE_INT_bytes:
  assumes "- 32768 \<le> i" and "i < 32768"
  shows "TWO_BYTE_INT (be_bytes 2 (word_of_int i) @ r) = Some i"
proof -
  have "sint (word_of_int (i div 256) :: u8) = i div 256" by (rule sint_byte) (use assms in linarith)+
  then show ?thesis
    using or_add [of "i mod 256" 8 "i div 256"]
    by (simp add: TWO_BYTE_INT_def numeral_eq_Suc [of "num.Bit0 num.One"] ucast_drop_word_of_int ucast_word_of_int uint_byte)
qed

lemma THREE_BYTE_INT_bytes:
  assumes "- 8388608 \<le> i" and "i < 8388608"
  shows "THREE_BYTE_INT (be_bytes 3 (word_of_int i) @ r) = Some i"
proof -
  have s: "sint (word_of_int (i div 65536) :: u8) = i div 65536" by (rule sint_byte) (use assms in linarith)+
  have "256 * (i div 256 mod 256) + i mod 256 = i mod 65536" using zmod_zmult2_eq [of 256 i 256] by simp
  then have "push_bit 8 (i div 256 mod 256) OR i mod 256 = i mod 65536"
    using or_add [of "i mod 256" 8 "i div 256 mod 256"] by (simp add: push_bit_eq_mult mult.commute)
  moreover have "65536 * (i div 65536) OR i mod 65536 = i" using or_add [of "i mod 65536" 16 "i div 65536"] by simp
  ultimately have eq: "65536 * (i div 65536) OR push_bit 8 (i div 256 mod 256) OR i mod 256 = i" by (simp add: or.assoc)
  have three: "be_bytes (Suc (Suc (Suc 0))) (word_of_int i) = [word_of_int (i div 65536), word_of_int (i div 256), word_of_int i]"
    by (simp add: drop_bit_drop_bit ucast_drop_word_of_int ucast_word_of_int)
  show ?thesis
    unfolding THREE_BYTE_INT_def numeral_3_eq_3 three by (simp add: s uint_byte eq)
qed

lemma SIX_BYTE_INT_bytes:
  assumes "- (2 ^ 47) \<le> i" and "i < 2 ^ 47"
  shows "FOUR_BYTE_UINT (drop 2 (be_bytes 6 (word_of_int i) @ r)) = Some (word_of_int i)"
    and "TWO_BYTE_INT (be_bytes 6 (word_of_int i) @ r) = Some (i div 2 ^ 32)"
proof -
  have six: "be_bytes 6 v = be_bytes 2 (drop_bit 32 v) @ be_bytes 4 v" for v using be_bytes_add [of 2 4 v] by simp
  show "FOUR_BYTE_UINT (drop 2 (be_bytes 6 (word_of_int i) @ r)) = Some (word_of_int i)"
    by (simp add: six FOUR_BYTE_UINT_bytes ucast_word_of_int)
  have "be_bytes 2 (drop_bit 32 (word_of_int i)) = be_bytes 2 (word_of_int (i div 2 ^ 32))"
    by (simp add: numeral_eq_Suc [of "num.Bit0 num.One"] ucast_drop_word_of_int ucast_word_of_int drop_bit_drop_bit
        zdiv_zmult2_eq [symmetric])
  then show "TWO_BYTE_INT (be_bytes 6 (word_of_int i) @ r) = Some (i div 2 ^ 32)"
    using TWO_BYTE_INT_bytes [of "i div 2 ^ 32"] assms unfolding six append_assoc by simp
qed

text \<open>The values that occur: integers of 64 bits, no NaN, texts and blobs below one gigabyte.\<close>

definition valid_mem :: "Mem \<Rightarrow> bool" where
  "valid_mem m = (case m of
     MNull \<Rightarrow> True
   | MInt i \<Rightarrow> i64_range i
   | MReal r \<Rightarrow> \<not> sqlite3IsNaN r
   | MStr z \<Rightarrow> length z < 2 ^ 30
   | MBlob z n \<Rightarrow> length z + n < 2 ^ 30)"

definition serial_data :: "int \<Rightarrow> Mem \<Rightarrow> u8 list" where
  "serial_data ff m = (case m of
     MNull \<Rightarrow> []
   | MInt i \<Rightarrow> be_bytes (sqlite3VdbeSerialTypeLen (sqlite3VdbeSerialType m ff)) (word_of_int i)
   | MReal r \<Rightarrow> be_bytes 8 r
   | MStr z \<Rightarrow> z
   | MBlob z n \<Rightarrow> z @ replicate n 0)"

text \<open>The value that is read back: zero bytes are spelled out.\<close>

definition expand :: "Mem \<Rightarrow> Mem" where
  "expand m = (case m of MBlob z n \<Rightarrow> MBlob (z @ replicate n 0) 0 | _ \<Rightarrow> m)"

lemma serial_type_len_small [simp]:
  "sqlite3VdbeSerialTypeLen 0 = 0" "sqlite3VdbeSerialTypeLen 1 = 1" "sqlite3VdbeSerialTypeLen 2 = 2" "sqlite3VdbeSerialTypeLen 3 = 3"
  "sqlite3VdbeSerialTypeLen 4 = 4" "sqlite3VdbeSerialTypeLen 5 = 6" "sqlite3VdbeSerialTypeLen 6 = 8" "sqlite3VdbeSerialTypeLen 7 = 8"
  "sqlite3VdbeSerialTypeLen 8 = 0" "sqlite3VdbeSerialTypeLen 9 = 0"
  by (simp_all add: sqlite3VdbeSerialTypeLen_def serial_aSize_def word_le_nat_alt)

lemma serial_type_int:
  assumes "i64_range i"
  obtains (1) "sqlite3VdbeSerialType (MInt i) ff = 1" "- 128 \<le> i" "i < 128"
    | (2) "sqlite3VdbeSerialType (MInt i) ff = 2" "- 32768 \<le> i" "i < 32768"
    | (3) "sqlite3VdbeSerialType (MInt i) ff = 3" "- 8388608 \<le> i" "i < 8388608"
    | (4) "sqlite3VdbeSerialType (MInt i) ff = 4" "- (2 ^ 31) \<le> i" "i < 2 ^ 31"
    | (5) "sqlite3VdbeSerialType (MInt i) ff = 5" "- (2 ^ 47) \<le> i" "i < 2 ^ 47"
    | (6) "sqlite3VdbeSerialType (MInt i) ff = 6"
    | (8) "sqlite3VdbeSerialType (MInt i) ff = 8" "i = 0"
    | (9) "sqlite3VdbeSerialType (MInt i) ff = 9" "i = 1"
proof -
  let ?t = "sqlite3VdbeSerialType (MInt i) ff"
  have "?t = 1 \<and> - 128 \<le> i \<and> i < 128 \<or> ?t = 2 \<and> - 32768 \<le> i \<and> i < 32768 \<or> ?t = 3 \<and> - 8388608 \<le> i \<and> i < 8388608 \<or>
      ?t = 4 \<and> - (2 ^ 31) \<le> i \<and> i < 2 ^ 31 \<or> ?t = 5 \<and> - (2 ^ 47) \<le> i \<and> i < 2 ^ 47 \<or> ?t = 6 \<or>
      ?t = 8 \<and> i = 0 \<or> ?t = 9 \<and> i = 1"
    by (auto simp: sqlite3VdbeSerialType_def MAX_6BYTE_def Let_def)
  then show ?thesis using that by blast
qed

lemma unat_of_nat_u32: "m < 2 ^ 32 \<Longrightarrow> unat (of_nat m :: u32) = m"
  by (simp add: unat_of_nat take_bit_nat_eq_self)

lemma ucast_of_nat_u32: "m < 2 ^ 32 \<Longrightarrow> ucast (of_nat m :: u32) = (of_nat m :: u64)"
  using unat_of_nat_u32 [of m] by (metis of_nat_unat)

lemma unat_text_type:
  "n < 2 ^ 30 \<Longrightarrow> unat (of_nat (n * 2 + 12 + 1) :: u32) = n * 2 + 12 + 1" "n < 2 ^ 30 \<Longrightarrow> unat (of_nat (n * 2 + 12) :: u32) = n * 2 + 12"
  by (rule unat_of_nat_u32, simp)+

lemma text_type_cases:
  assumes "unat t = n * 2 + 12 + k" and "k \<le> 1"
  shows "t \<ge> 12" and "sqlite3VdbeSerialTypeLen t = n" and "t AND 1 \<noteq> 0 \<longleftrightarrow> k = 1" and "t \<noteq> 10" and "t \<noteq> 11" and "(unat t - 12) div 2 = n"
proof -
  show ge: "t \<ge> 12" using assms by (simp add: word_le_nat_alt)
  show len: "(unat t - 12) div 2 = n" using assms by simp
  then show "sqlite3VdbeSerialTypeLen t = n" using ge by (simp add: sqlite3VdbeSerialTypeLen_def)
  have "k = 0 \<or> k = 1" using assms(2) by auto
  then have "odd (unat t) \<longleftrightarrow> k = 1" using assms(1) by auto
  moreover have "t AND 1 = 0 \<longleftrightarrow> \<not> bit t 0" using and_exp_eq_0_iff_not_bit [of t 0] by simp
  moreover have "bit (unat t) 0 = bit t 0" by (simp add: bit_unsigned_iff)
  then have "bit t 0 \<longleftrightarrow> odd (unat t)" by (simp only: bit_0)
  ultimately show "t AND 1 \<noteq> 0 \<longleftrightarrow> k = 1" by blast
  show "t \<noteq> 10" "t \<noteq> 11" using ge by auto
qed

lemma str_type: "valid_mem (MStr z) \<Longrightarrow> unat (sqlite3VdbeSerialType (MStr z) ff) = length z * 2 + 12 + 1"
  using unat_text_type(1) [of "length z"] by (simp only: sqlite3VdbeSerialType_def valid_mem_def Mem.case)

lemma blob_type: "valid_mem (MBlob z n) \<Longrightarrow> unat (sqlite3VdbeSerialType (MBlob z n) ff) = (length z + n) * 2 + 12"
  using unat_text_type(2) [of "length z + n"] by (simp only: sqlite3VdbeSerialType_def valid_mem_def Mem.case)

lemma sint_of_int_id:
  "- (2 ^ 31) \<le> i \<Longrightarrow> i < 2 ^ 31 \<Longrightarrow> sint (word_of_int i :: u32) = i"
  "i64_range i \<Longrightarrow> sint (word_of_int i :: u64) = i"
  by (simp_all add: sint_sbintrunc' signed_take_bit_int_eq_self i64_range_def)

lemma serial_get_int:
  assumes "i64_range i"
  shows "sqlite3VdbeSerialGet (serial_data ff (MInt i) @ r) (sqlite3VdbeSerialType (MInt i) ff) =
    Some (MInt i, length (serial_data ff (MInt i)))"
  using assms
proof (cases rule: serial_type_int [of i ff])
  case 5
  have "uint (word_of_int i :: u32) + 2 ^ 32 * (i div 2 ^ 32) = i"
    by (simp add: uint_word_of_int take_bit_eq_mod)
  then show ?thesis
    using 5 SIX_BYTE_INT_bytes [OF 5(2,3), of r] by (simp add: serial_data_def sqlite3VdbeSerialGet_def)
qed (simp_all add: serial_data_def sqlite3VdbeSerialGet_def ONE_BYTE_INT_bytes TWO_BYTE_INT_bytes THREE_BYTE_INT_bytes
    FOUR_BYTE_UINT_bytes EIGHT_BYTE_UINT_bytes ucast_word_of_int sint_of_int_id assms)

text \<open>Reading what a value was written as.\<close>

lemma serial_get_data:
  assumes "valid_mem m"
  shows "sqlite3VdbeSerialGet (serial_data ff m @ r) (sqlite3VdbeSerialType m ff) = Some (expand m, length (serial_data ff m))"
proof (cases m)
  case (MInt i)
  then show ?thesis using assms serial_get_int by (simp add: valid_mem_def expand_def)
next
  case (MReal x)
  then show ?thesis
    using assms by (simp add: valid_mem_def expand_def sqlite3VdbeSerialType_def serial_data_def sqlite3VdbeSerialGet_def EIGHT_BYTE_UINT_bytes)
next
  case (MStr z)
  then have "unat (sqlite3VdbeSerialType m ff) = length z * 2 + 12 + 1"
    using assms str_type by simp
  note t = text_type_cases [OF this le_refl]
  have "sqlite3VdbeSerialType m ff \<notin> {0, 1, 2, 3, 4, 5, 6, 7, 8, 9}" using t(1) by (auto simp: word_le_nat_alt)
  then show ?thesis using t MStr by (simp add: sqlite3VdbeSerialGet_def serial_data_def expand_def Let_def)
next
  case (MBlob z n)
  then have "unat (sqlite3VdbeSerialType m ff) = (length z + n) * 2 + 12 + 0"
    using assms blob_type by simp
  note t = text_type_cases [OF this zero_le_one]
  have "sqlite3VdbeSerialType m ff \<notin> {0, 1, 2, 3, 4, 5, 6, 7, 8, 9}" using t(1) by (auto simp: word_le_nat_alt)
  then show ?thesis using t MBlob by (simp add: sqlite3VdbeSerialGet_def serial_data_def expand_def Let_def)
qed (simp add: sqlite3VdbeSerialType_def serial_data_def sqlite3VdbeSerialGet_def expand_def)

text \<open>What is written for a value: the zero bytes of a blob are left out.\<close>

definition stored :: "int \<Rightarrow> Mem \<Rightarrow> u8 list" where
  "stored ff m = (case m of MBlob z n \<Rightarrow> z | _ \<Rightarrow> serial_data ff m)"

lemma serial_type_len_eq:
  assumes "valid_mem m"
  shows "sqlite3VdbeSerialTypeLen (sqlite3VdbeSerialType m ff) = length (serial_data ff m)"
proof (cases m)
  case (MStr z)
  then have "unat (sqlite3VdbeSerialType m ff) = length z * 2 + 12 + 1"
    using assms str_type by simp
  from text_type_cases(2) [OF this le_refl] show ?thesis using MStr by (simp add: serial_data_def)
next
  case (MBlob z n)
  then have "unat (sqlite3VdbeSerialType m ff) = (length z + n) * 2 + 12 + 0"
    using assms blob_type by simp
  from text_type_cases(2) [OF this zero_le_one] show ?thesis using MBlob by (simp add: serial_data_def)
qed (simp_all add: serial_data_def sqlite3VdbeSerialType_def)

lemma serial_put_data:
  assumes "valid_mem m" and "length (stored ff m) \<le> length buf"
  shows "sqlite3VdbeSerialPut buf m (sqlite3VdbeSerialType m ff) =
    Some (stored ff m @ drop (length (stored ff m)) buf, length (stored ff m))"
proof (cases m)
  case (MInt i)
  then have "i64_range i" using assms(1) by (simp add: valid_mem_def)
  then show ?thesis
  proof (cases rule: serial_type_int [of i ff])
  qed (use assms(2) MInt in \<open>simp_all add: sqlite3VdbeSerialPut_def stored_def serial_data_def mem_word_def serial_put_loop_bytes
      word_le_nat_alt word_less_nat_alt del: be_bytes.simps(2) serial_put_loop.simps(2)\<close>)
next
  case (MReal x)
  then show ?thesis
    using assms(2) by (simp add: sqlite3VdbeSerialPut_def stored_def serial_data_def mem_word_def serial_put_loop_bytes sqlite3VdbeSerialType_def
        word_le_nat_alt word_less_nat_alt)
next
  case (MStr z)
  then have "unat (sqlite3VdbeSerialType m ff) = length z * 2 + 12 + 1"
    using assms str_type by simp
  then have "sqlite3VdbeSerialType m ff \<ge> 12" "\<not> sqlite3VdbeSerialType m ff \<le> 7" by (simp_all add: word_le_nat_alt)
  then show ?thesis
    using assms(2) MStr copy_bytes_at_0 [of buf z] by (simp add: sqlite3VdbeSerialPut_def stored_def serial_data_def)
next
  case (MBlob z n)
  then have "unat (sqlite3VdbeSerialType m ff) = (length z + n) * 2 + 12"
    using assms blob_type by simp
  then have "sqlite3VdbeSerialType m ff \<ge> 12" "\<not> sqlite3VdbeSerialType m ff \<le> 7" by (simp_all add: word_le_nat_alt)
  then show ?thesis
    using assms(2) MBlob copy_bytes_at_0 [of buf z] by (simp add: sqlite3VdbeSerialPut_def stored_def)
qed (simp add: sqlite3VdbeSerialPut_def stored_def serial_data_def sqlite3VdbeSerialType_def)

section \<open>The format of a record\<close>

text \<open>The header is its own length and the serial types, each as a variable-length integer; the data follows.\<close>

definition type_bytes :: "int \<Rightarrow> Mem \<Rightarrow> u8 list" where
  "type_bytes ff m = varint_bytes (ucast (sqlite3VdbeSerialType m ff))"

definition types_bytes :: "int \<Rightarrow> Mem list \<Rightarrow> u8 list" where
  "types_bytes ff ms = concat (map (type_bytes ff) ms)"

definition header_len :: "int \<Rightarrow> Mem list \<Rightarrow> nat" where
  "header_len ff ms = record_header_size (length (types_bytes ff ms))"

definition record_bytes :: "int \<Rightarrow> Mem list \<Rightarrow> u8 list" where
  "record_bytes ff ms = varint_bytes (of_nat (header_len ff ms)) @ types_bytes ff ms @ concat (map (serial_data ff) ms)"

lemma VarintLen_3:
  assumes "drop_bit 21 v = 0"
  shows "sqlite3VarintLen v = (if drop_bit 7 v = 0 then 1 else if drop_bit 14 v = 0 then 2 else 3)"
proof -
  have "(9 :: nat) = Suc (Suc (Suc 6))" by simp
  then have "sqlite3VarintLen v = varintLen_loop (Suc (Suc (Suc 6))) 0 v" by (simp only: sqlite3VarintLen_def)
  also have "\<dots> = (if drop_bit 7 v = 0 then 1 else if drop_bit 14 v = 0 then 2 else 3)"
    unfolding varintLen_loop.simps Let_def using assms by (simp add: drop_bit_drop_bit)
  finally show ?thesis .
qed

lemma varint_len_small:
  assumes "n < 2 ^ 21"
  shows "length (varint_bytes (of_nat n)) = (if n < 128 then 1 else if n < 16384 then 2 else 3)"
proof -
  have "unat (of_nat n :: u64) = n" using assms by (simp add: unat_of_nat take_bit_nat_eq_self)
  then have u: "unat (drop_bit k (of_nat n :: u64)) = n div 2 ^ k" for k
    unfolding unat_drop_bit_eq by (simp add: drop_bit_eq_div)
  have "drop_bit k (of_nat n :: u64) = 0 \<longleftrightarrow> n div 2 ^ k = 0" for k
    using u [of k] by (metis unsigned_eq_0_iff)
  from this [of 7] this [of 14] this [of 21]
  have "drop_bit 7 (of_nat n :: u64) = 0 \<longleftrightarrow> n < 128" "drop_bit 14 (of_nat n :: u64) = 0 \<longleftrightarrow> n < 16384" "drop_bit 21 (of_nat n :: u64) = 0"
    using assms by (simp_all add: div_eq_0_iff)
  then have "sqlite3VarintLen (of_nat n) = (if n < 128 then 1 else if n < 16384 then 2 else 3)"
    using VarintLen_3 [of "of_nat n"] by presburger
  then show ?thesis by (simp add: sqlite3VarintLen_eq)
qed

lemma record_header_size_fixed:
  assumes "n < 2 ^ 20"
  shows "record_header_size n = n + length (varint_bytes (of_nat (record_header_size n)))" and "record_header_size n < 2 ^ 21"
proof -
  define L where "L m = length (varint_bytes (of_nat m :: u64))" for m
  have L: "L m = (if m < 128 then 1 else if m < 16384 then 2 else 3)" if "m \<le> n + 4" for m
    using varint_len_small [of m] that assms by (simp add: L_def)
  have "record_header_size n = (if n \<le> 126 then n + 1 else if L n < L (n + L n) then n + L n + 1 else n + L n)"
    unfolding record_header_size_def sqlite3VarintLen_eq L_def Let_def ..
  then have H: "record_header_size n = (if n \<le> 126 then n + 1 else if n + 2 < 16384 then n + 2 else n + 3)"
    using L by auto
  then have "record_header_size n = n + L (record_header_size n)" using L by auto
  then show "record_header_size n = n + length (varint_bytes (of_nat (record_header_size n)))" unfolding L_def .
  show "record_header_size n < 2 ^ 21" using H assms by simp
qed

lemma type_bytes_len: "length (type_bytes ff m) = (if sqlite3VdbeSerialType m ff \<le> 127 then 1 else sqlite3VarintLen (ucast (sqlite3VdbeSerialType m ff)))"
proof (cases "sqlite3VdbeSerialType m ff \<le> 127")
  case True
  have "drop_bit 7 (ucast (sqlite3VdbeSerialType m ff) :: u64) = 0"
    using True by (simp add: drop_bit_ucast_u32 lt_0x80_u32 [symmetric] word_less_nat_alt word_le_nat_alt)
  then show ?thesis using True by (simp add: type_bytes_def varint_bytes_1)
qed (simp add: type_bytes_def sqlite3VarintLen_eq)

lemma stored_simps [simp]:
  "stored ff (MBlob z n) = z" "stored ff MNull = serial_data ff MNull" "stored ff (MInt i) = serial_data ff (MInt i)"
  "stored ff (MReal r) = serial_data ff (MReal r)" "stored ff (MStr s) = serial_data ff (MStr s)"
  by (simp_all add: stored_def)

text \<open>The first loop of \<^verbatim>\<open>OP_MakeRecord\<close>: the sizes, and the fields as they will be stored.\<close>

lemma record_sizes:
  assumes "list_all valid_mem ms" and "foldr (record_size_step ff) ms (0, 0, 0, []) = (nData, nZero, nHdr, recs)"
  shows "nHdr = length (types_bytes ff ms) \<and> nData = length (concat (map (stored ff) recs)) \<and>
    concat (map (serial_data ff) ms) = concat (map (stored ff) recs) @ replicate nZero 0 \<and>
    types_bytes ff recs = types_bytes ff ms \<and> list_all valid_mem recs"
  using assms
proof (induction ms arbitrary: nData nZero nHdr recs)
  case (Cons m ms)
  obtain nd nz nh rs where r: "foldr (record_size_step ff) ms (0, 0, 0, []) = (nd, nz, nh, rs)"
    by (metis prod_cases4)
  have IH: "nh = length (types_bytes ff ms)" "nd = length (concat (map (stored ff) rs))"
      "concat (map (serial_data ff) ms) = concat (map (stored ff) rs) @ replicate nz 0" "types_bytes ff rs = types_bytes ff ms" "list_all valid_mem rs"
    using Cons.IH [OF _ r] Cons.prems(1) by auto
  have step: "record_size_step ff m (nd, nz, nh, rs) = (nData, nZero, nHdr, recs)" using Cons.prems(2) r by simp
  have v: "valid_mem m" using Cons.prems(1) by simp
  show ?case
  proof (cases m)
    case (MBlob z n)
    have type: "type_bytes ff (MBlob (z @ replicate n 0) 0) = type_bytes ff (MBlob z n)"
      by (simp add: type_bytes_def sqlite3VdbeSerialType_def)
    have valid: "valid_mem (MBlob (z @ replicate n 0) 0)" using v MBlob by (simp add: valid_mem_def)
    have data: "serial_data ff (MBlob z k) = z @ replicate k 0" "stored ff (MBlob z k) = z" for z k
      by (simp_all add: serial_data_def stored_def)
    show ?thesis
    proof (cases "nd = 0")
      case True
      then have e: "concat (map (stored ff) rs) = []" using IH(2) by simp
      show ?thesis
        using step True IH(1,4,5) IH(3) [unfolded e] MBlob v
        by (auto simp: e record_size_step_def Let_def types_bytes_def type_bytes_len serial_type_len_eq data replicate_add [symmetric] add.commute)
    next
      case False
      then show ?thesis
        using step IH MBlob v valid type
        by (auto simp: record_size_step_def Let_def types_bytes_def type_bytes_len serial_type_len_eq data)
    qed
  qed (use step IH v in \<open>auto simp: record_size_step_def Let_def types_bytes_def type_bytes_len serial_type_len_eq\<close>)
qed (auto simp: types_bytes_def)

text \<open>The second loop: types and data grow towards each other's end.\<close>

lemma at_offset_append: "at_offset (length A) f (A @ z) = map_option (\<lambda>(t, n). (A @ t, n)) (f z)"
  by (simp add: at_offset_def)

lemma put_type:
  assumes "length (type_bytes ff m) \<le> length z"
  shows "putVarint32 z (sqlite3VdbeSerialType m ff) = Some (type_bytes ff m @ drop (length (type_bytes ff m)) z, length (type_bytes ff m))"
  using assms by (simp add: putVarint32_eq putVarint_eq type_bytes_def)

lemma record_write_spec:
  assumes "list_all valid_mem recs" and "length h = length (types_bytes ff recs)" and "length d = length (concat (map (stored ff) recs))"
  shows "record_write ff (length A) (length A + length h + length B) (A @ h @ B @ d) recs =
    Some (A @ types_bytes ff recs @ B @ concat (map (stored ff) recs))"
  using assms
proof (induction recs arbitrary: A h B d)
  case (Cons m recs)
  let ?t = "type_bytes ff m" and ?s = "stored ff m"
  let ?h = "drop (length ?t) h" and ?d = "drop (length ?s) d"
  have len: "length ?t \<le> length h" "length ?s \<le> length d" "length ?h = length (types_bytes ff recs)" "length ?d = length (concat (map (stored ff) recs))"
    using Cons.prems(2,3) by (simp_all add: types_bytes_def)
  have types: "at_offset (length A) (\<lambda>p. putVarint32 p (sqlite3VdbeSerialType m ff)) (A @ h @ B @ d) = Some ((A @ ?t @ ?h @ B) @ d, length ?t)"
    using len(1) put_type [of ff m "h @ B @ d"] by (simp add: at_offset_append)
  have "length A + length h + length B = length (A @ ?t @ ?h @ B)" using len(1) by simp
  then have data: "at_offset (length A + length h + length B) (\<lambda>p. sqlite3VdbeSerialPut p m (sqlite3VdbeSerialType m ff)) ((A @ ?t @ ?h @ B) @ d) =
      Some ((A @ ?t) @ ?h @ (B @ ?s) @ ?d, length ?s)"
    using serial_put_data [of m ff d] Cons.prems(1) len(2) by (simp only: at_offset_append) simp
  have "record_write ff (length A) (length A + length h + length B) (A @ h @ B @ d) (m # recs) =
      record_write ff (length (A @ ?t)) (length (A @ ?t) + length ?h + length (B @ ?s)) ((A @ ?t) @ ?h @ (B @ ?s) @ ?d) recs"
    unfolding record_write.simps Let_def types using data len(1) by (simp add: algebra_simps)
  also have "\<dots> = Some ((A @ ?t) @ types_bytes ff recs @ (B @ ?s) @ concat (map (stored ff) recs))"
    using Cons.IH [of ?h ?d "A @ ?t" "B @ ?s"] Cons.prems(1) len(3,4) by simp
  finally show ?case by (simp add: types_bytes_def)
qed (simp add: types_bytes_def)

text \<open>The opcode writes the format, with the zero bytes at the end left out.\<close>

lemma OP_MakeRecord_format:
  assumes "list_all valid_mem ms" and "length (types_bytes ff ms) < 2 ^ 20" and "\<And>n b. grow n = Some b \<Longrightarrow> length b = n"
  shows "\<exists>z nZero. z @ replicate nZero 0 = record_bytes ff ms \<and>
    OP_MakeRecord ff limit grow ms = Some (if length z > limit then MakeTooBig else if grow (length z) = None then MakeNoMem else Made z nZero)"
proof -
  obtain nData nZero nHdr recs where sz: "foldr (record_size_step ff) ms (0, 0, 0, []) = (nData, nZero, nHdr, recs)"
    by (metis prod_cases4)
  note r = record_sizes [OF assms(1) sz]
  let ?H = "header_len ff ms" and ?v = "varint_bytes (of_nat (header_len ff ms))"
  let ?z = "?v @ types_bytes ff recs @ concat (map (stored ff) recs)"
  have H: "?H = length (types_bytes ff ms) + length ?v" "?H < 2 ^ 21" "?H = record_header_size nHdr"
    using record_header_size_fixed [OF assms(2)] r by (simp_all add: header_len_def)
  have len: "length ?z = ?H + nData" using H(1) r by simp
  have z: "?z @ replicate nZero 0 = record_bytes ff ms" using r by (simp add: record_bytes_def)
  have "OP_MakeRecord ff limit grow ms = Some (Made ?z nZero)" if "length ?z \<le> limit" and g: "grow (length ?z) = Some b" for b
  proof -
    obtain b1 h d where b: "b = b1 @ h @ d" "length b1 = length ?v" "length h = length (types_bytes ff recs)" "length d = length (concat (map (stored ff) recs))"
    proof
      let ?n = "length ?v" and ?m = "length (types_bytes ff recs)"
      show "b = take ?n b @ take ?m (drop ?n b) @ drop ?m (drop ?n b)" by (simp only: append_take_drop_id)
    qed (use assms(3) [OF g] in simp_all)
    have u: "ucast (of_nat ?H :: u32) = (of_nat ?H :: u64)"
      using H(2) by (intro ucast_of_nat_u32) simp
    have "putVarint32 b (of_nat ?H) = Some (?v @ h @ d, length ?v)"
      using b by (simp add: putVarint32_eq putVarint_eq u)
    moreover have "record_write ff (length ?v) ?H (?v @ h @ d) recs = Some ?z"
    proof -
      have "length (types_bytes ff recs) = length (types_bytes ff ms)" using r by simp
      then have off: "length ?v + length h = ?H" using H(1) b(3) by linarith
      show ?thesis
        using record_write_spec [of recs h ff d ?v "[]"] r b(3,4) unfolding list.size(3) add_0_right append_Nil off by blast
    qed
    ultimately show ?thesis
      using sz that len H(3) by (simp add: OP_MakeRecord_def Let_def)
  qed
  moreover have "OP_MakeRecord ff limit grow ms = Some MakeTooBig" if "length ?z > limit"
    using sz that len H(3) by (simp add: OP_MakeRecord_def Let_def)
  moreover have "OP_MakeRecord ff limit grow ms = Some MakeNoMem" if "length ?z \<le> limit" and "grow (length ?z) = None"
    using sz that len H(3) by (simp add: OP_MakeRecord_def Let_def)
  ultimately show ?thesis using z by (intro exI [of _ ?z] exI [of _ nZero]) (cases "grow (length ?z)", auto simp: not_less)
qed

section \<open>Reading a record back\<close>

lemma get_type: "getVarint32 (type_bytes ff m @ r) = Some (sqlite3VdbeSerialType m ff, length (type_bytes ff m))"
  by (simp add: getVarint32_saturates type_bytes_def getVarint_bytes ucast_u32_le ucast_u32_u64_u32)

lemma type_bytes_pos: "0 < length (type_bytes ff m)"
  using varint_bytes_length(1) by (simp add: type_bytes_def Suc_le_eq)

lemma types_bytes_pos: "0 < length (types_bytes ff ms) \<longleftrightarrow> ms \<noteq> []"
  using type_bytes_pos [of ff] by (cases ms) (auto simp: types_bytes_def)

lemma type_bytes_5: "length (type_bytes ff m) \<le> 5"
proof -
  let ?v = "ucast (sqlite3VdbeSerialType m ff) :: u64"
  have "drop_bit k ?v = 0" if "32 \<le> k" for k by (rule bit_word_eqI) (use that in \<open>simp add: bit_simps\<close>)
  from this [of 56] this [of 35] show ?thesis
    using putVarint_buf_length [of 5 ?v] by (simp add: type_bytes_def varint_bytes_def varint_small_def)
qed

lemma types_bytes_5: "length (types_bytes ff ms) \<le> 5 * length ms"
  by (induction ms) (use type_bytes_5 in \<open>auto simp: types_bytes_def intro: add_mono\<close>)

lemma add32_small: "a + b < 2 ^ 32 \<Longrightarrow> add32 a b = a + b"
  by (simp add: add32_def)

lemma unpack_loop_spec:
  assumes "list_all valid_mem ms" and "drop idx aKey = types_bytes ff ms @ r1" and "idx + length (types_bytes ff ms) = szHdr"
    and "drop d aKey = concat (map (serial_data ff) ms) @ r2" and "szHdr \<le> d" and "d \<le> length aKey" and "length aKey < 2 ^ 31"
  shows "unpack_loop (int (length aKey)) aKey szHdr n idx d = Some (map expand (take n ms))"
  using assms
proof (induction ms arbitrary: n idx d)
  case Nil
  then have "\<not> idx < szHdr" by (simp add: types_bytes_def)
  then show ?case by (cases n) simp_all
next
  case (Cons m ms)
  show ?case
  proof (cases n)
    case (Suc n')
    let ?t = "type_bytes ff m" and ?s = "serial_data ff m"
    have types: "drop idx aKey = ?t @ types_bytes ff ms @ r1" and data: "drop d aKey = ?s @ concat (map (serial_data ff) ms) @ r2"
      using Cons.prems(2,4) by (simp_all add: types_bytes_def)
    have idx: "idx + length ?t \<le> szHdr" "idx < szHdr" using Cons.prems(3) type_bytes_pos [of ff m] by (auto simp: types_bytes_def)
    have d: "d + length ?s \<le> length aKey" using arg_cong [OF data, of length] Cons.prems(6) by simp
    have "drop (idx + length ?t) aKey = types_bytes ff ms @ r1" "drop (d + length ?s) aKey = concat (map (serial_data ff) ms) @ r2"
      using types data by (metis add.commute append_eq_conv_conj drop_drop)+
    then have "unpack_loop (int (length aKey)) aKey szHdr n' (idx + length ?t) (d + length ?s) = Some (map expand (take n' ms))"
      using Cons.IH [of "idx + length ?t" "d + length ?s" n'] Cons.prems d idx by (simp add: types_bytes_def)
    moreover have "add32 idx (length ?t) = idx + length ?t" "add32 d (length ?s) = d + length ?s" "as_int d = int d"
      using idx d Cons.prems(5-7) by (simp_all add: add32_small as_int_def)
    moreover have "sqlite3VdbeSerialGet (drop d aKey) (sqlite3VdbeSerialType m ff) = Some (expand m, length ?s)"
      using serial_get_data [of m ff] Cons.prems(1) data by simp
    moreover have "getVarint32 (drop idx aKey) = Some (sqlite3VdbeSerialType m ff, length ?t)" using types get_type by simp
    ultimately show ?thesis using Suc idx(2) Cons.prems(6) by simp
  qed simp
qed

lemma get_header:
  assumes "list_all valid_mem ms" and "length (types_bytes ff ms) < 2 ^ 20"
  shows "getVarint32 (record_bytes ff ms) = Some (of_nat (header_len ff ms), length (varint_bytes (of_nat (header_len ff ms))))"
    and "unat (of_nat (header_len ff ms) :: u32) = header_len ff ms"
    and "header_len ff ms = length (varint_bytes (of_nat (header_len ff ms))) + length (types_bytes ff ms)"
proof -
  let ?H = "header_len ff ms"
  have H: "?H = length (types_bytes ff ms) + length (varint_bytes (of_nat ?H))" "?H < 2 ^ 21"
    using record_header_size_fixed [OF assms(2)] by (simp_all add: header_len_def)
  then show "?H = length (varint_bytes (of_nat ?H)) + length (types_bytes ff ms)" by linarith
  show u: "unat (of_nat ?H :: u32) = ?H" using H(2) by (intro unat_of_nat_u32) simp
  have "(of_nat ?H :: u64) = ucast (of_nat ?H :: u32)" using H(2) by (simp add: ucast_of_nat_u32)
  then show "getVarint32 (record_bytes ff ms) = Some (of_nat ?H, length (varint_bytes (of_nat ?H)))"
    by (simp add: record_bytes_def getVarint32_saturates getVarint_bytes ucast_u32_le ucast_u32_u64_u32 del: of_nat_add)
qed

lemma record_length_bound:
  assumes "list_all valid_mem ms" and "length (types_bytes ff ms) < 2 ^ 20"
  shows "length (record_bytes ff ms) \<le> 2097152 + length (concat (map (serial_data ff) ms))"
proof -
  have "length (record_bytes ff ms) = (length (varint_bytes (of_nat (header_len ff ms))) + length (types_bytes ff ms)) + length (concat (map (serial_data ff) ms))"
    by (simp add: record_bytes_def)
  moreover have "header_len ff ms \<le> 2097152" using record_header_size_fixed(2) [OF assms(2)] by (simp add: header_len_def)
  ultimately show ?thesis using get_header(3) [OF assms] by linarith
qed

lemma record_unpack:
  assumes "list_all valid_mem ms" and "length (types_bytes ff ms) < 2 ^ 20" and "length (record_bytes ff ms) < 2 ^ 31"
  shows "sqlite3VdbeRecordUnpack n (int (length (record_bytes ff ms))) (record_bytes ff ms) = Some (map expand (take n ms))"
proof -
  let ?H = "header_len ff ms" and ?v = "varint_bytes (of_nat (header_len ff ms))"
  note h = get_header [OF assms(1,2)]
  have "unpack_loop (int (length (record_bytes ff ms))) (record_bytes ff ms) ?H n (length ?v) ?H = Some (map expand (take n ms))"
  proof (rule unpack_loop_spec [OF assms(1)])
    show "drop (length ?v) (record_bytes ff ms) = types_bytes ff ms @ concat (map (serial_data ff) ms)" by (simp add: record_bytes_def)
    have "drop (length ?v + length (types_bytes ff ms)) (record_bytes ff ms) = concat (map (serial_data ff) ms) @ []"
      by (simp add: record_bytes_def)
    then show "drop ?H (record_bytes ff ms) = concat (map (serial_data ff) ms) @ []" using h(3) by metis
    show "length ?v + length (types_bytes ff ms) = ?H" using h(3) by simp
    have "length (record_bytes ff ms) = (length ?v + length (types_bytes ff ms)) + length (concat (map (serial_data ff) ms))" by (simp add: record_bytes_def)
    then show "?H \<le> length (record_bytes ff ms)" using h(3) by linarith
  qed (use assms(3) in simp_all)
  then show ?thesis using h(1,2) by (simp add: sqlite3VdbeRecordUnpack_def)
qed

text \<open>C12. A record that \<^verbatim>\<open>OP_MakeRecord\<close> makes reads back as its fields: for values that can occur, the opcode gives \<^verbatim>\<open>SQLITE_TOOBIG\<close> or \<^verbatim>\<open>SQLITE_NOMEM\<close>, or
  a record whose content, with the zero bytes left out at its end added, unpacks to the first \<open>n\<close> values, zero bytes of blobs spelled out. Nothing is written or read outside the buffer.\<close>

theorem record_round_trip:
  assumes "list_all valid_mem ms" and "length (types_bytes ff ms) < 2 ^ 20" and "length (record_bytes ff ms) < 2 ^ 31"
    and "\<And>n b. grow n = Some b \<Longrightarrow> length b = n"
  shows "\<exists>z nZero.
    OP_MakeRecord ff limit grow ms = Some (if length z > limit then MakeTooBig else if grow (length z) = None then MakeNoMem else Made z nZero) \<and>
    sqlite3VdbeRecordUnpack n (int (length z + nZero)) (z @ replicate nZero 0) = Some (map expand (take n ms))"
proof -
  obtain z nZero where z: "z @ replicate nZero 0 = record_bytes ff ms"
      "OP_MakeRecord ff limit grow ms = Some (if length z > limit then MakeTooBig else if grow (length z) = None then MakeNoMem else Made z nZero)"
    using OP_MakeRecord_format [OF assms(1,2), of grow limit] assms(4) by blast
  then have "length z + nZero = length (record_bytes ff ms)" by (metis length_append length_replicate)
  then show ?thesis using z record_unpack [OF assms(1-3), of n] by metis
qed

theorem record_round_trip_witness:
  "\<exists>z nZero.
    OP_MakeRecord 4 100 (\<lambda>n. Some (replicate n 7)) [MInt 1, MInt (- 300), MStr [65, 66], MNull, MBlob [9] 3] =
      Some (if length z > 100 then MakeTooBig else if Some (replicate (length z) (7 :: u8)) = None then MakeNoMem else Made z nZero) \<and>
    sqlite3VdbeRecordUnpack 9 (int (length z + nZero)) (z @ replicate nZero 0) =
      Some [MInt 1, MInt (- 300), MStr [65, 66], MNull, MBlob [9, 0, 0, 0] 0]"
proof -
  let ?ms = "[MInt 1, MInt (- 300), MStr [65, 66], MNull, MBlob [9] 3]"
  have ok: "list_all valid_mem ?ms" by (simp add: valid_mem_def i64_range_def)
  have types: "length (types_bytes 4 ?ms) < 2 ^ 20" using types_bytes_5 [of 4 ?ms] by simp
  have "length (concat (map (serial_data 4) ?ms)) < 100" by code_simp
  then have "length (record_bytes 4 ?ms) \<le> 2097252" using record_length_bound [OF ok types] by linarith
  then have "length (record_bytes 4 ?ms) < 2 ^ 31" by (rule le_less_trans) simp
  from record_round_trip [OF ok types this, of "\<lambda>n. Some (replicate n 7)" 100 9] show ?thesis
    by (simp add: expand_def numeral_3_eq_3)
qed

end
