(* ===== verification/Ieee.thy ===== *)
theory Ieee
  imports Complex_Main "HOL-Library.Signed_Division"
begin

text \<open>
  Floating-point numbers as rational numbers. A \<open>double\<close> operation of the C code is the exact operation followed by rounding
  to 53 significant bits, to the nearest and to even in the middle. The exponents of the numbers that occur are far from the limits, so overflow, underflow, infinities and NaN
  have no place here. The client lemmas are proved in a locale from two laws of rounding, which the definition satisfies.
\<close>

section \<open>Rounding\<close>

function bit_length :: "int \<Rightarrow> nat" where
  "bit_length n = (if n \<le> 0 then 0 else Suc (bit_length (n div 2)))"
  by pat_completeness auto
termination by (relation "measure nat") auto

declare bit_length.simps [simp del]

definition pow2 :: "int \<Rightarrow> rat" where
  "pow2 e = (if 0 \<le> e then 2 ^ nat e else 1 / 2 ^ nat (- e))"

text \<open>An exponent \<open>e\<close> with \<open>pow2 e \<le> q < pow2 (e + 1)\<close>, for a positive number.\<close>

definition exponent2 :: "rat \<Rightarrow> int" where
  "exponent2 q = (case quotient_of q of (a, b) \<Rightarrow>
     let k = int (bit_length a) - int (bit_length b) in if pow2 k \<le> q then k else k - 1)"

definition round_even :: "rat \<Rightarrow> int" where
  "round_even m = (let n = \<lfloor>m\<rfloor>; r = m - of_int n in if r > 1 / 2 \<or> (r = 1 / 2 \<and> odd n) then n + 1 else n)"

definition fl :: "rat \<Rightarrow> rat" where
  "fl q = (if q = 0 then 0 else let e = exponent2 \<bar>q\<bar> - 52 in sgn q * of_int (round_even (\<bar>q\<bar> * pow2 (- e))) * pow2 e)"

text \<open>Conversion to an integer drops the fraction.\<close>

definition trunc :: "rat \<Rightarrow> int" where
  "trunc q = (if 0 \<le> q then \<lfloor>q\<rfloor> else - \<lfloor>- q\<rfloor>)"

lemma trunc_int [simp]: "trunc (of_int n) = n"
  by (simp add: trunc_def flip: of_int_minus)

text \<open>A number near a fraction that is not an integer has the same integer part.\<close>

lemma floor_near:
  assumes "0 < b" and "a mod b \<noteq> 0" and "\<bar>x - of_int a / of_int b\<bar> < 1 / of_int b"
  shows "\<lfloor>x :: rat\<rfloor> = a div b"
proof -
  have m: "1 \<le> a mod b" "a mod b \<le> b - 1" 
    using pos_mod_sign [OF assms(1), of a] pos_mod_bound [OF assms(1), of a] assms(2) by linarith+
  have "(of_int a :: rat) = of_int b * of_int (a div b) + of_int (a mod b)"
    by (metis mult_div_mod_eq of_int_add of_int_mult)
  then have q: "of_int a / of_int b = of_int (a div b) + of_int (a mod b) / (of_int b :: rat)"
    using assms(1) by (simp add: field_simps)
  have "1 / of_int b \<le> of_int (a mod b) / (of_int b :: rat)" "of_int (a mod b) / (of_int b :: rat) \<le> 1 - 1 / of_int b"
    using m assms(1) by (simp_all add: field_simps)
  then have "of_int (a div b) \<le> x" "x < of_int (a div b) + 1" using assms(3) q by (simp_all add: abs_less_iff)
  then show ?thesis by (simp add: floor_unique)
qed

lemma trunc_near:
  assumes "0 < b" and "0 \<le> a" and "a mod b \<noteq> 0" and "\<bar>x - of_int a / of_int b\<bar> < 1 / of_int b"
  shows "trunc x = a div b"
proof -
  have "a \<noteq> 0" using assms(3) by auto
  then have "1 / of_int b \<le> (of_int a / of_int b :: rat)" using assms(1,2) by (simp add: field_simps int_one_le_iff_zero_less)
  then have "0 \<le> x" using assms(4) by linarith
  then show ?thesis using floor_near [OF assms(1,3,4)] by (simp add: trunc_def)
qed

lemma divide_near: "\<bar>x - y\<bar> \<le> e \<Longrightarrow> 1 \<le> c \<Longrightarrow> \<bar>x / c - y / c\<bar> \<le> (e :: rat)"
proof -
  assume e: "\<bar>x - y\<bar> \<le> e" and c: "1 \<le> c"
  have "\<bar>x / c - y / c\<bar> = \<bar>x - y\<bar> / c" using c by (simp flip: diff_divide_distrib)
  also have "\<dots> \<le> \<bar>x - y\<bar> / 1" using c by (intro divide_left_mono) simp_all
  finally show ?thesis using e by simp
qed

lemma quotient_near:
  assumes "0 < l" and "l \<le> f" and "l \<le> g" and "\<bar>f - g\<bar> \<le> e" and "\<bar>t\<bar> \<le> (b :: rat)"
  shows "\<bar>t / f - t / g\<bar> \<le> b * e / (l * l)"
proof -
  have "t / f - t / g = t * (g - f) / (f * g)" using assms(1-3) by (simp add: field_simps)
  then have "\<bar>t / f - t / g\<bar> = \<bar>t\<bar> * \<bar>f - g\<bar> / (f * g)" using assms(1-3) by (simp add: abs_mult abs_minus_commute)
  also have "\<dots> \<le> b * e / (l * l)" using assms by (intro frac_le mult_mono) simp_all
  finally show ?thesis .
qed

section \<open>The laws of rounding\<close>

locale rounding =
  fixes rnd :: "rat \<Rightarrow> rat"
  assumes rnd_exact: "\<And>q n k. q * 2 ^ k = of_int n \<Longrightarrow> \<bar>n\<bar> < 2 ^ 53 \<Longrightarrow> rnd q = q"
    and rnd_error: "\<And>q. \<bar>rnd q - q\<bar> \<le> \<bar>q\<bar> / 2 ^ 53"
begin

lemma rnd_int: "\<bar>n\<bar> < 2 ^ 53 \<Longrightarrow> rnd (of_int n) = of_int n"
  using rnd_exact [of "of_int n" 0 n] by simp

lemma rnd_close:
  assumes "\<bar>q\<bar> \<le> b" and "b / 2 ^ 53 \<le> e"
  shows "\<bar>rnd q - q\<bar> \<le> e"
proof -
  have "\<bar>q\<bar> / 2 ^ 53 \<le> b / 2 ^ 53" using assms(1) by (simp add: divide_right_mono)
  then show ?thesis using rnd_error [of q] assms(2) by linarith
qed

text \<open>The quotient of two integers, rounded, has the integer part of the quotient.\<close>

lemma rnd_div:
  assumes "0 < b" and "\<bar>a\<bar> < 2 ^ 53"
  shows "trunc (rnd (of_int a / of_int b)) = a sdiv b"
proof (cases "b dvd a")
  case True
  then obtain k where k: "a = b * k" by blast
  have "\<bar>k\<bar> \<le> \<bar>a\<bar>" using assms(1) k by (simp add: abs_mult mult_le_cancel_right1)
  then have "rnd (of_int k) = of_int k" using assms(2) by (intro rnd_int) simp
  moreover have "(of_int a / of_int b :: rat) = of_int k" using k assms(1) by simp
  moreover have "a sdiv b = k" using k assms(1) by (simp add: signed_divide_int_def sgn_mult abs_mult mult_sgn_abs)
  ultimately show ?thesis by (simp add: trunc_def)
next
  case False
  let ?q = "of_int a / of_int b :: rat"
  have near: "\<bar>rnd ?q - ?q\<bar> < 1 / of_int b"
  proof -
    have "\<bar>rnd ?q - ?q\<bar> \<le> of_int \<bar>a\<bar> / of_int b / 2 ^ 53" using rnd_error [of ?q] assms(1) by simp
    also have "\<dots> < 1 / of_int b"
    proof -
      have "(of_int \<bar>a\<bar> :: rat) < 2 ^ 53" using assms(2) by (metis of_int_less_iff of_int_numeral of_int_power)
      then show ?thesis using assms(1) by (simp add: field_simps)
    qed
    finally show ?thesis .
  qed
  have sign: "\<bar>rnd ?q - ?q\<bar> < \<bar>?q\<bar>"
  proof -
    have "a \<noteq> 0" using False by auto
    then have "0 < \<bar>?q\<bar>" using assms(1) by simp
    then have "\<bar>?q\<bar> / 2 ^ 53 < \<bar>?q\<bar>" by (simp add: field_simps)
    then show ?thesis using rnd_error [of ?q] by linarith
  qed
  show ?thesis
  proof (cases "0 < a")
    case True
    then have "0 < ?q" using assms(1) by simp
    then have "0 \<le> rnd ?q" using sign by linarith
    moreover have "\<lfloor>rnd ?q\<rfloor> = a div b" using floor_near [OF assms(1) _ near] False by (simp add: dvd_eq_mod_eq_0)
    ultimately show ?thesis using True assms(1) by (simp add: trunc_def signed_divide_int_def)
  next
    case neg: False
    then have "a < 0" using False by (cases "a = 0") auto
    then have "?q < 0" using assms(1) by (simp add: divide_less_0_iff)
    then have "rnd ?q < 0" using sign by linarith
    moreover have "\<lfloor>- rnd ?q\<rfloor> = (- a) div b"
    proof (rule floor_near [OF assms(1)])
      show "(- a) mod b \<noteq> 0" using False by (simp add: dvd_eq_mod_eq_0 [symmetric])
      show "\<bar>- rnd ?q - of_int (- a) / of_int b\<bar> < 1 / of_int b" using near by (simp add: abs_minus_commute)
    qed
    ultimately show ?thesis using \<open>a < 0\<close> assms(1) by (simp add: trunc_def signed_divide_int_def sgn_mult)
  qed
qed

end

lemma bit_length_bounds: "0 < n \<Longrightarrow> 0 < bit_length n \<and> n < 2 ^ bit_length n \<and> 2 ^ (bit_length n - 1) \<le> n"
proof (induction n rule: bit_length.induct)
  case (1 n)
  let ?k = "bit_length (n div 2)"
  have l: "bit_length n = Suc ?k" using 1(2) by (simp add: bit_length.simps [of n])
  show ?case
  proof (cases "n = 1")
    case True
    then show ?thesis using l by (simp add: bit_length.simps [of 0])
  next
    case False
    then have IH: "0 < ?k" "n div 2 < 2 ^ ?k" "2 ^ (?k - 1) \<le> n div 2" using 1 by auto
    moreover have "(2 :: int) ^ ?k = 2 * 2 ^ (?k - 1)" using IH(1) by (cases ?k) simp_all
    ultimately have "n < 2 * 2 ^ ?k" "2 ^ ?k \<le> n" by linarith+
    then show ?thesis using l by simp
  qed
qed

lemma pow2_pos [simp]: "0 < pow2 e"
  by (simp add: pow2_def)

lemma pow2_nonneg [simp]: "0 \<le> pow2 e"
  by (simp add: pow2_def)

lemma pow2_Suc: "pow2 (e + 1) = 2 * pow2 e"
proof (cases "0 \<le> e")
  case True
  then show ?thesis by (simp add: pow2_def nat_add_distrib)
next
  case False
  then have "nat (- e) = Suc (nat (- e - 1))" by simp
  then show ?thesis using False by (simp add: pow2_def)
qed

lemma pow2_add: "pow2 (a + int k) = pow2 a * 2 ^ k"
proof (induction k)
  case (Suc k)
  have "pow2 (a + int (Suc k)) = pow2 ((a + int k) + 1)" by (simp add: algebra_simps)
  then show ?case using Suc pow2_Suc [of "a + int k"] by simp
qed simp

lemma pow2_minus: "pow2 (- e) * pow2 e = 1"
  by (cases "0 \<le> e") (auto simp: pow2_def)

lemma pow2_diff: "pow2 (int a - int b) = 2 ^ a / 2 ^ b"
proof -
  have "pow2 (int a - int b) * 2 ^ b = pow2 (int a)" using pow2_add [of "int a - int b" b] by simp
  then show ?thesis by (simp add: pow2_def field_simps)
qed

lemma pow2_mono: "a \<le> b \<Longrightarrow> pow2 a \<le> pow2 b"
  using pow2_add [of a "nat (b - a)"] mult_left_mono [of 1 "2 ^ nat (b - a)" "pow2 a"] by simp

lemma exponent2_le: "0 < q \<Longrightarrow> pow2 (exponent2 q) \<le> q"
proof -
  assume q: "0 < q"
  obtain a b where ab: "quotient_of q = (a, b)" by (cases "quotient_of q")
  have b: "0 < b" using quotient_of_denom_pos [OF ab] .
  have qab: "q = of_int a / of_int b" using quotient_of_div [OF ab] .
  then have a: "0 < a" using q b by (simp add: zero_less_divide_iff)
  let ?la = "bit_length a" and ?lb = "bit_length b"
  have "?la \<noteq> 0" "2 ^ (?la - 1) \<le> a" "b < 2 ^ ?lb" using bit_length_bounds [OF a] bit_length_bounds [OF b] by auto
  then have la: "?la \<noteq> 0" and "(2 :: rat) ^ (?la - 1) \<le> of_int a" "of_int b \<le> (2 :: rat) ^ ?lb"
    by (simp, metis of_int_le_iff of_int_numeral of_int_power, metis less_imp_le of_int_le_iff of_int_numeral of_int_power)
  then have "2 ^ (?la - 1) / 2 ^ ?lb \<le> q" unfolding qab using b a by (intro frac_le) simp_all
  then have low: "pow2 (int (?la - 1) - int ?lb) \<le> q" by (simp only: pow2_diff)
  have "int (?la - 1) - int ?lb = int ?la - int ?lb - 1" using la by linarith
  with low have "pow2 (int ?la - int ?lb - 1) \<le> q" by metis
  then show ?thesis using ab by (simp add: exponent2_def Let_def)
qed

lemma round_even_near: "\<bar>of_int (round_even m) - m\<bar> \<le> 1 / 2"
proof -
  have "of_int \<lfloor>m\<rfloor> \<le> m" "m < of_int \<lfloor>m\<rfloor> + 1" by linarith+
  then show ?thesis by (auto simp: round_even_def Let_def)
qed

lemma round_even_int [simp]: "round_even (of_int n) = n"
  by (simp add: round_even_def)

lemma fl_error: "\<bar>fl q - q\<bar> \<le> \<bar>q\<bar> / 2 ^ 53"
proof (cases "q = 0")
  case False
  define e where "e = exponent2 \<bar>q\<bar> - 52"
  define m where "m = \<bar>q\<bar> * pow2 (- e)"
  have "pow2 (e + int 52) \<le> \<bar>q\<bar>" using exponent2_le [of "\<bar>q\<bar>"] False by (simp add: e_def)
  then have e: "pow2 e * 2 ^ 52 \<le> \<bar>q\<bar>" by (simp only: pow2_add)
  have "\<bar>q\<bar> = m * pow2 e" using pow2_minus [of e] by (simp add: m_def mult.assoc)
  then have "q = sgn q * m * pow2 e" by (metis mult.assoc mult_sgn_abs)
  moreover have "fl q = sgn q * of_int (round_even m) * pow2 e" using False by (simp add: fl_def e_def m_def Let_def)
  ultimately have "fl q - q = sgn q * (of_int (round_even m) - m) * pow2 e" by (simp add: algebra_simps)
  then have "\<bar>fl q - q\<bar> = \<bar>of_int (round_even m) - m\<bar> * pow2 e" using False pow2_pos [of e] by (simp add: abs_mult abs_sgn_eq abs_of_pos)
  also have "\<dots> \<le> 1 / 2 * pow2 e" using round_even_near [of m] by (intro mult_right_mono) simp_all
  also have "\<dots> \<le> \<bar>q\<bar> / 2 ^ 53" using e by simp
  finally show ?thesis .
qed (simp add: fl_def)

lemma fl_exact:
  assumes "q * 2 ^ k = of_int n" and "\<bar>n\<bar> < 2 ^ 53"
  shows "fl q = q"
proof (cases "q = 0")
  case False
  define e where "e = exponent2 \<bar>q\<bar> - 52"
  have "pow2 (e + 52) \<le> \<bar>q\<bar>" using exponent2_le [of "\<bar>q\<bar>"] False by (simp add: e_def)
  moreover have "\<bar>q\<bar> * 2 ^ k = of_int \<bar>n\<bar>" using assms(1) by (metis abs_mult abs_numeral of_int_abs power_abs)
  moreover have "(of_int \<bar>n\<bar> :: rat) < 2 ^ 53" using assms(2) by (metis of_int_less_iff of_int_numeral of_int_power)
  ultimately have "pow2 (e + 52) * 2 ^ k < 2 ^ 53" by (metis le_less_trans mult_right_mono zero_le_numeral zero_le_power)
  then have "pow2 (e + 52 + int k) < pow2 53" by (simp add: pow2_add) (simp add: pow2_def)
  then have "e + 52 + int k < 53" using pow2_mono by (meson not_le)
  then have "- e = int k + int (nat (- e - int k))" by simp
  then have "pow2 (- e) = 2 ^ k * 2 ^ nat (- e - int k)" using pow2_add [of "int k" "nat (- e - int k)"] by (simp add: pow2_def)
  then have "\<bar>q\<bar> * pow2 (- e) = of_int \<bar>n\<bar> * 2 ^ nat (- e - int k)"
    using \<open>\<bar>q\<bar> * 2 ^ k = of_int \<bar>n\<bar>\<close> by (metis mult.assoc)
  also have "\<dots> = of_int (\<bar>n\<bar> * 2 ^ nat (- e - int k))" by simp
  finally have "of_int (round_even (\<bar>q\<bar> * pow2 (- e))) = \<bar>q\<bar> * pow2 (- e)" by (metis round_even_int)
  then have "fl q = sgn q * (\<bar>q\<bar> * (pow2 (- e) * pow2 e))" using False by (simp add: fl_def e_def Let_def mult.assoc)
  then show ?thesis by (simp add: pow2_minus sgn_mult_abs)
qed (simp add: fl_def)

interpretation double: rounding fl
  by unfold_locales (fact fl_exact, fact fl_error)

end
