(* ===== verification/RecordCompare.thy ===== *)
theory RecordCompare
  imports RecordFormat Ieee
begin

text \<open>
  Comparison of a record with a list of values (\<^verbatim>\<open>vdbeaux.c\<close>): \<open>sqlite3MemCompare\<close> for two values, the comparator \<open>sqlite3VdbeRecordCompare\<close>
  that decodes only what it needs, its fast forms for records that begin with an integer or a text, and the
  choice between them. \<^verbatim>\<open>memcmp\<close> is given by its sign. A collating sequence is a function on the bytes of two texts that are in its
  encoding.
\<close>

section \<open>Doubles\<close>

text \<open>Doubles are compared through an integer: the value times \<open>2 ^ 1074\<close>. An integer is rounded to 53 bits first, to even in the middle.\<close>

definition double_key :: "u64 \<Rightarrow> int" where
  "double_key r =
    (let f = uint (take_bit 52 r); e = unat (drop_bit 52 r AND 0x7ff);
         mag = (if e = 0 then f else (2 ^ 52 + f) * 2 ^ (e - 1))
     in if bit r 63 then - mag else mag)"

definition int_key :: "int \<Rightarrow> int" where
  "int_key i =
    (let a = nat \<bar>i\<bar>; k = bit_length (int a) - 53; q = a div 2 ^ k; r = a mod 2 ^ k;
         q' = (if 2 * r > 2 ^ k \<or> (k > 0 \<and> 2 * r = 2 ^ k \<and> odd q) then q + 1 else q)
     in sgn i * int (q' * 2 ^ k) * 2 ^ 1074)"

definition double_cmp :: "bool \<Rightarrow> int \<Rightarrow> int \<Rightarrow> int" where
  "double_cmp nan a b = (if nan then 0 else if a < b then - 1 else if a > b then 1 else 0)"

section \<open>Two values\<close>

primrec memcmp :: "nat \<Rightarrow> u8 list \<Rightarrow> u8 list \<Rightarrow> int option" where
  "memcmp 0 a b = Some 0"
| "memcmp (Suc n) a b = do {
     x \<leftarrow> rd a 0; y \<leftarrow> rd b 0;
     if x < y then Some (- 1) else if y < x then Some 1 else memcmp n (tl a) (tl b)
   }"

type_synonym collation = "u8 list \<Rightarrow> u8 list \<Rightarrow> int"

definition cmp_bytes :: "u8 list \<Rightarrow> u8 list \<Rightarrow> int option" where
  "cmp_bytes a b = do {
     rc \<leftarrow> memcmp (min (length a) (length b)) a b;
     Some (if rc = 0 then int (length a) - int (length b) else rc)
   }"

definition int_cmp :: "int \<Rightarrow> int \<Rightarrow> int" where
  "int_cmp a b = (if a < b then - 1 else if a > b then 1 else 0)"

definition is_number :: "Mem \<Rightarrow> bool" where
  "is_number m = (case m of MInt _ \<Rightarrow> True | MReal _ \<Rightarrow> True | _ \<Rightarrow> False)"

text \<open>The double that a number is converted to: its key, and whether it is a NaN.\<close>

definition as_double :: "Mem \<Rightarrow> int" where
  "as_double m = (case m of MInt i \<Rightarrow> int_key i | MReal r \<Rightarrow> double_key r | _ \<Rightarrow> 0)"

definition is_nan :: "Mem \<Rightarrow> bool" where
  "is_nan m = (case m of MReal r \<Rightarrow> sqlite3IsNaN r | _ \<Rightarrow> False)"

definition mem_z :: "Mem \<Rightarrow> u8 list" where
  "mem_z m = (case m of MStr z \<Rightarrow> z | MBlob z n \<Rightarrow> z | _ \<Rightarrow> [])"

definition is_str :: "Mem \<Rightarrow> bool" where
  "is_str m = (case m of MStr _ \<Rightarrow> True | _ \<Rightarrow> False)"

definition sqlite3MemCompare :: "Mem \<Rightarrow> Mem \<Rightarrow> collation option \<Rightarrow> int option" where
  "sqlite3MemCompare m1 m2 pColl =
    (if m1 = MNull \<or> m2 = MNull then Some ((if m2 = MNull then 1 else 0) - (if m1 = MNull then 1 else 0))
     else if is_number m1 \<or> is_number m2 then
       (case (m1, m2) of
          (MInt a, MInt b) \<Rightarrow> Some (int_cmp a b)
        | _ \<Rightarrow> if \<not> is_number m1 then Some 1
               else if \<not> is_number m2 then Some (- 1)
               else Some (double_cmp (is_nan m1 \<or> is_nan m2) (as_double m1) (as_double m2)))
     else if (is_str m1 \<or> is_str m2) \<and> \<not> is_str m1 then Some 1
     else if (is_str m1 \<or> is_str m2) \<and> \<not> is_str m2 then Some (- 1)
     else case (if is_str m1 then pColl else None) of
         Some xCmp \<Rightarrow> Some (xCmp (mem_z m1) (mem_z m2))
       | None \<Rightarrow> cmp_bytes (mem_z m1) (mem_z m2))"

section \<open>A record and a list of values\<close>

record KeyInfo =
  aColl :: "collation option list"
  aSortOrder :: "bool list"

record UnpackedRecord =
  aMem :: "Mem list"
  default_rc :: int

datatype field_cmp = Corrupt | Cmp int u32

definition cmp_int_field :: "u8 list \<Rightarrow> nat \<Rightarrow> nat \<Rightarrow> int \<Rightarrow> field_cmp option" where
  "cmp_int_field aKey1 idx1 d1 rhs = do {
     b \<leftarrow> rd aKey1 idx1;
     let serial_type = (ucast b :: u32);
     if serial_type \<ge> 12 then Some (Cmp 1 serial_type)
     else if serial_type = 0 then Some (Cmp (- 1) serial_type)
     else if serial_type = 7 then do {
       x \<leftarrow> EIGHT_BYTE_UINT (drop d1 aKey1);
       Some (Cmp (double_cmp (sqlite3IsNaN x) (double_key x) (int_key rhs)) serial_type)
     } else do {
       lhs \<leftarrow> vdbeRecordDecodeInt serial_type (drop d1 aKey1);
       Some (Cmp (int_cmp lhs rhs) serial_type)
     }
   }"

text \<open>For the reserved types 10 and 11 the integer that is compared was never set (\<open>None\<close>).\<close>

definition cmp_real_field :: "u8 list \<Rightarrow> nat \<Rightarrow> nat \<Rightarrow> u64 \<Rightarrow> field_cmp option" where
  "cmp_real_field aKey1 idx1 d1 rhs = do {
     b \<leftarrow> rd aKey1 idx1;
     let serial_type = (ucast b :: u32);
     if serial_type \<ge> 12 then Some (Cmp 1 serial_type)
     else if serial_type = 0 then Some (Cmp (- 1) serial_type)
     else if serial_type = 7 then do {
       x \<leftarrow> EIGHT_BYTE_UINT (drop d1 aKey1);
       Some (Cmp (double_cmp (sqlite3IsNaN x \<or> sqlite3IsNaN rhs) (double_key x) (double_key rhs)) serial_type)
     } else do {
       (mem1, n) \<leftarrow> sqlite3VdbeSerialGet (drop d1 aKey1) serial_type;
       (case mem1 of
          MInt i \<Rightarrow> Some (Cmp (double_cmp (sqlite3IsNaN rhs) (int_key i) (double_key rhs)) serial_type)
        | _ \<Rightarrow> None)
     }
   }"

definition key_bytes :: "u8 list \<Rightarrow> nat \<Rightarrow> nat \<Rightarrow> u8 list option" where
  "key_bytes aKey1 d1 n = (if d1 + n \<le> length aKey1 then Some (take n (drop d1 aKey1)) else None)"

definition cmp_str_field :: "KeyInfo \<Rightarrow> nat \<Rightarrow> u8 list \<Rightarrow> nat \<Rightarrow> nat \<Rightarrow> nat \<Rightarrow> u8 list \<Rightarrow> field_cmp option" where
  "cmp_str_field ki nKey1 aKey1 i idx1 d1 rhs = do {
     (serial_type, _) \<leftarrow> getVarint32 (drop idx1 aKey1);
     if serial_type < 12 then Some (Cmp (- 1) serial_type)
     else if serial_type AND 1 = 0 then Some (Cmp 1 serial_type)
     else let n = (unat serial_type - 12) div 2 in
       if add32 d1 n > nKey1 then Some Corrupt
       else do {
         coll \<leftarrow> rd (aColl ki) i;
         z \<leftarrow> key_bytes aKey1 d1 n;
         rc \<leftarrow> (case coll of Some xCmp \<Rightarrow> Some (xCmp z rhs) | None \<Rightarrow> cmp_bytes z rhs);
         Some (Cmp rc serial_type)
       }
   }"

definition cmp_blob_field :: "nat \<Rightarrow> u8 list \<Rightarrow> nat \<Rightarrow> nat \<Rightarrow> u8 list \<Rightarrow> field_cmp option" where
  "cmp_blob_field nKey1 aKey1 idx1 d1 rhs = do {
     (serial_type, _) \<leftarrow> getVarint32 (drop idx1 aKey1);
     if serial_type < 12 \<or> serial_type AND 1 \<noteq> 0 then Some (Cmp (- 1) serial_type)
     else let nStr = (unat serial_type - 12) div 2 in
       if add32 d1 nStr > nKey1 then Some Corrupt
       else do {
         z \<leftarrow> key_bytes aKey1 d1 nStr;
         rc \<leftarrow> cmp_bytes z rhs;
         Some (Cmp rc serial_type)
       }
   }"

definition cmp_null_field :: "u8 list \<Rightarrow> nat \<Rightarrow> field_cmp option" where
  "cmp_null_field aKey1 idx1 = do {
     b \<leftarrow> rd aKey1 idx1;
     Some (Cmp (if b \<noteq> 0 then 1 else 0) (ucast b))
   }"

definition cmp_field :: "KeyInfo \<Rightarrow> nat \<Rightarrow> u8 list \<Rightarrow> nat \<Rightarrow> nat \<Rightarrow> nat \<Rightarrow> Mem \<Rightarrow> field_cmp option" where
  "cmp_field ki nKey1 aKey1 i idx1 d1 pRhs = (case pRhs of
     MInt rhs \<Rightarrow> cmp_int_field aKey1 idx1 d1 rhs
   | MReal rhs \<Rightarrow> cmp_real_field aKey1 idx1 d1 rhs
   | MStr rhs \<Rightarrow> cmp_str_field ki nKey1 aKey1 i idx1 d1 rhs
   | MBlob rhs n \<Rightarrow> cmp_blob_field nKey1 aKey1 idx1 d1 rhs
   | MNull \<Rightarrow> cmp_null_field aKey1 idx1)"

text \<open>The result is the return value and \<^verbatim>\<open>isCorrupt\<close>.\<close>

fun compare_loop :: "KeyInfo \<Rightarrow> nat \<Rightarrow> u8 list \<Rightarrow> nat \<Rightarrow> int \<Rightarrow> nat \<Rightarrow> nat \<Rightarrow> nat \<Rightarrow> Mem list \<Rightarrow> (int \<times> bool) option" where
  "compare_loop ki nKey1 aKey1 szHdr1 def_rc i idx1 d1 [] = None"
| "compare_loop ki nKey1 aKey1 szHdr1 def_rc i idx1 d1 (pRhs # rest) = do {
     r \<leftarrow> cmp_field ki nKey1 aKey1 i idx1 d1 pRhs;
     (case r of
        Corrupt \<Rightarrow> Some (0, True)
      | Cmp rc serial_type \<Rightarrow>
          if rc \<noteq> 0 then do { desc \<leftarrow> rd (aSortOrder ki) i; Some (if desc then - rc else rc, False) }
          else let d1 = add32 d1 (sqlite3VdbeSerialTypeLen serial_type);
                   idx1 = add32 idx1 (sqlite3VarintLen (ucast serial_type))
               in if idx1 < szHdr1 \<and> rest \<noteq> [] \<and> d1 \<le> nKey1
                  then compare_loop ki nKey1 aKey1 szHdr1 def_rc (i + 1) idx1 d1 rest
                  else Some (def_rc, False))
   }"

definition sqlite3VdbeRecordCompare :: "KeyInfo \<Rightarrow> nat \<Rightarrow> u8 list \<Rightarrow> UnpackedRecord \<Rightarrow> bool \<Rightarrow> (int \<times> bool) option" where
  "sqlite3VdbeRecordCompare ki nKey1 aKey1 p bSkip =
    (if bSkip then do {
       (s1, k) \<leftarrow> getVarint32 (drop 1 aKey1);
       b \<leftarrow> rd aKey1 0;
       compare_loop ki nKey1 aKey1 (unat b) (default_rc p) 1 (1 + k) (add32 (unat b) (sqlite3VdbeSerialTypeLen s1)) (tl (aMem p))
     } else do {
       (szHdr1, idx1) \<leftarrow> getVarint32 aKey1;
       if unat szHdr1 > nKey1 then Some (0, True)
       else compare_loop ki nKey1 aKey1 (unat szHdr1) (default_rc p) 0 idx1 (unat szHdr1) (aMem p)
     })"

section \<open>The reference comparator\<close>

text \<open>\<^verbatim>\<open>vdbeRecordCompareDebug\<close>, which the assertions of the comparators call: every field is decoded and compared as a value.\<close>

fun compare_debug_loop :: "KeyInfo \<Rightarrow> nat \<Rightarrow> u8 list \<Rightarrow> nat \<Rightarrow> int \<Rightarrow> nat \<Rightarrow> nat \<Rightarrow> nat \<Rightarrow> Mem list \<Rightarrow> int option" where
  "compare_debug_loop ki nKey1 aKey1 szHdr1 def_rc i idx1 d1 [] = None"
| "compare_debug_loop ki nKey1 aKey1 szHdr1 def_rc i idx1 d1 (y # rest) = do {
     (serial_type1, k) \<leftarrow> getVarint32 (drop idx1 aKey1);
     let idx1 = add32 idx1 k;
     if add32 (add32 d1 (unat serial_type1)) 2 > nKey1 \<and> add32 d1 (sqlite3VdbeSerialTypeLen serial_type1) > nKey1 then Some def_rc
     else do {
       (mem1, l) \<leftarrow> sqlite3VdbeSerialGet (drop d1 aKey1) serial_type1;
       coll \<leftarrow> rd (aColl ki) i;
       rc \<leftarrow> sqlite3MemCompare mem1 y coll;
       if rc \<noteq> 0 then do { desc \<leftarrow> rd (aSortOrder ki) i; Some (if desc then - rc else rc) }
       else if idx1 < szHdr1 \<and> rest \<noteq> []
            then compare_debug_loop ki nKey1 aKey1 szHdr1 def_rc (i + 1) idx1 (add32 d1 l) rest
            else Some def_rc
     }
   }"

definition vdbeRecordCompareDebug :: "KeyInfo \<Rightarrow> nat \<Rightarrow> u8 list \<Rightarrow> UnpackedRecord \<Rightarrow> int option" where
  "vdbeRecordCompareDebug ki nKey1 aKey1 p = do {
     (szHdr1, idx1) \<leftarrow> getVarint32 aKey1;
     compare_debug_loop ki nKey1 aKey1 (unat szHdr1) (default_rc p) 0 idx1 (unat szHdr1) (aMem p)
   }"

section \<open>The fast forms\<close>

definition vdbeRecordCompareInt :: "KeyInfo \<Rightarrow> int \<Rightarrow> int \<Rightarrow> nat \<Rightarrow> u8 list \<Rightarrow> UnpackedRecord \<Rightarrow> (int \<times> bool) option" where
  "vdbeRecordCompareInt ki r1 r2 nKey1 pKey1 p = do {
     b0 \<leftarrow> rd pKey1 0;
     b1 \<leftarrow> rd pKey1 1;
     let aKey = drop (unat (b0 AND 0x3f)) pKey1;
     let serial_type = (ucast b1 :: u32);
     (case aMem p of
        MInt v # _ \<Rightarrow>
          if serial_type \<in> {1, 2, 3, 4, 5, 6, 8, 9} then do {
            lhs \<leftarrow> vdbeRecordDecodeInt serial_type aKey;
            if v > lhs then Some (r1, False)
            else if v < lhs then Some (r2, False)
            else if length (aMem p) > 1 then sqlite3VdbeRecordCompare ki nKey1 pKey1 p True
            else Some (default_rc p, False)
          } else sqlite3VdbeRecordCompare ki nKey1 pKey1 p False
      | _ \<Rightarrow> None)
   }"

text \<open>Here the serial type is a signed integer: from \<open>2 ^ 31\<close> on it is negative.\<close>

definition vdbeRecordCompareString :: "KeyInfo \<Rightarrow> int \<Rightarrow> int \<Rightarrow> nat \<Rightarrow> u8 list \<Rightarrow> UnpackedRecord \<Rightarrow> (int \<times> bool) option" where
  "vdbeRecordCompareString ki r1 r2 nKey1 aKey1 p = do {
     (serial_type, _) \<leftarrow> getVarint32 (drop 1 aKey1);
     if serial_type < 12 \<or> bit serial_type 31 then Some (r1, False)
     else if serial_type AND 1 = 0 then Some (r2, False)
     else do {
       b0 \<leftarrow> rd aKey1 0;
       let szHdr = unat b0;
       let nStr = (unat serial_type - 12) div 2;
       if szHdr + nStr > nKey1 then Some (0, True)
       else (case aMem p of
           MStr z # _ \<Rightarrow> do {
             k \<leftarrow> key_bytes aKey1 szHdr nStr;
             res \<leftarrow> cmp_bytes k z;
             if res = 0 then
               (if length (aMem p) > 1 then sqlite3VdbeRecordCompare ki nKey1 aKey1 p True else Some (default_rc p, False))
             else Some (if res > 0 then r2 else r1, False)
           }
         | _ \<Rightarrow> None)
     }
   }"

text \<open>\<^verbatim>\<open>sqlite3VdbeFindCompare\<close> and the call of the function it returns; \<open>nAll\<close> is \<^verbatim>\<open>nField + nXField\<close>.\<close>

definition sqlite3VdbeFindCompare :: "KeyInfo \<Rightarrow> nat \<Rightarrow> nat \<Rightarrow> u8 list \<Rightarrow> UnpackedRecord \<Rightarrow> (int \<times> bool) option" where
  "sqlite3VdbeFindCompare ki nAll nKey1 aKey1 p =
    (if nAll \<le> 13 then do {
       desc \<leftarrow> rd (aSortOrder ki) 0;
       coll \<leftarrow> rd (aColl ki) 0;
       m \<leftarrow> rd (aMem p) 0;
       let r1 = (if desc then 1 else - 1);
       let r2 = (if desc then - 1 else 1);
       (case m of
          MInt _ \<Rightarrow> vdbeRecordCompareInt ki r1 r2 nKey1 aKey1 p
        | MStr _ \<Rightarrow> if coll = None then vdbeRecordCompareString ki r1 r2 nKey1 aKey1 p
                     else sqlite3VdbeRecordCompare ki nKey1 aKey1 p False
        | _ \<Rightarrow> sqlite3VdbeRecordCompare ki nKey1 aKey1 p False)
     } else sqlite3VdbeRecordCompare ki nKey1 aKey1 p False)"

text \<open>The row number at the end of an index record; \<open>Inl\<close> is \<^verbatim>\<open>SQLITE_CORRUPT\<close>. The size of the header is compared as a signed integer.\<close>

definition sqlite3VdbeIdxRowid :: "u8 list \<Rightarrow> (unit + int) option" where
  "sqlite3VdbeIdxRowid z = do {
     (szHdr, _) \<leftarrow> getVarint32 z;
     if unat szHdr < 3 \<or> sint szHdr > int (length z) then Some (Inl ())
     else do {
       (typeRowid, _) \<leftarrow> getVarint32 (drop (unat szHdr - 1) z);
       if typeRowid < 1 \<or> typeRowid > 9 \<or> typeRowid = 7 then Some (Inl ())
       else let lenRowid = sqlite3VdbeSerialTypeLen typeRowid in
         if length z < add32 (unat szHdr) lenRowid then Some (Inl ())
         else do {
           (v, _) \<leftarrow> sqlite3VdbeSerialGet (drop (length z - lenRowid) z) typeRowid;
           (case v of MInt i \<Rightarrow> Some (Inr i) | _ \<Rightarrow> None)
         }
     }
   }"

section \<open>One field\<close>

lemma serial_type_class:
  assumes "valid_mem m"
  shows "case m of
      MNull \<Rightarrow> sqlite3VdbeSerialType m ff = 0
    | MInt i \<Rightarrow> sqlite3VdbeSerialType m ff \<in> {1, 2, 3, 4, 5, 6, 8, 9}
    | MReal r \<Rightarrow> sqlite3VdbeSerialType m ff = 7
    | MStr z \<Rightarrow> unat (sqlite3VdbeSerialType m ff) = length z * 2 + 12 + 1
    | MBlob z n \<Rightarrow> unat (sqlite3VdbeSerialType m ff) = (length z + n) * 2 + 12 + 0"
proof (cases m)
  case (MInt i)
  then have "i64_range i" using assms by (simp add: valid_mem_def)
  then show ?thesis using MInt by (cases rule: serial_type_int [of i ff]) simp_all
next
  case (MStr z)
  then show ?thesis using assms str_type [of z ff] by simp
next
  case (MBlob z n)
  then show ?thesis using assms blob_type [of z n ff] by simp
qed (simp_all add: sqlite3VdbeSerialType_def)

text \<open>The first byte of a serial type is the type, or at least 128.\<close>

lemma type_first_byte:
  assumes "drop idx aKey = type_bytes ff m @ r"
  shows "\<exists>b. rd aKey idx = Some b \<and> (b < 0x80 \<longrightarrow> ucast b = sqlite3VdbeSerialType m ff) \<and>
    (sqlite3VdbeSerialType m ff \<le> 127 \<longrightarrow> b = ucast (sqlite3VdbeSerialType m ff))"
proof -
  let ?t = "sqlite3VdbeSerialType m ff"
  obtain b bs where b: "type_bytes ff m = b # bs" using type_bytes_pos [of ff m] by (cases "type_bytes ff m") auto
  then have "drop idx aKey = b # bs @ r" using assms by simp
  then have rd: "rd aKey idx = Some b" by (metis drop_eq_Nil list.distinct(1) not_le nth_via_drop rd_lt)
  have "ucast b = ?t" if "b < 0x80"
  proof -
    have "sqlite3GetVarint (b # bs) = Some (ucast b, 1)" using that ucast_u8_u32_u64 by (simp add: getVarint_unfold lt_0x80_u8)
    moreover have "sqlite3GetVarint (b # bs) = Some (ucast ?t, length (b # bs))"
      using getVarint_bytes [of "ucast ?t" "[]"] b by (simp add: type_bytes_def)
    ultimately have "(ucast b :: u64) = ucast ?t" by simp
    then have "(ucast (ucast b :: u64) :: u32) = ucast (ucast ?t :: u64)" by (rule arg_cong)
    then show ?thesis by (simp add: ucast_u8_u64_u32)
  qed
  moreover have "b = ucast ?t" if "?t \<le> 127"
  proof -
    have "drop_bit 7 (ucast ?t :: u64) = 0"
      using that by (simp add: drop_bit_ucast_u32 lt_0x80_u32 [symmetric] word_less_nat_alt word_le_nat_alt)
    then show ?thesis using b by (simp add: type_bytes_def varint_bytes_1)
  qed
  ultimately show ?thesis using rd by blast
qed

lemma bind_eq_Some: "Option.bind x f = Some y \<longleftrightarrow> (\<exists>z. x = Some z \<and> f z = Some y)"
  by (cases x) auto

lemma decode_int_get:
  assumes "t \<in> {1, 2, 3, 4, 5, 6, 8, 9}" and "sqlite3VdbeSerialGet buf t = Some (MInt i, n)"
  shows "vdbeRecordDecodeInt t buf = Some i"
proof -
  consider "t = 1" | "t = 2" | "t = 3" | "t = 4" | "t = 5" | "t = 6" | "t = 8" | "t = 9" using assms(1) by blast
  then show ?thesis using assms(2)
    by cases (auto simp: sqlite3VdbeSerialGet_def vdbeRecordDecodeInt_def bind_eq_Some)
qed

lemma key_bytes_prefix: "drop d a = z @ r \<Longrightarrow> d \<le> length a \<Longrightarrow> key_bytes a d (length z) = Some z"
proof -
  assume a: "drop d a = z @ r" "d \<le> length a"
  from arg_cong [OF a(1), of length] have "length a - d = length z + length r" by simp
  then show ?thesis using a by (simp add: key_bytes_def)
qed

lemma memcmp_total: "n \<le> length a \<Longrightarrow> n \<le> length b \<Longrightarrow> \<exists>rc. memcmp n a b = Some rc"
proof (induction n arbitrary: a b)
  case (Suc n)
  then obtain x a' y b' where "a = x # a'" "b = y # b'" by (metis Suc_le_length_iff)
  then show ?case using Suc by simp
qed simp

lemma cmp_bytes_total: "\<exists>rc. cmp_bytes a b = Some rc"
  using memcmp_total [of "min (length a) (length b)" a b] by (auto simp: cmp_bytes_def)

lemma mem_compare_total: "\<exists>rc. sqlite3MemCompare x y c = Some rc"
  using cmp_bytes_total by (simp add: sqlite3MemCompare_def split: option.split Mem.split)

lemmas compare_values = sqlite3MemCompare_def is_number_def is_str_def mem_z_def is_nan_def as_double_def expand_def

text \<open>The comparison of a field of the record without decoding it is the comparison of the values. When it finds them equal, it knows the serial type.\<close>

definition field_agrees :: "field_cmp option \<Rightarrow> int option \<Rightarrow> u32 \<Rightarrow> bool" where
  "field_agrees c rc t = (case (c, rc) of (Some (Cmp r st), Some r') \<Rightarrow> r = r' \<and> (r = 0 \<longrightarrow> st = t) | _ \<Rightarrow> False)"

text \<open>The offsets of a field: its serial type is at \<open>idx\<close>, its data at \<open>d\<close>.\<close>

definition field_at :: "u8 list \<Rightarrow> nat \<Rightarrow> nat \<Rightarrow> int \<Rightarrow> Mem \<Rightarrow> bool" where
  "field_at aKey idx d ff m \<longleftrightarrow> valid_mem m \<and> (\<exists>r. drop idx aKey = type_bytes ff m @ r) \<and> (\<exists>r. drop d aKey = serial_data ff m @ r) \<and>
    d \<le> length aKey \<and> length aKey < 2 ^ 31"

lemma field_at_get:
  assumes "field_at aKey idx d ff m"
  shows "getVarint32 (drop idx aKey) = Some (sqlite3VdbeSerialType m ff, length (type_bytes ff m))"
    and "sqlite3VdbeSerialGet (drop d aKey) (sqlite3VdbeSerialType m ff) = Some (expand m, length (serial_data ff m))"
    and "d + length (serial_data ff m) \<le> length aKey"
    and "key_bytes aKey d (length (serial_data ff m)) = Some (serial_data ff m)"
proof -
  show "getVarint32 (drop idx aKey) = Some (sqlite3VdbeSerialType m ff, length (type_bytes ff m))"
    using assms get_type by (auto simp: field_at_def)
  show "sqlite3VdbeSerialGet (drop d aKey) (sqlite3VdbeSerialType m ff) = Some (expand m, length (serial_data ff m))"
    using assms serial_get_data by (auto simp: field_at_def)
  show key: "key_bytes aKey d (length (serial_data ff m)) = Some (serial_data ff m)"
    using assms key_bytes_prefix by (auto simp: field_at_def)
  then show "d + length (serial_data ff m) \<le> length aKey" by (simp add: key_bytes_def split: if_splits)
qed

lemma field_first_byte:
  assumes "field_at aKey idx d ff m"
  shows "\<exists>b. rd aKey idx = Some b \<and> (sqlite3VdbeSerialType m ff < 12 \<longrightarrow> ucast b = sqlite3VdbeSerialType m ff) \<and>
    (sqlite3VdbeSerialType m ff \<ge> 12 \<longrightarrow> (ucast b :: u32) \<ge> 12)"
proof -
  let ?t = "sqlite3VdbeSerialType m ff"
  obtain r where "drop idx aKey = type_bytes ff m @ r" using assms by (auto simp: field_at_def)
  then obtain b where b: "rd aKey idx = Some b" "b < 0x80 \<longrightarrow> ucast b = ?t" "?t \<le> 127 \<longrightarrow> b = ucast ?t"
    using type_first_byte by blast
  have "ucast b = ?t" if "?t < 12"
  proof -
    have "unat ?t < 12" using that by (simp add: word_less_nat_alt)
    moreover from this have "b = ucast ?t" by (intro b(3) [rule_format]) (simp add: word_le_nat_alt)
    ultimately have "b < 0x80" by (simp add: word_less_nat_alt unsigned_ucast_eq take_bit_nat_eq_self)
    then show ?thesis using b(2) by blast
  qed
  moreover have "(ucast b :: u32) \<ge> 12" if "?t \<ge> 12"
    using b(2) that unat_ucast_u8 [of b] by (cases "b < 0x80") (auto simp: word_le_nat_alt word_less_nat_alt)
  ultimately show ?thesis using b(1) by blast
qed

lemma field_agrees_Some: "field_agrees (Some (Cmp r st)) (Some r') t \<longleftrightarrow> r = r' \<and> (r = 0 \<longrightarrow> st = t)"
  by (simp add: field_agrees_def)

lemma cmp_int_field_agrees:
  assumes f: "field_at aKey idx d ff m"
  shows "field_agrees (cmp_int_field aKey idx d rhs) (sqlite3MemCompare (expand m) (MInt rhs) c) (sqlite3VdbeSerialType m ff)"
proof -
  let ?t = "sqlite3VdbeSerialType m ff"
  have v: "valid_mem m" using f by (simp add: field_at_def)
  note cls = serial_type_class [OF v, of ff] and get = field_at_get(2) [OF f]
  obtain b where b: "rd aKey idx = Some b" "?t < 12 \<longrightarrow> ucast b = ?t" "?t \<ge> 12 \<longrightarrow> (ucast b :: u32) \<ge> 12"
    using field_first_byte [OF f] by blast
  show ?thesis
  proof (cases m)
    case (MInt i)
    then have t: "?t \<in> {1, 2, 3, 4, 5, 6, 8, 9}" using cls by simp
    then have "?t < 12" by (auto simp: word_less_nat_alt)
    then have "ucast b = ?t" using b(2) by blast
    moreover have "vdbeRecordDecodeInt ?t (drop d aKey) = Some i"
      by (rule decode_int_get [OF t]) (use get MInt in \<open>simp add: expand_def\<close>)
    moreover have "\<not> 12 \<le> ?t" "?t \<noteq> 0" "?t \<noteq> 7" using t \<open>?t < 12\<close> by auto
    ultimately show ?thesis
      using b(1) MInt by (simp add: cmp_int_field_def Let_def field_agrees_Some compare_values)
  next
    case (MReal x)
    then have t: "?t = 7" using cls by simp
    then have "ucast b = (7 :: u32)" using b(2) by simp
    moreover have "EIGHT_BYTE_UINT (drop d aKey) = Some x"
      using get t MReal v by (auto simp: sqlite3VdbeSerialGet_def expand_def valid_mem_def bind_eq_Some split: if_splits)
    moreover have "\<not> sqlite3IsNaN x" using v MReal by (simp add: valid_mem_def)
    ultimately show ?thesis
      using b(1) MReal t by (simp add: cmp_int_field_def field_agrees_Some compare_values word_le_nat_alt)
  next
    case MNull
    then show ?thesis using cls b(1,2) by (simp add: cmp_int_field_def field_agrees_Some compare_values)
  next
    case (MStr z)
    then have "?t \<ge> 12" using cls by (simp add: word_le_nat_alt)
    then show ?thesis using MStr b by (simp add: cmp_int_field_def field_agrees_Some compare_values)
  next
    case (MBlob z n)
    then have "?t \<ge> 12" using cls by (simp add: word_le_nat_alt)
    then show ?thesis using MBlob b by (simp add: cmp_int_field_def field_agrees_Some compare_values)
  qed
qed

lemma cmp_real_field_agrees:
  assumes f: "field_at aKey idx d ff m"
  shows "field_agrees (cmp_real_field aKey idx d rhs) (sqlite3MemCompare (expand m) (MReal rhs) c) (sqlite3VdbeSerialType m ff)"
proof -
  let ?t = "sqlite3VdbeSerialType m ff"
  have v: "valid_mem m" using f by (simp add: field_at_def)
  note cls = serial_type_class [OF v, of ff] and get = field_at_get(2) [OF f]
  obtain b where b: "rd aKey idx = Some b" "?t < 12 \<longrightarrow> ucast b = ?t" "?t \<ge> 12 \<longrightarrow> (ucast b :: u32) \<ge> 12"
    using field_first_byte [OF f] by blast
  show ?thesis
  proof (cases m)
    case (MInt i)
    then have t: "?t \<in> {1, 2, 3, 4, 5, 6, 8, 9}" using cls by simp
    then have "?t < 12" by (auto simp: word_less_nat_alt)
    then have "ucast b = ?t" using b(2) by blast
    moreover have "sqlite3VdbeSerialGet (drop d aKey) ?t = Some (MInt i, length (serial_data ff m))"
      using get MInt by (simp add: expand_def)
    moreover have "\<not> 12 \<le> ?t" "?t \<noteq> 0" "?t \<noteq> 7" using t \<open>?t < 12\<close> by auto
    ultimately show ?thesis
      using b(1) MInt by (simp add: cmp_real_field_def Let_def field_agrees_Some compare_values)
  next
    case (MReal x)
    then have t: "?t = 7" using cls by simp
    then have "ucast b = (7 :: u32)" using b(2) by simp
    moreover have "EIGHT_BYTE_UINT (drop d aKey) = Some x"
      using get t MReal v by (auto simp: sqlite3VdbeSerialGet_def expand_def valid_mem_def bind_eq_Some split: if_splits)
    ultimately show ?thesis
      using b(1) MReal t by (simp add: cmp_real_field_def field_agrees_Some compare_values word_le_nat_alt)
  next
    case MNull
    then show ?thesis using cls b(1,2) by (simp add: cmp_real_field_def field_agrees_Some compare_values)
  next
    case (MStr z)
    then have "?t \<ge> 12" using cls by (simp add: word_le_nat_alt)
    then show ?thesis using MStr b by (simp add: cmp_real_field_def field_agrees_Some compare_values)
  next
    case (MBlob z n)
    then have "?t \<ge> 12" using cls by (simp add: word_le_nat_alt)
    then show ?thesis using MBlob b by (simp add: cmp_real_field_def field_agrees_Some compare_values)
  qed
qed

lemma cmp_null_field_agrees:
  assumes f: "field_at aKey idx d ff m"
  shows "field_agrees (cmp_null_field aKey idx) (sqlite3MemCompare (expand m) MNull c) (sqlite3VdbeSerialType m ff)"
proof -
  let ?t = "sqlite3VdbeSerialType m ff"
  have v: "valid_mem m" using f by (simp add: field_at_def)
  note cls = serial_type_class [OF v, of ff]
  obtain b where b: "rd aKey idx = Some b" "?t < 12 \<longrightarrow> ucast b = ?t" "?t \<ge> 12 \<longrightarrow> (ucast b :: u32) \<ge> 12"
    using field_first_byte [OF f] by blast
  have "?t = 0 \<longleftrightarrow> m = MNull" using cls by (auto split: Mem.splits)
  moreover have "b = 0 \<longleftrightarrow> ?t = 0"
    using b(2,3) ucast_u8_inj [of b 0] by (cases "?t < 12") (auto simp: word_le_nat_alt word_less_nat_alt)
  moreover have "(m = MNull) \<longleftrightarrow> (expand m = MNull)" by (simp add: expand_def split: Mem.split)
  ultimately show ?thesis using b(1) by (auto simp: cmp_null_field_def field_agrees_Some sqlite3MemCompare_def)
qed

lemma text_type_large:
  "unat (t :: u32) = n * 2 + 12 + k \<Longrightarrow> \<not> t < 12"
  by (simp add: word_less_nat_alt)

lemma number_type_small:
  assumes "valid_mem m" and "\<not> is_str m" and "\<forall>z n. m \<noteq> MBlob z n"
  shows "sqlite3VdbeSerialType m ff < 12" and "expand m = m" and "m \<noteq> MNull \<Longrightarrow> is_number m"
  using serial_type_class [OF assms(1), of ff] assms(2,3)
  by (auto simp: is_str_def is_number_def expand_def word_less_nat_alt split: Mem.splits)

lemma cmp_str_field_agrees:
  assumes f: "field_at aKey idx d ff m" and i: "i < length (aColl ki)"
  shows "field_agrees (cmp_str_field ki (length aKey) aKey i idx d rhs) (sqlite3MemCompare (expand m) (MStr rhs) (aColl ki ! i))
    (sqlite3VdbeSerialType m ff)"
proof -
  let ?t = "sqlite3VdbeSerialType m ff"
  have v: "valid_mem m" using f by (simp add: field_at_def)
  note cls = serial_type_class [OF v, of ff]
  show ?thesis
  proof (cases m)
    case (MStr z)
    then have "unat ?t = length z * 2 + 12 + 1" using cls by simp
    note t = text_type_cases [OF this le_refl] text_type_large [OF this]
    obtain rc where rc: "cmp_bytes z rhs = Some rc" using cmp_bytes_total by blast
    have "d + length z \<le> length aKey" "add32 d (length z) = d + length z"
      using field_at_get(3) [OF f] f MStr by (simp_all add: serial_data_def field_at_def add32_small)
    then show ?thesis
      using field_at_get(1,4) [OF f] MStr i t rc
      by (cases "aColl ki ! i") (simp_all add: cmp_str_field_def field_agrees_Some compare_values serial_data_def Let_def)
  next
    case (MBlob z n)
    then have "unat ?t = (length z + n) * 2 + 12 + 0" using cls by simp
    note t = text_type_cases [OF this zero_le_one] text_type_large [OF this]
    then show ?thesis using field_at_get(1) [OF f] MBlob by (simp add: cmp_str_field_def field_agrees_Some compare_values)
  qed (use number_type_small(1) [OF v, of ff] field_at_get(1) [OF f] in \<open>simp_all add: cmp_str_field_def field_agrees_Some compare_values\<close>)
qed

lemma cmp_blob_field_agrees:
  assumes f: "field_at aKey idx d ff m"
  shows "field_agrees (cmp_blob_field (length aKey) aKey idx d rhs) (sqlite3MemCompare (expand m) (MBlob rhs n) c) (sqlite3VdbeSerialType m ff)"
proof -
  let ?t = "sqlite3VdbeSerialType m ff"
  have v: "valid_mem m" using f by (simp add: field_at_def)
  note cls = serial_type_class [OF v, of ff]
  show ?thesis
  proof (cases m)
    case (MStr z)
    then have "unat ?t = length z * 2 + 12 + 1" using cls by simp
    note t = text_type_cases [OF this le_refl] text_type_large [OF this]
    then show ?thesis using field_at_get(1) [OF f] MStr by (simp add: cmp_blob_field_def field_agrees_Some compare_values)
  next
    case (MBlob z k)
    then have "unat ?t = (length z + k) * 2 + 12 + 0" using cls by simp
    note t = text_type_cases [OF this zero_le_one] text_type_large [OF this]
    obtain rc where rc: "cmp_bytes (z @ replicate k 0) rhs = Some rc" using cmp_bytes_total by blast
    have "d + (length z + k) \<le> length aKey" "add32 d (length z + k) = d + (length z + k)"
      using field_at_get(3) [OF f] f MBlob by (simp_all add: serial_data_def field_at_def add32_small)
    then show ?thesis
      using field_at_get(1,4) [OF f] MBlob t rc
      by (simp add: cmp_blob_field_def field_agrees_Some compare_values serial_data_def Let_def)
  qed (use number_type_small(1) [OF v, of ff] field_at_get(1) [OF f] in \<open>simp_all add: cmp_blob_field_def field_agrees_Some compare_values\<close>)
qed

lemma cmp_field_agrees:
  assumes "field_at aKey idx d ff m" and "i < length (aColl ki)"
  shows "field_agrees (cmp_field ki (length aKey) aKey i idx d y) (sqlite3MemCompare (expand m) y (aColl ki ! i)) (sqlite3VdbeSerialType m ff)"
  using assms
  by (cases y) (simp_all add: cmp_field_def cmp_int_field_agrees cmp_real_field_agrees cmp_str_field_agrees cmp_blob_field_agrees cmp_null_field_agrees)

section \<open>All fields\<close>

text \<open>The order of keys: the first fields that differ decide, in the sort order of their column; keys that agree as far as both go
  are in the default order.\<close>

fun key_order :: "KeyInfo \<Rightarrow> int \<Rightarrow> nat \<Rightarrow> Mem list \<Rightarrow> Mem list \<Rightarrow> int option" where
  "key_order ki def_rc i (x # xs) (y # ys) = do {
     coll \<leftarrow> rd (aColl ki) i;
     rc \<leftarrow> sqlite3MemCompare x y coll;
     if rc \<noteq> 0 then do { desc \<leftarrow> rd (aSortOrder ki) i; Some (if desc then - rc else rc) }
     else key_order ki def_rc (i + 1) xs ys
   }"
| "key_order ki def_rc i _ _ = Some def_rc"

lemma key_order_Nil [simp]: "key_order ki def_rc i [] ys = Some def_rc" "key_order ki def_rc i xs [] = Some def_rc"
  by (simp, cases xs, simp_all)

definition fields_at :: "u8 list \<Rightarrow> nat \<Rightarrow> nat \<Rightarrow> nat \<Rightarrow> int \<Rightarrow> Mem list \<Rightarrow> bool" where
  "fields_at aKey szHdr idx d ff ms \<longleftrightarrow> list_all valid_mem ms \<and>
    (\<exists>r. drop idx aKey = types_bytes ff ms @ r) \<and> idx + length (types_bytes ff ms) = szHdr \<and>
    (\<exists>r. drop d aKey = concat (map (serial_data ff) ms) @ r) \<and> szHdr \<le> d \<and> d \<le> length aKey \<and> length aKey < 2 ^ 31"

lemma fields_at_Cons:
  assumes "fields_at aKey szHdr idx d ff (m # ms)"
  shows "field_at aKey idx d ff m"
    and "fields_at aKey szHdr (add32 idx (length (type_bytes ff m))) (add32 d (length (serial_data ff m))) ff ms"
    and "add32 d (length (serial_data ff m)) \<le> length aKey"
    and "add32 idx (length (type_bytes ff m)) < szHdr \<longleftrightarrow> ms \<noteq> []"
proof -
  let ?t = "type_bytes ff m" and ?s = "serial_data ff m"
  obtain r1 r2 where r: "drop idx aKey = ?t @ types_bytes ff ms @ r1" "drop d aKey = ?s @ concat (map (serial_data ff) ms) @ r2"
    using assms by (auto simp: fields_at_def types_bytes_def)
  then show f: "field_at aKey idx d ff m" using assms by (auto simp: field_at_def fields_at_def)
  have add: "add32 idx (length ?t) = idx + length ?t" "add32 d (length ?s) = d + length ?s"
    using field_at_get(3) [OF f] assms by (auto simp: fields_at_def types_bytes_def add32_small)
  have "drop (idx + length ?t) aKey = types_bytes ff ms @ r1" "drop (d + length ?s) aKey = concat (map (serial_data ff) ms) @ r2"
    using r by (metis add.commute append_eq_conv_conj drop_drop)+
  then show "fields_at aKey szHdr (add32 idx (length ?t)) (add32 d (length ?s)) ff ms"
    using assms field_at_get(3) [OF f] add by (auto simp: fields_at_def types_bytes_def)
  then have "add32 idx (length ?t) + length (types_bytes ff ms) = szHdr" by (simp add: fields_at_def)
  then show "add32 idx (length ?t) < szHdr \<longleftrightarrow> ms \<noteq> []" using types_bytes_pos [of ff ms] by linarith
  show "add32 d (length ?s) \<le> length aKey" using add field_at_get(3) [OF f] by simp
qed

lemma field_agreesE:
  assumes "field_agrees c rc t"
  obtains r st where "c = Some (Cmp r st)" and "rc = Some r" and "r = 0 \<longrightarrow> st = t"
  using that assms unfolding field_agrees_def by (cases c; cases rc; cases "the c") simp_all

lemma compare_loop_spec:
  assumes "fields_at aKey szHdr idx d ff ms" and "ms \<noteq> []" and "ys \<noteq> []"
    and "i + length ys \<le> length (aColl ki)" and "i + length ys \<le> length (aSortOrder ki)"
  shows "compare_loop ki (length aKey) aKey szHdr def_rc i idx d ys =
    map_option (\<lambda>rc. (rc, False)) (key_order ki def_rc i (map expand ms) ys)"
  using assms
proof (induction ys arbitrary: i idx d ms)
  case (Cons y ys)
  obtain m ms' where ms: "ms = m # ms'" using Cons.prems(2) by (cases ms) auto
  note f = fields_at_Cons [OF Cons.prems(1) [unfolded ms]]
  have i: "i < length (aColl ki)" "i < length (aSortOrder ki)" using Cons.prems(4,5) by simp_all
  obtain rc st where c: "cmp_field ki (length aKey) aKey i idx d y = Some (Cmp rc st)"
      "sqlite3MemCompare (expand m) y (aColl ki ! i) = Some rc" "rc = 0 \<longrightarrow> st = sqlite3VdbeSerialType m ff"
    using cmp_field_agrees [OF f(1) i(1), of y] by (rule field_agreesE)
  show ?case
  proof (cases "rc = 0")
    case True
    have v: "valid_mem m" using f(1) by (simp add: field_at_def)
    have "sqlite3VdbeSerialTypeLen st = length (serial_data ff m)" "sqlite3VarintLen (ucast st) = length (type_bytes ff m)"
      using True c(3) serial_type_len_eq [OF v] by (simp_all add: sqlite3VarintLen_eq type_bytes_def)
    then show ?thesis
      using True c(1,2) i f Cons.IH [OF f(2), of "i + 1"] Cons.prems(4,5) ms by (auto simp: Let_def)
  qed (use c i ms in simp)
qed simp

lemma compare_debug_loop_spec:
  assumes "fields_at aKey szHdr idx d ff ms" and "ms \<noteq> []" and "ys \<noteq> []"
    and "i + length ys \<le> length (aColl ki)" and "i + length ys \<le> length (aSortOrder ki)"
  shows "compare_debug_loop ki (length aKey) aKey szHdr def_rc i idx d ys = key_order ki def_rc i (map expand ms) ys"
  using assms
proof (induction ys arbitrary: i idx d ms)
  case (Cons y ys)
  obtain m ms' where ms: "ms = m # ms'" using Cons.prems(2) by (cases ms) auto
  note f = fields_at_Cons [OF Cons.prems(1) [unfolded ms]]
  have i: "i < length (aColl ki)" "i < length (aSortOrder ki)" using Cons.prems(4,5) by simp_all
  have v: "valid_mem m" using f(1) by (simp add: field_at_def)
  obtain rc where rc: "sqlite3MemCompare (expand m) y (aColl ki ! i) = Some rc" using mem_compare_total by blast
  have fits: "\<not> add32 d (sqlite3VdbeSerialTypeLen (sqlite3VdbeSerialType m ff)) > length aKey"
    using f(3) serial_type_len_eq [OF v] by simp
  show ?case
    using field_at_get(1,2) [OF f(1)] fits rc i f(4) Cons.IH [OF f(2), of "i + 1"] Cons.prems(4,5) ms by (auto simp: Let_def)
qed simp

text \<open>The fields of a whole record, and its header when one byte holds the size.\<close>

lemma record_fields_at:
  assumes "list_all valid_mem ms" and "length (types_bytes ff ms) < 2 ^ 20" and "length (record_bytes ff ms) < 2 ^ 31"
  shows "fields_at (record_bytes ff ms) (header_len ff ms) (length (varint_bytes (of_nat (header_len ff ms)))) (header_len ff ms) ff ms"
proof -
  let ?H = "header_len ff ms" and ?v = "varint_bytes (of_nat (header_len ff ms))"
  note h = get_header(3) [OF assms(1,2)]
  have "drop (length ?v + length (types_bytes ff ms)) (record_bytes ff ms) = concat (map (serial_data ff) ms)"
    by (simp add: record_bytes_def)
  then have "drop ?H (record_bytes ff ms) = concat (map (serial_data ff) ms)" using h by metis
  moreover have "length ?v + length (types_bytes ff ms) = ?H" using h by simp
  moreover have "length (record_bytes ff ms) = (length ?v + length (types_bytes ff ms)) + length (concat (map (serial_data ff) ms))"
    by (simp add: record_bytes_def)
  ultimately show ?thesis using assms by (auto simp: fields_at_def) (simp add: record_bytes_def)
qed

lemma small_header:
  assumes "list_all valid_mem ms" and "length (types_bytes ff ms) \<le> 126"
  shows "header_len ff ms = length (types_bytes ff ms) + 1"
    and "record_bytes ff ms = of_nat (header_len ff ms) # types_bytes ff ms @ concat (map (serial_data ff) ms)"
    and "unat (of_nat (header_len ff ms) :: u8) = header_len ff ms"
proof -
  let ?H = "header_len ff ms"
  show H: "?H = length (types_bytes ff ms) + 1" using assms(2) by (simp add: header_len_def record_header_size_def)
  then have small: "?H < 128" using assms(2) by simp
  then have u: "unat (of_nat ?H :: u64) = ?H" by (simp add: unat_of_nat take_bit_nat_eq_self)
  then have "unat (drop_bit 7 (of_nat ?H :: u64)) = ?H div 2 ^ 7" unfolding unat_drop_bit_eq by (simp add: drop_bit_eq_div)
  then have "unat (drop_bit 7 (of_nat ?H :: u64)) = 0" using small by simp
  then have "drop_bit 7 (of_nat ?H :: u64) = 0" by (simp only: unsigned_eq_0_iff)
  then have "varint_bytes (of_nat ?H) = [ucast (of_nat ?H :: u64)]" by (rule varint_bytes_1)
  moreover have "ucast (of_nat ?H :: u64) = (of_nat ?H :: u8)" using u by (metis of_nat_unat)
  ultimately show "record_bytes ff ms = of_nat ?H # types_bytes ff ms @ concat (map (serial_data ff) ms)" by (simp add: record_bytes_def)
  show "unat (of_nat ?H :: u8) = ?H" using small by (simp add: unat_of_nat take_bit_nat_eq_self)
qed

lemma record_compare_general:
  assumes "list_all valid_mem ms" and "length (types_bytes ff ms) < 2 ^ 20" and "length (record_bytes ff ms) < 2 ^ 31"
    and "ms \<noteq> []" and "aMem p \<noteq> []" and "length (aMem p) \<le> length (aColl ki)" and "length (aMem p) \<le> length (aSortOrder ki)"
  shows "sqlite3VdbeRecordCompare ki (length (record_bytes ff ms)) (record_bytes ff ms) p False =
      map_option (\<lambda>rc. (rc, False)) (key_order ki (default_rc p) 0 (map expand ms) (aMem p))"
    and "vdbeRecordCompareDebug ki (length (record_bytes ff ms)) (record_bytes ff ms) p = key_order ki (default_rc p) 0 (map expand ms) (aMem p)"
proof -
  note h = get_header(1,2) [OF assms(1,2)] and f = record_fields_at [OF assms(1-3)]
  have "\<not> header_len ff ms > length (record_bytes ff ms)" using f by (simp add: fields_at_def)
  then show "sqlite3VdbeRecordCompare ki (length (record_bytes ff ms)) (record_bytes ff ms) p False =
      map_option (\<lambda>rc. (rc, False)) (key_order ki (default_rc p) 0 (map expand ms) (aMem p))"
    using h compare_loop_spec [OF f assms(4,5), of 0 ki "default_rc p"] assms(6,7) by (simp add: sqlite3VdbeRecordCompare_def)
  show "vdbeRecordCompareDebug ki (length (record_bytes ff ms)) (record_bytes ff ms) p = key_order ki (default_rc p) 0 (map expand ms) (aMem p)"
    using h compare_debug_loop_spec [OF f assms(4,5), of 0 ki "default_rc p"] assms(6,7) by (simp add: vdbeRecordCompareDebug_def)
qed

lemma key_order_total:
  "i + length ys \<le> length (aColl ki) \<Longrightarrow> i + length ys \<le> length (aSortOrder ki) \<Longrightarrow> \<exists>rc. key_order ki def_rc i xs ys = Some rc"
proof (induction ki def_rc i xs ys rule: key_order.induct)
  case (1 ki def_rc i x xs y ys)
  then show ?case using mem_compare_total [of x y "aColl ki ! i"] by (auto split: if_split)
qed simp_all

lemma record_compare_skip:
  assumes "list_all valid_mem (m # ms)" and "length (types_bytes ff (m # ms)) \<le> 126" and "length (record_bytes ff (m # ms)) < 2 ^ 31"
    and "ms \<noteq> []" and "ys \<noteq> []" and "aMem p = y # ys" and "length (aMem p) \<le> length (aColl ki)" and "length (aMem p) \<le> length (aSortOrder ki)"
  shows "sqlite3VdbeRecordCompare ki (length (record_bytes ff (m # ms))) (record_bytes ff (m # ms)) p True =
      map_option (\<lambda>rc. (rc, False)) (key_order ki (default_rc p) 1 (map expand ms) ys)"
proof -
  let ?R = "record_bytes ff (m # ms)" and ?H = "header_len ff (m # ms)"
  note h = small_header [OF assms(1,2)]
  have "fields_at ?R ?H (length (varint_bytes (of_nat ?H))) ?H ff (m # ms)"
    by (rule record_fields_at) (use assms in simp_all)
  moreover have "length (varint_bytes (of_nat ?H)) = 1" using varint_len_small [of ?H] h(1) assms(2) by simp
  ultimately have "fields_at ?R ?H 1 ?H ff (m # ms)" by simp
  note f = fields_at_Cons [OF this]
  have v: "valid_mem m" using assms(1) by simp
  have "add32 1 (length (type_bytes ff m)) = 1 + length (type_bytes ff m)" using type_bytes_5 [of ff m] by (simp add: add32_small)
  then have "fields_at ?R ?H (1 + length (type_bytes ff m)) (add32 ?H (length (serial_data ff m))) ff ms" using f(2) by simp
  from compare_loop_spec [OF this assms(4,5), of 1 ki "default_rc p"]
  have "compare_loop ki (length ?R) ?R ?H (default_rc p) 1 (1 + length (type_bytes ff m)) (add32 ?H (length (serial_data ff m))) ys =
      map_option (\<lambda>rc. (rc, False)) (key_order ki (default_rc p) 1 (map expand ms) ys)"
    using assms(6-8) by simp
  moreover have "rd ?R 0 = Some (of_nat ?H)" using h(2) by simp
  ultimately show ?thesis
    using field_at_get(1) [OF f(1)] h(3) serial_type_len_eq [OF v, of ff] assms(6)
    by (simp add: sqlite3VdbeRecordCompare_def)
qed

text \<open>The result of a comparator that knows only the sign.\<close>

definition same_sign :: "(int \<times> bool) option \<Rightarrow> int option \<Rightarrow> bool" where
  "same_sign c rc = (case (c, rc) of (Some (r, False), Some r') \<Rightarrow> sgn r = sgn r' | _ \<Rightarrow> False)"

lemma same_sign_refl: "same_sign (map_option (\<lambda>rc. (rc, False)) rc) rc \<longleftrightarrow> rc \<noteq> None"
  by (cases rc) (simp_all add: same_sign_def)

text \<open>The shape that both fast forms have after they compared the first field.\<close>

lemma fast_form_tail:
  assumes "list_all valid_mem (m # ms)" and "length (types_bytes ff (m # ms)) \<le> 126" and "length (record_bytes ff (m # ms)) < 2 ^ 31"
    and "length (aMem p) \<le> length (m # ms)" and "aMem p = y # ys"
    and "length (aMem p) \<le> length (aColl ki)" and "length (aMem p) \<le> length (aSortOrder ki)"
    and "sqlite3MemCompare (expand m) y (aColl ki ! 0) = Some rc"
  shows "same_sign (if rc < 0 then Some (if aSortOrder ki ! 0 then 1 else - 1, False)
      else if rc > 0 then Some (if aSortOrder ki ! 0 then - 1 else 1, False)
      else if length (aMem p) > 1 then sqlite3VdbeRecordCompare ki (length (record_bytes ff (m # ms))) (record_bytes ff (m # ms)) p True
      else Some (default_rc p, False)) (key_order ki (default_rc p) 0 (map expand (m # ms)) (aMem p))"
proof -
  have first: "key_order ki (default_rc p) 0 (map expand (m # ms)) (aMem p) =
      (if rc \<noteq> 0 then Some (if aSortOrder ki ! 0 then - rc else rc) else key_order ki (default_rc p) 1 (map expand ms) ys)"
  proof -
    have "0 < length (aColl ki)" "0 < length (aSortOrder ki)" using assms(5-7) by (auto intro: gr0I)
    then show ?thesis using assms(5,8) by simp
  qed
  show ?thesis
  proof (cases "rc = 0")
    case True
    show ?thesis
    proof (cases "ys = []")
      case False
      then have "ms \<noteq> []" using assms(4,5) by auto
      from record_compare_skip [OF assms(1-3) this False assms(5-7)] key_order_total [of 1 ys ki "default_rc p" "map expand ms"]
      show ?thesis unfolding first using True False assms(5-7) by (auto simp: same_sign_refl)
    qed (unfold first, use True assms(5) in \<open>simp add: same_sign_def\<close>)
  next
    case False
    then show ?thesis unfolding first by (auto simp: same_sign_def)
  qed
qed

lemma unat_and_0x3f: "unat (b AND 0x3f :: u8) = unat b mod 64"
proof -
  have "(0x3f :: u8) = mask 6" by (simp add: mask_eq_exp_minus_1)
  then have "b AND 0x3f = take_bit 6 b" by (simp only: take_bit_eq_mask)
  then have "unat (b AND 0x3f) = take_bit 6 (unat b)" by (simp add: unsigned_take_bit_eq)
  then show ?thesis by (simp add: take_bit_eq_mod)
qed

lemma record_compare_int:
  assumes "list_all valid_mem (m # ms)" and "length (m # ms) \<le> 13" and "length (record_bytes ff (m # ms)) < 2 ^ 31"
    and "length (aMem p) \<le> length (m # ms)" and "aMem p = MInt v # ys"
    and "length (aMem p) \<le> length (aColl ki)" and "length (aMem p) \<le> length (aSortOrder ki)"
  shows "same_sign (vdbeRecordCompareInt ki (if aSortOrder ki ! 0 then 1 else - 1) (if aSortOrder ki ! 0 then - 1 else 1)
      (length (record_bytes ff (m # ms))) (record_bytes ff (m # ms)) p) (key_order ki (default_rc p) 0 (map expand (m # ms)) (aMem p))"
proof -
  let ?R = "record_bytes ff (m # ms)" and ?H = "header_len ff (m # ms)" and ?t = "sqlite3VdbeSerialType m ff"
  have types: "length (types_bytes ff (m # ms)) \<le> 126" using types_bytes_5 [of ff "m # ms"] assms(2) by simp
  note h = small_header [OF assms(1) types]
  have "drop 1 ?R = type_bytes ff m @ types_bytes ff ms @ concat (map (serial_data ff) (m # ms))"
    using h(2) by (simp add: types_bytes_def)
  then obtain b where b: "rd ?R 1 = Some b" "b < 0x80 \<longrightarrow> ucast b = ?t" "?t \<le> 127 \<longrightarrow> b = ucast ?t"
    using type_first_byte by blast
  have general: "sqlite3VdbeRecordCompare ki (length ?R) ?R p False =
      map_option (\<lambda>rc. (rc, False)) (key_order ki (default_rc p) 0 (map expand (m # ms)) (aMem p))"
    by (rule record_compare_general(1)) (use assms types in simp_all)
  have total: "key_order ki (default_rc p) 0 (map expand (m # ms)) (aMem p) \<noteq> None"
    using key_order_total [of 0 "aMem p" ki "default_rc p" "map expand (m # ms)"] assms(6,7) by auto
  show ?thesis
  proof (cases "(ucast b :: u32) \<in> {1, 2, 3, 4, 5, 6, 8, 9}")
    case True
    then have "unat b < 0x80" using unat_ucast_u8 [of b] by auto
    then have t: "ucast b = ?t" using b(2) by (simp add: word_less_nat_alt)
    obtain i where m: "m = MInt i"
      using True t serial_type_class [of m ff] assms(1) by (cases m) (auto simp: word_less_nat_alt)
    have "length (type_bytes ff m) = 1" using True t type_bytes_len [of ff m] by (auto simp: word_le_nat_alt)
    then have "?H \<le> 62" using h(1) types_bytes_5 [of ff ms] assms(2) by (simp add: types_bytes_def)
    then have "unat (of_nat ?H AND 0x3f :: u8) = ?H"
      using h(3) unat_and_0x3f [of "of_nat ?H"] by simp
    moreover have "drop ?H ?R = serial_data ff m @ concat (map (serial_data ff) ms)"
      using h(1,2) by (simp add: types_bytes_def)
    ultimately have "vdbeRecordDecodeInt ?t (drop (unat (of_nat ?H AND 0x3f :: u8)) ?R) = Some i"
      using True t m serial_get_data [of m ff] assms(1) by (intro decode_int_get) (simp_all add: expand_def)
    moreover have "sqlite3MemCompare (expand m) (MInt v) (aColl ki ! 0) = Some (int_cmp i v)"
      using m by (simp add: compare_values)
    from fast_form_tail [OF assms(1) types assms(3-7) this]
    show ?thesis using h(2) b(1) t True calculation assms(5)
      by (auto simp: vdbeRecordCompareInt_def int_cmp_def split: if_splits)
  next
    case False
    then show ?thesis using general total h(2) b(1) assms(5) by (auto simp: vdbeRecordCompareInt_def same_sign_refl)
  qed
qed

lemma not_bit_31: "unat (t :: u32) < 2 ^ 31 \<Longrightarrow> \<not> bit t 31"
proof -
  assume "unat t < 2 ^ 31"
  then have "unat t div 2 ^ 31 = 0" by simp
  then have "\<not> bit (unat t) 31" unfolding bit_iff_odd by (simp only: even_zero not_not)
  moreover have "bit (unat t) 31 = bit t 31" by (simp add: bit_unsigned_iff)
  ultimately show ?thesis by blast
qed

lemma record_compare_string:
  assumes "list_all valid_mem (m # ms)" and "length (m # ms) \<le> 13" and "length (record_bytes ff (m # ms)) \<le> 1000000000"
    and "length (aMem p) \<le> length (m # ms)" and "aMem p = MStr s # ys" and "aColl ki ! 0 = None"
    and "length (aMem p) \<le> length (aColl ki)" and "length (aMem p) \<le> length (aSortOrder ki)"
  shows "same_sign (vdbeRecordCompareString ki (if aSortOrder ki ! 0 then 1 else - 1) (if aSortOrder ki ! 0 then - 1 else 1)
      (length (record_bytes ff (m # ms))) (record_bytes ff (m # ms)) p) (key_order ki (default_rc p) 0 (map expand (m # ms)) (aMem p))"
proof -
  let ?R = "record_bytes ff (m # ms)" and ?H = "header_len ff (m # ms)" and ?t = "sqlite3VdbeSerialType m ff"
  have types: "length (types_bytes ff (m # ms)) \<le> 126" using types_bytes_5 [of ff "m # ms"] assms(2) by simp
  have small: "length ?R < 2 ^ 31" using assms(3) by simp
  note h = small_header [OF assms(1) types]
  have "drop 1 ?R = type_bytes ff m @ types_bytes ff ms @ concat (map (serial_data ff) (m # ms))"
    using h(2) by (simp add: types_bytes_def)
  then have get: "getVarint32 (drop 1 ?R) = Some (?t, length (type_bytes ff m))" by (simp only: get_type)
  have len: "length ?R = ?H + length (serial_data ff m) + length (concat (map (serial_data ff) ms))"
    using arg_cong [OF h(2), of length] h(1) by simp
  have v: "valid_mem m" using assms(1) by simp
  obtain rc where rc: "sqlite3MemCompare (expand m) (MStr s) (aColl ki ! 0) = Some rc" using mem_compare_total by blast
  note tail = fast_form_tail [OF assms(1) types small assms(4,5,7,8) rc]
  show ?thesis
  proof (cases m)
    case (MStr z)
    then have u: "unat ?t = length z * 2 + 12 + 1" using serial_type_class [OF v, of ff] by simp
    note t = text_type_cases [OF u le_refl] text_type_large [OF u]
    have fits: "?H + length z \<le> length ?R" using len MStr by (simp add: serial_data_def)
    then have "\<not> bit ?t 31" using u assms(3) by (intro not_bit_31) simp
    moreover have "drop ?H ?R = z @ concat (map (serial_data ff) ms)" using h(1,2) MStr by (simp add: types_bytes_def serial_data_def)
    then have "key_bytes ?R ?H (length z) = Some z" by (rule key_bytes_prefix) (use fits in simp)
    moreover have "cmp_bytes z s = Some rc" using rc MStr assms(6) by (simp add: compare_values)
    moreover have "rd ?R 0 = Some (of_nat ?H)" using h(2) by simp
    ultimately have "vdbeRecordCompareString ki (if aSortOrder ki ! 0 then 1 else - 1) (if aSortOrder ki ! 0 then - 1 else 1) (length ?R) ?R p =
        (if rc < 0 then Some (if aSortOrder ki ! 0 then 1 else - 1, False) else if rc > 0 then Some (if aSortOrder ki ! 0 then - 1 else 1, False)
         else if length (aMem p) > 1 then sqlite3VdbeRecordCompare ki (length ?R) ?R p True else Some (default_rc p, False))"
      using get t fits h(3) assms(5) by (simp add: vdbeRecordCompareString_def)
    then show ?thesis using tail by (simp only:)
  next
    case (MBlob z n)
    then have u: "unat ?t = (length z + n) * 2 + 12 + 0" using serial_type_class [OF v, of ff] by simp
    note t = text_type_cases [OF u zero_le_one] text_type_large [OF u]
    have "length z + n \<le> length ?R" using len MBlob by (simp add: serial_data_def)
    then have "\<not> bit ?t 31" using u assms(3) by (intro not_bit_31) simp
    moreover have "rc = 1" using rc MBlob by (simp add: compare_values)
    ultimately show ?thesis using get t tail by (simp add: vdbeRecordCompareString_def)
  qed (use number_type_small(1) [OF v, of ff] get tail rc in \<open>simp_all add: vdbeRecordCompareString_def compare_values\<close>)
qed

lemma find_compare_same_sign:
  assumes "list_all valid_mem ms" and "length (record_bytes ff ms) \<le> 1000000000" and "length (types_bytes ff ms) < 2 ^ 20"
    and "aMem p \<noteq> []" and "length (aMem p) \<le> length ms" and "length ms \<le> nAll"
    and "length (aMem p) \<le> length (aColl ki)" and "length (aMem p) \<le> length (aSortOrder ki)"
  shows "same_sign (sqlite3VdbeFindCompare ki nAll (length (record_bytes ff ms)) (record_bytes ff ms) p)
    (key_order ki (default_rc p) 0 (map expand ms) (aMem p))"
proof -
  obtain m ms' y ys where ms: "ms = m # ms'" and ys: "aMem p = y # ys"
    using assms(4,5) by (cases ms; cases "aMem p") auto
  have small: "length (record_bytes ff ms) < 2 ^ 31" using assms(2) by simp
  have general: "sqlite3VdbeRecordCompare ki (length (record_bytes ff ms)) (record_bytes ff ms) p False =
      map_option (\<lambda>rc. (rc, False)) (key_order ki (default_rc p) 0 (map expand ms) (aMem p))"
    by (rule record_compare_general(1)) (use assms small ms in simp_all)
  have total: "key_order ki (default_rc p) 0 (map expand ms) (aMem p) \<noteq> None"
    using key_order_total [of 0 "aMem p" ki "default_rc p" "map expand ms"] assms(7,8) by auto
  have rd: "rd (aSortOrder ki) 0 = Some (aSortOrder ki ! 0)" "rd (aColl ki) 0 = Some (aColl ki ! 0)"
    using assms(7,8) ys by (simp_all add: rd_def split: if_split) (auto intro: gr0I)
  show ?thesis
  proof (cases "nAll \<le> 13")
    case True
    then have len: "length ms \<le> 13" using assms(6) by simp
    note args = assms(1) [unfolded ms] len [unfolded ms]
    show ?thesis
    proof (cases y)
      case (MInt v)
      from record_compare_int [OF args small [unfolded ms] assms(5) [unfolded ms] ys [unfolded MInt] assms(7,8)]
      show ?thesis using True rd ys MInt ms by (simp add: sqlite3VdbeFindCompare_def Let_def)
    next
      case (MStr s)
      show ?thesis
      proof (cases "aColl ki ! 0")
        case None
        from record_compare_string [OF args assms(2) [unfolded ms] assms(5) [unfolded ms] ys [unfolded MStr] None assms(7,8)]
        show ?thesis using True rd ys MStr ms None by (simp add: sqlite3VdbeFindCompare_def Let_def)
      qed (use True rd ys MStr general total in \<open>simp add: sqlite3VdbeFindCompare_def same_sign_refl\<close>)
    qed (use True rd ys general total in \<open>simp_all add: sqlite3VdbeFindCompare_def same_sign_refl\<close>)
  qed (use general total in \<open>simp add: sqlite3VdbeFindCompare_def same_sign_refl\<close>)
qed

section \<open>The row number of an index record\<close>

lemma rowid_of_record:
  assumes "list_all valid_mem ms" and "ms \<noteq> []" and "i64_range i"
    and "length (types_bytes ff (ms @ [MInt i])) < 2 ^ 20" and "length (record_bytes ff (ms @ [MInt i])) < 2 ^ 31"
  shows "sqlite3VdbeIdxRowid (record_bytes ff (ms @ [MInt i])) = Some (Inr i)"
proof -
  let ?all = "ms @ [MInt i]" and ?t = "sqlite3VdbeSerialType (MInt i) ff" and ?s = "serial_data ff (MInt i)"
  let ?R = "record_bytes ff ?all" and ?H = "header_len ff ?all" and ?v = "varint_bytes (of_nat (header_len ff ?all))"
  have v: "valid_mem (MInt i)" using assms(3) by (simp add: valid_mem_def)
  then have all: "list_all valid_mem ?all" using assms(1) by simp
  note h = get_header [OF all assms(4)]
  have t: "?t \<in> {1, 2, 3, 4, 5, 6, 8, 9}" using serial_type_class [OF v, of ff] by simp
  then have one: "length (type_bytes ff (MInt i)) = 1" using type_bytes_len [of ff "MInt i"] by (auto simp: word_le_nat_alt)
  have pos: "0 < length ?v" "0 < length (types_bytes ff ms)"
    using varint_bytes_length(1) [of "of_nat ?H"] assms(2) types_bytes_pos by auto
  obtain A where R: "?R = A @ type_bytes ff (MInt i) @ concat (map (serial_data ff) ms) @ ?s" and A: "length A = ?H - 1" "?H \<ge> 3"
  proof
    show "?R = (?v @ types_bytes ff ms) @ type_bytes ff (MInt i) @ concat (map (serial_data ff) ms) @ ?s"
      by (simp add: record_bytes_def types_bytes_def)
    have "?H = length ?v + length (types_bytes ff ms) + 1" using h(3) one by (simp add: types_bytes_def)
    then show "length (?v @ types_bytes ff ms) = ?H - 1" "?H \<ge> 3" using pos unfolding length_append by linarith+
  qed
  have "drop (?H - 1) ?R = type_bytes ff (MInt i) @ concat (map (serial_data ff) ms) @ ?s"
    unfolding R A(1) [symmetric] by simp
  then have type: "getVarint32 (drop (?H - 1) ?R) = Some (?t, 1)" using get_type one by metis
  have len: "length ?R = ?H + length (concat (map (serial_data ff) ms)) + length ?s"
    using arg_cong [OF R, of length] A one by simp
  then have fits: "?H + length ?s \<le> length ?R" by simp
  have "length ?R - length ?s = length (A @ type_bytes ff (MInt i) @ concat (map (serial_data ff) ms))" using len A one by simp
  then have "drop (length ?R - length ?s) ?R = ?s" using R by (metis append.assoc append_eq_conv_conj)
  then have get: "sqlite3VdbeSerialGet (drop (length ?R - length ?s) ?R) ?t = Some (MInt i, length ?s)"
    using serial_get_data [OF v, of ff "[]"] by (simp add: expand_def)
  have "sint (word_of_int (int ?H) :: u32) = int ?H" using fits assms(5) by (intro sint_of_int_id) simp_all
  then have sint: "sint (of_nat ?H :: u32) = int ?H" by simp
  have "add32 ?H (length ?s) = ?H + length ?s" using fits assms(5) by (simp add: add32_small)
  moreover have "\<not> (?t < 1 \<or> ?t > 9 \<or> ?t = 7)" using t by (auto simp: word_less_nat_alt)
  ultimately show ?thesis
    using h(1,2) A(2) type get fits sint serial_type_len_eq [OF v, of ff] by (simp add: sqlite3VdbeIdxRowid_def Let_def)
qed


text \<open>The check of the header's size is signed, so a size of \<open>2 ^ 31\<close> or more passes it and the serial type is read far outside the record.\<close>

lemma rowid_reads_outside: "sqlite3VdbeIdxRowid [0x88, 0x80, 0x80, 0x80, 0, 1, 1] = None"
proof -
  have "getVarint32 [0x88, 0x80, 0x80, 0x80, 0, 1, 1] = Some (0x80000000, 5)" by code_simp
  moreover have "unat (0x80000000 :: u32) = 2147483648" "sint (0x80000000 :: u32) = - 2147483648" by simp_all
  moreover have "getVarint32 [] = None" by code_simp
  ultimately show ?thesis by (simp add: sqlite3VdbeIdxRowid_def)
qed

section \<open>Properties\<close>

text \<open>C13. The comparators agree: for a record of values that can occur and a key that is not longer, the general comparator and the one
  that \<^verbatim>\<open>sqlite3VdbeFindCompare\<close> chooses (with its fast forms for a leading integer or text) find no corruption, and return the result, and a result of the sign, of
  decoding every field and comparing values: the assertions against \<^verbatim>\<open>vdbeRecordCompareDebug\<close>. That result is the lexicographic order
  of the values, with the collating sequence and the direction of each column.\<close>

theorem sqlite3VdbeFindCompare_order:
  assumes "list_all valid_mem ms" and "length (record_bytes ff ms) \<le> 1000000000" and "length (types_bytes ff ms) < 2 ^ 20"
    and "aMem p \<noteq> []" and "length (aMem p) \<le> length ms" and "length ms \<le> nAll"
    and "length (aMem p) \<le> length (aColl ki)" and "length (aMem p) \<le> length (aSortOrder ki)"
  shows "\<exists>rc rc'. key_order ki (default_rc p) 0 (map expand ms) (aMem p) = Some rc \<and>
    vdbeRecordCompareDebug ki (length (record_bytes ff ms)) (record_bytes ff ms) p = Some rc \<and>
    sqlite3VdbeRecordCompare ki (length (record_bytes ff ms)) (record_bytes ff ms) p False = Some (rc, False) \<and>
    sqlite3VdbeFindCompare ki nAll (length (record_bytes ff ms)) (record_bytes ff ms) p = Some (rc', False) \<and> sgn rc' = sgn rc"
proof -
  have "length (record_bytes ff ms) < 2 ^ 31" "ms \<noteq> []" using assms(2,4,5) by auto
  note general = record_compare_general [OF assms(1,3) this assms(4,7,8)]
  from find_compare_same_sign [OF assms] show ?thesis
    using general by (auto simp: same_sign_def split: option.splits bool.splits)
qed

theorem sqlite3VdbeFindCompare_order_witness:
  "\<exists>rc rc'. key_order \<lparr>aColl = [None, None], aSortOrder = [False, True]\<rparr> 0 0 [MInt 300, MStr [65], MInt 7] [MInt 300, MStr [66]] = Some rc \<and>
    sgn rc = 1 \<and> sgn rc' = sgn rc \<and>
    sqlite3VdbeFindCompare \<lparr>aColl = [None, None], aSortOrder = [False, True]\<rparr> 3
      (length (record_bytes 4 [MInt 300, MStr [65], MInt 7])) (record_bytes 4 [MInt 300, MStr [65], MInt 7])
      \<lparr>aMem = [MInt 300, MStr [66]], default_rc = 0\<rparr> = Some (rc', False)"
proof -
  let ?ms = "[MInt 300, MStr [65], MInt 7]" and ?ki = "\<lparr>aColl = [None, None], aSortOrder = [False, True]\<rparr> :: KeyInfo"
  let ?p = "\<lparr>aMem = [MInt 300, MStr [66]], default_rc = 0\<rparr>"
  have ok: "list_all valid_mem ?ms" by (simp add: valid_mem_def i64_range_def)
  have types: "length (types_bytes 4 ?ms) < 2 ^ 20" using types_bytes_5 [of 4 ?ms] by simp
  have "length (concat (map (serial_data 4) ?ms)) < 100" by code_simp
  then have len: "length (record_bytes 4 ?ms) \<le> 1000000000" using record_length_bound [OF ok types] by linarith
  have "key_order ?ki 0 0 (map expand ?ms) [MInt 300, MStr [66]] = Some 1" by code_simp
  moreover have "map expand ?ms = ?ms" by (simp add: expand_def)
  moreover obtain rc rc' where "key_order ?ki (default_rc ?p) 0 (map expand ?ms) (aMem ?p) = Some rc" "sgn rc' = sgn rc"
      "sqlite3VdbeFindCompare ?ki 3 (length (record_bytes 4 ?ms)) (record_bytes 4 ?ms) ?p = Some (rc', False)"
    using sqlite3VdbeFindCompare_order [OF ok len types, of ?p 3 ?ki] by (auto simp del: key_order.simps list.map)
  ultimately show ?thesis by (intro exI [of _ rc] exI [of _ rc']) (simp del: key_order.simps list.map)
qed

text \<open>The row number of an index record is its last field: for a record of values that can occur, followed by an integer,
  \<^verbatim>\<open>sqlite3VdbeIdxRowid\<close> reports no corruption and returns that integer, reading inside the record.\<close>

lemma sqlite3VdbeIdxRowid_last:
  assumes "list_all valid_mem ms" and "ms \<noteq> []" and "i64_range i"
    and "length (types_bytes ff (ms @ [MInt i])) < 2 ^ 20" and "length (record_bytes ff (ms @ [MInt i])) < 2 ^ 31"
  shows "sqlite3VdbeIdxRowid (record_bytes ff (ms @ [MInt i])) = Some (Inr i)"
  using assms by (rule rowid_of_record)

end
