(* ===== verification/Date.thy ===== *)
theory Date
  imports Ctype Ieee "HOL-Library.Signed_Division"
begin

text \<open>
  Dates and times (\<^verbatim>\<open>date.c\<close>): parsing of time stamps, the Julian day number and the calendar date, the time of day. The
  computations in double precision are written out with the rounding of every operation (theory \<open>Ieee\<close>); signed integers
  that could overflow are checked (\<open>None\<close>).
\<close>

section \<open>Data\<close>

text \<open>The members \<^verbatim>\<open>h\<close>, \<^verbatim>\<open>m\<close> and \<^verbatim>\<open>s\<close> have their full names.\<close>

record DateTime =
  iJD :: int
  Y :: int
  M :: int
  D :: int
  hour :: int
  minute :: int
  tz :: int
  second :: rat
  validYMD :: bool
  validHMS :: bool
  validJD :: bool
  validTZ :: bool

definition zero_DateTime :: DateTime where
  "zero_DateTime = \<lparr>iJD = 0, Y = 0, M = 0, D = 0, hour = 0, minute = 0, tz = 0, second = 0,
     validYMD = False, validHMS = False, validJD = False, validTZ = False\<rparr>"

section \<open>Parsing\<close>

text \<open>\<open>Some None\<close> stands for the jump to \<^verbatim>\<open>end_getDigits\<close>.\<close>

primrec digit_loop :: "nat \<Rightarrow> int \<Rightarrow> u8 list \<Rightarrow> (int \<times> u8 list) option option" where
  "digit_loop 0 val z = Some (Some (val, z))"
| "digit_loop (Suc N) val z = do {
     c \<leftarrow> rd z 0;
     if \<not> sqlite3Isdigit c then Some None else digit_loop N (val * 10 + uint c - 48) (tl z)
   }"

text \<open>The values that were converted; their number is the return value.\<close>

fun getDigits :: "u8 list \<Rightarrow> (nat \<times> int \<times> int \<times> u8) list \<Rightarrow> int list option" where
  "getDigits zDate [] = Some []"
| "getDigits zDate ((N, mn, mx, nextC) # args) = do {
     r \<leftarrow> digit_loop N 0 zDate;
     (case r of
        None \<Rightarrow> Some []
      | Some (val, zDate) \<Rightarrow>
          if val < mn \<or> val > mx then Some []
          else if nextC = 0 then Some [val]
          else do {
            c \<leftarrow> rd zDate 0;
            if nextC \<noteq> c then Some []
            else do { vs \<leftarrow> getDigits (tl zDate) args; Some (val # vs) }
          })
   }"

fun skip_chars :: "(u8 \<Rightarrow> bool) \<Rightarrow> u8 list \<Rightarrow> u8 list option" where
  "skip_chars P [] = None"
| "skip_chars P (c # z) = (if P c then skip_chars P z else Some (c # z))"

text \<open>The results are the return value (\<open>True\<close> is an error) and the structure, which is also changed by failed attempts.\<close>

definition parseTimezone :: "u8 list \<Rightarrow> DateTime \<Rightarrow> (bool \<times> DateTime) option" where
  "parseTimezone zDate p = do {
     zDate \<leftarrow> skip_chars sqlite3Isspace zDate;
     let p = p\<lparr>tz := 0\<rparr>;
     c \<leftarrow> rd zDate 0;
     if c = 0x2d \<or> c = 0x2b then do {
       let sgn = (if c = 0x2d then - 1 else 1);
       vs \<leftarrow> getDigits (tl zDate) [(2, 0, 14, 0x3a), (2, 0, 59, 0)];
       (case vs of
          [nHr, nMn] \<Rightarrow> do {
            zDate \<leftarrow> skip_chars sqlite3Isspace (drop 6 zDate);
            e \<leftarrow> rd zDate 0;
            Some (e \<noteq> 0, p\<lparr>tz := sgn * (nMn + nHr * 60)\<rparr>)
          }
        | _ \<Rightarrow> Some (True, p))
     } else if c = 0x5a \<or> c = 0x7a then do {
       zDate \<leftarrow> skip_chars sqlite3Isspace (tl zDate);
       e \<leftarrow> rd zDate 0;
       Some (e \<noteq> 0, p)
     } else Some (c \<noteq> 0, p)
   }"

fun fraction_loop :: "rat \<Rightarrow> rat \<Rightarrow> u8 list \<Rightarrow> (rat \<times> rat \<times> u8 list) option" where
  "fraction_loop ms rScale [] = None"
| "fraction_loop ms rScale (c # z) =
    (if sqlite3Isdigit c then fraction_loop (fl (fl (fl (ms * 10) + of_int (uint c)) - 48)) (fl (rScale * 10)) z
     else Some (ms, rScale, c # z))"

definition parse_seconds :: "u8 list \<Rightarrow> ((int \<times> rat \<times> u8 list) option) option" where
  "parse_seconds zDate = do {
     c \<leftarrow> rd zDate 0;
     if c = 0x3a then do {
       vs \<leftarrow> getDigits (tl zDate) [(2, 0, 59, 0)];
       (case vs of
          [sec] \<Rightarrow> do {
            let zDate = drop 3 zDate;
            c \<leftarrow> rd zDate 0;
            if c = 0x2e then do {
              c1 \<leftarrow> rd zDate 1;
              if sqlite3Isdigit c1 then do {
                (ms, rScale, zDate) \<leftarrow> fraction_loop 0 1 (tl zDate);
                Some (Some (sec, fl (ms / rScale), zDate))
              } else Some (Some (sec, 0, zDate))
            } else Some (Some (sec, 0, zDate))
          }
        | _ \<Rightarrow> Some None)
     } else Some (Some (0, 0, zDate))
   }"

definition parseHhMmSs :: "u8 list \<Rightarrow> DateTime \<Rightarrow> (bool \<times> DateTime) option" where
  "parseHhMmSs zDate p = do {
     vs \<leftarrow> getDigits zDate [(2, 0, 24, 0x3a), (2, 0, 59, 0)];
     (case vs of
        [hh, mm] \<Rightarrow> do {
          r \<leftarrow> parse_seconds (drop 5 zDate);
          (case r of
             None \<Rightarrow> Some (True, p)
           | Some (sec, ms, zDate) \<Rightarrow> do {
               (err, p) \<leftarrow> parseTimezone zDate (p\<lparr>validJD := False, validHMS := True, hour := hh, minute := mm, second := fl (of_int sec + ms)\<rparr>);
               if err then Some (True, p) else Some (False, p\<lparr>validTZ := (tz p \<noteq> 0)\<rparr>)
             })
        }
      | _ \<Rightarrow> Some (True, p))
   }"

section \<open>Julian day numbers\<close>

definition computeJD :: "DateTime \<Rightarrow> DateTime option" where
  "computeJD p =
    (if validJD p then Some p
     else do {
       let y0 = (if validYMD p then Y p else 2000);
       let m0 = (if validYMD p then M p else 1);
       let d0 = (if validYMD p then D p else 1);
       let yy = (if m0 \<le> 2 then y0 - 1 else y0);
       let mm = (if m0 \<le> 2 then m0 + 12 else m0);
       let A = yy sdiv 100;
       let B = 2 - A + A sdiv 4;
       n1 \<leftarrow> i32 (36525 * (yy + 4716));
       n2 \<leftarrow> i32 (306001 * (mm + 1));
       let X1 = n1 sdiv 100;
       let X2 = n2 sdiv 10000;
       let p = p\<lparr>iJD := trunc (fl (fl (of_int (X1 + X2 + d0 + B) - 1524.5) * 86400000)), validJD := True\<rparr>;
       Some (if validHMS p then
               let p = p\<lparr>iJD := iJD p + (hour p * 3600000 + minute p * 60000 + trunc (fl (second p * 1000)))\<rparr>
               in if validTZ p then p\<lparr>iJD := iJD p - tz p * 60000, validYMD := False, validHMS := False, validTZ := False\<rparr>
                  else p
             else p)
     })"


section \<open>The calendar date and the time of day\<close>

text \<open>The constants 122.1 and 30.6001 are rounded when they are read by the compiler.\<close>

definition computeYMD :: "DateTime \<Rightarrow> DateTime" where
  "computeYMD p =
    (if validYMD p then p
     else (if \<not> validJD p then p\<lparr>Y := 2000, M := 1, D := 1\<rparr>
           else let Z = (iJD p + 43200000) sdiv 86400000;
                    A0 = trunc (fl (fl (of_int Z - 1867216.25) / 36524.25));
                    A = Z + 1 + A0 - A0 sdiv 4;
                    B = A + 1524;
                    C = trunc (fl (fl (of_int B - fl 122.1) / 365.25));
                    D' = (36525 * C) sdiv 100;
                    E = trunc (fl (of_int (B - D') / fl 30.6001));
                    X1 = trunc (fl (fl 30.6001 * of_int E));
                    mon = (if E < 14 then E - 1 else E - 13)
                in p\<lparr>D := B - D' - X1, M := mon, Y := (if mon > 2 then C - 4716 else C - 4715)\<rparr>)\<lparr>validYMD := True\<rparr>)"



definition clearYMD_HMS_TZ :: "DateTime \<Rightarrow> DateTime" where
  "clearYMD_HMS_TZ p = p\<lparr>validYMD := False, validHMS := False, validTZ := False\<rparr>"

section \<open>The calendar\<close>

definition leap :: "int \<Rightarrow> bool" where
  "leap y \<longleftrightarrow> 4 dvd y \<and> (\<not> 100 dvd y \<or> 400 dvd y)"

definition month_days :: "int \<Rightarrow> int \<Rightarrow> int" where
  "month_days y mo = (if mo = 2 then (if leap y then 29 else 28) else if mo \<in> {4, 6, 9, 11} then 30 else 31)"

definition valid_date :: "int \<Rightarrow> int \<Rightarrow> int \<Rightarrow> bool" where
  "valid_date y mo d \<longleftrightarrow> 0 \<le> y \<and> y \<le> 9999 \<and> 1 \<le> mo \<and> mo \<le> 12 \<and> 1 \<le> d \<and> d \<le> month_days y mo"

definition next_day :: "int \<times> int \<times> int \<Rightarrow> int \<times> int \<times> int" where
  "next_day t = (case t of (y, mo, d) \<Rightarrow>
     if d < month_days y mo then (y, mo, d + 1) else if mo < 12 then (y, mo + 1, 1) else (y + 1, 1, 1))"

text \<open>The number of a day, in years that begin in March: the year \<open>u\<close> and the days \<open>t\<close> since the beginning of an imaginary month.\<close>

definition march_year :: "int \<Rightarrow> int \<Rightarrow> int" where
  "march_year y mo = (if mo \<le> 2 then y - 1 else y)"

definition month_start :: "int \<Rightarrow> int" where
  "month_start mo = (306001 * ((if mo \<le> 2 then mo + 12 else mo) + 1)) div 10000"

definition century_shift :: "int \<Rightarrow> int" where
  "century_shift yy = 2 - yy div 100 + yy div 100 div 4"

definition day_number :: "int \<Rightarrow> int \<Rightarrow> int \<Rightarrow> int" where
  "day_number y mo d = (let u = march_year y mo + 4716 in 365 * u + u div 4 + month_start mo + d + century_shift (march_year y mo) - 1524)"

lemma month_cases:
  assumes "1 \<le> mo" and "mo \<le> (12 :: int)"
  obtains "mo = 1" | "mo = 2" | "mo = 3" | "mo = 4" | "mo = 5" | "mo = 6" | "mo = 7" | "mo = 8" | "mo = 9" | "mo = 10" | "mo = 11" | "mo = 12"
proof -
  have "mo \<in> {1..12}" using assms by simp
  moreover have "{1..12 :: int} = {1, 2, 3, 4, 5, 6, 7, 8, 9, 10, 11, 12}" by code_simp
  ultimately show ?thesis using that by (simp only: insert_iff empty_iff) blast
qed

text \<open>Whether the fourth and the hundredth part of the year change shows whether it is a leap year.\<close>

lemma div_pred:
  assumes "0 < (n :: int)"
  shows "(y - 1) div n = y div n - (if n dvd y then 1 else 0)"
proof (cases "n dvd y")
  case True
  then obtain k where k: "y = n * k" by blast
  have "(n * k - 1) div n = k - 1" by (rule int_div_pos_eq [where r = "n - 1"]) (use assms in \<open>simp_all add: algebra_simps\<close>)
  then show ?thesis using True k assms by simp
next
  case False
  then have "y mod n \<noteq> 0" by (simp add: dvd_eq_mod_eq_0)
  then have m: "0 \<le> y mod n - 1" "y mod n - 1 < n" using pos_mod_sign [OF assms, of y] pos_mod_bound [OF assms, of y] by linarith+
  have "y - 1 = n * (y div n) + (y mod n - 1)" using mult_div_mod_eq [of n y] by linarith
  then have "(y - 1) div n = y div n" using m by (rule int_div_pos_eq)
  then show ?thesis using False by simp
qed

lemma leap_iff: "leap y \<longleftrightarrow> 4 dvd y \<and> (100 dvd y \<longrightarrow> 4 dvd y div 100)"
proof (cases "100 dvd y")
  case True
  then obtain c where c: "y = 100 * c" by blast
  have "400 dvd y \<longleftrightarrow> 100 * 4 dvd 100 * c" using c by simp
  then have "400 dvd y \<longleftrightarrow> 4 dvd c" by (simp only: dvd_mult_cancel_left) simp
  moreover have "4 dvd y" using c by simp
  ultimately show ?thesis using c by (simp add: leap_def)
qed (simp add: leap_def)

lemma leap_step:
  "(y + 4716) div 4 - (y - 1 + 4716) div 4 + century_shift y - century_shift (y - 1) = (if leap y then 1 else (0 :: int))"
proof -
  have "(y + 4716) div 4 = y div 4 + 1179" "(y - 1 + 4716) div 4 = (y - 1) div 4 + 1179"
    using div_mult_self1 [of 4 y 1179] div_mult_self1 [of 4 "y - 1" 1179] by simp_all
  moreover have "4 dvd y" if "100 dvd y" using that dvd_trans [of 4 100 y] by simp
  ultimately show ?thesis
    unfolding leap_iff century_shift_def by (cases "100 dvd y") (simp_all add: div_pred)
qed

lemma day_number_next:
  assumes "valid_date y mo d" and "next_day (y, mo, d) = (y', mo', d')"
  shows "day_number y' mo' d' = day_number y mo d + 1"
proof -
  have mo: "1 \<le> mo" "mo \<le> 12" "d \<le> month_days y mo" using assms(1) by (simp_all add: valid_date_def)
  show ?thesis
  proof (cases "d < month_days y mo")
    case True
    then show ?thesis using assms(2) by (auto simp: next_day_def day_number_def)
  next
    case False
    then have d: "d = month_days y mo" using mo by simp
    note defs = next_day_def day_number_def Let_def march_year_def month_start_def month_days_def
    from mo(1,2) show ?thesis
    proof (cases rule: month_cases)
      case 2
      then show ?thesis
        using leap_step [of y] assms(2) d
        by (simp add: defs split: if_splits)
    next
      case 12
      then have "y' = y + 1" "mo' = 1" "d' = 1" "d = 31" using assms(2) d by (simp_all add: next_day_def month_days_def)
      then show ?thesis using 12 by (simp add: day_number_def march_year_def month_start_def add.commute)
    qed (use assms(2) d in \<open>simp_all add: defs\<close>)
  qed
qed

section \<open>The Julian day of a date\<close>

lemma sdiv_nonneg: "0 \<le> a \<Longrightarrow> 0 < b \<Longrightarrow> a sdiv b = a div (b :: int)"
  by (cases "a = 0") (simp_all add: signed_divide_int_def)

lemma jd_exact:
  assumes "\<bar>n\<bar> < 10000000"
  shows "trunc (fl (fl (of_int n - 1524.5) * 86400000)) = n * 86400000 - 131716800000"
proof -
  have "fl (of_int n - 1524.5) = of_int n - 1524.5"
    by (rule double.rnd_exact [where k = 1 and n = "2 * n - 3049"]) (use assms in \<open>simp_all add: algebra_simps\<close>)
  moreover have e: "(of_int n - 1524.5) * 86400000 = (of_int (n * 86400000 - 131716800000) :: rat)" by simp
  have "fl (of_int (n * 86400000 - 131716800000)) = of_int (n * 86400000 - 131716800000)"
    by (rule double.rnd_int) (use assms in simp)
  ultimately show ?thesis by (simp only: e trunc_int)
qed

lemma quarter_days: "36525 * u div 100 = 365 * u + u div (4 :: int)"
proof -
  have "36525 * u div 100 = (25 * u + 100 * (365 * u)) div 100" by simp
  also have "\<dots> = 365 * u + 25 * u div (25 * 4)" by (simp only: div_mult_self2) simp
  also have "\<dots> = 365 * u + u div 4" by (subst div_mult_mult1) simp_all
  finally show ?thesis .
qed

lemma month_start_bounds:
  assumes "1 \<le> mo" and "mo \<le> 12"
  shows "122 \<le> month_start mo" and "month_start mo \<le> 459"
  using assms by (cases rule: month_cases, simp_all add: month_start_def)+

lemma computeJD_date:
  assumes "\<not> validJD p" and "validYMD p" and "0 \<le> Y p" and "Y p \<le> 9999" and "1 \<le> M p" and "M p \<le> 12" and "1 \<le> D p" and "D p \<le> 31"
    and "\<not> validTZ p"
  shows "computeJD p = Some (p\<lparr>iJD := day_number (Y p) (M p) (D p) * 86400000 - 43200000 +
      (if validHMS p then hour p * 3600000 + minute p * 60000 + trunc (fl (second p * 1000)) else 0), validJD := True\<rparr>)"
proof -
  define yy mm where "yy = march_year (Y p) (M p)" and "mm = (if M p \<le> 2 then M p + 12 else M p)"
  have yy: "- 1 \<le> yy" "yy \<le> 9999" and mm: "3 \<le> mm" "mm \<le> 14" using assms by (simp_all add: yy_def mm_def march_year_def)
  have i: "i32 (36525 * (yy + 4716)) = Some (36525 * (yy + 4716))" "i32 (306001 * (mm + 1)) = Some (306001 * (mm + 1))"
    using yy mm by (simp_all add: i32_def i32_range_def)
  have X1: "(36525 * (yy + 4716)) sdiv 100 = 365 * (yy + 4716) + (yy + 4716) div 4"
    using yy by (subst sdiv_nonneg) (simp_all only: quarter_days, simp_all)
  have X2: "(306001 * (mm + 1)) sdiv 10000 = month_start (M p)" using mm by (simp add: sdiv_nonneg month_start_def mm_def)
  have B: "2 - yy sdiv 100 + yy sdiv 100 sdiv 4 = century_shift yy"
  proof (cases "yy = - 1")
    case False
    then have "0 \<le> yy" using yy by simp
    then show ?thesis by (simp add: sdiv_nonneg century_shift_def pos_imp_zdiv_nonneg_iff)
  qed (simp add: century_shift_def signed_divide_int_def)
  let ?n = "365 * (yy + 4716) + (yy + 4716) div 4 + month_start (M p) + D p + century_shift yy"
  have "- 200 \<le> century_shift yy" "century_shift yy \<le> 200" using yy by (auto simp: century_shift_def)
  moreover have "0 \<le> (yy + 4716) div 4" "(yy + 4716) div 4 \<le> 5000" using yy by simp_all
  ultimately have "\<bar>?n\<bar> < 10000000"
    using yy month_start_bounds [OF assms(5,6)] assms(7,8) by (simp add: abs_less_iff algebra_simps)
  note jd = jd_exact [OF this]
  have n: "?n * 86400000 - 131716800000 = day_number (Y p) (M p) (D p) * 86400000 - 43200000"
    by (simp add: day_number_def Let_def yy_def)
  have "(if M p \<le> 2 then Y p - 1 else Y p) = yy" "(if M p \<le> 2 then M p + 12 else M p) = mm" by (simp_all add: yy_def mm_def march_year_def)
  then show ?thesis
    using assms(1,2,9) i B X1 X2 jd n by (simp add: computeJD_def Let_def)
qed

section \<open>The date of a Julian day\<close>












section \<open>The time of day\<close>




section \<open>Texts of dates\<close>

definition date_time :: "int \<Rightarrow> int \<Rightarrow> int \<Rightarrow> int \<Rightarrow> int \<Rightarrow> int \<Rightarrow> DateTime" where
  "date_time y mo d hh mi sec = zero_DateTime\<lparr>Y := y, M := mo, D := d, hour := hh, minute := mi, second := of_int sec, validYMD := True, validHMS := True\<rparr>"

lemma computeJD_date_time:
  assumes "valid_date y mo d" and "0 \<le> sec" and "sec < 60"
  shows "computeJD (date_time y mo d hh mi sec) = Some ((date_time y mo d hh mi sec)\<lparr>
    iJD := day_number y mo d * 86400000 - 43200000 + (hh * 3600000 + mi * 60000 + sec * 1000), validJD := True\<rparr>)"
proof -
  have "fl (of_int (sec * 1000)) = of_int (sec * 1000)" by (rule double.rnd_int) (use assms in simp)
  then have "trunc (fl (of_int sec * 1000)) = sec * 1000" using trunc_int [of "sec * 1000"] by simp
  moreover have "month_days y mo \<le> 31" by (simp add: month_days_def)
  ultimately show ?thesis
    using assms computeJD_date [of "date_time y mo d hh mi sec"]
    by (simp add: date_time_def zero_DateTime_def valid_date_def)
qed


text \<open>Decimal text of a fixed width.\<close>

definition digit_char :: "int \<Rightarrow> u8" where
  "digit_char k = word_of_int (48 + k)"

definition text2 :: "int \<Rightarrow> u8 list" where
  "text2 n = [digit_char (n div 10), digit_char (n mod 10)]"

definition text4 :: "int \<Rightarrow> u8 list" where
  "text4 n = text2 (n div 100) @ text2 (n mod 100)"

lemma digit_char: "0 \<le> k \<Longrightarrow> k \<le> 9 \<Longrightarrow> sqlite3Isdigit (digit_char k) \<and> uint (digit_char k) = 48 + k"
proof -
  assume k: "0 \<le> k" "k \<le> 9"
  have "uint (digit_char k) = 48 + k" 
    using k by (simp only: digit_char_def uint_word_of_int) (simp add: take_bit_eq_mod)
  then show ?thesis using k by (simp add: Isdigit_eq word_le_def)
qed





lemma text_length [simp]: "length (text2 n) = 2" "length (text4 n) = 4"
  by (simp_all add: text2_def text4_def)






text \<open>The exception, the loss of a millisecond, and a year before the common era, where the division towards zero counts two days too many at the end of February.\<close>

lemma lost_day: "map_option (\<lambda>q. (\<lambda>p. (Y p, M p, D p)) (computeYMD (clearYMD_HMS_TZ q))) (computeJD (date_time 300 3 1 0 0 0)) = Some (300, 2, 29)"
  by code_simp

lemma lost_millisecond:
  "do { (_, p) \<leftarrow> parseHhMmSs ([0x30, 0x30, 0x3a, 0x30, 0x30, 0x3a, 0x30, 0x31, 0x2e, 0x30, 0x30, 0x31, 0] :: u8 list) zero_DateTime; q \<leftarrow> computeJD p;
     Some (second p, (iJD q + 43200000) mod 86400000) } = Some (fl (1001 / 1000), 1000)"
  by code_simp

lemma negative_year:
  "(do { p \<leftarrow> computeJD (date_time (- 100) 2 28 0 0 0); q \<leftarrow> computeJD (date_time (- 100) 3 1 0 0 0); Some (iJD q - iJD p) }) = Some (2 * 86400000)"
  by code_simp

section \<open>Properties\<close>

text \<open>C17. Julian day numbers count the days of the Gregorian calendar: from one date of the years 0 to 9999 to the next, by the
  lengths of the months and the rule of leap years, \<^verbatim>\<open>computeJD\<close> grows by one day of milliseconds, and noon of 2000-01-01 is day 2451545.\<close>

theorem computeJD_counts_days:
  assumes "valid_date y mo d" and "next_day (y, mo, d) = (y', mo', d')" and "y' \<le> 9999"
  shows "(\<exists>p q. computeJD (date_time y mo d 0 0 0) = Some p \<and> computeJD (date_time y' mo' d' 0 0 0) = Some q \<and> iJD q = iJD p + 86400000) \<and>
    map_option iJD (computeJD (date_time 2000 1 1 12 0 0)) = Some (2451545 * 86400000)"
proof
  have "valid_date y' mo' d'"
  proof -
    have "1 \<le> mo" "mo \<le> 12" "1 \<le> d" "0 \<le> y" "y \<le> 9999" using assms(1) by (simp_all add: valid_date_def)
    moreover have "1 \<le> month_days v k" for v k by (simp add: month_days_def)
    ultimately show ?thesis using assms(2,3) by (auto simp: next_day_def valid_date_def split: if_splits)
  qed
  then show "\<exists>p q. computeJD (date_time y mo d 0 0 0) = Some p \<and> computeJD (date_time y' mo' d' 0 0 0) = Some q \<and> iJD q = iJD p + 86400000"
    using computeJD_date_time [OF assms(1), of 0 0 0] computeJD_date_time [of y' mo' d' 0 0 0] day_number_next [OF assms(1,2)] by simp
  have "valid_date 2000 1 1" "day_number 2000 1 1 = 2451545" by code_simp+
  then show "map_option iJD (computeJD (date_time 2000 1 1 12 0 0)) = Some (2451545 * 86400000)"
    using computeJD_date_time [of 2000 1 1 0 12 0] by simp
qed

theorem computeJD_counts_days_witness:
  "(\<exists>p q. computeJD (date_time 2004 2 28 0 0 0) = Some p \<and> computeJD (date_time 2004 2 29 0 0 0) = Some q \<and> iJD q = iJD p + 86400000) \<and>
    map_option iJD (computeJD (date_time 2000 1 1 12 0 0)) = Some (2451545 * 86400000)"
  by (rule computeJD_counts_days) (simp_all add: valid_date_def next_day_def month_days_def leap_def)



end
