(* ===== verification/Printf.thy ===== *)
theory Printf
  imports Numtext
begin

text \<open>
  Formatted output (\<^verbatim>\<open>printf.c\<close>): the string accumulator with its allocations and limits, and the interpreter of formats. Arguments
  come from a variable argument list or, for the SQL function, from values. Integer, string and character conversions are modelled;
  for the floating-point conversions the model has no result. Overflow of a signed integer and a write outside a buffer are \<open>None\<close>.

  The interpreter is a function of the sink that it writes to, so that it can be compared with itself on a plain list of bytes.
\<close>

section \<open>String accumulators\<close>

definition STRACCUM_NOMEM :: nat where "STRACCUM_NOMEM = 1"
definition STRACCUM_TOOBIG :: nat where "STRACCUM_TOOBIG = 2"

text \<open>\<open>cap\<close> is the size of the memory that \<^verbatim>\<open>zText\<close> points to, and \<open>isBase\<close> says that it is \<^verbatim>\<open>zBase\<close>. The first argument \<open>malloc\<close> of the operations tells for which sizes an
  allocation succeeds.\<close>

record StrAccum =
  zText :: "u8 list option"
  cap :: int
  isBase :: bool
  nChar :: int
  nAlloc :: int
  mxAlloc :: int
  useMalloc :: nat
  accError :: nat

definition setStrAccumError :: "StrAccum \<Rightarrow> nat \<Rightarrow> StrAccum" where
  "setStrAccumError p eError = p\<lparr>accError := eError, nAlloc := 0\<rparr>"

definition sqlite3StrAccumReset :: "StrAccum \<Rightarrow> StrAccum" where
  "sqlite3StrAccumReset p = p\<lparr>zText := None\<rparr>"

definition sqlite3StrAccumEnlarge :: "(int \<Rightarrow> bool) \<Rightarrow> StrAccum \<Rightarrow> int \<Rightarrow> (StrAccum \<times> int) option" where
  "sqlite3StrAccumEnlarge malloc p N =
    (if accError p \<noteq> 0 then Some (p, 0)
     else if useMalloc p = 0 then Some (setStrAccumError p STRACCUM_TOOBIG, nAlloc p - nChar p - 1)
     else do {
       N1 \<leftarrow> i32 (N + 1);
       let szNew = nChar p + N1;
       Some (if szNew > mxAlloc p then (setStrAccumError (sqlite3StrAccumReset p) STRACCUM_TOOBIG, 0)
         else if malloc szNew
         then (p\<lparr>nAlloc := szNew, zText := Some (case zText p of Some t \<Rightarrow> t | None \<Rightarrow> []), cap := szNew, isBase := False\<rparr>, N)
         else (setStrAccumError (sqlite3StrAccumReset (p\<lparr>nAlloc := szNew\<rparr>)) STRACCUM_NOMEM, 0))
     })"

text \<open>Writing behind the text.\<close>

definition put_text :: "StrAccum \<Rightarrow> u8 list \<Rightarrow> StrAccum option" where
  "put_text p z =
    (if z = [] then Some p
     else case zText p of
         Some t \<Rightarrow> if nChar p + int (length z) \<le> cap p
                    then Some (p\<lparr>zText := Some (t @ z), nChar := nChar p + int (length z)\<rparr>) else None
       | None \<Rightarrow> None)"

definition sqlite3AppendSpace :: "(int \<Rightarrow> bool) \<Rightarrow> StrAccum \<Rightarrow> int \<Rightarrow> StrAccum option" where
  "sqlite3AppendSpace malloc p N = do {
     n \<leftarrow> i32 (nChar p + N);
     if n \<ge> nAlloc p then do {
       (p, N) \<leftarrow> sqlite3StrAccumEnlarge malloc p N;
       if N \<le> 0 then Some p else put_text p (replicate (nat N) 0x20)
     } else put_text p (replicate (nat N) 0x20)
   }"

definition enlargeAndAppend :: "(int \<Rightarrow> bool) \<Rightarrow> StrAccum \<Rightarrow> u8 list \<Rightarrow> StrAccum option" where
  "enlargeAndAppend malloc p z = do {
     (p, N) \<leftarrow> sqlite3StrAccumEnlarge malloc p (int (length z));
     if N > 0 then put_text p (take (nat N) z) else Some p
   }"

definition sqlite3StrAccumAppend :: "(int \<Rightarrow> bool) \<Rightarrow> StrAccum \<Rightarrow> u8 list \<Rightarrow> StrAccum option" where
  "sqlite3StrAccumAppend malloc p z = do {
     n \<leftarrow> i32 (nChar p + int (length z));
     if n \<ge> nAlloc p then enlargeAndAppend malloc p z else put_text p z
   }"

text \<open>The text that is returned, without its terminator.\<close>

definition sqlite3StrAccumFinish :: "(int \<Rightarrow> bool) \<Rightarrow> StrAccum \<Rightarrow> (u8 list option \<times> StrAccum) option" where
  "sqlite3StrAccumFinish malloc p = (case zText p of
     None \<Rightarrow> Some (None, p)
   | Some t \<Rightarrow>
       if nChar p \<ge> cap p then None
       else if useMalloc p \<noteq> 0 \<and> isBase p
         then (if malloc (nChar p + 1) then Some (Some t, p\<lparr>cap := nChar p + 1, isBase := False\<rparr>)
               else Some (None, setStrAccumError (p\<lparr>zText := None\<rparr>) STRACCUM_NOMEM))
         else Some (Some t, p))"

definition sqlite3StrAccumInit :: "int \<Rightarrow> int \<Rightarrow> StrAccum" where
  "sqlite3StrAccumInit n mx = \<lparr>zText = (if n = 0 then None else Some []), cap = n, isBase = (n \<noteq> 0), nChar = 0, nAlloc = n, mxAlloc = mx,
     useMalloc = 1, accError = 0\<rparr>"

section \<open>Conversions\<close>

datatype et = etRADIX | etFLOAT | etEXP | etSIZE | etGENERIC | etSTRING | etDYNSTRING | etPERCENT | etCHARX | etSQLESCAPE | etSQLESCAPE2
  | etTOKEN | etSRCLIST | etPOINTER | etSQLESCAPE3 | etORDINAL

record et_info =
  fmttype :: u8
  base :: nat
  info_flags :: nat
  et_type :: et
  charset :: nat
  info_prefix :: nat

text \<open>The bits of \<open>info_flags\<close> are \<^verbatim>\<open>FLAG_SIGNED\<close> (1), \<^verbatim>\<open>FLAG_INTERN\<close> (2) and \<^verbatim>\<open>FLAG_STRING\<close> (4).\<close>

definition flag_signed :: "et_info \<Rightarrow> bool" where
  "flag_signed i \<longleftrightarrow> odd (info_flags i)"

definition flag_intern :: "et_info \<Rightarrow> bool" where
  "flag_intern i \<longleftrightarrow> odd (info_flags i div 2)"

definition aDigits :: "u8 list" where
  "aDigits = [0x30, 0x31, 0x32, 0x33, 0x34, 0x35, 0x36, 0x37, 0x38, 0x39, 0x41, 0x42, 0x43, 0x44, 0x45, 0x46,
              0x30, 0x31, 0x32, 0x33, 0x34, 0x35, 0x36, 0x37, 0x38, 0x39, 0x61, 0x62, 0x63, 0x64, 0x65, 0x66]"

definition aPrefix :: "u8 list" where
  "aPrefix = [0x2d, 0x78, 0x30, 0, 0x58, 0x30, 0]"

definition info :: "u8 \<Rightarrow> nat \<Rightarrow> nat \<Rightarrow> et \<Rightarrow> nat \<Rightarrow> nat \<Rightarrow> et_info" where
  "info c b f t cs p = \<lparr>fmttype = c, base = b, info_flags = f, et_type = t, charset = cs, info_prefix = p\<rparr>"

definition fmtinfo :: "et_info list" where
  "fmtinfo = [
     info 0x64 10 1 etRADIX 0 0, info 0x73 0 4 etSTRING 0 0, info 0x67 0 1 etGENERIC 30 0, info 0x7a 0 4 etDYNSTRING 0 0,
     info 0x71 0 4 etSQLESCAPE 0 0, info 0x51 0 4 etSQLESCAPE2 0 0, info 0x77 0 4 etSQLESCAPE3 0 0, info 0x63 0 0 etCHARX 0 0,
     info 0x6f 8 0 etRADIX 0 2, info 0x75 10 0 etRADIX 0 0, info 0x78 16 0 etRADIX 16 1, info 0x58 16 0 etRADIX 0 4,
     info 0x66 0 1 etFLOAT 0 0, info 0x65 0 1 etEXP 30 0, info 0x45 0 1 etEXP 14 0, info 0x47 0 1 etGENERIC 14 0,
     info 0x69 10 1 etRADIX 0 0, info 0x6e 0 0 etSIZE 0 0, info 0x25 0 0 etPERCENT 0 0, info 0x70 16 0 etPOINTER 0 1,
     info 0x54 0 2 etTOKEN 0 0, info 0x53 0 2 etSRCLIST 0 0, info 0x72 10 3 etORDINAL 0 0]"

section \<open>Arguments\<close>

text \<open>The arguments of a variable argument list have types, and reading one as another has no result. The arguments of the SQL
  function are the integer and the text of each value; behind the last they are zero and the null pointer. A text is given with its terminator.\<close>

datatype parg = PInt int | PLong int | PText "u8 list option" | PToken "u8 list option" | PSrcItem "u8 list option" "u8 list" | PSizePtr

datatype args = VaList "parg list" | SqlArgs "(int \<times> u8 list option) list"

fun getIntArg :: "(int \<times> u8 list option) list \<Rightarrow> int \<times> (int \<times> u8 list option) list" where
  "getIntArg [] = (0, [])"
| "getIntArg ((i, t) # vs) = (i, vs)"

fun getTextArg :: "(int \<times> u8 list option) list \<Rightarrow> u8 list option \<times> (int \<times> u8 list option) list" where
  "getTextArg [] = (None, [])"
| "getTextArg ((i, t) # vs) = (t, vs)"

text \<open>An \<^verbatim>\<open>int\<close>, as for a width; SQL integers are cut to 32 bits.\<close>

definition int_arg :: "args \<Rightarrow> (int \<times> args) option" where
  "int_arg a = (case a of
     VaList (PInt i # as) \<Rightarrow> Some (i, VaList as)
   | VaList _ \<Rightarrow> None
   | SqlArgs vs \<Rightarrow> (case getIntArg vs of (i, vs) \<Rightarrow> Some (sint (word_of_int i :: u32), SqlArgs vs)))"

text \<open>The value of an integer conversion; \<open>long\<close> is either of the flags for \<^verbatim>\<open>l\<close> and \<^verbatim>\<open>ll\<close>, which mean 64 bits both.\<close>

definition value_arg :: "bool \<Rightarrow> args \<Rightarrow> (int \<times> args) option" where
  "value_arg long a = (case a of
     VaList (PInt i # as) \<Rightarrow> if long then None else Some (i, VaList as)
   | VaList (PLong i # as) \<Rightarrow> if long then Some (i, VaList as) else None
   | VaList _ \<Rightarrow> None
   | SqlArgs vs \<Rightarrow> (case getIntArg vs of (i, vs) \<Rightarrow> Some (i, SqlArgs vs)))"

definition text_arg :: "args \<Rightarrow> (u8 list option \<times> args) option" where
  "text_arg a = (case a of
     VaList (PText t # as) \<Rightarrow> Some (t, VaList as)
   | VaList _ \<Rightarrow> None
   | SqlArgs vs \<Rightarrow> (case getTextArg vs of (t, vs) \<Rightarrow> Some (t, SqlArgs vs)))"

section \<open>The parts of a conversion\<close>

record conv =
  flag_leftjustify :: bool
  flag_plussign :: bool
  flag_blanksign :: bool
  flag_alternateform :: bool
  flag_altform2 :: bool
  flag_zeropad :: bool
  width :: int
  precision :: int
  flag_long :: bool

definition conv0 :: conv where
  "conv0 = \<lparr>flag_leftjustify = False, flag_plussign = False, flag_blanksign = False, flag_alternateform = False, flag_altform2 = False,
     flag_zeropad = False, width = 0, precision = - 1, flag_long = False\<rparr>"

fun flag_loop :: "u8 list \<Rightarrow> conv \<Rightarrow> (conv \<times> u8 list) option" where
  "flag_loop [] f = None"
| "flag_loop (c # fmt) f =
    (if c = 0x2d then flag_loop fmt (f\<lparr>flag_leftjustify := True\<rparr>)
     else if c = 0x2b then flag_loop fmt (f\<lparr>flag_plussign := True\<rparr>)
     else if c = 0x20 then flag_loop fmt (f\<lparr>flag_blanksign := True\<rparr>)
     else if c = 0x23 then flag_loop fmt (f\<lparr>flag_alternateform := True\<rparr>)
     else if c = 0x21 then flag_loop fmt (f\<lparr>flag_altform2 := True\<rparr>)
     else if c = 0x30 then flag_loop fmt (f\<lparr>flag_zeropad := True\<rparr>)
     else Some (f, c # fmt))"

fun number_loop :: "int \<Rightarrow> u8 list \<Rightarrow> (int \<times> u8 list) option" where
  "number_loop n [] = None"
| "number_loop n (c # fmt) =
    (if 0x30 \<le> c \<and> c \<le> 0x39 then do { n10 \<leftarrow> i32 (n * 10); nc \<leftarrow> i32 (n10 + uint c); number_loop (nc - 48) fmt }
     else Some (n, c # fmt))"

definition width_field :: "u8 list \<Rightarrow> conv \<Rightarrow> args \<Rightarrow> (conv \<times> u8 list \<times> args) option" where
  "width_field fmt f a = do {
     c \<leftarrow> rd fmt 0;
     if c = 0x2a then do {
       (w, a) \<leftarrow> int_arg a;
       if w < 0 then do { w \<leftarrow> i32 (- w); Some (f\<lparr>flag_leftjustify := True, width := w\<rparr>, tl fmt, a) }
       else Some (f\<lparr>width := w\<rparr>, tl fmt, a)
     } else do {
       (w, fmt) \<leftarrow> number_loop 0 fmt;
       Some (f\<lparr>width := w\<rparr>, fmt, a)
     }
   }"

definition precision_field :: "u8 list \<Rightarrow> conv \<Rightarrow> args \<Rightarrow> (conv \<times> u8 list \<times> args) option" where
  "precision_field fmt f a = do {
     c \<leftarrow> rd fmt 0;
     if c = 0x2e then do {
       c \<leftarrow> rd (tl fmt) 0;
       if c = 0x2a then do {
         (n, a) \<leftarrow> int_arg a;
         n \<leftarrow> i32 (if n < 0 then - n else n);
         Some (f\<lparr>precision := n\<rparr>, tl (tl fmt), a)
       } else do {
         (n, fmt) \<leftarrow> number_loop 0 (tl fmt);
         Some (f\<lparr>precision := n\<rparr>, fmt, a)
       }
     } else Some (f\<lparr>precision := - 1\<rparr>, fmt, a)
   }"

definition long_field :: "u8 list \<Rightarrow> conv \<Rightarrow> (conv \<times> u8 list) option" where
  "long_field fmt f = do {
     c \<leftarrow> rd fmt 0;
     if c = 0x6c then do {
       c \<leftarrow> rd (tl fmt) 0;
       Some (f\<lparr>flag_long := True\<rparr>, if c = 0x6c then tl (tl fmt) else tl fmt)
     } else Some (f\<lparr>flag_long := False\<rparr>, fmt)
   }"

text \<open>All of it, up to the letter of the conversion.\<close>

definition conv_spec :: "u8 list \<Rightarrow> args \<Rightarrow> (conv \<times> u8 \<times> u8 list \<times> args) option" where
  "conv_spec fmt a = do {
     (f, fmt) \<leftarrow> flag_loop fmt conv0;
     (f, fmt, a) \<leftarrow> width_field fmt f a;
     (f, fmt, a) \<leftarrow> precision_field fmt f a;
     (f, fmt) \<leftarrow> long_field fmt f;
     c \<leftarrow> rd fmt 0;
     Some (f, c, tl fmt, a)
   }"

section \<open>The text of a conversion\<close>

definition etBUFSIZE :: int where "etBUFSIZE = 70"

text \<open>The text of a conversion, or the failure of an allocation.\<close>

datatype piece = Piece "u8 list" | NoMem

function radix_loop :: "nat \<Rightarrow> nat \<Rightarrow> nat \<Rightarrow> u8 list \<Rightarrow> u8 list option" where
  "radix_loop b cs v out =
    (if b < 2 then None
     else do { c \<leftarrow> rd aDigits (cs + v mod b);
               if v div b > 0 then radix_loop b cs (v div b) (c # out) else Some (c # out) })"
  by pat_completeness auto
termination by (relation "measure (\<lambda>(b, cs, v, out). v)") (auto intro!: div_less_dividend gr0I)

declare radix_loop.simps [simp del]

definition zOrd :: "u8 list" where
  "zOrd = [0x74, 0x68, 0x73, 0x74, 0x6e, 0x64, 0x72, 0x64]"

definition radix_arg :: "et_info \<Rightarrow> conv \<Rightarrow> bool \<Rightarrow> args \<Rightarrow> (nat \<times> u8 \<times> args) option" where
  "radix_arg i f long a =
    (if \<not> flag_signed i then do {
       (v, a') \<leftarrow> value_arg long a;
       Some (nat (v mod (case a of VaList _ \<Rightarrow> if long then 2 ^ 64 else 2 ^ 32 | SqlArgs _ \<Rightarrow> 2 ^ 64)), 0, a')
     } else do {
       (v, a') \<leftarrow> value_arg long a;
       Some (if v < 0 then (nat (- v), 0x2d, a')
             else (nat v, if flag_plussign f then 0x2b else if flag_blanksign f then 0x20 else 0, a'))
     })"

definition ordinal_suffix :: "nat \<Rightarrow> u8 list" where
  "ordinal_suffix v = (let x = v mod 10; x = (if x \<ge> 4 \<or> v div 10 mod 10 = 1 then 0 else x) in [zOrd ! (x * 2), zOrd ! (x * 2 + 1)])"

text \<open>The text grows from the end of a buffer of \<^verbatim>\<open>nOut\<close> bytes, the last of which stays free; it has no result when it does not fit.\<close>

definition conv_radix :: "(int \<Rightarrow> bool) \<Rightarrow> et_info \<Rightarrow> conv \<Rightarrow> args \<Rightarrow> (piece \<times> args) option" where
  "conv_radix malloc i f a = do {
     let long = (if et_type i = etPOINTER then True else flag_long f);
     (v, prefix, a) \<leftarrow> radix_arg i f long a;
     let alt = (if v = 0 then False else flag_alternateform f);
     let signw = width f - (if prefix \<noteq> 0 then 1 else 0);
     let prec = (if flag_zeropad f \<and> precision f < signw then signw else precision f);
     nOut \<leftarrow> (if prec < etBUFSIZE - 10 then Some etBUFSIZE else i32 (prec + 10));
     if \<not> prec < etBUFSIZE - 10 \<and> \<not> malloc nOut then Some (NoMem, a)
     else do {
       out \<leftarrow> radix_loop (base i) (charset i) v (if et_type i = etORDINAL then ordinal_suffix v else []);
       let out = replicate (nat (prec - int (length out))) 0x30 @ out;
       let out = (if prefix \<noteq> 0 then prefix # out else out);
       let out = (if alt \<and> info_prefix i \<noteq> 0 then rev (takeWhile (\<lambda>x. x \<noteq> 0) (drop (info_prefix i) aPrefix)) @ out else out);
       if int (length out) > nOut - 1 then None else Some (Piece out, a)
     }
   }"

definition conv_char :: "conv \<Rightarrow> args \<Rightarrow> (piece \<times> args) option" where
  "conv_char f a = do {
     (c, a) \<leftarrow> (case a of
        VaList (PInt i # as) \<Rightarrow> Some (word_of_int i :: u8, VaList as)
      | VaList _ \<Rightarrow> None
      | SqlArgs vs \<Rightarrow> (case getTextArg vs of
            (Some t, vs) \<Rightarrow> do { c \<leftarrow> rd t 0; Some (c, SqlArgs vs) }
          | (None, vs) \<Rightarrow> Some (0, SqlArgs vs)));
     if precision f > etBUFSIZE then None
     else Some (Piece (if precision f \<ge> 0 then replicate (nat (precision f)) c else [c]), a)
   }"

fun string_len :: "int \<Rightarrow> u8 list \<Rightarrow> nat option" where
  "string_len k [] = (if k = 0 then Some 0 else None)"
| "string_len k (c # z) = (if k = 0 \<or> c = 0 then Some 0 else map_option Suc (string_len (k - 1) z))"

definition conv_string :: "conv \<Rightarrow> args \<Rightarrow> (piece \<times> args) option" where
  "conv_string f a = do {
     (t, a) \<leftarrow> text_arg a;
     let z = (case t of Some z \<Rightarrow> z | None \<Rightarrow> [0]);
     n \<leftarrow> (if precision f \<ge> 0 then string_len (precision f) z else sqlite3Strlen30 z);
     Some (Piece (take n z), a)
   }"

definition NULL_text :: "et \<Rightarrow> u8 list" where
  "NULL_text t = (if t = etSQLESCAPE2 then [0x4e, 0x55, 0x4c, 0x4c, 0] else [0x28, 0x4e, 0x55, 0x4c, 0x4c, 0x29, 0])"

definition conv_escape :: "(int \<Rightarrow> bool) \<Rightarrow> et \<Rightarrow> conv \<Rightarrow> args \<Rightarrow> (piece \<times> args) option" where
  "conv_escape malloc t f a = do {
     let q = (if t = etSQLESCAPE3 then 0x22 else 0x27);
     (e, a) \<leftarrow> text_arg a;
     let escarg = (case e of Some z \<Rightarrow> z | None \<Rightarrow> NULL_text t);
     i \<leftarrow> string_len (precision f) escarg;
     let src = take i escarg;
     let needQuote = (e \<noteq> None \<and> t = etSQLESCAPE2);
     n \<leftarrow> i32 (int (length (filter (\<lambda>c. c = q) src)) + int i + 1 + (if needQuote then 2 else 0));
     if n > etBUFSIZE \<and> \<not> malloc n then Some (NoMem, a)
     else let out = (if needQuote then [q] else []) @ concat (map (\<lambda>c. if c = q then [c, c] else [c]) src) @ (if needQuote then [q] else [])
          in if int (length out) + 1 > max n etBUFSIZE then None else Some (Piece out, a)
   }"

section \<open>The interpreter\<close>

text \<open>What a conversion does: return, fail for lack of memory, or append some texts, and then a text in a field of a width.\<close>

datatype conv_result = Return | Fail | Emit "u8 list list" "u8 list" int

definition of_piece :: "conv \<Rightarrow> piece \<times> args \<Rightarrow> conv_result \<times> args" where
  "of_piece f r = (case r of (Piece z, a) \<Rightarrow> (Emit [] z (width f), a) | (NoMem, a) \<Rightarrow> (Fail, a))"

definition convert :: "(int \<Rightarrow> bool) \<Rightarrow> bool \<Rightarrow> conv \<Rightarrow> u8 \<Rightarrow> args \<Rightarrow> (conv_result \<times> args) option" where
  "convert malloc useIntern f c a = (case find (\<lambda>i. fmttype i = c) fmtinfo of
     None \<Rightarrow> Some (Return, a)
   | Some i \<Rightarrow>
       if flag_intern i \<and> \<not> useIntern then Some (Return, a)
       else (case et_type i of
           etPOINTER \<Rightarrow> map_option (of_piece f) (conv_radix malloc i f a)
         | etORDINAL \<Rightarrow> map_option (of_piece f) (conv_radix malloc i f a)
         | etRADIX \<Rightarrow> map_option (of_piece f) (conv_radix malloc i f a)
         | etFLOAT \<Rightarrow> None
         | etEXP \<Rightarrow> None
         | etGENERIC \<Rightarrow> None
         | etSIZE \<Rightarrow> (case a of
               VaList (PSizePtr # as) \<Rightarrow> Some (Emit [] [] 0, VaList as)
             | VaList _ \<Rightarrow> None
             | SqlArgs vs \<Rightarrow> Some (Emit [] [] 0, a))
         | etPERCENT \<Rightarrow> Some (Emit [] [0x25] (width f), a)
         | etCHARX \<Rightarrow> map_option (of_piece f) (conv_char f a)
         | etSTRING \<Rightarrow> map_option (of_piece f) (conv_string f a)
         | etDYNSTRING \<Rightarrow> map_option (of_piece f) (conv_string f a)
         | etSQLESCAPE \<Rightarrow> map_option (of_piece f) (conv_escape malloc etSQLESCAPE f a)
         | etSQLESCAPE2 \<Rightarrow> map_option (of_piece f) (conv_escape malloc etSQLESCAPE2 f a)
         | etSQLESCAPE3 \<Rightarrow> map_option (of_piece f) (conv_escape malloc etSQLESCAPE3 f a)
         | etTOKEN \<Rightarrow> (case a of
               VaList (PToken None # as) \<Rightarrow> Some (Emit [] [] 0, VaList as)
             | VaList (PToken (Some z) # as) \<Rightarrow> Some (Emit (if z = [] then [] else [z]) [] 0, VaList as)
             | _ \<Rightarrow> None)
         | etSRCLIST \<Rightarrow> (case a of
               VaList (PSrcItem db nm # as) \<Rightarrow> Some (Emit ((case db of Some d \<Rightarrow> [d, [0x2e]] | None \<Rightarrow> []) @ [nm]) [] 0, VaList as)
             | _ \<Rightarrow> None)))"

fun lit_run :: "u8 list \<Rightarrow> (u8 list \<times> u8 list) option" where
  "lit_run [] = None"
| "lit_run (c # z) = (if c = 0x25 \<or> c = 0 then Some ([], c # z) else map_option (\<lambda>(a, r). (c # a, r)) (lit_run z))"

fun append_all :: "('s \<Rightarrow> u8 list \<Rightarrow> 's option) \<Rightarrow> u8 list list \<Rightarrow> 's \<Rightarrow> 's option" where
  "append_all app [] s = Some s"
| "append_all app (z # zs) s = do { s \<leftarrow> app s z; append_all app zs s }"

definition emit :: "('s \<Rightarrow> u8 list \<Rightarrow> 's option) \<Rightarrow> ('s \<Rightarrow> int \<Rightarrow> 's option) \<Rightarrow> conv \<Rightarrow> u8 list list \<Rightarrow> u8 list \<Rightarrow> int \<Rightarrow> 's \<Rightarrow> 's option" where
  "emit app spc f pre z w s = do {
     s \<leftarrow> append_all app pre s;
     let w = w - int (length z);
     s \<leftarrow> (if w > 0 \<and> \<not> flag_leftjustify f then spc s w else Some s);
     s \<leftarrow> app s z;
     if w > 0 \<and> flag_leftjustify f then spc s w else Some s
   }"

lemma flag_loop_length: "flag_loop fmt f = Some (g, r) \<Longrightarrow> length r \<le> length fmt"
  by (induction fmt f rule: flag_loop.induct) (auto split: if_splits)

lemma number_loop_length: "number_loop n fmt = Some (k, r) \<Longrightarrow> length r \<le> length fmt"
  by (induction fmt arbitrary: n) (fastforce split: if_splits Option.bind_splits)+

lemma lit_run_length: "lit_run fmt = Some (l, r) \<Longrightarrow> length l + length r = length fmt"
  by (induction fmt arbitrary: l r) (auto split: if_splits)

lemma conv_spec_length: "conv_spec fmt a = Some (f, c, r, a') \<Longrightarrow> length r < length fmt"
proof -
  assume "conv_spec fmt a = Some (f, c, r, a')"
  then obtain f1 r1 f2 r2 a2 f3 r3 a3 f4 r4 where s: "flag_loop fmt conv0 = Some (f1, r1)" "width_field r1 f1 a = Some (f2, r2, a2)"
      "precision_field r2 f2 a2 = Some (f3, r3, a3)" "long_field r3 f3 = Some (f4, r4)" "rd r4 0 = Some c" "r = tl r4"
    by (auto simp: conv_spec_def split: Option.bind_splits)
  have "length r2 \<le> length r1" using s(2)
    by (auto simp: width_field_def split: Option.bind_splits if_splits dest: number_loop_length)
  moreover have "length r3 \<le> length r2" using s(3)
    by (auto simp: precision_field_def split: Option.bind_splits if_splits dest!: number_loop_length)
  moreover have "length r4 \<le> length r3" using s(4) by (auto simp: long_field_def split: Option.bind_splits if_splits)
  moreover have "length r < length r4" using s(5,6) by (cases r4) auto
  ultimately show ?thesis using flag_loop_length [OF s(1)] by linarith
qed

function vxprintf :: "('s \<Rightarrow> u8 list \<Rightarrow> 's option) \<Rightarrow> ('s \<Rightarrow> int \<Rightarrow> 's option) \<Rightarrow> ('s \<Rightarrow> 's) \<Rightarrow> (int \<Rightarrow> bool) \<Rightarrow> bool \<Rightarrow>
    u8 list \<Rightarrow> args \<Rightarrow> 's \<Rightarrow> 's option" where
  "vxprintf app spc nomem malloc useIntern fmt a s = do {
     (lit, fmt1) \<leftarrow> lit_run fmt;
     s \<leftarrow> (if lit = [] then Some s else app s lit);
     c \<leftarrow> rd fmt1 0;
     if c = 0 then Some s
     else do {
       c1 \<leftarrow> rd (tl fmt1) 0;
       if c1 = 0 then app s [0x25]
       else do {
         (f, c, fmt2, a1) \<leftarrow> conv_spec (tl fmt1) a;
         (r, a2) \<leftarrow> convert malloc useIntern f c a1;
         (case r of
            Return \<Rightarrow> Some s
          | Fail \<Rightarrow> Some (nomem s)
          | Emit pre z w \<Rightarrow> do {
              s \<leftarrow> emit app spc f pre z w s;
              vxprintf app spc nomem malloc useIntern fmt2 a2 s
            })
       }
     }
   }"
  by pat_completeness auto
termination
  by (relation "measure (\<lambda>(app, spc, nomem, malloc, useIntern, fmt, a, s). length fmt)")
    (auto dest!: conv_spec_length lit_run_length)

declare vxprintf.simps [simp del]

definition sqlite3VXPrintf :: "(int \<Rightarrow> bool) \<Rightarrow> bool \<Rightarrow> u8 list \<Rightarrow> args \<Rightarrow> StrAccum \<Rightarrow> StrAccum option" where
  "sqlite3VXPrintf malloc useIntern fmt a p =
    vxprintf (sqlite3StrAccumAppend malloc) (sqlite3AppendSpace malloc) (\<lambda>p. setStrAccumError p STRACCUM_NOMEM) malloc useIntern fmt a p"

text \<open>The result of \<^verbatim>\<open>sqlite3VMPrintf\<close> and \<^verbatim>\<open>sqlite3_vmprintf\<close>: the text or the null pointer, and whether memory was short.\<close>

definition sqlite3VMPrintf :: "(int \<Rightarrow> bool) \<Rightarrow> int \<Rightarrow> u8 list \<Rightarrow> parg list \<Rightarrow> (u8 list option \<times> bool) option" where
  "sqlite3VMPrintf malloc limit zFormat ap = do {
     acc \<leftarrow> sqlite3VXPrintf malloc True zFormat (VaList ap) (sqlite3StrAccumInit etBUFSIZE limit);
     (z, acc) \<leftarrow> sqlite3StrAccumFinish malloc acc;
     Some (z, accError acc = STRACCUM_NOMEM)
   }"

definition SQLITE_MAX_LENGTH :: int where "SQLITE_MAX_LENGTH = 1000000000"

definition sqlite3_vmprintf :: "(int \<Rightarrow> bool) \<Rightarrow> u8 list \<Rightarrow> parg list \<Rightarrow> u8 list option option" where
  "sqlite3_vmprintf malloc zFormat ap = do {
     acc \<leftarrow> sqlite3VXPrintf malloc False zFormat (VaList ap) ((sqlite3StrAccumInit etBUFSIZE SQLITE_MAX_LENGTH)\<lparr>useMalloc := 2\<rparr>);
     (z, acc) \<leftarrow> sqlite3StrAccumFinish malloc acc;
     Some z
   }"

text \<open>The text that is written to the buffer of \<open>n\<close> bytes, without its terminator; \<open>Some None\<close> when nothing is written.\<close>

definition sqlite3_vsnprintf :: "(int \<Rightarrow> bool) \<Rightarrow> int \<Rightarrow> u8 list \<Rightarrow> parg list \<Rightarrow> u8 list option option" where
  "sqlite3_vsnprintf malloc n zFormat ap =
    (if n \<le> 0 then Some None
     else do {
       acc \<leftarrow> sqlite3VXPrintf malloc False zFormat (VaList ap) ((sqlite3StrAccumInit n 0)\<lparr>useMalloc := 0\<rparr>);
       (z, acc) \<leftarrow> sqlite3StrAccumFinish malloc acc;
       Some z
     })"

text \<open>The SQL function: the text and its length.\<close>

definition printfFunc :: "(int \<Rightarrow> bool) \<Rightarrow> u8 list option \<Rightarrow> (int \<times> u8 list option) list \<Rightarrow> ((u8 list option \<times> int) option) option" where
  "printfFunc malloc zFormat argv = (case zFormat of
     None \<Rightarrow> Some None
   | Some fmt \<Rightarrow> do {
       str \<leftarrow> sqlite3VXPrintf malloc False fmt (SqlArgs argv) (sqlite3StrAccumInit 0 SQLITE_MAX_LENGTH);
       (z, acc) \<leftarrow> sqlite3StrAccumFinish malloc str;
       Some (Some (z, nChar str))
     })"

section \<open>The text of a format\<close>

text \<open>The interpreter with a list of bytes as its sink: all the text that it produces.\<close>

definition render :: "(int \<Rightarrow> bool) \<Rightarrow> bool \<Rightarrow> u8 list \<Rightarrow> args \<Rightarrow> u8 list \<Rightarrow> u8 list option" where
  "render malloc useIntern = vxprintf (\<lambda>t z. Some (t @ z)) (\<lambda>t n. Some (t @ replicate (nat n) 0x20)) (\<lambda>t. t) malloc useIntern"

definition field_text :: "conv \<Rightarrow> u8 list list \<Rightarrow> u8 list \<Rightarrow> int \<Rightarrow> u8 list" where
  "field_text f pre z w = concat pre @
    (let pad = replicate (nat (w - int (length z))) 0x20 in if flag_leftjustify f then z @ pad else pad @ z)"

lemma append_all_list: "append_all (\<lambda>t z. Some (t @ z)) pre t = Some (t @ concat pre)"
  by (induction pre arbitrary: t) simp_all

lemma emit_list:
  "emit (\<lambda>t z. Some (t @ z)) (\<lambda>t n. Some (t @ replicate (nat n) 0x20)) f pre z w t = Some (t @ field_text f pre z w)"
  by (simp add: emit_def append_all_list field_text_def Let_def)

lemma render_simps:
  "render malloc useIntern fmt a t = do {
     (lit, fmt1) \<leftarrow> lit_run fmt;
     c \<leftarrow> rd fmt1 0;
     if c = 0 then Some (t @ lit)
     else do {
       c1 \<leftarrow> rd (tl fmt1) 0;
       if c1 = 0 then Some (t @ lit @ [0x25])
       else do {
         (f, c, fmt2, a1) \<leftarrow> conv_spec (tl fmt1) a;
         (r, a2) \<leftarrow> convert malloc useIntern f c a1;
         (case r of
            Return \<Rightarrow> Some (t @ lit)
          | Fail \<Rightarrow> Some (t @ lit)
          | Emit pre z w \<Rightarrow> render malloc useIntern fmt2 a2 (t @ lit @ field_text f pre z w))
       }
     }
   }"
  unfolding render_def
  by (subst vxprintf.simps) (auto intro!: Option.bind_cong split: conv_result.splits simp: emit_list)

lemma render_extends: "render malloc useIntern fmt a t = Some out \<Longrightarrow> \<exists>r. out = t @ r"
proof (induction "length fmt" arbitrary: fmt a t rule: less_induct)
  case less
  from less.prems obtain lit fmt1 c where l: "lit_run fmt = Some (lit, fmt1)" "rd fmt1 0 = Some c"
    by (subst (asm) render_simps) (auto simp: bind_eq_Some_conv)
  show ?case
  proof (cases "c = 0")
    case False
    from less.prems l False obtain c1 where c1: "rd (tl fmt1) 0 = Some c1" by (subst (asm) render_simps) (auto simp: bind_eq_Some_conv)
    show ?thesis
    proof (cases "c1 = 0")
      case z: False
      from less.prems l False c1 z obtain f c' fmt2 a1 r a2 where s: "conv_spec (tl fmt1) a = Some (f, c', fmt2, a1)" "convert malloc useIntern f c' a1 = Some (r, a2)"
        by (subst (asm) render_simps) (auto simp: bind_eq_Some_conv)
      have "length fmt2 < length fmt" using conv_spec_length [OF s(1)] lit_run_length [OF l(1)] by (cases fmt1) auto
      from less.hyps [OF this] less.prems l False c1 z s show ?thesis
        by (subst (asm) (2) render_simps) (cases r, auto, metis append.assoc)
    qed (use less.prems l False c1 in \<open>auto simp: render_simps [of _ _ fmt]\<close>)
  qed (use less.prems l in \<open>auto simp: render_simps [of _ _ fmt]\<close>)
qed

section \<open>Sinks\<close>

text \<open>A sink that follows the text: \<open>R\<close> relates its state to the text so far, \<open>Q\<close> to the text at the end, as long as the text is \<open>ok\<close>.\<close>

locale sink =
  fixes app :: "'s \<Rightarrow> u8 list \<Rightarrow> 's option"
    and spc :: "'s \<Rightarrow> int \<Rightarrow> 's option"
    and nomem :: "'s \<Rightarrow> 's"
    and ok :: "u8 list \<Rightarrow> bool"
    and R :: "'s \<Rightarrow> u8 list \<Rightarrow> bool"
    and Q :: "'s \<Rightarrow> u8 list \<Rightarrow> bool"
  assumes ok_prefix: "ok (t @ z) \<Longrightarrow> ok t"
    and app_R: "R s t \<Longrightarrow> ok (t @ z) \<Longrightarrow> \<exists>s'. app s z = Some s' \<and> R s' (t @ z)"
    and spc_R: "R s t \<Longrightarrow> 0 < n \<Longrightarrow> ok (t @ replicate (nat n) 0x20) \<Longrightarrow> \<exists>s'. spc s n = Some s' \<and> R s' (t @ replicate (nat n) 0x20)"
    and R_Q: "R s t \<Longrightarrow> Q s t"
    and nomem_Q: "R s t \<Longrightarrow> Q (nomem s) t"
begin

lemma append_all_R: "R s t \<Longrightarrow> ok (t @ concat zs) \<Longrightarrow> \<exists>s'. append_all app zs s = Some s' \<and> R s' (t @ concat zs)"
proof (induction zs arbitrary: s t)
  case (Cons z zs)
  have "ok (t @ z)" using Cons.prems(2) ok_prefix [of "t @ z" "concat zs"] by simp
  then obtain s1 where s1: "app s z = Some s1" "R s1 (t @ z)" using app_R [OF Cons.prems(1)] by blast
  have "\<exists>s'. append_all app zs s1 = Some s' \<and> R s' ((t @ z) @ concat zs)" using Cons.IH [OF s1(2)] Cons.prems(2) by simp
  then show ?case using s1(1) by simp
qed simp

lemma emit_R:
  assumes "R s t" "ok (t @ field_text f pre z w)"
  shows "\<exists>s'. emit app spc f pre z w s = Some s' \<and> R s' (t @ field_text f pre z w)"
proof -
  define w' where "w' = w - int (length z)"
  define pad where "pad = (replicate (nat w') 0x20 :: u8 list)"
  have ft: "field_text f pre z w = concat pre @ (if flag_leftjustify f then z @ pad else pad @ z)"
    by (simp add: field_text_def pad_def w'_def Let_def)
  have okp: "ok u" if "t @ field_text f pre z w = u @ v" for u v using assms(2) ok_prefix [of u v] that by simp
  have "ok (t @ concat pre)" by (rule okp) (simp add: ft)
  then obtain s1 where s1: "append_all app pre s = Some s1" "R s1 (t @ concat pre)" using append_all_R [OF assms(1)] by blast
  show ?thesis
  proof (cases "w' > 0")
    case False
    then have "pad = []" by (simp add: pad_def)
    then have "ok ((t @ concat pre) @ z)" by (intro okp [of _ "[]"]) (simp add: ft)
    then obtain s2 where "app s1 z = Some s2" "R s2 ((t @ concat pre) @ z)" using app_R [OF s1(2)] by blast
    then show ?thesis using s1 False \<open>pad = []\<close> by (simp add: emit_def ft flip: w'_def)
  next
    case w: True
    show ?thesis
    proof (cases "flag_leftjustify f")
      case True
      have "ok ((t @ concat pre) @ z)" by (rule okp [of _ pad]) (simp add: ft True)
      then obtain s2 where s2: "app s1 z = Some s2" "R s2 ((t @ concat pre) @ z)" using app_R [OF s1(2)] by blast
      have "ok (((t @ concat pre) @ z) @ pad)" by (rule okp [of _ "[]"]) (simp add: ft True)
      then obtain s3 where "spc s2 w' = Some s3" "R s3 (((t @ concat pre) @ z) @ pad)" using spc_R [OF s2(2) w] by (auto simp: pad_def)
      then show ?thesis using s1 s2 w True by (simp add: emit_def ft flip: w'_def)
    next
      case False
      have "ok ((t @ concat pre) @ pad)" by (rule okp [of _ z]) (simp add: ft False)
      then obtain s2 where s2: "spc s1 w' = Some s2" "R s2 ((t @ concat pre) @ pad)" using spc_R [OF s1(2) w] by (auto simp: pad_def)
      have "ok (((t @ concat pre) @ pad) @ z)" by (rule okp [of _ "[]"]) (simp add: ft False)
      then obtain s3 where "app s2 z = Some s3" "R s3 (((t @ concat pre) @ pad) @ z)" using app_R [OF s2(2)] by blast
      then show ?thesis using s1 s2 w False by (simp add: emit_def ft flip: w'_def)
    qed
  qed
qed

lemma vxprintf_Q:
  "R s t \<Longrightarrow> render malloc useIntern fmt a t = Some out \<Longrightarrow> ok out \<Longrightarrow>
    \<exists>s'. vxprintf app spc nomem malloc useIntern fmt a s = Some s' \<and> Q s' out"
proof (induction "length fmt" arbitrary: fmt a s t rule: less_induct)
  case less
  from less.prems(2) obtain lit fmt1 c where l: "lit_run fmt = Some (lit, fmt1)" "rd fmt1 0 = Some c"
    by (subst (asm) render_simps) (auto simp: bind_eq_Some_conv)
  have pre: "\<exists>r. out = t @ lit @ r" using less.prems(2) l
    by (subst (asm) render_simps) (fastforce split: if_splits Option.bind_splits conv_result.splits dest!: render_extends)
  then have "ok (t @ lit)" using less.prems(3) ok_prefix by (metis append.assoc)
  then obtain s1 where s1: "(if lit = [] then Some s else app s lit) = Some s1" "R s1 (t @ lit)"
    using app_R [OF less.prems(1), of lit] less.prems(1) by (cases "lit = []") auto
  note step = vxprintf.simps [of app spc nomem malloc useIntern fmt a s]
  note rstep = less.prems(2) [unfolded render_simps [of malloc useIntern fmt]]
  show ?case
  proof (cases "c = 0")
    case True
    then show ?thesis using rstep l s1 R_Q [OF s1(2)] by (simp add: step)
  next
    case c: False
    from rstep l c obtain c1 where c1: "rd (tl fmt1) 0 = Some c1" by (auto simp: bind_eq_Some_conv)
    show ?thesis
    proof (cases "c1 = 0")
      case True
      then have out: "out = (t @ lit) @ [0x25]" using rstep l c c1 by simp
      obtain s2 where "app s1 [0x25] = Some s2" "R s2 out" using app_R [OF s1(2), of "[0x25]"] less.prems(3) out by auto
      then show ?thesis using l c c1 True s1(1) R_Q by (simp add: step)
    next
      case c2: False
      from rstep l c c1 c2 obtain f c' fmt2 a1 r a2 where s: "conv_spec (tl fmt1) a = Some (f, c', fmt2, a1)"
          "convert malloc useIntern f c' a1 = Some (r, a2)" by (auto simp: bind_eq_Some_conv)
      show ?thesis
      proof (cases r)
        case (Emit pre z w)
        then have re: "render malloc useIntern fmt2 a2 ((t @ lit) @ field_text f pre z w) = Some out" using rstep l c c1 c2 s by simp
        then have "ok ((t @ lit) @ field_text f pre z w)" using render_extends [OF re] less.prems(3) ok_prefix by metis
        then obtain s2 where s2: "emit app spc f pre z w s1 = Some s2" "R s2 ((t @ lit) @ field_text f pre z w)"
          using emit_R [OF s1(2)] by blast
        have "length fmt2 < length fmt" using conv_spec_length [OF s(1)] lit_run_length [OF l(1)] by (cases fmt1) auto
        from less.hyps [OF this s2(2) re less.prems(3)] show ?thesis using l c c1 c2 s s1(1) s2(1) Emit by (simp add: step)
      qed (use rstep l c c1 c2 s s1 R_Q nomem_Q in \<open>auto simp: step\<close>)
    qed
  qed
qed

end

section \<open>A buffer of fixed size\<close>

lemma sqlite3StrAccumEnlarge_le:
  assumes "sqlite3StrAccumEnlarge malloc p N = Some (p', N')" "0 \<le> N" "nAlloc p \<le> nChar p + N"
  shows "N' \<le> N"
  using assms by (auto simp: sqlite3StrAccumEnlarge_def Let_def split: if_splits Option.bind_splits)

text \<open>Appending spaces is appending a text of spaces.\<close>

lemma sqlite3AppendSpace_eq:
  assumes "0 \<le> N"
  shows "sqlite3AppendSpace malloc p N = sqlite3StrAccumAppend malloc p (replicate (nat N) 0x20)"
proof (cases "i32_range (nChar p + N) \<and> nAlloc p \<le> nChar p + N")
  case True
  show ?thesis
  proof (cases "sqlite3StrAccumEnlarge malloc p N")
    case (Some r)
    then show ?thesis using True assms sqlite3StrAccumEnlarge_le [OF _ assms, of malloc p] 
      by (cases r) (auto simp: sqlite3AppendSpace_def sqlite3StrAccumAppend_def enlargeAndAppend_def min_def)
  qed (use True assms in \<open>simp add: sqlite3AppendSpace_def sqlite3StrAccumAppend_def enlargeAndAppend_def\<close>)
qed (use assms in \<open>auto simp: sqlite3AppendSpace_def sqlite3StrAccumAppend_def i32_def\<close>)

text \<open>The accumulator of \<open>sqlite3_vsnprintf\<close>: it holds the first \<open>n - 1\<close> bytes, and refuses everything once it is full.\<close>

definition fixed_text :: "int \<Rightarrow> StrAccum \<Rightarrow> u8 list \<Rightarrow> bool" where
  "fixed_text n p t \<longleftrightarrow> 0 < n \<and> n < 2 ^ 31 \<and> useMalloc p = 0 \<and> cap p = n \<and>
     zText p = Some (take (nat n - 1) t) \<and> nChar p = int (length (take (nat n - 1) t))"

definition fixed_acc :: "int \<Rightarrow> StrAccum \<Rightarrow> u8 list \<Rightarrow> bool" where
  "fixed_acc n p t \<longleftrightarrow> fixed_text n p t \<and> (if accError p = 0 then nAlloc p = n \<and> int (length t) < n else nAlloc p = 0 \<and> n \<le> int (length t))"

lemma fixed_acc_fits:
  assumes "fixed_acc n p t" "accError p = 0" "int (length t) + int (length z) < n"
  shows "\<exists>p'. put_text p z = Some p' \<and> fixed_acc n p' (t @ z)"
  using assms by (auto simp: fixed_acc_def fixed_text_def put_text_def)

lemma fixed_acc_cut:
  assumes "fixed_acc n p t" "accError p = 0" "n \<le> int (length t) + int (length z)"
  shows "sqlite3StrAccumEnlarge malloc p N = Some (setStrAccumError p STRACCUM_TOOBIG, n - 1 - int (length t))"
    and "\<exists>p'. put_text (setStrAccumError p STRACCUM_TOOBIG) (take (nat (n - 1 - int (length t))) z) = Some p' \<and> fixed_acc n p' (t @ z)"
proof -
  have m: "min (length t) (nat n - Suc 0) = length t" "nat (n - 1 - int (length t)) = nat n - Suc (length t)"
    using assms by (auto simp: fixed_acc_def fixed_text_def)
  show "sqlite3StrAccumEnlarge malloc p N = Some (setStrAccumError p STRACCUM_TOOBIG, n - 1 - int (length t))"
    using assms m(1) by (simp add: sqlite3StrAccumEnlarge_def fixed_acc_def fixed_text_def)
  show "\<exists>p'. put_text (setStrAccumError p STRACCUM_TOOBIG) (take (nat (n - 1 - int (length t))) z) = Some p' \<and> fixed_acc n p' (t @ z)"
    using assms m by (auto simp: fixed_acc_def fixed_text_def put_text_def setStrAccumError_def STRACCUM_TOOBIG_def)
qed

lemma fixed_acc_full:
  assumes "fixed_acc n p t" "accError p \<noteq> 0"
  shows "sqlite3StrAccumEnlarge malloc p N = Some (p, 0)" and "fixed_acc n p (t @ z)"
  using assms by (auto simp: sqlite3StrAccumEnlarge_def fixed_acc_def fixed_text_def)

lemma fixed_acc_app:
  assumes "fixed_acc n p t" "n + int (length (t @ z)) < 2 ^ 31"
  shows "\<exists>p'. sqlite3StrAccumAppend malloc p z = Some p' \<and> fixed_acc n p' (t @ z)"
proof -
  have c: "nChar p \<le> int (length t)" "0 \<le> nChar p" "0 < n" using assms(1) by (auto simp: fixed_acc_def fixed_text_def)
  have i: "i32 (nChar p + int (length z)) = Some (nChar p + int (length z))" using c assms(2) by (intro i32_Some) (auto simp: i32_range_def)
  show ?thesis
  proof (cases "accError p = 0")
    case e: True
    then have nc: "nChar p = int (length t)" "nAlloc p = n" using assms(1) by (auto simp: fixed_acc_def fixed_text_def)
    show ?thesis
    proof (cases "int (length t) + int (length z) < n")
      case True
      then show ?thesis using fixed_acc_fits [OF assms(1) e] i nc by (simp add: sqlite3StrAccumAppend_def)
    next
      case False
      then show ?thesis
        using fixed_acc_cut(1) [OF assms(1) e, of z malloc "int (length z)"] fixed_acc_cut(2) [OF assms(1) e, of z] i nc
        by (auto simp: sqlite3StrAccumAppend_def enlargeAndAppend_def put_text_def not_less)
    qed
  next
    case e: False
    then have "nAlloc p = 0" using assms(1) by (auto simp: fixed_acc_def)
    then show ?thesis using i c fixed_acc_full(1) [OF assms(1) e, of malloc "int (length z)"] fixed_acc_full(2) [OF assms(1) e, of z]
      by (auto simp: sqlite3StrAccumAppend_def enlargeAndAppend_def)
  qed
qed

interpretation fixed: sink "sqlite3StrAccumAppend malloc" "sqlite3AppendSpace malloc" "\<lambda>p. setStrAccumError p STRACCUM_NOMEM"
  "\<lambda>t. n + int (length t) < 2 ^ 31" "fixed_acc n" "fixed_text n" for malloc n
proof unfold_locales
  show "\<exists>p'. sqlite3StrAccumAppend malloc p z = Some p' \<and> fixed_acc n p' (t @ z)"
    if "fixed_acc n p t" "n + int (length (t @ z)) < 2 ^ 31" for p t z
    using that by (rule fixed_acc_app)
  then show "\<exists>p'. sqlite3AppendSpace malloc p N = Some p' \<and> fixed_acc n p' (t @ replicate (nat N) 0x20)"
    if "fixed_acc n p t" "0 < N" "n + int (length (t @ replicate (nat N) 0x20 :: u8 list)) < 2 ^ 31" for p t N
    using that by (simp add: sqlite3AppendSpace_eq)
qed (auto simp: fixed_acc_def fixed_text_def setStrAccumError_def)

lemma vsnprintf_text:
  assumes "render malloc False zFormat (VaList ap) [] = Some out" "0 < n" "n + int (length out) < 2 ^ 31"
  shows "sqlite3_vsnprintf malloc n zFormat ap = Some (Some (take (nat n - 1) out))"
proof -
  define p where "p = (sqlite3StrAccumInit n 0)\<lparr>useMalloc := 0\<rparr>"
  have i: "fixed_acc n p []" using assms(2,3) by (simp add: fixed_acc_def fixed_text_def p_def sqlite3StrAccumInit_def)
  obtain p' where p': "sqlite3VXPrintf malloc False zFormat (VaList ap) p = Some p'" "fixed_text n p' out"
    using fixed.vxprintf_Q [OF i assms(1,3)] by (auto simp: sqlite3VXPrintf_def)
  then show ?thesis using assms(2) by (auto simp: sqlite3_vsnprintf_def sqlite3StrAccumFinish_def fixed_text_def simp flip: p_def)
qed

section \<open>Memory that grows\<close>

text \<open>The accumulator of the other entry points, when no allocation fails: all of the text, or nothing once the text and its terminator are over the limit.
  The flag \<open>b\<close> says that the accumulator started with memory, so that an empty text is not the null pointer.\<close>

definition growing_acc :: "int \<Rightarrow> bool \<Rightarrow> StrAccum \<Rightarrow> u8 list \<Rightarrow> bool" where
  "growing_acc mx b p t \<longleftrightarrow> useMalloc p \<noteq> 0 \<and> mxAlloc p = mx \<and> 0 < mx \<and> nChar p \<le> int (length t) \<and> 0 \<le> nChar p \<and>
     (if int (length t) < mx
      then accError p = 0 \<and> nChar p = int (length t) \<and>
        (case zText p of Some t' \<Rightarrow> t' = t \<and> nAlloc p = cap p \<and> nChar p < cap p \<and> cap p \<le> mx | None \<Rightarrow> t = [] \<and> nAlloc p = 0 \<and> \<not> b)
      else accError p = STRACCUM_TOOBIG \<and> zText p = None \<and> nAlloc p = 0)"

lemma growing_acc_put:
  assumes "growing_acc mx b p t" "nChar p + int (length z) < nAlloc p"
  shows "put_text p z = Some (p\<lparr>zText := Some (t @ z), nChar := nChar p + int (length z)\<rparr>)"
    and "growing_acc mx b (p\<lparr>zText := Some (t @ z), nChar := nChar p + int (length z)\<rparr>) (t @ z)"
  using assms by (auto simp: put_text_def growing_acc_def split: if_splits option.splits)

lemma growing_acc_enlarge:
  assumes "growing_acc mx b p t" "nAlloc p \<le> nChar p + int (length z)" "int (length (t @ z)) < 2 ^ 31 - 1"
  shows "\<exists>p' N. sqlite3StrAccumEnlarge (\<lambda>_. True) p (int (length z)) = Some (p', N) \<and>
    (if N > 0 then put_text p' (take (nat N) z) = Some (p'\<lparr>zText := Some (t @ z), nChar := nChar p + int (length z)\<rparr>) \<and>
       growing_acc mx b (p'\<lparr>zText := Some (t @ z), nChar := nChar p + int (length z)\<rparr>) (t @ z)
     else growing_acc mx b p' (t @ z))"
proof -
  have "i32 (int (length z) + 1) = Some (int (length z) + 1)" using assms by (intro i32_Some) (auto simp: i32_range_def)
  then show ?thesis
    using assms(1,2) by (cases "zText p"; cases "int (length t) < mx"; cases "int (length t) + int (length z) < mx"; cases "z = []")
      (auto simp: sqlite3StrAccumEnlarge_def put_text_def growing_acc_def setStrAccumError_def sqlite3StrAccumReset_def Let_def STRACCUM_TOOBIG_def)
qed

lemma growing_acc_app:
  assumes "growing_acc mx b p t" "int (length (t @ z)) < 2 ^ 31 - 1"
  shows "\<exists>p'. sqlite3StrAccumAppend (\<lambda>_. True) p z = Some p' \<and> growing_acc mx b p' (t @ z)"
proof -
  have i: "i32 (nChar p + int (length z)) = Some (nChar p + int (length z))"
    using assms by (auto intro!: i32_Some simp: i32_range_def growing_acc_def)
  show ?thesis
  proof (cases "nChar p + int (length z) < nAlloc p")
    case True
    then show ?thesis using growing_acc_put [OF assms(1)] i by (simp add: sqlite3StrAccumAppend_def)
  next
    case False
    then obtain p' N where e: "sqlite3StrAccumEnlarge (\<lambda>_. True) p (int (length z)) = Some (p', N)" and
      g: "if N > 0 then put_text p' (take (nat N) z) = Some (p'\<lparr>zText := Some (t @ z), nChar := nChar p + int (length z)\<rparr>) \<and>
        growing_acc mx b (p'\<lparr>zText := Some (t @ z), nChar := nChar p + int (length z)\<rparr>) (t @ z) else growing_acc mx b p' (t @ z)"
      using growing_acc_enlarge [OF assms(1) _ assms(2)] by (auto simp: not_less)
    then show ?thesis using False i by (cases "N > 0") (simp_all add: sqlite3StrAccumAppend_def enlargeAndAppend_def)
  qed
qed

definition growing_text :: "int \<Rightarrow> bool \<Rightarrow> StrAccum \<Rightarrow> u8 list \<Rightarrow> bool" where
  "growing_text mx b p t \<longleftrightarrow> nChar p \<le> int (length t) \<and> (case zText p of
     Some t' \<Rightarrow> t' = t \<and> int (length t) < mx \<and> nChar p = int (length t) \<and> nChar p < cap p
   | None \<Rightarrow> mx \<le> int (length t) \<or> t = [] \<and> \<not> b)"

interpretation growing: sink "sqlite3StrAccumAppend (\<lambda>_. True)" "sqlite3AppendSpace (\<lambda>_. True)" "\<lambda>p. setStrAccumError p STRACCUM_NOMEM"
  "\<lambda>t. int (length t) < 2 ^ 31 - 1" "growing_acc mx b" "growing_text mx b" for mx b
proof unfold_locales
  show "\<exists>p'. sqlite3StrAccumAppend (\<lambda>_. True) p z = Some p' \<and> growing_acc mx b p' (t @ z)"
    if "growing_acc mx b p t" "int (length (t @ z)) < 2 ^ 31 - 1" for p t z
    using that by (rule growing_acc_app)
  then show "\<exists>p'. sqlite3AppendSpace (\<lambda>_. True) p N = Some p' \<and> growing_acc mx b p' (t @ replicate (nat N) 0x20)"
    if "growing_acc mx b p t" "0 < N" "int (length (t @ replicate (nat N) 0x20 :: u8 list)) < 2 ^ 31 - 1" for p t N
    using that by (simp add: sqlite3AppendSpace_eq)
qed (auto simp: growing_acc_def growing_text_def setStrAccumError_def split: if_splits option.splits)

lemma vmprintf_text:
  assumes "render (\<lambda>_. True) False zFormat (VaList ap) [] = Some out" "int (length out) < 2 ^ 31 - 1"
  shows "sqlite3_vmprintf (\<lambda>_. True) zFormat ap = Some (if int (length out) < SQLITE_MAX_LENGTH then Some out else None)"
proof -
  define p where "p = (sqlite3StrAccumInit etBUFSIZE SQLITE_MAX_LENGTH)\<lparr>useMalloc := 2\<rparr>"
  have i: "growing_acc SQLITE_MAX_LENGTH True p []" by (simp add: growing_acc_def p_def sqlite3StrAccumInit_def SQLITE_MAX_LENGTH_def etBUFSIZE_def)
  obtain p' where p': "sqlite3VXPrintf (\<lambda>_. True) False zFormat (VaList ap) p = Some p'" "growing_text SQLITE_MAX_LENGTH True p' out"
    using growing.vxprintf_Q [OF i assms] by (auto simp: sqlite3VXPrintf_def)
  then show ?thesis by (auto simp: sqlite3_vmprintf_def sqlite3StrAccumFinish_def growing_text_def simp flip: p_def split: option.splits if_splits)
qed

lemma printfFunc_text:
  assumes "render (\<lambda>_. True) False fmt (SqlArgs argv) [] = Some out" "int (length out) < 2 ^ 31 - 1" "out \<noteq> []"
  shows "\<exists>n. printfFunc (\<lambda>_. True) (Some fmt) argv = Some (Some (if int (length out) < SQLITE_MAX_LENGTH then Some out else None, n)) \<and>
    (int (length out) < SQLITE_MAX_LENGTH \<longrightarrow> n = int (length out))"
proof -
  define p where "p = sqlite3StrAccumInit 0 SQLITE_MAX_LENGTH"
  have i: "growing_acc SQLITE_MAX_LENGTH False p []" by (simp add: growing_acc_def p_def sqlite3StrAccumInit_def SQLITE_MAX_LENGTH_def)
  obtain p' where p': "sqlite3VXPrintf (\<lambda>_. True) False fmt (SqlArgs argv) p = Some p'" "growing_text SQLITE_MAX_LENGTH False p' out"
    using growing.vxprintf_Q [OF i assms(1,2)] by (auto simp: sqlite3VXPrintf_def)
  then show ?thesis using assms(3)
    by (auto simp: printfFunc_def sqlite3StrAccumFinish_def growing_text_def simp flip: p_def split: option.splits if_splits)
qed

section \<open>Integers\<close>

lemma aDigits_decimal: "d < 10 \<Longrightarrow> \<exists>c. rd aDigits d = Some c \<and> digit c \<and> dval c = int d"
proof -
  assume "d < 10"
  then have "d \<in> {0, 1, 2, 3, 4, 5, 6, 7, 8, 9}" by auto
  then show ?thesis by (elim insertE) (simp_all add: rd_def aDigits_def dval_def)
qed

lemma radix_loop_decimal:
  "v < 10 ^ k \<Longrightarrow> 0 < k \<Longrightarrow>
    \<exists>ds. radix_loop 10 0 v out = Some (ds @ out) \<and> ds \<noteq> [] \<and> list_all digit ds \<and> dec ds = int v \<and> length ds \<le> k"
proof (induction v arbitrary: out k rule: less_induct)
  case (less v)
  obtain c where c: "rd aDigits (v mod 10) = Some c" "digit c" "dval c = int (v mod 10)" using aDigits_decimal [of "v mod 10"] by auto
  show ?case
  proof (cases "v div 10 > 0")
    case True
    have "k \<noteq> 1" using True less.prems(1) by auto
    then obtain k' where k: "k = Suc k'" "0 < k'" using less.prems(2) by (cases k) auto
    then have "v div 10 < 10 ^ k'" using less.prems(1) by (simp add: less_mult_imp_div_less mult.commute)
    moreover have "v div 10 < v" using True by (intro div_less_dividend) auto
    ultimately obtain ds where ds: "radix_loop 10 0 (v div 10) (c # out) = Some (ds @ c # out)" "list_all digit ds"
        "dec ds = int (v div 10)" "length ds \<le> k'" using less.IH k(2) by blast
    have "dec (ds @ [c]) = int v" using ds(3) c(3) arg_cong [OF div_mult_mod_eq [of v 10], of int]
      by (simp only: dec_snoc of_nat_add of_nat_mult of_nat_numeral)
    then show ?thesis using ds c k(1) True by (subst radix_loop.simps) (auto intro!: exI [of _ "ds @ [c]"])
  next
    case False
    then have "v mod 10 = v" by simp
    then show ?thesis using False c less.prems(2) by (subst radix_loop.simps) (auto simp: dec_Cons intro!: exI [of _ "[c]"])
  qed
qed

lemma dec_zeros: "dec (replicate n 0x30 @ ds) = dec ds"
  by (induction n) (simp_all add: dec_Cons dval_def)

lemma conv_radix_decimal:
  assumes "flag_long f" "i64_range v" "width f < 10 ^ 8" "precision f < 10 ^ 8"
  shows "\<exists>sg ds. conv_radix (\<lambda>_. True) (info 0x64 10 1 etRADIX 0 0) f (VaList (PLong v # as)) = Some (Piece (sg @ ds), VaList as) \<and>
    sg \<in> {[], [0x2b], [0x2d], [0x20]} \<and> ds \<noteq> [] \<and> list_all digit ds \<and> v = (if sg = [0x2d] then - dec ds else dec ds) \<and>
    length (sg @ ds) \<le> 10 ^ 8 + 1"
proof -
  define i where "i = info 0x64 10 1 etRADIX 0 0"
  have i: "flag_signed i" "et_type i = etRADIX" "base i = 10" "charset i = 0" "info_prefix i = 0"
    by (simp_all add: i_def info_def flag_signed_def)
  define pr where "pr = (if v < 0 then 0x2d else if flag_plussign f then 0x2b else if flag_blanksign f then 0x20 else 0 :: u8)"
  define prec where "prec = (if flag_zeropad f \<and> precision f < width f - (if pr \<noteq> 0 then 1 else 0) then width f - (if pr \<noteq> 0 then 1 else 0) else precision f)"
  define nOut where "nOut = (if prec < etBUFSIZE - 10 then etBUFSIZE else prec + 10)"
  have p: "prec < 10 ^ 8" using assms(3,4) by (simp add: prec_def)
  have ra: "radix_arg i f True (VaList (PLong v # as)) = Some (nat \<bar>v\<bar>, pr, VaList as)"
    using i by (simp add: radix_arg_def value_arg_def pr_def)
  have "nat \<bar>v\<bar> < 10 ^ 19" using assms(2) by (auto simp: i64_range_def)
  then obtain ds where ds: "radix_loop 10 0 (nat \<bar>v\<bar>) [] = Some ds" "ds \<noteq> []" "list_all digit ds" "dec ds = \<bar>v\<bar>" "length ds \<le> 19"
    using radix_loop_decimal [of "nat \<bar>v\<bar>" 19 "[]"] by auto
  define ds' where "ds' = replicate (nat (prec - int (length ds))) 0x30 @ ds"
  define sg where "sg = (if pr \<noteq> 0 then [pr] else [])"
  have len: "int (length (sg @ ds')) \<le> max prec 19 + 1" using ds(5) by (auto simp: sg_def ds'_def)
  then have "int (length (sg @ ds')) \<le> nOut - 1" by (auto simp: nOut_def etBUFSIZE_def)
  moreover have "(if prec < etBUFSIZE - 10 then Some etBUFSIZE else i32 (prec + 10)) = Some nOut"
    using p by (auto simp: nOut_def etBUFSIZE_def i32_range_def)
  moreover have "(if pr \<noteq> 0 then pr # ds' else ds') = sg @ ds'" by (simp add: sg_def)
  ultimately have "conv_radix (\<lambda>_. True) i f (VaList (PLong v # as)) = Some (Piece (sg @ ds'), VaList as)"
    using ra i ds(1) assms(1) by (simp add: conv_radix_def Let_def flip: prec_def ds'_def split del: if_split cong del: if_weak_cong)
  moreover have "sg \<in> {[], [0x2b], [0x2d], [0x20]}" by (simp add: sg_def pr_def)
  moreover have "list_all digit ds'" "ds' \<noteq> []" "dec ds' = \<bar>v\<bar>" using ds by (auto simp: ds'_def dec_zeros list_all_iff)
  moreover have "sg = [0x2d] \<longleftrightarrow> v < 0" by (simp add: sg_def pr_def)
  moreover have "length (sg @ ds') \<le> 10 ^ 8 + 1" using len p by auto
  ultimately show ?thesis unfolding i_def by (intro exI [of _ sg] exI [of _ ds']) auto
qed

lemma find_info_d: "find (\<lambda>i. fmttype i = 0x64) fmtinfo = Some (info 0x64 10 1 etRADIX 0 0)"
  by (simp add: fmtinfo_def info_def)

lemma convert_d: "convert malloc useIntern f 0x64 a = map_option (of_piece f) (conv_radix malloc (info 0x64 10 1 etRADIX 0 0) f a)"
  by (simp add: convert_def find_info_d) (simp add: info_def flag_intern_def)

lemma render_end: "render malloc useIntern [0] a t = Some t"
  by (simp add: render_simps rd_def)

text \<open>A format that is one conversion.\<close>

lemma conv_spec_nonzero:
  assumes "conv_spec spec a = Some (f, c, r, a1)" "c \<noteq> 0"
  shows "\<exists>x. rd spec 0 = Some x \<and> x \<noteq> 0"
  using assms by (cases spec)
    (auto simp: conv_spec_def width_field_def precision_field_def long_field_def rd_def split: if_splits)

lemma render_conversion:
  assumes "conv_spec spec a = Some (f, c, [0], a1)" "c \<noteq> 0" "convert malloc useIntern f c a1 = Some (Emit pre z w, a2)"
  shows "render malloc useIntern (0x25 # spec) a [] = Some (field_text f pre z w)"
  using conv_spec_nonzero [OF assms(1,2)] assms by (subst render_simps) (auto simp: rd_def render_end)

section \<open>Quoted text\<close>

lemma string_len_all: "k < 0 \<Longrightarrow> 0 \<notin> set s \<Longrightarrow> string_len k (s @ 0 # r) = Some (length s)"
  by (induction s arbitrary: k) auto

lemma length_double_quotes: "length (double_quotes q s) = length s + length (filter (\<lambda>c. c = q) s)"
  by (induction s) auto

lemma conv_escape_Q:
  assumes "0 \<notin> set s" "precision f < 0" "2 * int (length s) + 3 < 2 ^ 31"
  shows "conv_escape (\<lambda>_. True) etSQLESCAPE2 f (VaList [PText (Some (s @ [0]))]) =
    Some (Piece (0x27 # double_quotes 0x27 s @ [0x27]), VaList [])"
proof -
  have l: "int (length (filter (\<lambda>c. c = 0x27) s)) \<le> int (length s)" "2 * int (length s) + 3 < 2147483648" using assms(3) by simp_all
  have i: "i32 (int (length (filter (\<lambda>c. c = 0x27) s)) + int (length s) + 1 + 2) =
      Some (int (length (filter (\<lambda>c. c = 0x27) s)) + int (length s) + 1 + 2)"
    by (intro i32_Some, unfold i32_range_def, intro conjI) (use l in linarith)+
  have d: "concat (map (\<lambda>c. if c = 0x27 then [c, c] else [c]) s) = double_quotes 0x27 s" by (induction s) auto
  show ?thesis
    using i d length_double_quotes [of "0x27" s] string_len_all [OF assms(2,1), of "[]"]
    by (simp add: conv_escape_def text_arg_def Let_def max_def)
qed

lemma vmprintf_Q:
  assumes "0 \<notin> set s" "2 * int (length s) + 3 < SQLITE_MAX_LENGTH"
  shows "sqlite3_vmprintf (\<lambda>_. True) [0x25, 0x51, 0] [PText (Some (s @ [0]))] = Some (Some (0x27 # double_quotes 0x27 s @ [0x27]))"
proof -
  let ?a = "VaList [PText (Some (s @ [0]))]" and ?q = "0x27 # double_quotes 0x27 s @ [0x27]"
  have "conv_spec [0x51, 0] ?a = Some (conv0, 0x51, [0], ?a)"
    by (simp add: conv_spec_def width_field_def precision_field_def long_field_def rd_def conv0_def)
  moreover have "convert (\<lambda>_. True) False conv0 0x51 ?a = Some (Emit [] ?q 0, VaList [])"
    using conv_escape_Q [OF assms(1), of conv0] assms(2)
    by (simp add: convert_def fmtinfo_def info_def flag_intern_def of_piece_def conv0_def SQLITE_MAX_LENGTH_def)
  ultimately have "render (\<lambda>_. True) False [0x25, 0x51, 0] ?a [] = Some ?q"
    using render_conversion [of "[0x51, 0]" ?a conv0 "0x51" ?a] by (simp add: field_text_def)
  moreover have "int (length ?q) < SQLITE_MAX_LENGTH" 
  proof -
    have "int (length (filter (\<lambda>c. c = 0x27) s)) \<le> int (length s)" by simp
    then show ?thesis using assms(2) length_double_quotes [of "0x27" s] by (simp del: of_nat_le_iff length_filter_le)
  qed
  ultimately show ?thesis using vmprintf_text by (simp add: SQLITE_MAX_LENGTH_def)
qed

section \<open>Properties\<close>

text \<open>C15. Formatting into a buffer of \<open>n\<close> bytes writes the first \<open>n - 1\<close> bytes of the text that the format denotes and never anything outside
  the buffer, whatever allocations fail; the bound keeps the lengths, which are C integers, from overflowing.\<close>

theorem sqlite3_vsnprintf_prefix:
  assumes "render malloc False zFormat (VaList ap) [] = Some out" "0 < n" "n + int (length out) < 2 ^ 31"
  shows "sqlite3_vsnprintf malloc n zFormat ap = Some (Some (take (nat n - 1) out))"
  using assms by (rule vsnprintf_text)

theorem sqlite3_vsnprintf_prefix_witness:
  "sqlite3_vsnprintf (\<lambda>_. False) 5 [0x61, 0x25, 0x34, 0x73, 0x25, 0] [PText (Some [0x62, 0x63, 0])] = Some (Some [0x61, 0x20, 0x20, 0x62])"
proof -
  have r: "render (\<lambda>_. False) False [0x61, 0x25, 0x34, 0x73, 0x25, 0] (VaList [PText (Some [0x62, 0x63, 0])]) [] =
      Some [0x61, 0x20, 0x20, 0x62, 0x63, 0x25]"
    unfolding render_def by code_simp
  show ?thesis using sqlite3_vsnprintf_prefix [OF r, of 5] by (simp add: eval_nat_numeral)
qed

text \<open>C16. When no allocation fails, the allocating function returns all of the text, or the null pointer exactly when the text with its terminator
  is over the length limit.\<close>

theorem sqlite3_vmprintf_all:
  assumes "render (\<lambda>_. True) False zFormat (VaList ap) [] = Some out" "int (length out) < 2 ^ 31 - 1"
  shows "sqlite3_vmprintf (\<lambda>_. True) zFormat ap = Some (if int (length out) < SQLITE_MAX_LENGTH then Some out else None)"
  using assms by (rule vmprintf_text)

theorem sqlite3_vmprintf_all_witness:
  "sqlite3_vmprintf (\<lambda>_. True) [0x25, 0x2e, 0x32, 0x73, 0x7c, 0x25, 0x2d, 0x33, 0x63, 0x7c, 0] [PText (Some [0x61, 0x62, 0x63, 0]), PInt 0x78] =
    Some (Some [0x61, 0x62, 0x7c, 0x78, 0x20, 0x20, 0x7c])"
proof -
  have r: "render (\<lambda>_. True) False [0x25, 0x2e, 0x32, 0x73, 0x7c, 0x25, 0x2d, 0x33, 0x63, 0x7c, 0]
      (VaList [PText (Some [0x61, 0x62, 0x63, 0]), PInt 0x78]) [] = Some [0x61, 0x62, 0x7c, 0x78, 0x20, 0x20, 0x7c]"
    unfolding render_def by code_simp
  show ?thesis using sqlite3_vmprintf_all [OF r] by (simp add: SQLITE_MAX_LENGTH_def)
qed

text \<open>C19. A 64-bit integer that is printed with any flags but left adjustment, in any width and precision, reads back as itself.\<close>

theorem printed_integer_read_back:
  assumes "conv_spec spec (VaList ap) = Some (f, 0x64, [0], VaList [PLong v])" "flag_long f" "\<not> flag_leftjustify f"
    and "i64_range v" "width f < 10 ^ 8" "precision f < 10 ^ 8"
  shows "\<exists>out. sqlite3_vmprintf (\<lambda>_. True) (0x25 # spec) ap = Some (Some out) \<and> sqlite3Atoi64 out (length out) SQLITE_UTF8 = Some (0, v)"
proof -
  obtain sg ds where c: "conv_radix (\<lambda>_. True) (info 0x64 10 1 etRADIX 0 0) f (VaList [PLong v]) = Some (Piece (sg @ ds), VaList [])"
      "sg \<in> {[], [0x2b], [0x2d], [0x20]}" "ds \<noteq> []" "list_all digit ds" "v = (if sg = [0x2d] then - dec ds else dec ds)"
      "length (sg @ ds) \<le> 10 ^ 8 + 1"
    using conv_radix_decimal [OF assms(2,4-6)] by blast
  define pad where "pad = (replicate (nat (width f - int (length (sg @ ds)))) 0x20 :: u8 list)"
  have "convert (\<lambda>_. True) False f 0x64 (VaList [PLong v]) = Some (Emit [] (sg @ ds) (width f), VaList [])"
    unfolding convert_d c(1) by (simp add: of_piece_def)
  from render_conversion [OF assms(1) _ this]
  have "render (\<lambda>_. True) False (0x25 # spec) (VaList ap) [] = Some (pad @ sg @ ds)"
    using assms(3) by (simp add: field_text_def pad_def)
  moreover have "int (length (pad @ sg @ ds)) \<le> 10 ^ 8 + 1" using c(6) assms(5) by (auto simp: pad_def)
  ultimately have p: "sqlite3_vmprintf (\<lambda>_. True) (0x25 # spec) ap = Some (Some (pad @ sg @ ds))"
    using vmprintf_text [of "0x25 # spec" ap "pad @ sg @ ds"] by (simp add: SQLITE_MAX_LENGTH_def)
  define sg' where "sg' = (if sg = [0x20] then [] else sg)"
  define sp where "sp = pad @ (if sg = [0x20] then [0x20] else [])"
  have "list_all sqlite3Isspace sp" by (auto simp: sp_def pad_def list_all_iff Isspace_eq)
  moreover have "sg' \<in> {[], [0x2b], [0x2d]}" "v = (if sg' = [0x2d] then - dec ds else dec ds)" using c(2,5) by (auto simp: sg'_def)
  moreover have "pad @ sg @ ds = enc_text SQLITE_UTF8 (sp @ sg' @ ds)" by (simp add: sp_def sg'_def enc_text_def)
  ultimately have "sqlite3Atoi64 (pad @ sg @ ds) (length (pad @ sg @ ds)) SQLITE_UTF8 = Some (0, v)"
    using atoi64_decimal [of SQLITE_UTF8 sp sg' ds v "pad @ sg @ ds"] c(3,4) assms(4) by auto
  then show ?thesis using p by blast
qed

theorem printed_integer_read_back_witness:
  "\<exists>out. sqlite3_vmprintf (\<lambda>_. True) [0x25, 0x2b, 0x30, 0x2a, 0x2e, 0x33, 0x6c, 0x6c, 0x64, 0] [PInt 12, PLong (- 42)] = Some (Some out) \<and>
    sqlite3Atoi64 out (length out) SQLITE_UTF8 = Some (0, - 42)"
proof -
  define f where "f = conv0\<lparr>flag_plussign := True, flag_zeropad := True, width := 12, precision := 3, flag_long := True\<rparr>"
  have "conv_spec [0x2b, 0x30, 0x2a, 0x2e, 0x33, 0x6c, 0x6c, 0x64, 0] (VaList [PInt 12, PLong (- 42)]) = Some (f, 0x64, [0], VaList [PLong (- 42)])"
    unfolding f_def by code_simp
  then show ?thesis by (rule printed_integer_read_back) (simp_all add: f_def conv0_def i64_range_def)
qed

text \<open>A precision of more than 70 for a character writes outside the local buffer of 70 bytes, also from SQL: \<^verbatim>\<open>printf('%.71c', 'x')\<close>.\<close>

lemma char_precision_overflow:
  "printfFunc malloc (Some [0x25, 0x2e, 0x37, 0x31, 0x63, 0]) [(0, Some [0x78, 0])] = None"
proof -
  have "conv_spec [0x2e, 0x37, 0x31, 0x63, 0] (SqlArgs [(0, Some [0x78, 0])]) = Some (conv0\<lparr>precision := 71\<rparr>, 0x63, [0], SqlArgs [(0, Some [0x78, 0])])"
    by code_simp
  moreover have "convert malloc False (conv0\<lparr>precision := 71\<rparr>) 0x63 (SqlArgs [(0, Some [0x78, 0])]) = None"
    by (simp add: convert_def fmtinfo_def info_def flag_intern_def conv_char_def etBUFSIZE_def rd_def)
  ultimately show ?thesis by (simp add: printfFunc_def sqlite3VXPrintf_def vxprintf.simps rd_def)
qed

text \<open>A width that is not a C integer overflows: \<^verbatim>\<open>printf('%2147483648d', 1)\<close>.\<close>

lemma width_overflow:
  "printfFunc malloc (Some [0x25, 0x32, 0x31, 0x34, 0x37, 0x34, 0x38, 0x33, 0x36, 0x34, 0x38, 0x64, 0]) [(1, None)] = None"
proof -
  have "conv_spec [0x32, 0x31, 0x34, 0x37, 0x34, 0x38, 0x33, 0x36, 0x34, 0x38, 0x64, 0] (SqlArgs [(1, None)]) = None" by code_simp
  then show ?thesis by (simp add: printfFunc_def sqlite3VXPrintf_def vxprintf.simps rd_def)
qed

end
