(* ===== verification/WalIndex.thy ===== *)
theory WalIndex
  imports Varint Result_Codes
begin

text \<open>
  The index of the write-ahead log (\<^verbatim>\<open>wal.c\<close>): shared memory in pages of 32 kilobytes, each with the page numbers of a run of frames and a hash table
  over them. Modelled are the access to its pages, entering a frame, removing frames on a rollback, looking up the frame of a page, and
  the iterator of the checkpoint.

  A hash table is a list of slots and the array of page numbers of a segment a list that starts with its first frame; the header at the start of the first page
  is kept in fields of its own. Frame numbers are natural numbers: a log of \<open>2 ^ 32 - 4096\<close> frames, where the 32-bit computations
  of the code would wrap, has more than two terabytes. The answers of the virtual file system and of the allocator are an
  argument, the record \<open>wal_env\<close>.
\<close>

section \<open>State\<close>

definition HASHTABLE_NPAGE :: nat where "HASHTABLE_NPAGE = 4096"
definition HASHTABLE_HASH_1 :: u32 where "HASHTABLE_HASH_1 = 383"
definition HASHTABLE_NSLOT :: nat where "HASHTABLE_NSLOT = HASHTABLE_NPAGE * 2"
definition WALINDEX_HDR_SIZE :: nat where "WALINDEX_HDR_SIZE = 48 * 2 + 24 + 16"
definition HASHTABLE_NPAGE_ONE :: nat where "HASHTABLE_NPAGE_ONE = HASHTABLE_NPAGE - WALINDEX_HDR_SIZE div 4"

record WalIndexHdr =
  iVersion :: u32
  unused :: u32
  iChange :: u32
  isInit :: u8
  bigEndCksum :: u8
  hdr_szPage :: u16
  mxFrame :: u32
  nPage :: u32
  aFrameCksum :: "u32 \<times> u32"
  aSalt :: "u8 list"
  aCksum :: "u32 \<times> u32"

record wi_page =
  wi_pgno :: "u32 list"
  wi_hash :: "nat list"

definition WAL_HEAPMEMORY_MODE :: nat where "WAL_HEAPMEMORY_MODE = 2"

text \<open>The handle, with the shared header (two copies and the state of checkpoints) as \<open>aHdr0\<close>, \<open>aHdr1\<close>, \<open>nBackfill\<close> and \<open>aReadMark\<close>.
  The bits of \<^verbatim>\<open>readOnly\<close> are \<open>rdonly\<close> and \<open>shm_rdonly\<close>.\<close>

record Wal =
  hdr :: WalIndexHdr
  apWiData :: "wi_page option list"
  exclusiveMode :: nat
  rdonly :: bool
  shm_rdonly :: bool
  readLock :: int
  writeLock :: bool
  ckptLock :: bool
  szPage :: u32
  nCkpt :: u32
  iCallback :: nat
  truncateOnCommit :: bool
  mxWalSize :: int
  syncHeader :: bool
  padToSectorBoundary :: bool
  aHdr0 :: WalIndexHdr
  aHdr1 :: WalIndexHdr
  nBackfill :: nat
  aReadMark :: "u32 list"

record wal_env =
  realloc_ok :: "nat \<Rightarrow> bool"
  malloc_ok :: "nat \<Rightarrow> bool"
  shm_map :: "nat \<Rightarrow> int \<times> wi_page option"

section \<open>Pages of the index\<close>

definition zero_page :: "nat \<Rightarrow> wi_page" where
  "zero_page iPage = \<lparr>wi_pgno = replicate (if iPage = 0 then HASHTABLE_NPAGE_ONE else HASHTABLE_NPAGE) 0, wi_hash = replicate HASHTABLE_NSLOT 0\<rparr>"

text \<open>The result code and the pointer that is stored through \<^verbatim>\<open>ppPage\<close>.\<close>

definition walIndexPage :: "wal_env \<Rightarrow> Wal \<Rightarrow> nat \<Rightarrow> int \<times> wi_page option \<times> Wal" where
  "walIndexPage env w iPage =
    (if length (apWiData w) \<le> iPage \<and> \<not> realloc_ok env (iPage + 1) then (SQLITE_NOMEM, None, w)
     else let a = apWiData w @ replicate (iPage + 1 - length (apWiData w)) None in
       case a ! iPage of
         Some p \<Rightarrow> (SQLITE_OK, Some p, w\<lparr>apWiData := a\<rparr>)
       | None \<Rightarrow>
           if exclusiveMode w = WAL_HEAPMEMORY_MODE
           then if malloc_ok env iPage
             then (SQLITE_OK, Some (zero_page iPage), w\<lparr>apWiData := a[iPage := Some (zero_page iPage)]\<rparr>)
             else (SQLITE_NOMEM, None, w\<lparr>apWiData := a\<rparr>)
           else case shm_map env iPage of (rc, p) \<Rightarrow>
             if rc = SQLITE_READONLY then (SQLITE_OK, p, w\<lparr>apWiData := a[iPage := p], shm_rdonly := True\<rparr>)
             else (rc, p, w\<lparr>apWiData := a[iPage := p]\<rparr>))"

definition walHash :: "u32 \<Rightarrow> nat" where
  "walHash iPage = unat ((iPage * HASHTABLE_HASH_1) AND (of_nat HASHTABLE_NSLOT - 1))"

definition walNextHash :: "nat \<Rightarrow> nat" where
  "walNextHash iPriorHash = (iPriorHash + 1) mod HASHTABLE_NSLOT"

text \<open>The result code and \<^verbatim>\<open>iZero\<close>; the arrays are then those of the page \<open>iHash\<close>.\<close>

definition walHashGet :: "wal_env \<Rightarrow> Wal \<Rightarrow> nat \<Rightarrow> int \<times> nat \<times> Wal" where
  "walHashGet env w iHash = (case walIndexPage env w iHash of (rc, p, w) \<Rightarrow>
     (rc, if rc = SQLITE_OK then if iHash = 0 then 0 else HASHTABLE_NPAGE_ONE + (iHash - 1) * HASHTABLE_NPAGE else 0, w))"

definition wi_get :: "Wal \<Rightarrow> nat \<Rightarrow> wi_page option" where
  "wi_get w h = (if h < length (apWiData w) then apWiData w ! h else None)"

definition wi_set :: "Wal \<Rightarrow> nat \<Rightarrow> wi_page \<Rightarrow> Wal" where
  "wi_set w h p = w\<lparr>apWiData := (apWiData w)[h := Some p]\<rparr>"

definition walFramePage :: "nat \<Rightarrow> nat" where
  "walFramePage iFrame = (iFrame + HASHTABLE_NPAGE - HASHTABLE_NPAGE_ONE - 1) div HASHTABLE_NPAGE"

definition walFramePgno :: "Wal \<Rightarrow> nat \<Rightarrow> u32 option" where
  "walFramePgno w iFrame = (let iHash = walFramePage iFrame in do {
     p \<leftarrow> wi_get w iHash;
     if iHash = 0 then rd (wi_pgno p) (iFrame - 1)
     else rd (wi_pgno p) ((iFrame - 1 - HASHTABLE_NPAGE_ONE) mod HASHTABLE_NPAGE)
   })"

section \<open>Changing the index\<close>

definition walCleanupHash :: "wal_env \<Rightarrow> Wal \<Rightarrow> Wal option" where
  "walCleanupHash env w =
    (if mxFrame (hdr w) = 0 then Some w
     else let h = walFramePage (unat (mxFrame (hdr w))) in
       case walHashGet env w h of (rc, iZero, w) \<Rightarrow>
         if rc \<noteq> SQLITE_OK then None
         else do {
           p \<leftarrow> wi_get w h;
           let iLimit = unat (mxFrame (hdr w)) - iZero;
           Some (wi_set w h \<lparr>wi_pgno = take iLimit (wi_pgno p) @ replicate (length (wi_pgno p) - iLimit) 0,
                             wi_hash = map (\<lambda>s. if s > iLimit then 0 else s) (wi_hash p)\<rparr>)
         })"

text \<open>The search for a free slot, or nothing when it collides too often.\<close>

primrec append_probe :: "nat list \<Rightarrow> nat \<Rightarrow> nat \<Rightarrow> nat option option" where
  "append_probe aHash 0 iKey = do { s \<leftarrow> rd aHash iKey; Some (if s = 0 then Some iKey else None) }"
| "append_probe aHash (Suc n) iKey = do {
     s \<leftarrow> rd aHash iKey;
     if s = 0 then Some (Some iKey) else append_probe aHash n (walNextHash iKey) }"

definition walIndexAppend :: "wal_env \<Rightarrow> Wal \<Rightarrow> nat \<Rightarrow> u32 \<Rightarrow> (int \<times> Wal) option" where
  "walIndexAppend env w iFrame iPage = (let h = walFramePage iFrame in
     case walHashGet env w h of (rc, iZero, w) \<Rightarrow>
       if rc \<noteq> SQLITE_OK then Some (rc, w)
       else do {
         p \<leftarrow> wi_get w h;
         let idx = iFrame - iZero;
         let w = (if idx = 1
           then wi_set w h \<lparr>wi_pgno = replicate (length (wi_pgno p)) 0, wi_hash = replicate (length (wi_hash p)) 0\<rparr> else w);
         p \<leftarrow> wi_get w h;
         old \<leftarrow> rd (wi_pgno p) (idx - 1);
         w \<leftarrow> (if old \<noteq> 0 then walCleanupHash env w else Some w);
         p \<leftarrow> wi_get w h;
         r \<leftarrow> append_probe (wi_hash p) idx (walHash iPage);
         (case r of
            None \<Rightarrow> Some (SQLITE_CORRUPT, w)
          | Some iKey \<Rightarrow> do {
              pg \<leftarrow> wr (wi_pgno p) (idx - 1) iPage;
              hs \<leftarrow> wr (wi_hash p) iKey (idx mod 65536);
              Some (SQLITE_OK, wi_set w h \<lparr>wi_pgno = pg, wi_hash = hs\<rparr>)
            })
       })"

section \<open>Looking up a page\<close>

fun find_probe :: "u32 list \<Rightarrow> nat list \<Rightarrow> nat \<Rightarrow> nat \<Rightarrow> u32 \<Rightarrow> nat \<Rightarrow> nat \<Rightarrow> nat \<Rightarrow> nat option option" where
  "find_probe aPgno aHash iZero iLast pgno nCollide iKey iRead = do {
     s \<leftarrow> rd aHash iKey;
     if s = 0 then Some (Some iRead)
     else do {
       iRead \<leftarrow> (if s + iZero \<le> iLast then do { x \<leftarrow> rd aPgno (s - 1); Some (if x = pgno then s + iZero else iRead) } else Some iRead);
       (case nCollide of
          0 \<Rightarrow> Some None
        | Suc n \<Rightarrow> find_probe aPgno aHash iZero iLast pgno n (walNextHash iKey) iRead)
     }
   }"

declare find_probe.simps [simp del]

primrec find_hash :: "wal_env \<Rightarrow> u32 \<Rightarrow> nat \<Rightarrow> nat \<Rightarrow> Wal \<Rightarrow> nat \<Rightarrow> (int \<times> nat \<times> Wal) option" where
  "find_hash env pgno iLast 0 w iRead = Some (SQLITE_OK, iRead, w)"
| "find_hash env pgno iLast (Suc iHash) w iRead =
    (if iRead \<noteq> 0 then Some (SQLITE_OK, iRead, w)
     else case walHashGet env w iHash of (rc, iZero, w) \<Rightarrow>
       if rc \<noteq> SQLITE_OK then Some (rc, iRead, w)
       else do {
         p \<leftarrow> wi_get w iHash;
         r \<leftarrow> find_probe (wi_pgno p) (wi_hash p) iZero iLast pgno HASHTABLE_NSLOT (walHash pgno) iRead;
         (case r of
            None \<Rightarrow> Some (SQLITE_CORRUPT, iRead, w)
          | Some iRead \<Rightarrow> find_hash env pgno iLast iHash w iRead)
       })"

definition sqlite3WalFindFrame :: "wal_env \<Rightarrow> Wal \<Rightarrow> u32 \<Rightarrow> (int \<times> nat \<times> Wal) option" where
  "sqlite3WalFindFrame env w pgno = (let iLast = unat (mxFrame (hdr w)) in
     if iLast = 0 \<or> readLock w = 0 then Some (SQLITE_OK, 0, w)
     else find_hash env pgno iLast (walFramePage iLast + 1) w 0)"

section \<open>Rollback\<close>

primrec undo_loop :: "(u32 \<Rightarrow> int) \<Rightarrow> Wal \<Rightarrow> nat \<Rightarrow> nat \<Rightarrow> int option" where
  "undo_loop xUndo w iFrame 0 = Some SQLITE_OK"
| "undo_loop xUndo w iFrame (Suc n) = do {
     pg \<leftarrow> walFramePgno w iFrame;
     let rc = xUndo pg;
     if rc = SQLITE_OK then undo_loop xUndo w (iFrame + 1) n else Some rc }"

definition sqlite3WalUndo :: "wal_env \<Rightarrow> (u32 \<Rightarrow> int) \<Rightarrow> Wal \<Rightarrow> (int \<times> Wal) option" where
  "sqlite3WalUndo env xUndo w =
    (if writeLock w then let iMax = unat (mxFrame (hdr w)); w = w\<lparr>hdr := aHdr0 w\<rparr>; mx = unat (mxFrame (hdr w)) in do {
       rc \<leftarrow> undo_loop xUndo w (mx + 1) (iMax - mx);
       w \<leftarrow> (if iMax \<noteq> mx then walCleanupHash env w else Some w);
       Some (rc, w)
     } else Some (SQLITE_OK, w))"

definition sqlite3WalSavepoint :: "Wal \<Rightarrow> u32 \<times> (u32 \<times> u32) \<times> u32" where
  "sqlite3WalSavepoint w = (mxFrame (hdr w), aFrameCksum (hdr w), nCkpt w)"

definition sqlite3WalSavepointUndo :: "wal_env \<Rightarrow> Wal \<Rightarrow> u32 \<times> (u32 \<times> u32) \<times> u32 \<Rightarrow> (int \<times> Wal) option" where
  "sqlite3WalSavepointUndo env w aWalData = (case aWalData of (d0, ck, d3) \<Rightarrow>
     let d0 = (if d3 \<noteq> nCkpt w then 0 else d0) in
     if d0 < mxFrame (hdr w)
     then map_option (\<lambda>w. (SQLITE_OK, w)) (walCleanupHash env (w\<lparr>hdr := (hdr w)\<lparr>mxFrame := d0, aFrameCksum := ck\<rparr>\<rparr>))
     else Some (SQLITE_OK, w))"

section \<open>Probing\<close>

lemmas walindex_sizes = HASHTABLE_NPAGE_def HASHTABLE_NSLOT_def HASHTABLE_NPAGE_ONE_def WALINDEX_HDR_SIZE_def

lemma NSLOT_pos: "0 < HASHTABLE_NSLOT" by (simp add: walindex_sizes)

lemma walHash_less: "walHash p < HASHTABLE_NSLOT"
proof -
  have "p * HASHTABLE_HASH_1 AND 8191 \<le> (8191 :: u32)" by (rule word_and_le1)
  then have "unat (p * HASHTABLE_HASH_1 AND 8191) \<le> unat (8191 :: u32)" by (simp add: word_le_nat_alt)
  then show ?thesis by (simp add: walHash_def walindex_sizes)
qed

text \<open>The slot that the search for a hash value sees after \<open>k\<close> steps.\<close>

definition slot_at :: "nat list \<Rightarrow> nat \<Rightarrow> nat \<Rightarrow> nat" where
  "slot_at hs h k = hs ! ((h + k) mod HASHTABLE_NSLOT)"

lemma walNextHash_mod: "walNextHash ((h + k) mod HASHTABLE_NSLOT) = (h + Suc k) mod HASHTABLE_NSLOT"
  by (simp add: walNextHash_def mod_Suc_eq)

lemma slot_pos_inj:
  assumes "(h + k) mod HASHTABLE_NSLOT = (h + k') mod HASHTABLE_NSLOT" "k < HASHTABLE_NSLOT" "k' < HASHTABLE_NSLOT"
  shows "k = k'"
proof -
  have "int k mod int HASHTABLE_NSLOT = int k' mod int HASHTABLE_NSLOT"
    using arg_cong [OF assms(1), of "\<lambda>x. (int x - int h) mod int HASHTABLE_NSLOT"] by (simp add: zmod_int mod_diff_left_eq)
  then show ?thesis using assms(2,3) by simp
qed

lemma slot_pos_ex:
  assumes "h < HASHTABLE_NSLOT" "j < HASHTABLE_NSLOT"
  shows "\<exists>k < HASHTABLE_NSLOT. (h + k) mod HASHTABLE_NSLOT = j"
proof (cases "h \<le> j")
  case True
  then show ?thesis using assms by (intro exI [of _ "j - h"]) auto
next
  case False
  then show ?thesis using assms by (intro exI [of _ "HASHTABLE_NSLOT + j - h"]) (auto simp: mod_if)
qed

text \<open>The table shows the first \<open>L\<close> entries \<open>ps\<close> of its segment: each is found on the search for its page, behind entries that are older; there is
  a free slot. Slots with other values do not matter.\<close>

definition seg_view :: "u32 list \<Rightarrow> nat list \<Rightarrow> nat \<Rightarrow> bool" where
  "seg_view ps hs L \<longleftrightarrow> length hs = HASHTABLE_NSLOT \<and> L \<le> length ps \<and>
     (\<forall>i. 0 < i \<and> i \<le> L \<longrightarrow> (\<exists>k < HASHTABLE_NSLOT. slot_at hs (walHash (ps ! (i - 1))) k = i \<and>
        (\<forall>k' < k. 0 < slot_at hs (walHash (ps ! (i - 1))) k' \<and> slot_at hs (walHash (ps ! (i - 1))) k' < i))) \<and>
     (\<forall>j < HASHTABLE_NSLOT. \<forall>j' < HASHTABLE_NSLOT. hs ! j = hs ! j' \<and> 0 < hs ! j \<and> hs ! j \<le> L \<longrightarrow> j = j') \<and>
     (\<exists>j < HASHTABLE_NSLOT. hs ! j = 0)"

lemma seg_view_entry:
  "seg_view ps hs L \<Longrightarrow> 0 < i \<Longrightarrow> i \<le> L \<Longrightarrow> \<exists>k < HASHTABLE_NSLOT. slot_at hs (walHash (ps ! (i - 1))) k = i \<and>
    (\<forall>k' < k. 0 < slot_at hs (walHash (ps ! (i - 1))) k' \<and> slot_at hs (walHash (ps ! (i - 1))) k' < i)"
  by (simp add: seg_view_def)

lemma seg_view_uniq:
  "seg_view ps hs L \<Longrightarrow> j < HASHTABLE_NSLOT \<Longrightarrow> j' < HASHTABLE_NSLOT \<Longrightarrow> hs ! j = hs ! j' \<Longrightarrow> 0 < hs ! j \<Longrightarrow> hs ! j \<le> L \<Longrightarrow> j = j'"
  by (simp add: seg_view_def)

text \<open>The search that the code compares itself with in its own expensive assertion: from the last frame back.\<close>

primrec linear_find :: "u32 list \<Rightarrow> u32 \<Rightarrow> nat \<Rightarrow> nat" where
  "linear_find ps pgno 0 = 0"
| "linear_find ps pgno (Suc n) = (if ps ! n = pgno then Suc n else linear_find ps pgno n)"

lemma linear_find_0: "linear_find ps P n = 0 \<longleftrightarrow> (\<forall>i. 0 < i \<and> i \<le> n \<longrightarrow> ps ! (i - 1) \<noteq> P)"
  by (induction n) (auto simp: le_Suc_eq)

lemma linear_find_eq:
  assumes "0 < i" "i \<le> n" "ps ! (i - 1) = P" "\<And>j. i < j \<Longrightarrow> j \<le> n \<Longrightarrow> ps ! (j - 1) \<noteq> P"
  shows "linear_find ps P n = i"
  using assms
proof (induction n)
  case (Suc n)
  show ?case
  proof (cases "i = Suc n")
    case False
    then have "ps ! n \<noteq> P" using Suc.prems(2) Suc.prems(4) [of "Suc n"] by simp
    then show ?thesis using Suc False by simp
  qed (use Suc.prems in simp)
qed simp

lemma linear_find_split:
  "linear_find ps P (z + n) = (let r = linear_find (drop z ps) P n in if r = 0 then linear_find ps P z else z + r)" if "z + n \<le> length ps"
  using that by (induction n) auto

lemma linear_find_cong: "(\<And>i. i < n \<Longrightarrow> ps ! i = qs ! i) \<Longrightarrow> linear_find ps P n = linear_find qs P n"
  by (induction n) auto

lemma linear_find_le: "linear_find ps P n \<le> n"
  by (induction n) auto

text \<open>What a search sees up to the first free slot.\<close>

definition hits :: "u32 list \<Rightarrow> nat list \<Rightarrow> nat \<Rightarrow> u32 \<Rightarrow> nat \<Rightarrow> nat \<Rightarrow> nat list" where
  "hits ps hs L P k K = filter (\<lambda>s. s \<le> L \<and> ps ! (s - 1) = P) (map (slot_at hs (walHash P)) [k..<K])"

lemma find_probe_hits:
  assumes "length hs = HASHTABLE_NSLOT" "slot_at hs (walHash P) K = 0" "\<And>k. k < K \<Longrightarrow> 0 < slot_at hs (walHash P) k"
    and "\<And>j. j < HASHTABLE_NSLOT \<Longrightarrow> hs ! j + iZero \<le> iLast \<longleftrightarrow> hs ! j \<le> L" "L \<le> length pg" "\<And>i. i < L \<Longrightarrow> pg ! i = ps ! i"
  shows "k \<le> K \<Longrightarrow> K - k \<le> n \<Longrightarrow>
    find_probe pg hs iZero iLast P n ((walHash P + k) mod HASHTABLE_NSLOT) r =
      Some (Some (let h = hits ps hs L P k K in if h = [] then r else iZero + last h))"
proof (induction "K - k" arbitrary: k n r)
  case 0
  then have "k = K" by simp
  then show ?case using assms(1,2) by (simp add: find_probe.simps [of pg hs iZero iLast P n] slot_at_def hits_def NSLOT_pos)
next
  case (Suc d)
  define s where "s = slot_at hs (walHash P) k"
  obtain n' where n: "n = Suc n'" using Suc.hyps(2) Suc.prems(2) by (cases n) auto
  have k: "k < K" using Suc.hyps(2) by simp
  have s: "0 < s" "rd hs ((walHash P + k) mod HASHTABLE_NSLOT) = Some s"
    using assms(1) assms(3) [OF k] by (simp_all add: s_def slot_at_def NSLOT_pos)
  have h: "hits ps hs L P k K = (if s \<le> L \<and> ps ! (s - 1) = P then [s] else []) @ hits ps hs L P (Suc k) K"
    using k by (simp add: hits_def upt_conv_Cons s_def)
  have le: "s + iZero \<le> iLast \<longleftrightarrow> s \<le> L" using assms(4) by (simp add: s_def slot_at_def NSLOT_pos)
  have IH: "find_probe pg hs iZero iLast P n' (walNextHash ((walHash P + k) mod HASHTABLE_NSLOT)) r' =
      Some (Some (let h = hits ps hs L P (Suc k) K in if h = [] then r' else iZero + last h))" for r'
    unfolding walNextHash_mod using Suc.hyps(2) Suc.prems n by (intro Suc.hyps(1)) auto
  have pg: "rd pg (s - Suc 0) = Some (ps ! (s - Suc 0))" if "s \<le> L" using that s(1) assms(5,6) by (simp add: rd_def)
  have "find_probe pg hs iZero iLast P n ((walHash P + k) mod HASHTABLE_NSLOT) r =
      find_probe pg hs iZero iLast P n' (walNextHash ((walHash P + k) mod HASHTABLE_NSLOT)) (if s \<le> L \<and> ps ! (s - 1) = P then iZero + s else r)"
    by (subst find_probe.simps) (use s le pg n in \<open>simp add: add.commute [of s]\<close>)
  then show ?case unfolding IH h by (auto simp: Let_def)
qed

lemma hits_spec:
  assumes v: "seg_view ps hs L" and K: "slot_at hs (walHash P) K = 0" "\<And>k. k < K \<Longrightarrow> 0 < slot_at hs (walHash P) k" "K \<le> HASHTABLE_NSLOT"
  shows "set (hits ps hs L P 0 K) = {i. 0 < i \<and> i \<le> L \<and> ps ! (i - 1) = P}" and "sorted (hits ps hs L P 0 K)"
proof -
  have first: "\<exists>k < HASHTABLE_NSLOT. slot_at hs (walHash P) k = i \<and> (\<forall>k' < k. 0 < slot_at hs (walHash P) k' \<and> slot_at hs (walHash P) k' < i)"
    if "0 < i" "i \<le> L" "ps ! (i - 1) = P" for i using seg_view_entry [OF v that(1,2)] that(3) by simp
  have uniq: "k = k'" if "slot_at hs (walHash P) k = slot_at hs (walHash P) k'" "0 < slot_at hs (walHash P) k" "slot_at hs (walHash P) k \<le> L"
      "k < HASHTABLE_NSLOT" "k' < HASHTABLE_NSLOT" for k k'
    by (rule slot_pos_inj [OF seg_view_uniq [OF v _ _ that(1) [unfolded slot_at_def]] that(4,5)]) (use that in \<open>simp_all add: slot_at_def NSLOT_pos\<close>)
  show "set (hits ps hs L P 0 K) = {i. 0 < i \<and> i \<le> L \<and> ps ! (i - 1) = P}"
  proof (intro set_eqI iffI)
    fix i assume "i \<in> {i. 0 < i \<and> i \<le> L \<and> ps ! (i - 1) = P}"
    then have i: "0 < i" "i \<le> L" "ps ! (i - 1) = P" by auto
    from first [OF this] obtain k where k: "slot_at hs (walHash P) k = i" "\<forall>k' < k. 0 < slot_at hs (walHash P) k'" by blast
    then have "k < K" using K(1) i(1) by (metis less_not_refl linorder_neqE_nat)
    then show "i \<in> set (hits ps hs L P 0 K)" using i k by (auto simp: hits_def intro!: image_eqI [of _ _ k])
  qed (auto simp: hits_def K(2))
  have "s1 \<le> s2" if "k1 < k2" "k2 < K" "s1 = slot_at hs (walHash P) k1" "s2 = slot_at hs (walHash P) k2" "s2 \<le> L" "ps ! (s2 - 1) = P" for k1 k2 s1 s2
  proof -
    have "0 < s2" using that K(2) by auto
    from first [OF this that(5,6)] obtain k where k: "k < HASHTABLE_NSLOT" "slot_at hs (walHash P) k = s2" "\<forall>k' < k. slot_at hs (walHash P) k' < s2" by blast
    then have "k = k2" using uniq [of k k2] that K(3) \<open>0 < s2\<close> by auto
    then show ?thesis using k(3) that by auto
  qed
  then have "sorted_wrt (\<lambda>k1 k2. slot_at hs (walHash P) k1 \<le> slot_at hs (walHash P) k2)
      (filter (\<lambda>k. slot_at hs (walHash P) k \<le> L \<and> ps ! (slot_at hs (walHash P) k - 1) = P) [0..<K])"
    by (intro sorted_wrt_mono_rel [OF _ sorted_wrt_filter [OF sorted_wrt_upt]]) auto
  then show "sorted (hits ps hs L P 0 K)" by (simp add: hits_def filter_map o_def sorted_wrt_map)
qed

lemma sorted_le_last: "sorted xs \<Longrightarrow> x \<in> set xs \<Longrightarrow> x \<le> last (xs :: nat list)"
  by (induction xs) auto

lemma first_free:
  assumes "length hs = HASHTABLE_NSLOT" "\<exists>j < HASHTABLE_NSLOT. hs ! j = 0" "h < HASHTABLE_NSLOT"
  obtains K where "K < HASHTABLE_NSLOT" "slot_at hs h K = 0" "\<And>k. k < K \<Longrightarrow> 0 < slot_at hs h k"
proof -
  obtain k where k: "k < HASHTABLE_NSLOT" "slot_at hs h k = 0" using assms(2) slot_pos_ex [OF assms(3)] by (metis slot_at_def)
  define K where "K = (LEAST k. slot_at hs h k = 0)"
  have "slot_at hs h K = 0" "K \<le> k" using k(2) by (auto simp: K_def intro: LeastI Least_le)
  moreover have "0 < slot_at hs h k'" if "k' < K" for k' using not_less_Least [of k' "\<lambda>k. slot_at hs h k = 0"] that by (simp add: K_def)
  ultimately show thesis using that k(1) by (metis le_less_trans)
qed

lemma find_probe_linear:
  assumes v: "seg_view ps hs L"
    and "\<And>j. j < HASHTABLE_NSLOT \<Longrightarrow> hs ! j + iZero \<le> iLast \<longleftrightarrow> hs ! j \<le> L" "L \<le> length pg" "\<And>i. i < L \<Longrightarrow> pg ! i = ps ! i"
  shows "find_probe pg hs iZero iLast P HASHTABLE_NSLOT (walHash P) r =
    Some (Some (let i = linear_find ps P L in if i = 0 then r else iZero + i))"
proof -
  have hs: "length hs = HASHTABLE_NSLOT" "\<exists>j < HASHTABLE_NSLOT. hs ! j = 0" using v by (auto simp: seg_view_def)
  obtain K where K: "K < HASHTABLE_NSLOT" "slot_at hs (walHash P) K = 0" "\<And>k. k < K \<Longrightarrow> 0 < slot_at hs (walHash P) k"
    using first_free [OF hs walHash_less] by blast
  let ?h = "hits ps hs L P 0 K"
  note h = hits_spec [OF v K(2,3) less_imp_le [OF K(1)]]
  have "linear_find ps P L = (if ?h = [] then 0 else last ?h)"
  proof (cases "?h = []")
    case True
    then show ?thesis using h(1) by (auto simp: linear_find_0)
  next
    case False
    then have "last ?h \<in> {i. 0 < i \<and> i \<le> L \<and> ps ! (i - 1) = P}" using h(1) last_in_set by blast
    moreover have "ps ! (j - 1) \<noteq> P" if "last ?h < j" "j \<le> L" for j
      using that h sorted_le_last [of ?h j] by auto
    ultimately show ?thesis using False by (simp add: linear_find_eq)
  qed
  moreover have "0 < last ?h" if "?h \<noteq> []" using h(1) last_in_set [OF that] by auto
  ultimately show ?thesis
    using find_probe_hits [OF hs(1) K(2,3) assms(2-4), of 0 HASHTABLE_NSLOT r] K(1) by (auto simp: Let_def walHash_less)
qed

section \<open>Entering and removing\<close>

text \<open>The table holds exactly the entries \<open>ps\<close>.\<close>

definition hash_ok :: "u32 list \<Rightarrow> nat list \<Rightarrow> bool" where
  "hash_ok ps hs \<longleftrightarrow> seg_view ps hs (length ps) \<and> (\<forall>j < HASHTABLE_NSLOT. hs ! j \<le> length ps)"

lemma hash_okI:
  assumes "length hs = HASHTABLE_NSLOT"
    and "\<And>i. 0 < i \<Longrightarrow> i \<le> length ps \<Longrightarrow> \<exists>k < HASHTABLE_NSLOT. slot_at hs (walHash (ps ! (i - 1))) k = i \<and>
      (\<forall>k' < k. 0 < slot_at hs (walHash (ps ! (i - 1))) k' \<and> slot_at hs (walHash (ps ! (i - 1))) k' < i)"
    and uniq: "\<And>j j'. j < HASHTABLE_NSLOT \<Longrightarrow> j' < HASHTABLE_NSLOT \<Longrightarrow> hs ! j = hs ! j' \<Longrightarrow> 0 < hs ! j \<Longrightarrow> j = j'"
    and le: "\<And>j. j < HASHTABLE_NSLOT \<Longrightarrow> hs ! j \<le> length ps" and "length ps < HASHTABLE_NSLOT"
  shows "hash_ok ps hs"
proof -
  have "\<exists>j < HASHTABLE_NSLOT. hs ! j = 0"
  proof (rule ccontr)
    assume "\<not> ?thesis"
    then have "inj_on ((!) hs) {..<HASHTABLE_NSLOT}" "(!) hs ` {..<HASHTABLE_NSLOT} \<subseteq> {1..length ps}" using uniq le by (fastforce simp: inj_on_def)+
    then have "card {..<HASHTABLE_NSLOT} \<le> card {1..length ps}" by (metis card_inj_on_le finite_atLeastAtMost)
    then show False using assms(5) by simp
  qed
  then show ?thesis using assms by (auto simp: hash_ok_def seg_view_def)
qed

lemma hash_okD:
  assumes "hash_ok ps hs"
  shows "length hs = HASHTABLE_NSLOT" "seg_view ps hs (length ps)" "\<And>j. j < HASHTABLE_NSLOT \<Longrightarrow> hs ! j \<le> length ps" "\<exists>j < HASHTABLE_NSLOT. hs ! j = 0"
  using assms by (auto simp: hash_ok_def seg_view_def)

lemma hash_ok_view: "hash_ok ps hs \<Longrightarrow> L \<le> length ps \<Longrightarrow> seg_view ps hs L"
  by (simp add: hash_ok_def seg_view_def)

lemma hash_ok_empty: "hash_ok [] (replicate HASHTABLE_NSLOT 0)"
  by (rule hash_okI) (auto simp: NSLOT_pos)

lemma hash_ok_cleanup:
  assumes "hash_ok ps hs" "L \<le> length ps" "length ps < HASHTABLE_NSLOT"
  shows "hash_ok (take L ps) (map (\<lambda>s. if s > L then 0 else s) hs)" (is "hash_ok _ ?hs")
proof (rule hash_okI)
  note h = hash_okD [OF assms(1)]
  show "length ?hs = HASHTABLE_NSLOT" using h by simp
  have at: "slot_at ?hs x k = (if slot_at hs x k > L then 0 else slot_at hs x k)" for x k using h(1) by (simp add: slot_at_def NSLOT_pos)
  show "\<exists>k < HASHTABLE_NSLOT. slot_at ?hs (walHash (take L ps ! (i - 1))) k = i \<and>
      (\<forall>k' < k. 0 < slot_at ?hs (walHash (take L ps ! (i - 1))) k' \<and> slot_at ?hs (walHash (take L ps ! (i - 1))) k' < i)"
    if i: "0 < i" "i \<le> length (take L ps)" for i
  proof -
    have "take L ps ! (i - 1) = ps ! (i - 1)" using i by (cases i) auto
    then show ?thesis using seg_view_entry [OF h(2), of i] i unfolding at by (fastforce simp: not_less)
  qed
  show "j = j'" if "j < HASHTABLE_NSLOT" "j' < HASHTABLE_NSLOT" "?hs ! j = ?hs ! j'" "0 < ?hs ! j" for j j'
    by (rule seg_view_uniq [OF h(2) that(1,2)]) (use that h in \<open>auto split: if_splits\<close>)
qed (use assms hash_okD(1) [OF assms(1)] in auto)

lemma probe_length:
  assumes "hash_ok ps hs" "\<And>k. k < K \<Longrightarrow> 0 < slot_at hs h k" "K \<le> HASHTABLE_NSLOT"
  shows "K \<le> length ps"
proof -
  note ok = hash_okD [OF assms(1)]
  have "inj_on (slot_at hs h) {..<K}"
  proof (rule inj_onI)
    fix k k' assume k: "k \<in> {..<K}" "k' \<in> {..<K}" "slot_at hs h k = slot_at hs h k'"
    then have "(h + k) mod HASHTABLE_NSLOT = (h + k') mod HASHTABLE_NSLOT"
      using assms(2) ok(3) by - (rule seg_view_uniq [OF ok(2)], auto simp: slot_at_def NSLOT_pos)
    from slot_pos_inj [OF this] show "k = k'" using k assms(3) by simp
  qed
  moreover have "slot_at hs h ` {..<K} \<subseteq> {1..length ps}" using assms(2) ok(3) by (force simp: slot_at_def NSLOT_pos)
  ultimately have "card {..<K} \<le> card {1..length ps}" by (metis card_inj_on_le finite_atLeastAtMost)
  then show ?thesis by simp
qed

lemma append_probe_free:
  assumes "length hs = HASHTABLE_NSLOT" "slot_at hs h K = 0" "\<And>k. k < K \<Longrightarrow> 0 < slot_at hs h k"
  shows "k \<le> K \<Longrightarrow> K - k \<le> n \<Longrightarrow> append_probe hs n ((h + k) mod HASHTABLE_NSLOT) = Some (Some ((h + K) mod HASHTABLE_NSLOT))"
proof (induction n arbitrary: k)
  case 0
  then show ?case using assms by (simp add: slot_at_def NSLOT_pos)
next
  case (Suc n)
  show ?case
  proof (cases "k = K")
    case False
    then have "0 < slot_at hs h k" using Suc.prems assms(3) by simp
    then show ?thesis using Suc False assms(1) by (simp add: slot_at_def NSLOT_pos walNextHash_mod del: add_Suc_right)
  qed (use assms in \<open>simp add: slot_at_def NSLOT_pos\<close>)
qed

declare append_probe.simps [simp del]

lemma hash_ok_append:
  assumes "hash_ok ps hs" "slot_at hs (walHash P) K = 0" "\<And>k. k < K \<Longrightarrow> 0 < slot_at hs (walHash P) k" "K < HASHTABLE_NSLOT" "Suc (length ps) < HASHTABLE_NSLOT"
  shows "hash_ok (ps @ [P]) (hs[(walHash P + K) mod HASHTABLE_NSLOT := Suc (length ps)])" (is "hash_ok _ ?hs")
proof (rule hash_okI)
  note ok = hash_okD [OF assms(1)]
  let ?f = "(walHash P + K) mod HASHTABLE_NSLOT"
  have f: "?f < length hs" "hs ! ?f = 0" using ok(1) assms(2) by (simp_all add: NSLOT_pos slot_at_def)
  have at: "slot_at ?hs x k = slot_at hs x k" if "0 < slot_at hs x k" for x k
    using that f by (auto simp: slot_at_def nth_list_update)
  show "\<exists>k < HASHTABLE_NSLOT. slot_at ?hs (walHash ((ps @ [P]) ! (i - 1))) k = i \<and>
      (\<forall>k' < k. 0 < slot_at ?hs (walHash ((ps @ [P]) ! (i - 1))) k' \<and> slot_at ?hs (walHash ((ps @ [P]) ! (i - 1))) k' < i)"
    if i: "0 < i" "i \<le> length (ps @ [P])" for i
  proof (cases "i = Suc (length ps)")
    case True
    have "slot_at ?hs (walHash P) K = i" using f(1) True by (simp add: slot_at_def)
    moreover have "slot_at hs (walHash P) k < i" for k using ok(3) True by (simp add: slot_at_def NSLOT_pos le_imp_less_Suc)
    ultimately show ?thesis using assms(3,4) at True by (intro exI [of _ K]) auto
  next
    case False
    then have "(ps @ [P]) ! (i - 1) = ps ! (i - 1)" using i by (cases i) (auto simp: nth_append)
    moreover obtain k where "k < HASHTABLE_NSLOT" "slot_at hs (walHash (ps ! (i - 1))) k = i"
        "\<forall>k' < k. 0 < slot_at hs (walHash (ps ! (i - 1))) k' \<and> slot_at hs (walHash (ps ! (i - 1))) k' < i"
      using seg_view_entry [OF ok(2), of i] i False by auto
    ultimately show ?thesis using at i(1) by (intro exI [of _ k]) auto
  qed
  show "j = j'" if "j < HASHTABLE_NSLOT" "j' < HASHTABLE_NSLOT" "?hs ! j = ?hs ! j'" "0 < ?hs ! j" for j j'
  proof (cases "j = ?f \<or> j' = ?f")
    case True
    then show ?thesis using that ok(1) ok(3) [of j] ok(3) [of j'] f(1) by (auto simp: nth_list_update split: if_splits)
  next
    case False
    then show ?thesis using that ok(1,3) by - (rule seg_view_uniq [OF ok(2) that(1,2)], auto)
  qed
  show "?hs ! j \<le> length (ps @ [P])" if "j < HASHTABLE_NSLOT" for j
    using ok(1) ok(3) [OF that] that by (auto simp: nth_list_update)
qed (use assms hash_okD(1) [OF assms(1)] in auto)

section \<open>Segments\<close>

text \<open>The frames of segment \<open>h\<close> are \<open>seg_zero h + 1\<close> up to \<open>seg_zero h + seg_size h\<close>.\<close>

definition seg_zero :: "nat \<Rightarrow> nat" where
  "seg_zero h = (if h = 0 then 0 else HASHTABLE_NPAGE_ONE + (h - 1) * HASHTABLE_NPAGE)"

definition seg_size :: "nat \<Rightarrow> nat" where
  "seg_size h = (if h = 0 then HASHTABLE_NPAGE_ONE else HASHTABLE_NPAGE)"

definition seg :: "nat \<Rightarrow> u32 list \<Rightarrow> u32 list" where
  "seg h ps = take (seg_size h) (drop (seg_zero h) ps)"

lemma seg_zero_Suc: "seg_zero (Suc h) = seg_zero h + seg_size h"
  by (cases h) (simp_all add: seg_zero_def seg_size_def walindex_sizes)

lemma seg_size_bounds: "0 < seg_size h" "seg_size h \<le> 4096" "seg_size h < HASHTABLE_NSLOT"
  by (simp_all add: seg_size_def walindex_sizes)

lemma seg_zero_mono: "g < h \<Longrightarrow> seg_zero g + seg_size g \<le> seg_zero h"
  using mult_le_mono1 [of g "h - 1" 4096] by (cases "g = 0") (auto simp: seg_zero_def seg_size_def walindex_sizes)

lemma walFramePage_seg:
  assumes "0 < f"
  shows "seg_zero (walFramePage f) < f" "f \<le> seg_zero (walFramePage f) + seg_size (walFramePage f)"
proof -
  have "walFramePage f = (f + 33) div 4096" using assms by (simp add: walFramePage_def walindex_sizes)
  then show "seg_zero (walFramePage f) < f" "f \<le> seg_zero (walFramePage f) + seg_size (walFramePage f)"
    using assms by (auto simp: seg_zero_def seg_size_def walindex_sizes algebra_simps)
qed

lemma walFramePage_eq:
  assumes "seg_zero h < f" "f \<le> seg_zero h + seg_size h"
  shows "walFramePage f = h"
proof (rule ccontr)
  have f: "0 < f" using assms(1) by simp
  assume "walFramePage f \<noteq> h"
  then show False using walFramePage_seg [OF f] assms seg_zero_mono [of "walFramePage f" h] seg_zero_mono [of h "walFramePage f"] by linarith
qed

lemma length_seg: "length (seg h ps) = min (seg_size h) (length ps - seg_zero h)"
  by (simp add: seg_def)

lemma seg_take: "seg_zero h + seg_size h \<le> n \<Longrightarrow> seg h (take n ps) = seg h ps"
  by (simp add: seg_def drop_take min_def)

lemma seg_append: "seg_zero h + seg_size h \<le> length ps \<Longrightarrow> seg h (ps @ qs) = seg h ps"
  by (simp add: seg_def)

section \<open>The whole index\<close>

text \<open>Segment \<open>h\<close> is mapped and holds exactly the frames \<open>ss\<close>.\<close>

definition seg_ok :: "u32 list \<Rightarrow> nat \<Rightarrow> wi_page \<Rightarrow> bool" where
  "seg_ok ss h p \<longleftrightarrow> length ss \<le> seg_size h \<and> wi_pgno p = ss @ replicate (seg_size h - length ss) 0 \<and> hash_ok ss (wi_hash p)"

definition page_sized :: "nat \<Rightarrow> wi_page \<Rightarrow> bool" where
  "page_sized h p \<longleftrightarrow> length (wi_pgno p) = seg_size h \<and> length (wi_hash p) = HASHTABLE_NSLOT"

text \<open>The index holds the pages \<open>ps\<close> of the frames; segments behind the last frame may hold anything.\<close>

definition index_ok :: "Wal \<Rightarrow> u32 list \<Rightarrow> bool" where
  "index_ok w ps \<longleftrightarrow> (\<forall>h p. wi_get w h = Some p \<longrightarrow> page_sized h p) \<and>
     (\<forall>h. seg_zero h < length ps \<longrightarrow> (\<exists>p. wi_get w h = Some p \<and> seg_ok (seg h ps) h p))"

text \<open>What the code relies on of shared memory: a page that is mapped has the size of an index page, and without an error it is there.\<close>

definition shm_ok :: "wal_env \<Rightarrow> bool" where
  "shm_ok env \<longleftrightarrow> (\<forall>h rc p. shm_map env h = (rc, p) \<longrightarrow>
     (rc = SQLITE_OK \<or> rc = SQLITE_READONLY \<longrightarrow> p \<noteq> None) \<and> (\<forall>p'. p = Some p' \<longrightarrow> page_sized h p'))"

text \<open>The handles differ in the mapped pages only.\<close>

definition remapped :: "Wal \<Rightarrow> Wal \<Rightarrow> bool" where
  "remapped w w' \<longleftrightarrow> w'\<lparr>apWiData := [], shm_rdonly := False\<rparr> = w\<lparr>apWiData := [], shm_rdonly := False\<rparr>"

lemma remapped_update [simp]: "remapped w (w'\<lparr>apWiData := a\<rparr>) = remapped w w'" "remapped w (w'\<lparr>shm_rdonly := b\<rparr>) = remapped w w'"
  by (simp_all add: remapped_def)

lemma remapped_set [simp]: "remapped w (wi_set w' h p) = remapped w w'"
  by (simp add: wi_set_def)

lemma remapped_trans: "remapped w w' \<Longrightarrow> remapped w' w'' \<Longrightarrow> remapped w w''"
  by (simp add: remapped_def)

lemma remapped_refl [simp]: "remapped w w"
  by (simp add: remapped_def)

lemma remapped_fields:
  assumes "remapped w w'"
  shows "hdr w' = hdr w" "exclusiveMode w' = exclusiveMode w" "readLock w' = readLock w" "writeLock w' = writeLock w" "szPage w' = szPage w" "nCkpt w' = nCkpt w"
    "iCallback w' = iCallback w" "truncateOnCommit w' = truncateOnCommit w" "mxWalSize w' = mxWalSize w" "syncHeader w' = syncHeader w"
    "padToSectorBoundary w' = padToSectorBoundary w" "aHdr0 w' = aHdr0 w" "aHdr1 w' = aHdr1 w" "nBackfill w' = nBackfill w" "aReadMark w' = aReadMark w"
  using assms by (cases w; cases w'; simp add: remapped_def)+

lemma walIndexPage_mapped:
  assumes "wi_get w h = Some p"
  shows "walIndexPage env w h = (SQLITE_OK, Some p, w)"
  using assms by (auto simp: walIndexPage_def wi_get_def nth_append Let_def split: if_splits)

lemma walHashGet_mapped: "wi_get w h = Some p \<Longrightarrow> walHashGet env w h = (SQLITE_OK, seg_zero h, w)"
  by (simp add: walHashGet_def walIndexPage_mapped seg_zero_def)

lemma walHashGet_keeps:
  assumes "walHashGet env w h = (rc, z, w')" "shm_ok env"
  shows "wi_get w g = Some p \<Longrightarrow> wi_get w' g = Some p" and "remapped w w'"
    and "rc = SQLITE_OK \<Longrightarrow> z = seg_zero h \<and> (\<exists>p. wi_get w' h = Some p)"
    and "wi_get w' g = Some p \<Longrightarrow> wi_get w g = Some p \<or> page_sized g p"
proof -
  have z: "page_sized h (zero_page h)" by (simp add: page_sized_def zero_page_def seg_size_def)
  obtain rc' q where m: "shm_map env h = (rc', q)" by fastforce
  then have q: "rc' = SQLITE_OK \<or> rc' = SQLITE_READONLY \<Longrightarrow> q \<noteq> None" "\<And>p'. q = Some p' \<Longrightarrow> page_sized h p'"
    using assms(2) by (auto simp: shm_ok_def)
  have pg: "\<exists>p. walIndexPage env w h = (rc, p, w')" "rc = SQLITE_OK \<Longrightarrow> z = seg_zero h"
    using assms(1) by (auto simp: walHashGet_def seg_zero_def split: prod.splits if_splits)
  have nomem: "SQLITE_NOMEM \<noteq> SQLITE_OK" by (simp add: SQLITE_NOMEM_def SQLITE_OK_def)
  show "wi_get w g = Some p \<Longrightarrow> wi_get w' g = Some p" 
    using pg(1) m by (auto simp: walIndexPage_def wi_get_def nth_append nth_list_update Let_def split: if_splits option.splits)
  show "remapped w w'"
    using pg(1) m by (auto simp: walIndexPage_def Let_def split: if_splits option.splits)
  show "rc = SQLITE_OK \<Longrightarrow> z = seg_zero h \<and> (\<exists>p. wi_get w' h = Some p)"
    using pg m q(1) nomem by (auto simp: walIndexPage_def wi_get_def nth_append Let_def split: if_splits option.splits)
  show "wi_get w' g = Some p \<Longrightarrow> wi_get w g = Some p \<or> page_sized g p"
    using pg(1) m q(2) z by (auto simp: walIndexPage_def wi_get_def nth_append nth_list_update Let_def split: if_splits option.splits)
qed

lemma index_ok_sized: "index_ok w ps \<Longrightarrow> wi_get w h = Some p \<Longrightarrow> page_sized h p"
  by (simp add: index_ok_def)

lemma index_ok_seg: "index_ok w ps \<Longrightarrow> seg_zero h < length ps \<Longrightarrow> \<exists>p. wi_get w h = Some p \<and> seg_ok (seg h ps) h p"
  by (simp add: index_ok_def)

lemma find_hash_linear:
  assumes "index_ok w ps" "iLast \<le> length ps"
  shows "h = 0 \<or> seg_zero (h - 1) < iLast \<Longrightarrow>
    find_hash env P iLast h w r = Some (SQLITE_OK, if r \<noteq> 0 then r else linear_find ps P (min iLast (seg_zero h)), w)"
proof (induction h arbitrary: r)
  case 0
  then show ?case by (simp add: seg_zero_def)
next
  case (Suc h)
  show ?case
  proof (cases "r = 0")
    case True
    have z: "seg_zero h < iLast" using Suc.prems by simp
    then obtain p where p: "wi_get w h = Some p" "seg_ok (seg h ps) h p" using index_ok_seg [OF assms(1), of h] assms(2) by auto
    define L where "L = min (seg_size h) (iLast - seg_zero h)"
    have L: "L \<le> length (seg h ps)" "seg_zero h + L = min iLast (seg_zero (Suc h))" using assms(2) z by (auto simp: L_def length_seg seg_zero_Suc)
    have ok: "hash_ok (seg h ps) (wi_hash p)" using p(2) by (simp add: seg_ok_def)
    have le: "wi_hash p ! j \<le> seg_size h" if "j < HASHTABLE_NSLOT" for j
      using hash_okD(3) [OF ok that] length_seg [of h ps] by simp
    have "wi_hash p ! j + seg_zero h \<le> iLast \<longleftrightarrow> wi_hash p ! j \<le> L" if "j < HASHTABLE_NSLOT" for j
      using le [OF that] z by (auto simp: L_def)
    then have f: "find_probe (wi_pgno p) (wi_hash p) (seg_zero h) iLast P HASHTABLE_NSLOT (walHash P) 0 =
        Some (Some (let i = linear_find (seg h ps) P L in if i = 0 then 0 else seg_zero h + i))"
      using L(1) p(2) by (intro find_probe_linear [OF hash_ok_view [OF ok L(1)]]) (auto simp: seg_ok_def length_seg nth_append)
    have "linear_find (seg h ps) P L = linear_find (drop (seg_zero h) ps) P L"
      by (rule linear_find_cong) (simp add: seg_def L_def)
    then have s: "linear_find ps P (min iLast (seg_zero (Suc h))) =
        (let i = linear_find (seg h ps) P L in if i = 0 then linear_find ps P (seg_zero h) else seg_zero h + i)"
      using linear_find_split [of "seg_zero h" L ps P] L assms(2) z by (simp add: min_def)
    have "h = 0 \<or> seg_zero (h - 1) < iLast" using z seg_zero_mono [of "h - 1" h] by (cases h) auto
    from Suc.IH [OF this] show ?thesis
      using True z p(1) f s by (auto simp: walHashGet_mapped Let_def)
  qed simp
qed

lemma sqlite3WalFindFrame_linear:
  assumes "index_ok w ps" "unat (mxFrame (hdr w)) \<le> length ps" "readLock w \<noteq> 0"
  shows "sqlite3WalFindFrame env w P = Some (SQLITE_OK, linear_find ps P (unat (mxFrame (hdr w))), w)"
proof (cases "unat (mxFrame (hdr w)) = 0")
  case False
  then have "seg_zero (walFramePage (unat (mxFrame (hdr w)))) < unat (mxFrame (hdr w))"
    "unat (mxFrame (hdr w)) \<le> seg_zero (Suc (walFramePage (unat (mxFrame (hdr w)))))"
    using walFramePage_seg [of "unat (mxFrame (hdr w))"] by (simp_all add: seg_zero_Suc)
  then show ?thesis using find_hash_linear [OF assms(1,2), of "Suc (walFramePage (unat (mxFrame (hdr w))))" env P 0] False assms(3)
    by (simp add: sqlite3WalFindFrame_def Let_def min_def)
qed (simp add: sqlite3WalFindFrame_def)

lemma wi_get_set: "h < length (apWiData w) \<Longrightarrow> wi_get (wi_set w h p) g = (if g = h then Some p else wi_get w g)"
  by (simp add: wi_get_def wi_set_def)

lemma wi_get_length: "wi_get w h = Some p \<Longrightarrow> h < length (apWiData w)"
  by (simp add: wi_get_def split: if_splits)

lemma index_ok_get:
  assumes "index_ok w ps" "walHashGet env w h = (rc, z, w')" "shm_ok env"
  shows "index_ok w' ps"
  unfolding index_ok_def
proof (intro conjI allI impI)
  show "page_sized g p" if "wi_get w' g = Some p" for g p
    using walHashGet_keeps(4) [OF assms(2,3) that] index_ok_sized [OF assms(1)] by blast
  show "\<exists>p. wi_get w' g = Some p \<and> seg_ok (seg g ps) g p" if "seg_zero g < length ps" for g
    using index_ok_seg [OF assms(1) that] walHashGet_keeps(1) [OF assms(2,3)] by blast
qed

text \<open>Replacing the last segment.\<close>

lemma index_ok_set:
  assumes "index_ok w ps" "h < length (apWiData w)" "seg_ok (seg h qs) h p" "page_sized h p"
    and "seg_zero h \<le> length ps" "length qs \<le> seg_zero h + seg_size h" "take (seg_zero h) qs = take (seg_zero h) ps"
  shows "index_ok (wi_set w h p) qs"
  unfolding index_ok_def
proof (intro conjI allI impI)
  show "page_sized g q" if "wi_get (wi_set w h p) g = Some q" for g q
    using that assms(1,2,4) index_ok_sized by (auto simp: wi_get_set split: if_splits)
  show "\<exists>q. wi_get (wi_set w h p) g = Some q \<and> seg_ok (seg g qs) g q" if g: "seg_zero g < length qs" for g
  proof (cases "g = h")
    case False
    then have "g < h" using g assms(6) seg_zero_mono [of h g] by (cases "g < h") auto
    then have le: "seg_zero g + seg_size g \<le> seg_zero h" by (rule seg_zero_mono)
    then have "seg g qs = seg g ps" using assms(7) seg_take [OF le, of qs] seg_take [OF le, of ps] by simp
    moreover have "seg_zero g < length ps" using le assms(5) seg_size_bounds(1) [of g] by linarith
    ultimately show ?thesis using index_ok_seg [OF assms(1)] False assms(2) by (simp add: wi_get_set)
  qed (use assms(2,3) in \<open>simp add: wi_get_set\<close>)
qed

definition cleaned :: "nat \<Rightarrow> wi_page \<Rightarrow> wi_page" where
  "cleaned L p = \<lparr>wi_pgno = take L (wi_pgno p) @ replicate (length (wi_pgno p) - L) 0, wi_hash = map (\<lambda>s. if s > L then 0 else s) (wi_hash p)\<rparr>"

lemma seg_ok_sized: "seg_ok ss h p \<Longrightarrow> page_sized h p"
  by (auto simp: seg_ok_def page_sized_def hash_okD(1))

lemma seg_ok_cleaned:
  assumes "seg_ok ss h p" "L \<le> length ss"
  shows "seg_ok (take L ss) h (cleaned L p)"
proof -
  have "length ss < HASHTABLE_NSLOT" using seg_size_bounds(3) [of h] assms(1) by (simp add: seg_ok_def)
  then show ?thesis using assms hash_ok_cleanup [of ss "wi_hash p" L] by (auto simp: seg_ok_def cleaned_def)
qed

lemma walCleanupHash_ok:
  assumes "index_ok w ps" "unat (mxFrame (hdr w)) \<le> length ps" "shm_ok env"
  shows "\<exists>w'. walCleanupHash env w = Some w' \<and> index_ok w' (take (unat (mxFrame (hdr w))) ps) \<and> remapped w w' \<and>
    length (apWiData w') = length (apWiData w) \<and>
    (\<forall>g. g \<noteq> walFramePage (unat (mxFrame (hdr w))) \<longrightarrow> wi_get w' g = wi_get w g)"
proof (cases "unat (mxFrame (hdr w)) = 0")
  case True
  then show ?thesis using assms(1) index_ok_sized by (auto simp: walCleanupHash_def index_ok_def unat_eq_zero)
next
  case False
  let ?n = "unat (mxFrame (hdr w))"
  define h where "h = walFramePage ?n"
  have z: "seg_zero h < ?n" "?n \<le> seg_zero h + seg_size h" using walFramePage_seg [of ?n] False by (simp_all add: h_def)
  then obtain p where p: "wi_get w h = Some p" "seg_ok (seg h ps) h p" using index_ok_seg [OF assms(1), of h] assms(2) by auto
  define w' where "w' = wi_set w h (cleaned (?n - seg_zero h) p)"
  have "seg h (take ?n ps) = take (?n - seg_zero h) (seg h ps)" using z by (simp add: seg_def drop_take min_def)
  moreover have "?n - seg_zero h \<le> length (seg h ps)" using z assms(2) unfolding length_seg by linarith
  ultimately have s: "seg_ok (seg h (take ?n ps)) h (cleaned (?n - seg_zero h) p)"
    using seg_ok_cleaned [OF p(2), of "?n - seg_zero h"] by simp
  have "index_ok w' (take ?n ps)"
    unfolding w'_def using assms(1,2) z by (intro index_ok_set [OF assms(1) wi_get_length [OF p(1)] s seg_ok_sized [OF s]]) auto
  moreover have "walCleanupHash env w = Some w'"
    using False p(1) by (simp add: walCleanupHash_def unat_eq_zero walHashGet_mapped w'_def cleaned_def Let_def flip: h_def)
  ultimately show ?thesis using wi_get_length [OF p(1)] by (simp add: w'_def wi_get_set flip: h_def) (simp add: wi_set_def)
qed

text \<open>A frame is entered behind the last one, or behind the last frame of the header when others were left over.\<close>

lemma append_page:
  assumes "seg_ok ss h p" "length ss < seg_size h" "P \<noteq> 0"
  shows "\<exists>iKey. append_probe (wi_hash p) (Suc (length ss)) (walHash P) = Some (Some iKey) \<and> length ss < length (wi_pgno p) \<and> iKey < length (wi_hash p) \<and>
    seg_ok (ss @ [P]) h \<lparr>wi_pgno = (wi_pgno p)[length ss := P], wi_hash = (wi_hash p)[iKey := Suc (length ss)]\<rparr>"
proof -
  have ok: "hash_ok ss (wi_hash p)" using assms(1) by (simp add: seg_ok_def)
  note h = hash_okD [OF ok]
  obtain K where K: "K < HASHTABLE_NSLOT" "slot_at (wi_hash p) (walHash P) K = 0" "\<And>k. k < K \<Longrightarrow> 0 < slot_at (wi_hash p) (walHash P) k"
    using first_free [OF h(1,4) walHash_less] by blast
  have "K \<le> length ss" using probe_length [OF ok K(3)] K(1) by simp
  then have "append_probe (wi_hash p) (Suc (length ss)) (walHash P) = Some (Some ((walHash P + K) mod HASHTABLE_NSLOT))"
    using append_probe_free [OF h(1) K(2,3), of 0 "Suc (length ss)"] walHash_less [of P] by simp
  moreover have "hash_ok (ss @ [P]) ((wi_hash p)[(walHash P + K) mod HASHTABLE_NSLOT := Suc (length ss)])"
    using assms(2) seg_size_bounds(3) [of h] by (intro hash_ok_append [OF ok K(2,3,1)]) auto
  moreover have "seg_size h - length ss = Suc (seg_size h - Suc (length ss))" using assms(2) by simp
  ultimately show ?thesis using assms(1,2) h(1) by (intro exI [of _ "(walHash P + K) mod HASHTABLE_NSLOT"]) (auto simp: seg_ok_def NSLOT_pos list_update_append)
qed

text \<open>The first steps of \<open>walIndexAppend\<close>, up to the search for a free slot.\<close>

definition append_ready :: "wal_env \<Rightarrow> Wal \<Rightarrow> nat \<Rightarrow> nat \<Rightarrow> Wal option" where
  "append_ready env w h idx = do {
     p \<leftarrow> wi_get w h;
     let w = (if idx = 1
       then wi_set w h \<lparr>wi_pgno = replicate (length (wi_pgno p)) 0, wi_hash = replicate (length (wi_hash p)) 0\<rparr> else w);
     p \<leftarrow> wi_get w h;
     old \<leftarrow> rd (wi_pgno p) (idx - 1);
     if old \<noteq> 0 then walCleanupHash env w else Some w
   }"

lemma append_ready_ok:
  assumes "index_ok w ps" "shm_ok env" "0 \<notin> set ps" "wi_get w h = Some p" "seg_zero h \<le> k" "k < seg_zero h + seg_size h"
    and "k = length ps \<or> k = unat (mxFrame (hdr w)) \<and> k \<le> length ps"
  shows "\<exists>w' q. append_ready env w h (Suc k - seg_zero h) = Some w' \<and> index_ok w' (take k ps) \<and> wi_get w' h = Some q \<and>
    seg_ok (seg h (take k ps)) h q \<and> remapped w w'"
proof (cases "k = seg_zero h")
  case True
  define q where "q = \<lparr>wi_pgno = replicate (length (wi_pgno p)) 0, wi_hash = replicate (length (wi_hash p)) 0\<rparr>"
  have sz: "length (wi_pgno p) = seg_size h" "length (wi_hash p) = HASHTABLE_NSLOT" using index_ok_sized [OF assms(1,4)] by (simp_all add: page_sized_def)
  have "seg h (take k ps) = []" using True by (simp add: seg_def)
  then have q: "seg_ok (seg h (take k ps)) h q" using sz hash_ok_empty by (simp add: q_def seg_ok_def)
  have "index_ok (wi_set w h q) (take k ps)"
    using assms(7) True by (intro index_ok_set [OF assms(1) wi_get_length [OF assms(4)] q seg_ok_sized [OF q]]) auto
  moreover have "append_ready env w h (Suc k - seg_zero h) = Some (wi_set w h q)"
    using True assms(4) wi_get_length [OF assms(4)] sz(1) seg_size_bounds(1) [of h] by (simp add: append_ready_def wi_get_set q_def)
  ultimately show ?thesis using q wi_get_length [OF assms(4)] by (simp add: wi_get_set)
next
  case False
  then have z: "seg_zero h < k" "k \<le> length ps" using assms(5,7) by auto
  then have p: "seg_ok (seg h ps) h p" using index_ok_seg [OF assms(1), of h] assms(4) by simp
  have idx: "Suc k - seg_zero h \<noteq> 1" "Suc k - seg_zero h - 1 = k - seg_zero h" using z by auto
  have len: "length (wi_pgno p) = seg_size h" using index_ok_sized [OF assms(1,4)] by (simp add: page_sized_def)
  show ?thesis
  proof (cases "k = length ps")
    case True
    have "wi_pgno p ! (k - seg_zero h) = 0" using p True assms(6) z by (simp add: seg_ok_def nth_append length_seg)
    then have "append_ready env w h (Suc k - seg_zero h) = Some w" using idx len assms(4,6) z by (simp add: append_ready_def rd_def)
    then show ?thesis using assms(1,4) p True by simp
  next
    case neq: False
    then have k: "k = unat (mxFrame (hdr w))" "k < length ps" using assms(7) by auto
    have "k - seg_zero h < length (seg h ps)" using assms(6) z k(2) unfolding length_seg by linarith
    then have "wi_pgno p ! (k - seg_zero h) = ps ! k" using p z k(2) by (simp add: seg_ok_def nth_append) (simp add: seg_def)
    then have "wi_pgno p ! (k - seg_zero h) \<noteq> 0" using assms(3) k(2) by (metis nth_mem)
    moreover have "k - seg_zero h < seg_size h" using assms(6) z by linarith
    ultimately have r: "append_ready env w h (Suc k - seg_zero h) = walCleanupHash env w" using idx len assms(4) by (simp add: append_ready_def rd_def)
    obtain w' where w': "walCleanupHash env w = Some w'" "index_ok w' (take k ps)" "remapped w w'"
      using walCleanupHash_ok [OF assms(1) _ assms(2)] k by auto
    then show ?thesis using r index_ok_seg [OF w'(2), of h] z by auto
  qed
qed

lemma walIndexAppend_ready:
  "walIndexAppend env w iFrame iPage = (let h = walFramePage iFrame in
     case walHashGet env w h of (rc, iZero, w) \<Rightarrow>
       if rc \<noteq> SQLITE_OK then Some (rc, w)
       else do {
         w \<leftarrow> append_ready env w h (iFrame - iZero);
         p \<leftarrow> wi_get w h;
         r \<leftarrow> append_probe (wi_hash p) (iFrame - iZero) (walHash iPage);
         (case r of
            None \<Rightarrow> Some (SQLITE_CORRUPT, w)
          | Some iKey \<Rightarrow> do {
              pg \<leftarrow> wr (wi_pgno p) (iFrame - iZero - 1) iPage;
              hs \<leftarrow> wr (wi_hash p) iKey ((iFrame - iZero) mod 65536);
              Some (SQLITE_OK, wi_set w h \<lparr>wi_pgno = pg, wi_hash = hs\<rparr>)
            })
       })"
  by (auto simp: walIndexAppend_def append_ready_def Let_def intro!: Option.bind_cong split: prod.splits)

lemma walIndexAppend_ok:
  assumes "index_ok w ps" "shm_ok env" "0 \<notin> set ps" "P \<noteq> 0" "k = length ps \<or> k = unat (mxFrame (hdr w)) \<and> k \<le> length ps"
  shows "\<exists>rc w'. walIndexAppend env w (Suc k) P = Some (rc, w') \<and> remapped w w' \<and> rc = fst (walHashGet env w (walFramePage (Suc k))) \<and>
    (if rc = SQLITE_OK then index_ok w' (take k ps @ [P]) else index_ok w' ps)"
proof -
  define h where "h = walFramePage (Suc k)"
  have z: "seg_zero h \<le> k" "k < seg_zero h + seg_size h" using walFramePage_seg [of "Suc k"] by (auto simp: h_def)
  obtain rc z' w1 where g: "walHashGet env w h = (rc, z', w1)" by (metis prod_cases3)
  have w1: "index_ok w1 ps" "remapped w w1"
    using index_ok_get [OF assms(1) g assms(2)] walHashGet_keeps(2) [OF g assms(2)] by auto
  show ?thesis
  proof (cases "rc = SQLITE_OK")
    case False
    then show ?thesis using g w1 by (simp add: walIndexAppend_ready flip: h_def)
  next
    case True
    obtain p where p: "wi_get w1 h = Some p" "z' = seg_zero h" using walHashGet_keeps(3) [OF g assms(2) True] by auto
    have hd: "hdr w1 = hdr w" using w1(2) by (rule remapped_fields)
    obtain w2 q where r: "append_ready env w1 h (Suc k - seg_zero h) = Some w2" "index_ok w2 (take k ps)" "wi_get w2 h = Some q"
        "seg_ok (seg h (take k ps)) h q" "remapped w1 w2"
      using append_ready_ok [OF w1(1) assms(2,3) p(1) z] assms(5) hd by auto
    let ?ss = "seg h (take k ps)"
    have k: "k \<le> length ps" "length ?ss = k - seg_zero h" using assms(5) z by (auto simp: length_seg)
    have lt: "length ?ss < seg_size h" using k(2) z by linarith
    obtain iKey where a: "append_probe (wi_hash q) (Suc (length ?ss)) (walHash P) = Some (Some iKey)" "length ?ss < length (wi_pgno q)" "iKey < length (wi_hash q)"
        "seg_ok (?ss @ [P]) h \<lparr>wi_pgno = (wi_pgno q)[length ?ss := P], wi_hash = (wi_hash q)[iKey := Suc (length ?ss)]\<rparr>"
      using append_page [OF r(4) lt assms(4)] by blast
    let ?q = "\<lparr>wi_pgno = (wi_pgno q)[length ?ss := P], wi_hash = (wi_hash q)[iKey := Suc (length ?ss)]\<rparr>"
    have idx: "Suc k - seg_zero h = Suc (length ?ss)" "Suc (length ?ss) mod 65536 = Suc (length ?ss)" using k z seg_size_bounds(2) [of h] by auto
    have app: "walIndexAppend env w (Suc k) P = Some (SQLITE_OK, wi_set w2 h ?q)"
      using g True p r a idx k(2) by (simp add: walIndexAppend_ready flip: h_def)
    have "seg h (take k ps @ [P]) = ?ss @ [P]" using k z by (simp add: seg_def min_def)
    then have "index_ok (wi_set w2 h ?q) (take k ps @ [P])"
      using a(4) k z by (intro index_ok_set [OF r(2) wi_get_length [OF r(3)]]) (auto intro: seg_ok_sized)
    moreover have "remapped w (wi_set w2 h ?q)" using remapped_trans [OF w1(2) r(5)] by simp
    moreover have "SQLITE_OK = fst (walHashGet env w (walFramePage (Suc k)))" using g True by (simp flip: h_def)
    ultimately show ?thesis using app by auto
  qed
qed

section \<open>Rolling back\<close>

lemma index_ok_data:
  assumes "index_ok w ps" "apWiData w' = apWiData w"
  shows "index_ok w' ps"
proof -
  have "wi_get w' = wi_get w" using assms(2) by (simp add: wi_get_def fun_eq_iff)
  then show ?thesis using assms(1) by (simp add: index_ok_def)
qed

lemma walFramePgno_ok:
  assumes "index_ok w ps" "0 < f" "f \<le> length ps"
  shows "walFramePgno w f = Some (ps ! (f - 1))"
proof -
  define h where "h = walFramePage f"
  have z: "seg_zero h < f" "f \<le> seg_zero h + seg_size h" using walFramePage_seg [OF assms(2)] by (simp_all add: h_def)
  then obtain p where p: "wi_get w h = Some p" "seg_ok (seg h ps) h p" using index_ok_seg [OF assms(1), of h] assms(3) by auto
  define i where "i = f - 1 - seg_zero h"
  have i: "i < seg_size h" "i < length (seg h ps)" "f - 1 = seg_zero h + i" using z assms(3) by (auto simp: i_def length_seg)
  have "wi_pgno p ! i = ps ! (f - 1)" "i < length (wi_pgno p)" using p(2) i assms(3) by (simp_all add: seg_ok_def nth_append) (simp add: seg_def)
  moreover have "(f - 1 - HASHTABLE_NPAGE_ONE) mod HASHTABLE_NPAGE = i" if "h \<noteq> 0"
  proof -
    have "f - 1 - HASHTABLE_NPAGE_ONE = (h - 1) * HASHTABLE_NPAGE + i" using i(3) that by (simp add: seg_zero_def)
    then show ?thesis using i(1) that by (simp add: seg_size_def)
  qed
  moreover have "f - 1 = i" if "h = 0" using i(3) that by (simp add: seg_zero_def)
  ultimately show ?thesis using p(1) by (simp add: walFramePgno_def Let_def flip: h_def)
qed

lemma undo_loop_ok:
  assumes "index_ok w ps" "\<forall>p. xUndo p = SQLITE_OK"
  shows "0 < f \<Longrightarrow> f + n \<le> Suc (length ps) \<Longrightarrow> undo_loop xUndo w f n = Some SQLITE_OK"
  by (induction n arbitrary: f) (simp_all add: walFramePgno_ok [OF assms(1)] assms(2))

lemma sqlite3WalUndo_ok:
  assumes "index_ok w ps" "shm_ok env" "writeLock w" "\<forall>p. xUndo p = SQLITE_OK"
    and "unat (mxFrame (aHdr0 w)) \<le> unat (mxFrame (hdr w))" "unat (mxFrame (hdr w)) \<le> length ps"
  shows "\<exists>w'. sqlite3WalUndo env xUndo w = Some (SQLITE_OK, w') \<and> remapped (w\<lparr>hdr := aHdr0 w\<rparr>) w' \<and>
    index_ok w' (if unat (mxFrame (hdr w)) = unat (mxFrame (aHdr0 w)) then ps else take (unat (mxFrame (aHdr0 w))) ps)"
proof -
  let ?w = "w\<lparr>hdr := aHdr0 w\<rparr>"
  have ok: "index_ok ?w ps" using assms(1) by (rule index_ok_data) simp
  have u: "undo_loop xUndo ?w (unat (mxFrame (aHdr0 w)) + 1) (unat (mxFrame (hdr w)) - unat (mxFrame (aHdr0 w))) = Some SQLITE_OK"
    using assms(5,6) by (intro undo_loop_ok [OF ok assms(4)]) auto
  show ?thesis
    using u assms(3,5,6) ok walCleanupHash_ok [OF ok _ assms(2)] by (auto simp: sqlite3WalUndo_def Let_def)
qed

lemma sqlite3WalSavepointUndo_ok:
  assumes "index_ok w ps" "shm_ok env" "unat (mxFrame (hdr w)) \<le> length ps" "d3 = nCkpt w"
  shows "\<exists>w'. sqlite3WalSavepointUndo env w (d0, ck, d3) = Some (SQLITE_OK, w') \<and>
    (if d0 < mxFrame (hdr w) then remapped (w\<lparr>hdr := (hdr w)\<lparr>mxFrame := d0, aFrameCksum := ck\<rparr>\<rparr>) w' \<and> index_ok w' (take (unat d0) ps)
     else w' = w)"
proof (cases "d0 < mxFrame (hdr w)")
  case True
  let ?w = "w\<lparr>hdr := (hdr w)\<lparr>mxFrame := d0, aFrameCksum := ck\<rparr>\<rparr>"
  have ok: "index_ok ?w ps" using assms(1) by (rule index_ok_data) simp
  have "unat d0 \<le> length ps" using True assms(3) by (simp add: word_less_nat_alt)
  then show ?thesis using True assms(4) walCleanupHash_ok [OF ok _ assms(2)] by (auto simp: sqlite3WalSavepointUndo_def Let_def)
qed (use assms(4) in \<open>simp add: sqlite3WalSavepointUndo_def\<close>)

section \<open>Readers and the writer\<close>

text \<open>What a writer does to the index while a reader has \<open>r\<close> frames in view: it enters frames, rolls back, changes the headers when it commits or when a
  later writer takes over after a crash. The log is not restarted in the meantime: the reader's lock prevents it.\<close>

inductive writes :: "wal_env \<Rightarrow> nat \<Rightarrow> Wal \<times> u32 list \<Rightarrow> Wal \<times> u32 list \<Rightarrow> bool" for env r s where
  writes_refl: "writes env r s s"
| writes_append: "writes env r s (w, ps) \<Longrightarrow> P \<noteq> 0 \<Longrightarrow> r \<le> k \<Longrightarrow> k = length ps \<or> k = unat (mxFrame (hdr w)) \<Longrightarrow>
    walIndexAppend env w (Suc k) P = Some (rc, w') \<Longrightarrow> writes env r s (w', if rc = SQLITE_OK then take k ps @ [P] else ps)"
| writes_hdr: "writes env r s (w, ps) \<Longrightarrow> r \<le> unat (mxFrame h) \<Longrightarrow> unat (mxFrame h) \<le> length ps \<Longrightarrow> writes env r s (w\<lparr>hdr := h\<rparr>, ps)"
| writes_shared: "writes env r s (w, ps) \<Longrightarrow> writes env r s (w\<lparr>aHdr0 := h, aHdr1 := h'\<rparr>, ps)"
| writes_undo: "writes env r s (w, ps) \<Longrightarrow> writeLock w \<Longrightarrow> \<forall>p. xUndo p = SQLITE_OK \<Longrightarrow> r \<le> unat (mxFrame (aHdr0 w)) \<Longrightarrow>
    unat (mxFrame (aHdr0 w)) < unat (mxFrame (hdr w)) \<Longrightarrow> sqlite3WalUndo env xUndo w = Some (rc, w') \<Longrightarrow>
    writes env r s (w', take (unat (mxFrame (aHdr0 w))) ps)"
| writes_savepoint: "writes env r s (w, ps) \<Longrightarrow> r \<le> unat d0 \<Longrightarrow> d0 < mxFrame (hdr w) \<Longrightarrow>
    sqlite3WalSavepointUndo env w (d0, ck, nCkpt w) = Some (rc, w') \<Longrightarrow> writes env r s (w', take (unat d0) ps)"

definition snapshot_inv :: "nat \<Rightarrow> u32 list \<Rightarrow> Wal \<times> u32 list \<Rightarrow> bool" where
  "snapshot_inv r ps0 s \<longleftrightarrow> (case s of (w, ps) \<Rightarrow>
     index_ok w ps \<and> 0 \<notin> set ps \<and> take r ps = take r ps0 \<and> r \<le> unat (mxFrame (hdr w)) \<and> unat (mxFrame (hdr w)) \<le> length ps)"

lemma snapshot_inv_writes:
  assumes "writes env r s t" "shm_ok env" "snapshot_inv r ps0 s"
  shows "snapshot_inv r ps0 t"
  using assms(1,3)
proof (induction rule: writes.induct)
  case (writes_append w ps P k rc w')
  then have inv: "index_ok w ps" "0 \<notin> set ps" "take r ps = take r ps0" "r \<le> unat (mxFrame (hdr w))" "unat (mxFrame (hdr w)) \<le> length ps"
    by (auto simp: snapshot_inv_def)
  have k: "k = length ps \<or> k = unat (mxFrame (hdr w)) \<and> k \<le> length ps" using writes_append.hyps(4) inv(5) by auto
  have w': "hdr w' = hdr w" "if rc = SQLITE_OK then index_ok w' (take k ps @ [P]) else index_ok w' ps"
    using walIndexAppend_ok [OF inv(1) assms(2) inv(2) writes_append.hyps(2) k] writes_append.hyps(5) remapped_fields(1) by auto
  have "take r (take k ps) = take r ps" "0 \<notin> set (take k ps)" "length (take k ps) = k" using writes_append.hyps(3) k inv(2) by (auto dest: in_set_takeD)
  then show ?case using w' inv writes_append.hyps(2,3) k by (auto simp: snapshot_inv_def)
next
  case (writes_undo w ps xUndo rc w')
  then have inv: "index_ok w ps" "0 \<notin> set ps" "take r ps = take r ps0" "unat (mxFrame (hdr w)) \<le> length ps" by (auto simp: snapshot_inv_def)
  obtain w1 where w1: "sqlite3WalUndo env xUndo w = Some (SQLITE_OK, w1)" "remapped (w\<lparr>hdr := aHdr0 w\<rparr>) w1" "index_ok w1 (take (unat (mxFrame (aHdr0 w))) ps)"
    using sqlite3WalUndo_ok [OF inv(1) assms(2) writes_undo.hyps(2,3) _ inv(4)] writes_undo.hyps(5) by auto
  then have "hdr w' = aHdr0 w" "index_ok w' (take (unat (mxFrame (aHdr0 w))) ps)" using writes_undo.hyps(6) remapped_fields(1) by force+
  then show ?case using inv writes_undo.hyps(4,5) by (auto simp: snapshot_inv_def min_def dest: in_set_takeD)
next
  case (writes_savepoint w ps d0 ck rc w')
  then have inv: "index_ok w ps" "0 \<notin> set ps" "take r ps = take r ps0" "unat (mxFrame (hdr w)) \<le> length ps" by (auto simp: snapshot_inv_def)
  have "mxFrame (hdr w') = d0" "index_ok w' (take (unat d0) ps)"
    using sqlite3WalSavepointUndo_ok [OF inv(1) assms(2) inv(4) refl, of d0 ck] writes_savepoint.hyps(3,4) remapped_fields(1) by force+
  moreover have "unat d0 < unat (mxFrame (hdr w))" using writes_savepoint.hyps(3) by (simp add: word_less_nat_alt)
  ultimately show ?case using inv writes_savepoint.hyps(2) by (auto simp: snapshot_inv_def min_def dest: in_set_takeD)
qed (auto simp: snapshot_inv_def elim: index_ok_data)

section \<open>Properties\<close>

text \<open>C29. A reader keeps its snapshot: whatever a writer enters, commits or rolls back in the meantime, and also when a writer dies and another one
  takes over, looking up a page gives the last of the reader's own \<open>r\<close> frames that holds it, or none, without ever missing an entry or probing for ever.\<close>

theorem snapshot_lookup:
  assumes "shm_ok env" "index_ok w0 ps0" "0 \<notin> set ps0" "r \<le> unat (mxFrame (hdr w0))" "unat (mxFrame (hdr w0)) \<le> length ps0"
    and "writes env r (w0, ps0) (w, ps)" "unat (mxFrame h) = r" "l \<noteq> 0"
  shows "sqlite3WalFindFrame env (w\<lparr>hdr := h, readLock := l\<rparr>) P = Some (SQLITE_OK, linear_find ps0 P r, w\<lparr>hdr := h, readLock := l\<rparr>)"
proof -
  have "snapshot_inv r ps0 (w0, ps0)" using assms(2-5) by (simp add: snapshot_inv_def)
  from snapshot_inv_writes [OF assms(6,1) this]
  have inv: "index_ok w ps" "take r ps = take r ps0" "r \<le> length ps" by (auto simp: snapshot_inv_def)
  have "ps ! i = ps0 ! i" if "i < r" for i using arg_cong [OF inv(2), of "\<lambda>xs. xs ! i"] that by simp
  then have "linear_find ps P r = linear_find ps0 P r" by (rule linear_find_cong)
  moreover have "index_ok (w\<lparr>hdr := h, readLock := l\<rparr>) ps" using inv(1) by (rule index_ok_data) simp
  ultimately show ?thesis using sqlite3WalFindFrame_linear [of "w\<lparr>hdr := h, readLock := l\<rparr>" ps env P] inv(3) assms(7,8) by simp
qed

definition example_env :: wal_env where
  "example_env = \<lparr>realloc_ok = \<lambda>_. True, malloc_ok = \<lambda>_. True, shm_map = \<lambda>h. (SQLITE_OK, Some (zero_page h))\<rparr>"

definition example_hdr :: "u32 \<Rightarrow> WalIndexHdr" where
  "example_hdr n = \<lparr>iVersion = 0, unused = 0, iChange = 0, isInit = 0, bigEndCksum = 0, hdr_szPage = 512, mxFrame = n, nPage = 0,
     aFrameCksum = (0, 0), aSalt = [0, 0, 0, 0, 0, 0, 0, 0], aCksum = (0, 0)\<rparr>"

definition example_wal :: Wal where
  "example_wal = \<lparr>hdr = example_hdr 0, apWiData = [], exclusiveMode = 0, rdonly = False, shm_rdonly = False, readLock = 0, writeLock = True, ckptLock = False, szPage = 512, nCkpt = 0,
     iCallback = 0, truncateOnCommit = False, mxWalSize = - 1, syncHeader = False, padToSectorBoundary = False, aHdr0 = example_hdr 0, aHdr1 = example_hdr 0, nBackfill = 0, aReadMark = []\<rparr>"

lemma example_append:
  assumes "index_ok w ps" "0 \<notin> set ps" "P \<noteq> 0" "exclusiveMode w = 0" "Suc (length ps) \<le> 4062"
  shows "\<exists>w'. walIndexAppend example_env w (Suc (length ps)) P = Some (SQLITE_OK, w') \<and> index_ok w' (ps @ [P]) \<and> remapped w w'"
proof -
  have env: "shm_ok example_env" by (simp add: shm_ok_def example_env_def page_sized_def zero_page_def seg_size_def)
  have "walFramePage (Suc (length ps)) = 0" using assms(5) by (intro walFramePage_eq) (auto simp: seg_zero_def seg_size_def walindex_sizes)
  moreover have "fst (walHashGet example_env w 0) = SQLITE_OK" using assms(4)
    by (simp add: walHashGet_def walIndexPage_def example_env_def WAL_HEAPMEMORY_MODE_def Let_def SQLITE_OK_def SQLITE_READONLY_def split: option.splits)
  ultimately show ?thesis using walIndexAppend_ok [OF assms(1) env assms(2,3), of "length ps"] by force
qed

lemma example_three: "\<exists>w. index_ok w [7, 9, 7] \<and> remapped example_wal w"
proof -
  have "index_ok example_wal []" by (simp add: index_ok_def example_wal_def wi_get_def)
  then obtain w1 where w1: "index_ok w1 [7]" "remapped example_wal w1" using example_append [of example_wal "[]" 7] by (auto simp: example_wal_def)
  then obtain w2 where w2: "index_ok w2 [7, 9]" "remapped example_wal w2"
    using example_append [of w1 "[7]" 9] remapped_fields(2) [OF w1(2)] remapped_trans by (auto simp: example_wal_def)
  then show ?thesis using example_append [of w2 "[7, 9]" 7] remapped_fields(2) [OF w2(2)] remapped_trans by (auto simp: example_wal_def)
qed

theorem snapshot_lookup_witness:
  "\<exists>w w'. index_ok w [7, 9, 7] \<and> writes example_env 2 (w, [7, 9, 7]) (w', [7, 9, 7, 9]) \<and>
    sqlite3WalFindFrame example_env (w'\<lparr>hdr := example_hdr 2, readLock := 1\<rparr>) 7 = Some (SQLITE_OK, 1, w'\<lparr>hdr := example_hdr 2, readLock := 1\<rparr>)"
proof -
  have env: "shm_ok example_env" by (simp add: shm_ok_def example_env_def page_sized_def zero_page_def seg_size_def)
  obtain w3 where w3: "index_ok w3 [7, 9, 7]" "remapped example_wal w3" using example_three by blast
  let ?w = "w3\<lparr>hdr := example_hdr 2\<rparr>"
  have ok: "index_ok ?w [7, 9, 7]" using w3(1) by (rule index_ok_data) simp
  have four: "Suc (length [7, 9, 7 :: u32]) = 4" by simp
  obtain w' where w': "walIndexAppend example_env ?w 4 9 = Some (SQLITE_OK, w')"
    unfolding four [symmetric] using example_append [OF ok, of 9] remapped_fields(2) [OF w3(2)] by (auto simp: example_wal_def)
  have "writes example_env 2 (?w, [7, 9, 7]) (w', [7, 9, 7, 9])"
    using writes_append [OF writes_refl, of 9 2 3 "[7, 9, 7]" ?w example_env SQLITE_OK w'] w' by simp
  moreover from this have "sqlite3WalFindFrame example_env (w'\<lparr>hdr := example_hdr 2, readLock := 1\<rparr>) 7 =
      Some (SQLITE_OK, linear_find [7, 9, 7] 7 2, w'\<lparr>hdr := example_hdr 2, readLock := 1\<rparr>)"
    by (intro snapshot_lookup [OF env ok]) (simp_all add: example_hdr_def)
  moreover have "linear_find [7, 9, 7] 7 2 = 1" by (simp add: numeral_2_eq_2)
  ultimately show ?thesis using ok by auto
qed

end
