(* ===== verification/WalIterator.thy ===== *)
theory WalIterator
  imports WalIndex
begin

text \<open>
  The order in which a checkpoint visits the pages of the write-ahead log (\<^verbatim>\<open>wal.c\<close>): the merge sort of the frames of a segment by page number, which
  keeps the last frame of each page, and the iterator that merges the segments. The pieces of the array that is sorted in place are lists; a merge writes the
  space of its two inputs, which are neighbours.
\<close>

section \<open>Merge sort\<close>

function walMerge :: "u32 list \<Rightarrow> nat list \<Rightarrow> nat list \<Rightarrow> nat list option" where
  "walMerge aContent aLeft aRight =
    (if aLeft = [] \<and> aRight = [] then Some []
     else do {
       left \<leftarrow> (if aLeft = [] then Some False else if aRight = [] then Some True
         else do { x \<leftarrow> rd aContent (hd aLeft); y \<leftarrow> rd aContent (hd aRight); Some (x < y) });
       let logpage = (if left then hd aLeft else hd aRight);
       let aLeft1 = (if left then tl aLeft else aLeft);
       let aRight1 = (if left then aRight else tl aRight);
       dbpage \<leftarrow> rd aContent logpage;
       aLeft2 \<leftarrow> (if aLeft1 = [] then Some [] else do { x \<leftarrow> rd aContent (hd aLeft1); Some (if x = dbpage then tl aLeft1 else aLeft1) });
       out \<leftarrow> walMerge aContent aLeft2 aRight1;
       Some (logpage # out)
     })"
  by pat_completeness auto
termination
proof (relation "measure (\<lambda>(aContent, aLeft, aRight). length aLeft + length aRight)", simp)
  fix c :: "u32 list" and ls rs :: "nat list" and b log l1 r1 d l2
  assume a: "\<not> (ls = [] \<and> rs = [])" "(if ls = [] then Some False else if rs = [] then Some True
         else rd c (hd ls) \<bind> (\<lambda>x. rd c (hd rs) \<bind> (\<lambda>y. Some (x < y)))) = Some b"
    "l1 = (if b then tl ls else ls)" "r1 = (if b then rs else tl rs)"
    "(if l1 = [] then Some [] else rd c (hd l1) \<bind> (\<lambda>x. Some (if x = d then tl l1 else l1))) = Some l2"
  have "length l2 \<le> length l1" using a(5) by (auto split: if_splits Option.bind_splits)
  moreover have "length l1 + length r1 < length ls + length rs" using a(1-4) by (cases ls; cases rs) (auto split: if_splits)
  ultimately show "((c, l2, r1), c, ls, rs) \<in> measure (\<lambda>(aContent, aLeft, aRight). length aLeft + length aRight)" by simp
qed

declare walMerge.simps [simp del]

definition nSub :: nat where "nSub = 13"

text \<open>\<^verbatim>\<open>for(iSub=0; iList & (1<<iSub); iSub++)\<close>; the argument \<open>r\<close> is \<^verbatim>\<open>iList>>iSub\<close>.\<close>

function sort_carry :: "u32 list \<Rightarrow> nat list list \<Rightarrow> nat \<Rightarrow> nat \<Rightarrow> nat list \<Rightarrow> (nat \<times> nat list list \<times> nat list) option" where
  "sort_carry aContent aSub iSub r aMerge =
    (if odd r then do {
       p \<leftarrow> rd aSub iSub;
       aMerge \<leftarrow> walMerge aContent p aMerge;
       sort_carry aContent aSub (Suc iSub) (r div 2) aMerge
     } else do {
       aSub \<leftarrow> wr aSub iSub aMerge;
       Some (iSub, aSub, aMerge)
     })"
  by pat_completeness auto
termination by (relation "measure (\<lambda>(aContent, aSub, iSub, r, aMerge). r)") (auto elim: oddE)

declare sort_carry.simps [simp del]

primrec sort_loop :: "u32 list \<Rightarrow> nat list \<Rightarrow> nat \<Rightarrow> nat \<times> nat list list \<times> nat list \<Rightarrow> (nat \<times> nat list list \<times> nat list) option" where
  "sort_loop aContent [] iList st = Some st"
| "sort_loop aContent (x # aList) iList st = (case st of (iSub, aSub, aMerge) \<Rightarrow> do {
     st \<leftarrow> sort_carry aContent aSub 0 iList [x];
     sort_loop aContent aList (Suc iList) st })"

primrec sort_finish :: "u32 list \<Rightarrow> nat list list \<Rightarrow> nat \<Rightarrow> nat \<Rightarrow> nat \<Rightarrow> nat list \<Rightarrow> nat list option" where
  "sort_finish aContent aSub nList iSub 0 aMerge = Some aMerge"
| "sort_finish aContent aSub nList iSub (Suc n) aMerge = do {
     aMerge \<leftarrow> (if odd (nList div 2 ^ iSub) then do { p \<leftarrow> rd aSub iSub; walMerge aContent p aMerge } else Some aMerge);
     sort_finish aContent aSub nList (Suc iSub) n aMerge }"

definition walMergesort :: "u32 list \<Rightarrow> nat list \<Rightarrow> nat list option" where
  "walMergesort aContent aList = do {
     (iSub, aSub, aMerge) \<leftarrow> sort_loop aContent aList 0 (0, replicate nSub [], []);
     sort_finish aContent aSub (length aList) (Suc iSub) (nSub - Suc iSub) aMerge }"

section \<open>Iterator\<close>

record WalSegment =
  iNext :: nat
  aIndex :: "nat list"
  aPgno :: "u32 list"
  iZero :: nat

record WalIterator =
  iPrior :: u32
  aSegment :: "WalSegment list"

text \<open>The loop over the segments of \<^verbatim>\<open>walIteratorInit\<close>, \<open>n\<close> of which are left.\<close>

primrec init_loop :: "wal_env \<Rightarrow> Wal \<Rightarrow> nat \<Rightarrow> nat \<Rightarrow> nat \<Rightarrow> nat \<Rightarrow> (int \<times> WalSegment list \<times> Wal) option" where
  "init_loop env w iLast nSegment i 0 = Some (SQLITE_OK, [], w)"
| "init_loop env w iLast nSegment i (Suc n) = (case walHashGet env w i of (rc, z, w) \<Rightarrow>
     if rc \<noteq> SQLITE_OK then Some (rc, [], w)
     else do {
       p \<leftarrow> wi_get w i;
       let nEntry = (if i + 1 = nSegment then iLast - z else length (wi_pgno p));
       aIndex \<leftarrow> walMergesort (wi_pgno p) [0..<nEntry];
       (rc, segs, w) \<leftarrow> init_loop env w iLast nSegment (Suc i) n;
       Some (rc, \<lparr>iNext = 0, aIndex = aIndex, aPgno = wi_pgno p, iZero = z + 1\<rparr> # segs, w)
     })"

text \<open>The iterator is allocated with room for one index per frame, and the sort has a buffer; the first two arguments say whether they could be had.\<close>

definition walIteratorInit :: "bool \<Rightarrow> bool \<Rightarrow> wal_env \<Rightarrow> Wal \<Rightarrow> (int \<times> WalIterator \<times> Wal) option" where
  "walIteratorInit alloc tmp env w = (let iLast = unat (mxFrame (hdr w)); nSegment = walFramePage iLast + 1 in
     if \<not> alloc \<or> \<not> tmp then Some (SQLITE_NOMEM, \<lparr>iPrior = 0, aSegment = []\<rparr>, w)
     else do {
       (rc, segs, w) \<leftarrow> init_loop env w iLast nSegment 0 nSegment;
       Some (rc, \<lparr>iPrior = 0, aSegment = segs\<rparr>, w)
     })"

text \<open>Skipping the entries of a segment that are not above \<open>iMin\<close>; the new \<^verbatim>\<open>iNext\<close> and the page and index found there.\<close>

function segment_skip :: "WalSegment \<Rightarrow> u32 \<Rightarrow> nat \<Rightarrow> (nat \<times> (u32 \<times> nat) option) option" where
  "segment_skip s iMin k =
    (if k < length (aIndex s) then do {
       x \<leftarrow> rd (aIndex s) k;
       iPg \<leftarrow> rd (aPgno s) x;
       if iPg > iMin then Some (k, Some (iPg, x)) else segment_skip s iMin (Suc k)
     } else Some (k, None))"
  by pat_completeness auto
termination by (relation "measure (\<lambda>(s, iMin, k). length (aIndex s) - k)") auto

declare segment_skip.simps [simp del]

text \<open>The segments are visited from the last to the first.\<close>

primrec next_loop :: "WalSegment list \<Rightarrow> u32 \<Rightarrow> u32 \<times> nat \<Rightarrow> (WalSegment list \<times> u32 \<times> nat) option" where
  "next_loop [] iMin best = Some ([], best)"
| "next_loop (s # ss) iMin best = do {
     (ss, iRet, iFrame) \<leftarrow> next_loop ss iMin best;
     (k, found) \<leftarrow> segment_skip s iMin (iNext s);
     let best = (case found of
         Some (iPg, x) \<Rightarrow> if iPg < iRet then (iPg, iZero s + x) else (iRet, iFrame)
       | None \<Rightarrow> (iRet, iFrame));
     Some (s\<lparr>iNext := k\<rparr> # ss, best) }"

text \<open>The result is the page and the frame, or nothing at the end.\<close>

definition walIteratorNext :: "WalIterator \<Rightarrow> (WalIterator \<times> (u32 \<times> nat) option) option" where
  "walIteratorNext p = do {
     (ss, iRet, iFrame) \<leftarrow> next_loop (aSegment p) (iPrior p) (0xFFFFFFFF, 0);
     Some (\<lparr>iPrior = iRet, aSegment = ss\<rparr>, if iRet = 0xFFFFFFFF then None else Some (iRet, iFrame)) }"

section \<open>Merging\<close>

definition strict :: "u32 list \<Rightarrow> nat list \<Rightarrow> bool" where
  "strict c xs \<longleftrightarrow> sorted_wrt (\<lambda>i j. c ! i < c ! j) xs \<and> (\<forall>i \<in> set xs. i < length c)"

lemma strict_Cons: "strict c (x # xs) \<longleftrightarrow> (\<forall>i \<in> set xs. c ! x < c ! i) \<and> x < length c \<and> strict c xs"
  by (auto simp: strict_def)

lemma walMerge_Nil: "walMerge c [] [] = Some []"
  by (simp add: walMerge.simps)

lemma walMerge_left:
  assumes "strict c (l # ls)" "rs = [] \<or> c ! l < c ! hd rs \<and> hd rs < length c"
  shows "walMerge c (l # ls) rs = map_option ((#) l) (walMerge c ls rs)"
proof -
  have "(if ls = [] then Some [] else do { x \<leftarrow> rd c (hd ls); Some (if x = c ! l then tl ls else ls) }) = Some ls"
    using assms(1) by (cases ls) (auto simp: strict_Cons)
  then show ?thesis using assms by (subst walMerge.simps) (auto simp: strict_Cons map_conv_bind_option o_def)
qed

lemma walMerge_right:
  assumes "strict c ls" "r < length c" "ls = [] \<or> c ! r \<le> c ! hd ls"
  shows "walMerge c ls (r # rs) = map_option ((#) r) (walMerge c (if ls \<noteq> [] \<and> c ! hd ls = c ! r then tl ls else ls) rs)"
  using assms by (subst walMerge.simps) (cases ls; auto simp: strict_Cons not_less map_conv_bind_option o_def)

lemma strict_tl: "strict c xs \<Longrightarrow> strict c (tl xs)"
  by (cases xs) (auto simp: strict_Cons)

lemma walMerge_merges:
  assumes "strict c ls" "strict c rs"
  shows "\<exists>out. walMerge c ls rs = Some out \<and> strict c out \<and> set out = set rs \<union> {l \<in> set ls. \<forall>r \<in> set rs. c ! r \<noteq> c ! l}"
  using assms
proof (induction "length ls + length rs" arbitrary: ls rs rule: less_induct)
  case less
  show ?case
  proof (cases "ls = [] \<and> rs = []")
    case False
    show ?thesis
    proof (cases "ls \<noteq> [] \<and> (rs = [] \<or> c ! hd ls < c ! hd rs)")
      case True
      then obtain l ls' where l: "ls = l # ls'" by (cases ls) auto
      obtain out where out: "walMerge c ls' rs = Some out" "strict c out" "set out = set rs \<union> {l \<in> set ls'. \<forall>r \<in> set rs. c ! r \<noteq> c ! l}"
        using less.hyps [of ls' rs] less.prems by (auto simp: l strict_Cons)
      have lt: "c ! l < c ! r" if "r \<in> set rs" for r using that True less.prems(2) by (cases rs) (auto simp: l strict_Cons intro: less_trans)
      have "walMerge c ls rs = Some (l # out)" using walMerge_left [of c l ls' rs] less.prems True out(1) by (cases rs) (auto simp: l strict_Cons)
      moreover have "strict c (l # out)" using out(2,3) lt less.prems(1) by (auto simp: l strict_Cons)
      ultimately show ?thesis using out(3) lt by (fastforce simp: l)
    next
      case right: False
      with False obtain r rs' where r: "rs = r # rs'" by (cases rs) auto
      define ls2 where "ls2 = (if ls \<noteq> [] \<and> c ! hd ls = c ! r then tl ls else ls)"
      have s: "strict c ls2" "length ls2 \<le> length ls" using less.prems(1) strict_tl by (auto simp: ls2_def)
      then obtain out where out: "walMerge c ls2 rs' = Some out" "strict c out" "set out = set rs' \<union> {l \<in> set ls2. \<forall>r \<in> set rs'. c ! r \<noteq> c ! l}"
        using less.hyps [of ls2 rs'] less.prems(2) by (auto simp: r strict_Cons)
      have ge: "ls = [] \<or> c ! r \<le> c ! hd ls" using right by (auto simp: r not_less)
      have ls2: "set ls2 = {l \<in> set ls. c ! r \<noteq> c ! l} \<and> (\<forall>l \<in> set ls2. c ! r < c ! l)"
      proof (cases ls)
        case (Cons a list)
        have lt: "c ! a < c ! l" if "l \<in> set list" for l using less.prems(1) that by (simp add: Cons strict_Cons)
        show ?thesis
        proof (cases "c ! a = c ! r")
          case True
          then show ?thesis using lt by (force simp: ls2_def Cons)
        next
          case False
          then have "c ! r < c ! a" using ge by (simp add: Cons)
          moreover from this have "c ! r < c ! l" if "l \<in> set list" for l using lt [OF that] by (rule less_trans)
          ultimately show ?thesis by (force simp: ls2_def Cons)
        qed
      qed (simp add: ls2_def)
      have "walMerge c ls rs = Some (r # out)" using walMerge_right [OF less.prems(1) _ ge, of rs'] less.prems(2) out(1) by (simp add: r strict_Cons ls2_def)
      moreover have "strict c (r # out)" using out(2,3) ls2 less.prems(2) by (auto simp: r strict_Cons)
      ultimately show ?thesis using out(3) ls2 by (fastforce simp: r)
    qed
  qed (simp add: walMerge_Nil strict_def)
qed

text \<open>The frames between \<open>a\<close> and \<open>b\<close> that are the last ones of their pages, in the order of the pages.\<close>

definition latest :: "u32 list \<Rightarrow> nat \<Rightarrow> nat \<Rightarrow> nat set" where
  "latest c a b = {i. a \<le> i \<and> i < b \<and> (\<forall>j. i < j \<and> j < b \<longrightarrow> c ! j \<noteq> c ! i)}"

definition block :: "u32 list \<Rightarrow> nat \<Rightarrow> nat \<Rightarrow> nat list \<Rightarrow> bool" where
  "block c a b xs \<longleftrightarrow> strict c xs \<and> set xs = latest c a b"

lemma latest_keys: "(\<exists>i \<in> latest c a b. c ! i = x) \<longleftrightarrow> (\<exists>i. a \<le> i \<and> i < b \<and> c ! i = x)"
proof
  assume ex: "\<exists>i. a \<le> i \<and> i < b \<and> c ! i = x"
  define S where "S = {i. a \<le> i \<and> i < b \<and> c ! i = x}"
  have S: "finite S" "S \<noteq> {}" using ex by (auto simp: S_def intro: finite_subset [of _ "{..<b}"])
  obtain m where m: "m \<in> S" "\<And>j. j \<in> S \<Longrightarrow> j \<le> m" using Max_in [OF S] Max_ge [OF S(1)] by blast
  have "c ! j \<noteq> c ! m" if "m < j" "j < b" for j using m(2) [of j] m(1) that by (auto simp: S_def)
  then have "m \<in> latest c a b \<and> c ! m = x" using m(1) by (auto simp: latest_def S_def)
  then show "\<exists>i \<in> latest c a b. c ! i = x" by blast
qed (auto simp: latest_def)

lemma latest_split:
  assumes "a \<le> m" "m \<le> b"
  shows "latest c a b = latest c m b \<union> {l \<in> latest c a m. \<forall>r \<in> latest c m b. c ! r \<noteq> c ! l}"
proof -
  have k: "(\<forall>r \<in> latest c m b. c ! r \<noteq> x) \<longleftrightarrow> (\<forall>j. m \<le> j \<and> j < b \<longrightarrow> c ! j \<noteq> x)" for x using latest_keys [of c m b x] by blast
  show ?thesis unfolding k using assms by (auto simp: latest_def) (metis not_less)+
qed

lemma walMerge_block:
  assumes "block c a m ls" "block c m b rs" "a \<le> m" "m \<le> b"
  shows "\<exists>out. walMerge c ls rs = Some out \<and> block c a b out"
  using walMerge_merges [of c ls rs] assms by (auto simp: block_def latest_split [OF assms(3,4)])

section \<open>Sorting\<close>

text \<open>The part of the first \<open>n\<close> frames that belongs to bit \<open>b\<close> of \<open>n\<close>: it is empty when the bit is not set.\<close>

definition lo :: "nat \<Rightarrow> nat \<Rightarrow> nat" where
  "lo n b = n div 2 ^ b * 2 ^ b"

lemma div_pow_Suc: "n div 2 ^ Suc b = n div 2 ^ b div (2 :: nat)"
  by (metis div_mult2_eq power_Suc2)

lemma lo_Suc: "lo n (Suc b) = (if odd (n div 2 ^ b) then lo n b - 2 ^ b else lo n b)" "lo n (Suc b) \<le> lo n b"
proof -
  have "m div 2 * 2 = m - (if odd m then 1 else 0)" for m :: nat by presburger
  then have "n div 2 ^ b div 2 * 2 * 2 ^ b = (n div 2 ^ b - (if odd (n div 2 ^ b) then 1 else 0)) * 2 ^ b" by simp
  then show "lo n (Suc b) = (if odd (n div 2 ^ b) then lo n b - 2 ^ b else lo n b)"
    by (simp add: lo_def div_pow_Suc mult.assoc diff_mult_distrib del: power_Suc) (simp add: mult.assoc)
  then show "lo n (Suc b) \<le> lo n b" by simp
qed

definition subs_ok :: "u32 list \<Rightarrow> nat \<Rightarrow> nat list list \<Rightarrow> bool" where
  "subs_ok c n aSub \<longleftrightarrow> length aSub = nSub \<and> (\<forall>b < nSub. odd (n div 2 ^ b) \<longrightarrow> block c (lo n (Suc b)) (lo n b) (aSub ! b))"

lemma block_single: "n < length c \<Longrightarrow> block c n (Suc n) [n]"
  by (auto simp: block_def strict_def latest_def)

text \<open>The trailing ones of \<open>n\<close> are merged away; \<open>b\<close> is the bit that becomes set.\<close>

lemma sort_carry_ok:
  assumes "subs_ok c n aSub" "n < 2 ^ (nSub - 1)" "n < length c"
  shows "i < nSub \<Longrightarrow> n mod 2 ^ i = 2 ^ i - 1 \<Longrightarrow> block c (lo n i) (Suc n) aMerge \<Longrightarrow>
    \<exists>b aMerge'. sort_carry c aSub i (n div 2 ^ i) aMerge = Some (b, aSub[b := aMerge'], aMerge') \<and> b < nSub \<and> even (n div 2 ^ b) \<and>
      n mod 2 ^ b = 2 ^ b - 1 \<and> block c (lo n b) (Suc n) aMerge'"
proof (induction "nSub - i" arbitrary: i aMerge rule: less_induct)
  case less
  have len: "length aSub = nSub" using assms(1) by (simp add: subs_ok_def)
  show ?case
  proof (cases "odd (n div 2 ^ i)")
    case True
    have i: "Suc i < nSub"
    proof (rule ccontr)
      assume "\<not> ?thesis"
      then have "i = nSub - 1" using less.prems(1) by simp
      then show False using True assms(2) by simp
    qed
    have "block c (lo n (Suc i)) (lo n i) (aSub ! i)" using assms(1) True less.prems(1) by (simp add: subs_ok_def)
    moreover have "lo n i \<le> Suc n" by (simp add: lo_def) (metis le_SucI div_times_less_eq_dividend)
    ultimately obtain m where m: "walMerge c (aSub ! i) aMerge = Some m" "block c (lo n (Suc i)) (Suc n) m"
      using walMerge_block [OF _ less.prems(3)] lo_Suc(2) by blast
    have "n mod 2 ^ Suc i = 2 ^ i * (n div 2 ^ i mod 2) + n mod 2 ^ i" by (metis mod_mult2_eq power_Suc2)
    then have "n mod 2 ^ Suc i = 2 ^ Suc i - 1" using True less.prems(2) by (simp add: odd_iff_mod_2_eq_one)
    moreover have "nSub - Suc i < nSub - i" using i by simp
    ultimately obtain b aMerge' where
      "sort_carry c aSub (Suc i) (n div 2 ^ Suc i) m = Some (b, aSub[b := aMerge'], aMerge')" "b < nSub" "even (n div 2 ^ b)"
      "n mod 2 ^ b = 2 ^ b - 1" "block c (lo n b) (Suc n) aMerge'" using less.hyps i m(2) by blast
    moreover have "sort_carry c aSub i (n div 2 ^ i) aMerge = sort_carry c aSub (Suc i) (n div 2 ^ Suc i) m"
      using True m(1) len less.prems(1) by (subst sort_carry.simps) (simp add: div_pow_Suc del: power_Suc)
    ultimately show ?thesis by auto
  next
    case False
    then show ?thesis using less.prems len by (subst sort_carry.simps) auto
  qed
qed

text \<open>The number of frames goes up by one.\<close>

lemma div_Suc_low:
  assumes "n mod 2 ^ b = 2 ^ b - 1"
  shows "Suc n div 2 ^ b = Suc (n div 2 ^ b)" "Suc n = lo n b + 2 ^ b"
proof -
  have "n = n div 2 ^ b * 2 ^ b + (2 ^ b - 1)" using assms div_mult_mod_eq [of n "2 ^ b"] by simp
  moreover have "0 < (2 :: nat) ^ b" by simp
  ultimately have s: "Suc n = Suc (n div 2 ^ b) * 2 ^ b" unfolding mult_Suc by linarith
  then show "Suc n div 2 ^ b = Suc (n div 2 ^ b)" by (metis div_mult_self_is_m zero_less_numeral zero_less_power)
  show "Suc n = lo n b + 2 ^ b" using s by (simp add: lo_def)
qed

lemma div_Suc_high:
  assumes "n mod 2 ^ b = 2 ^ b - 1" "even (n div 2 ^ b)"
  shows "Suc n div 2 ^ (Suc b + d) = n div 2 ^ (Suc b + d)"
proof -
  have "Suc n div 2 ^ Suc b = n div 2 ^ Suc b" using div_Suc_low(1) [OF assms(1)] assms(2) unfolding div_pow_Suc by simp
  then show ?thesis by (simp only: power_add div_mult2_eq)
qed

lemma div_Suc_below:
  assumes "n mod 2 ^ b = 2 ^ b - 1" "a < b"
  shows "even (Suc n div 2 ^ a)"
proof -
  have "Suc n = Suc (n div 2 ^ b) * 2 ^ b" using div_Suc_low(2) [OF assms(1)] by (simp add: lo_def)
  also have "\<dots> = Suc (n div 2 ^ b) * 2 ^ (b - a) * 2 ^ a" using assms(2) by (simp only: mult.assoc power_add [symmetric]) simp
  finally have "Suc n div 2 ^ a = Suc (n div 2 ^ b) * 2 ^ (b - a)" by simp
  then show ?thesis using assms(2) by simp
qed

lemma subs_ok_Suc:
  assumes "subs_ok c n aSub" "b < nSub" "even (n div 2 ^ b)" "n mod 2 ^ b = 2 ^ b - 1" "block c (lo n b) (Suc n) aMerge"
  shows "subs_ok c (Suc n) (aSub[b := aMerge])" "lo (Suc n) b = Suc n" "lo (Suc n) (Suc b) = lo n b"
proof -
  note s = div_Suc_low [OF assms(4)]
  show 1: "lo (Suc n) b = Suc n" using s by (simp add: lo_def)
  show 2: "lo (Suc n) (Suc b) = lo n b" using 1 s assms(3) lo_Suc(1) [of "Suc n" b] by simp
  have "block c (lo (Suc n) (Suc a)) (lo (Suc n) a) (aSub[b := aMerge] ! a)" if "a < nSub" "odd (Suc n div 2 ^ a)" for a
  proof (cases a b rule: linorder_cases)
    case less
    then show ?thesis using div_Suc_below [OF assms(4) less] that(2) by simp
  next
    case equal
    then show ?thesis using 1 2 assms(1,2,5) by (simp add: subs_ok_def)
  next
    case greater
    then obtain d where d: "a = Suc b + d" by (metis less_iff_Suc_add add_Suc)
    have "Suc n div 2 ^ a = n div 2 ^ a" "Suc n div 2 ^ Suc a = n div 2 ^ Suc a"
      using div_Suc_high [OF assms(4,3), of d] div_Suc_high [OF assms(4,3), of "Suc d"] d by (simp_all del: power_Suc)
    then show ?thesis using assms(1) that greater by (simp add: subs_ok_def lo_def del: power_Suc)
  qed
  then show "subs_ok c (Suc n) (aSub[b := aMerge])" using assms(1) by (simp add: subs_ok_def)
qed

definition sort_state :: "u32 list \<Rightarrow> nat \<Rightarrow> nat \<times> nat list list \<times> nat list \<Rightarrow> bool" where
  "sort_state c n st \<longleftrightarrow> (case st of (iSub, aSub, aMerge) \<Rightarrow>
     subs_ok c n aSub \<and> (0 < n \<longrightarrow> iSub < nSub \<and> lo n iSub = n \<and> block c (lo n (Suc iSub)) n aMerge))"

lemma sort_loop_ok:
  "n + m \<le> length c \<Longrightarrow> n + m \<le> 2 ^ (nSub - 1) \<Longrightarrow> sort_state c n st \<Longrightarrow>
    \<exists>st'. sort_loop c [n..<n + m] n st = Some st' \<and> sort_state c (n + m) st'"
proof (induction m arbitrary: n st)
  case (Suc m)
  obtain iSub aSub aMerge where st: "st = (iSub, aSub, aMerge)" by (cases st)
  have sub: "subs_ok c n aSub" "n < 2 ^ (nSub - 1)" "n < length c" using Suc.prems by (auto simp: st sort_state_def)
  obtain b aMerge' where b: "sort_carry c aSub 0 n [n] = Some (b, aSub[b := aMerge'], aMerge')" "b < nSub" "even (n div 2 ^ b)"
      "n mod 2 ^ b = 2 ^ b - 1" "block c (lo n b) (Suc n) aMerge'"
    using sort_carry_ok [OF sub, of 0 "[n]"] block_single [OF sub(3)] by (auto simp: nSub_def lo_def)
  note s = subs_ok_Suc [OF sub(1) b(2-5)]
  have "sort_state c (Suc n) (b, aSub[b := aMerge'], aMerge')" using s b(2,5) by (simp add: sort_state_def)
  from Suc.IH [OF _ _ this] Suc.prems obtain st' where "sort_loop c [Suc n..<Suc n + m] (Suc n) (b, aSub[b := aMerge'], aMerge') = Some st'" "sort_state c (Suc n + m) st'"
    by auto
  then show ?case using b(1) by (simp add: st upt_rec)
qed simp

lemma sort_finish_ok:
  assumes "subs_ok c n aSub"
  shows "i + k = nSub \<Longrightarrow> block c (lo n i) n aMerge \<Longrightarrow> \<exists>out. sort_finish c aSub n i k aMerge = Some out \<and> block c (lo n nSub) n out"
proof (induction k arbitrary: i aMerge)
  case (Suc k)
  have len: "length aSub = nSub" using assms by (simp add: subs_ok_def)
  have le: "lo n i \<le> n" by (simp add: lo_def)
  obtain m where "(if odd (n div 2 ^ i) then do { p \<leftarrow> rd aSub i; walMerge c p aMerge } else Some aMerge) = Some m" "block c (lo n (Suc i)) n m"
  proof (cases "odd (n div 2 ^ i)")
    case True
    then have "block c (lo n (Suc i)) (lo n i) (aSub ! i)" using assms Suc.prems(1) by (simp add: subs_ok_def)
    from walMerge_block [OF this Suc.prems(2) lo_Suc(2) le] show thesis using that True len Suc.prems(1) by auto
  next
    case False
    then show thesis using that Suc.prems(2) lo_Suc(1) [of n i] by simp
  qed
  then show ?case using Suc.IH [of "Suc i" m] Suc.prems(1) by auto
qed simp

lemma walMergesort_ok:
  assumes "0 < n" "n \<le> length c" "n \<le> 4096"
  shows "\<exists>out. walMergesort c [0..<n] = Some out \<and> block c 0 n out"
proof -
  have "sort_state c 0 (0, replicate nSub [], [])" by (simp add: sort_state_def subs_ok_def)
  then obtain iSub aSub aMerge where st: "sort_loop c [0..<n] 0 (0, replicate nSub [], []) = Some (iSub, aSub, aMerge)" "sort_state c n (iSub, aSub, aMerge)"
    using sort_loop_ok [of 0 n c "(0, replicate nSub [], [])"] assms(2,3) by (auto simp: nSub_def)
  then have s: "subs_ok c n aSub" "iSub < nSub" "block c (lo n (Suc iSub)) n aMerge" using assms(1) by (auto simp: sort_state_def)
  have "lo n nSub = 0" using assms(3) by (simp add: lo_def nSub_def)
  then show ?thesis using sort_finish_ok [OF s(1), of "Suc iSub" "nSub - Suc iSub" aMerge] s st(1) by (auto simp: walMergesort_def)
qed

section \<open>The iterator\<close>

text \<open>Segment \<open>i\<close> of an iterator over the first \<open>n\<close> frames, \<open>len\<close> of which it has; the entries it has passed are not above \<open>m\<close>.\<close>

definition seg_len :: "nat \<Rightarrow> nat \<Rightarrow> nat" where
  "seg_len n i = min (seg_size i) (n - seg_zero i)"

definition segment_ok :: "u32 list \<Rightarrow> nat \<Rightarrow> u32 \<Rightarrow> nat \<Rightarrow> WalSegment \<Rightarrow> bool" where
  "segment_ok ps n m i s \<longleftrightarrow> seg_len n i \<le> length (aPgno s) \<and> (\<forall>j < seg_len n i. aPgno s ! j = ps ! (seg_zero i + j)) \<and>
     block (aPgno s) 0 (seg_len n i) (aIndex s) \<and> iZero s = seg_zero i + 1 \<and>
     (\<forall>k < iNext s. k < length (aIndex s) \<longrightarrow> aPgno s ! (aIndex s ! k) \<le> m)"

text \<open>The smallest page above \<open>m\<close> in the frames after \<open>z\<close> up to \<open>n\<close>, and its last frame.\<close>

definition next_page :: "u32 list \<Rightarrow> nat \<Rightarrow> nat \<Rightarrow> u32 \<Rightarrow> u32 \<times> nat \<Rightarrow> bool" where
  "next_page ps z n m best \<longleftrightarrow> (case best of (r, f) \<Rightarrow>
     if r = 0xFFFFFFFF then \<forall>g. z < g \<and> g \<le> n \<longrightarrow> ps ! (g - 1) \<le> m
     else z < f \<and> f \<le> n \<and> ps ! (f - 1) = r \<and> m < r \<and> (\<forall>g. z < g \<and> g \<le> n \<and> m < ps ! (g - 1) \<longrightarrow> r \<le> ps ! (g - 1)) \<and>
       (\<forall>g. f < g \<and> g \<le> n \<longrightarrow> ps ! (g - 1) \<noteq> r))"

lemma segment_skip_ok:
  assumes "strict c xs" "c = aPgno s" "xs = aIndex s" "\<forall>j < k. j < length xs \<longrightarrow> c ! (xs ! j) \<le> m"
  shows "\<exists>k' found. segment_skip s m k = Some (k', found) \<and> (\<forall>j < k'. j < length xs \<longrightarrow> c ! (xs ! j) \<le> m) \<and>
    (case found of None \<Rightarrow> \<forall>x \<in> set xs. c ! x \<le> m
     | Some (pg, x) \<Rightarrow> x \<in> set xs \<and> c ! x = pg \<and> m < pg \<and> (\<forall>y \<in> set xs. m < c ! y \<longrightarrow> pg \<le> c ! y))"
  using assms(4)
proof (induction "length xs - k" arbitrary: k rule: less_induct)
  case less
  show ?case
  proof (cases "k < length xs")
    case True
    have x: "rd xs k = Some (xs ! k)" "rd c (xs ! k) = Some (c ! (xs ! k))" using True assms(1) by (simp_all add: strict_def)
    show ?thesis
    proof (cases "c ! (xs ! k) > m")
      case above: True
      have "c ! (xs ! k) \<le> c ! y" if y: "y \<in> set xs" "m < c ! y" for y
      proof -
        obtain j where j: "j < length xs" "y = xs ! j" using y(1) by (auto simp: in_set_conv_nth)
        then have "\<not> j < k" using less.prems y(2) by fastforce
        then show ?thesis using j assms(1) True sorted_wrt_nth_less [of "\<lambda>i j. c ! i < c ! j" xs k j]
          by (cases "j = k") (auto simp: strict_def)
      qed
      moreover have "segment_skip s m k = Some (k, Some (c ! (xs ! k), xs ! k))"
        using x above True assms(2,3) by (subst segment_skip.simps) simp
      ultimately show ?thesis using less.prems above True by (intro exI [of _ k] exI [of _ "Some (c ! (xs ! k), xs ! k)"]) simp
    next
      case below: False
      have "segment_skip s m k = segment_skip s m (Suc k)" using x below True assms(2,3) by (subst segment_skip.simps) simp
      moreover have "\<forall>j < Suc k. j < length xs \<longrightarrow> c ! (xs ! j) \<le> m" using less.prems below by (auto simp: less_Suc_eq)
      ultimately show ?thesis using less.hyps [of "Suc k"] True by simp
    qed
  next
    case False
    then have "segment_skip s m k = Some (k, None)" using assms(3) by (subst segment_skip.simps) simp
    then show ?thesis using less.prems False by (auto simp: in_set_conv_nth)
  qed
qed

lemma u32_le_top: "(x :: u32) \<le> 0xFFFFFFFF"
  using uint_lt2p [of x] by (simp add: word_le_def)

text \<open>A segment in front of the others.\<close>

lemma next_page_segment:
  assumes s: "segment_ok ps n m i s" and n: "seg_zero i < n" "n \<le> length ps" and top: "0xFFFFFFFF \<notin> set ps"
    and rest: "next_page ps (seg_zero i + seg_len n i) n m (r, f)"
    and found: "case found of None \<Rightarrow> \<forall>x \<in> set (aIndex s). aPgno s ! x \<le> m
     | Some (pg, x) \<Rightarrow> x \<in> set (aIndex s) \<and> aPgno s ! x = pg \<and> m < pg \<and> (\<forall>y \<in> set (aIndex s). m < aPgno s ! y \<longrightarrow> pg \<le> aPgno s ! y)"
  shows "next_page ps (seg_zero i) n m (case found of Some (pg, x) \<Rightarrow> if pg < r then (pg, iZero s + x) else (r, f) | None \<Rightarrow> (r, f))"
proof -
  let ?z = "seg_zero i" and ?l = "seg_len n i"
  have eq: "aPgno s ! j = ps ! (?z + j)" if "j < ?l" for j using s that by (simp add: segment_ok_def)
  have lat: "set (aIndex s) = latest (aPgno s) 0 ?l" using s by (simp add: segment_ok_def block_def)
  have key: "\<exists>y \<in> set (aIndex s). aPgno s ! y = ps ! (g - 1)" if "?z < g" "g \<le> ?z + ?l" for g
  proof -
    have "aPgno s ! (g - 1 - ?z) = ps ! (g - 1)" "g - 1 - ?z < ?l" using eq [of "g - 1 - ?z"] that by auto
    then show ?thesis unfolding lat latest_keys by auto
  qed
  have len: "?z + ?l \<le> n" using n(1) by (auto simp: seg_len_def)
  show ?thesis
  proof (cases found)
    case None
    then have "ps ! (g - 1) \<le> m" if "?z < g" "g \<le> ?z + ?l" for g using key [OF that] found by auto
    then show ?thesis using rest None len by (auto simp: next_page_def split: if_splits) (metis not_le)+
  next
    case (Some p)
    obtain pg x where p: "p = (pg, x)" by (cases p)
    have x: "x \<in> set (aIndex s)" "aPgno s ! x = pg" "m < pg" "\<And>y. y \<in> set (aIndex s) \<Longrightarrow> m < aPgno s ! y \<Longrightarrow> pg \<le> aPgno s ! y"
      using found by (auto simp: Some p)
    have xl: "x < ?l" "\<And>j. x < j \<Longrightarrow> j < ?l \<Longrightarrow> aPgno s ! j \<noteq> pg" using x(1,2) by (auto simp: lat latest_def)
    have pgx: "ps ! (?z + x) = pg" using eq [OF xl(1)] x(2) by simp
    have "pg \<in> set ps" using pgx xl(1) len n(2) by (metis add_strict_left_mono less_le_trans nth_mem)
    then have ntop: "pg \<noteq> 0xFFFFFFFF" using top by blast
    have least: "pg \<le> ps ! (g - 1)" if "?z < g" "g \<le> ?z + ?l" "m < ps ! (g - 1)" for g using key [OF that(1,2)] x(4) that(3) by metis
    have later: "ps ! (g - 1) \<noteq> pg" if "?z + x + 1 < g" "g \<le> ?z + ?l" for g
      using xl(2) [of "g - 1 - ?z"] eq [of "g - 1 - ?z"] that by auto
    show ?thesis
    proof (cases "pg < r")
      case True
      have "ps ! (g - 1) \<noteq> pg \<and> (m < ps ! (g - 1) \<longrightarrow> pg \<le> ps ! (g - 1))" if "?z + ?l < g" "g \<le> n" for g
        using rest that True x(3) by (auto simp: next_page_def split: if_splits)
      then have "(m < ps ! (g - 1) \<longrightarrow> pg \<le> ps ! (g - 1)) \<and> (?z + x + 1 < g \<longrightarrow> ps ! (g - 1) \<noteq> pg)" if "?z < g" "g \<le> n" for g
        using least later that by (cases "g \<le> ?z + ?l") auto
      then show ?thesis using True ntop x(3) pgx xl(1) len s by (auto simp: Some p next_page_def segment_ok_def)
    next
      case False
      moreover have "r \<noteq> 0xFFFFFFFF" using False ntop u32_le_top [of pg] by auto
      moreover have "r \<le> ps ! (g - 1)" if "?z < g" "g \<le> ?z + ?l" "m < ps ! (g - 1)" for g using least [OF that] False by simp
      ultimately show ?thesis using rest by (auto simp: Some p next_page_def) (metis not_le)
    qed
  qed
qed

lemma next_loop_ok:
  assumes "n \<le> length ps" "0xFFFFFFFF \<notin> set ps"
  shows "(\<And>j. j < length ss \<Longrightarrow> segment_ok ps n m (i + j) (ss ! j)) \<Longrightarrow> (ss \<noteq> [] \<Longrightarrow> seg_zero (i + length ss - 1) < n) \<Longrightarrow>
    n \<le> seg_zero (i + length ss) \<Longrightarrow>
    \<exists>ss' r f. next_loop ss m (0xFFFFFFFF, 0) = Some (ss', r, f) \<and> next_page ps (seg_zero i) n m (r, f) \<and> length ss' = length ss \<and>
      (\<forall>j < length ss. segment_ok ps n m (i + j) (ss' ! j))"
proof (induction ss arbitrary: i)
  case Nil
  then show ?case by (auto simp: next_page_def)
next
  case (Cons s ss)
  have "segment_ok ps n m (Suc i + j) (ss ! j)" if "j < length ss" for j using Cons.prems(1) [of "Suc j"] that by simp
  then obtain ss' r f where IH: "next_loop ss m (0xFFFFFFFF, 0) = Some (ss', r, f)" "next_page ps (seg_zero (Suc i)) n m (r, f)" "length ss' = length ss"
      "\<forall>j < length ss. segment_ok ps n m (Suc i + j) (ss' ! j)"
    using Cons.IH [of "Suc i"] Cons.prems(2,3) by (cases ss) auto
  have s: "segment_ok ps n m i s" using Cons.prems(1) [of 0] by simp
  have z: "seg_zero i < n"
  proof (cases "ss = []")
    case False
    then have "seg_zero i + seg_size i \<le> seg_zero (i + length ss)" by (intro seg_zero_mono) simp
    then show ?thesis using Cons.prems(2) by simp
  qed (use Cons.prems(2) in simp)
  have "next_page ps (seg_zero i + seg_len n i) n m (r, f)"
  proof (cases "n \<le> seg_zero (Suc i)")
    case True
    then have "seg_zero i + seg_len n i = n" using z by (auto simp: seg_len_def seg_zero_Suc)
    then show ?thesis using IH(2) True by (auto simp: next_page_def split: if_splits)
  next
    case False
    then have "seg_zero i + seg_len n i = seg_zero (Suc i)" by (auto simp: seg_len_def seg_zero_Suc)
    then show ?thesis using IH(2) by simp
  qed
  moreover obtain k found where sk: "segment_skip s m (iNext s) = Some (k, found)" "\<forall>j < k. j < length (aIndex s) \<longrightarrow> aPgno s ! (aIndex s ! j) \<le> m"
      "case found of None \<Rightarrow> \<forall>x \<in> set (aIndex s). aPgno s ! x \<le> m
       | Some (pg, x) \<Rightarrow> x \<in> set (aIndex s) \<and> aPgno s ! x = pg \<and> m < pg \<and> (\<forall>y \<in> set (aIndex s). m < aPgno s ! y \<longrightarrow> pg \<le> aPgno s ! y)"
    using segment_skip_ok [of "aPgno s" "aIndex s" s "iNext s" m] s by (auto simp: segment_ok_def block_def)
  ultimately have "next_page ps (seg_zero i) n m (case found of Some (pg, x) \<Rightarrow> if pg < r then (pg, iZero s + x) else (r, f) | None \<Rightarrow> (r, f))"
    using next_page_segment [OF s z assms] by blast
  moreover have "segment_ok ps n m i (s\<lparr>iNext := k\<rparr>)" using s sk(2) by (simp add: segment_ok_def)
  moreover obtain r' f' where "(case found of Some (pg, x) \<Rightarrow> if pg < r then (pg, iZero s + x) else (r, f) | None \<Rightarrow> (r, f)) = (r', f')"
    by fastforce
  ultimately show ?case
    using IH sk(1) by (auto simp: nth_Cons less_Suc_eq_0_disj split: nat.split)
qed

definition iterator_ok :: "u32 list \<Rightarrow> nat \<Rightarrow> WalIterator \<Rightarrow> bool" where
  "iterator_ok ps n it \<longleftrightarrow> length (aSegment it) = Suc (walFramePage n) \<and>
     (\<forall>i < length (aSegment it). segment_ok ps n (iPrior it) i (aSegment it ! i))"

lemma segment_ok_mono: "segment_ok ps n m i s \<Longrightarrow> m \<le> m' \<Longrightarrow> segment_ok ps n m' i s"
  by (auto simp: segment_ok_def intro: order_trans)

lemma walIteratorNext_ok:
  assumes "iterator_ok ps n it" "0 < n" "n \<le> length ps" "0xFFFFFFFF \<notin> set ps"
  shows "\<exists>it' r f. walIteratorNext it = Some (it', if r = 0xFFFFFFFF then None else Some (r, f)) \<and> iPrior it' = r \<and>
    next_page ps 0 n (iPrior it) (r, f) \<and> (r \<noteq> 0xFFFFFFFF \<longrightarrow> iterator_ok ps n it')"
proof -
  have z: "seg_zero (walFramePage n) < n" "n \<le> seg_zero (Suc (walFramePage n))" using walFramePage_seg [OF assms(2)] by (simp_all add: seg_zero_Suc)
  obtain ss r f where l: "next_loop (aSegment it) (iPrior it) (0xFFFFFFFF, 0) = Some (ss, r, f)" "next_page ps (seg_zero 0) n (iPrior it) (r, f)"
      "length ss = length (aSegment it)" "\<forall>j < length (aSegment it). segment_ok ps n (iPrior it) (0 + j) (ss ! j)"
    using next_loop_ok [OF assms(3,4), of "aSegment it" "iPrior it" 0] assms(1) z by (auto simp: iterator_ok_def)
  have "iPrior it \<le> r" if "r \<noteq> 0xFFFFFFFF" using l(2) that by (auto simp: next_page_def)
  then show ?thesis using l assms(1) by (auto simp: walIteratorNext_def iterator_ok_def seg_zero_def intro: segment_ok_mono)
qed

lemma init_loop_ok:
  assumes "index_ok w ps" "0 < n" "n \<le> length ps"
  shows "i + k = Suc (walFramePage n) \<Longrightarrow> \<exists>segs. init_loop env w n (Suc (walFramePage n)) i k = Some (SQLITE_OK, segs, w) \<and> length segs = k \<and>
    (\<forall>j < k. segment_ok ps n 0 (i + j) (segs ! j))"
proof (induction k arbitrary: i)
  case (Suc k)
  have f: "seg_zero (walFramePage n) < n" "n \<le> seg_zero (walFramePage n) + seg_size (walFramePage n)" using walFramePage_seg [OF assms(2)] .
  have z: "seg_zero i < n" "i < walFramePage n \<Longrightarrow> seg_zero i + seg_size i \<le> n"
    using f(1) seg_zero_mono [of i "walFramePage n"] Suc.prems by (cases "i = walFramePage n"; simp)+
  obtain p where p: "wi_get w i = Some p" "seg_ok (seg i ps) i p" using index_ok_seg [OF assms(1), of i] z(1) assms(3) by auto
  have pl: "length (wi_pgno p) = seg_size i" using seg_ok_sized [OF p(2)] by (simp add: page_sized_def)
  have e: "(if i + 1 = Suc (walFramePage n) then n - seg_zero i else length (wi_pgno p)) = seg_len n i"
    using z f Suc.prems pl by (auto simp: seg_len_def)
  have l: "0 < seg_len n i" "seg_len n i \<le> length (wi_pgno p)" "seg_len n i \<le> 4096"
    using z(1) pl seg_size_bounds [of i] by (auto simp: seg_len_def)
  obtain out where out: "walMergesort (wi_pgno p) [0..<seg_len n i] = Some out" "block (wi_pgno p) 0 (seg_len n i) out"
    using walMergesort_ok [OF l] by blast
  obtain segs where IH: "init_loop env w n (Suc (walFramePage n)) (Suc i) k = Some (SQLITE_OK, segs, w)" "length segs = k"
      "\<forall>j < k. segment_ok ps n 0 (Suc i + j) (segs ! j)" using Suc.IH [of "Suc i"] Suc.prems by auto
  have "wi_pgno p ! j = ps ! (seg_zero i + j)" if "j < seg_len n i" for j
  proof -
    have "j < length (seg i ps)" using that assms(3) by (auto simp: seg_len_def length_seg)
    then show ?thesis using p(2) z(1) assms(3) by (simp add: seg_ok_def nth_append) (simp add: seg_def)
  qed
  then have "segment_ok ps n 0 i \<lparr>iNext = 0, aIndex = out, aPgno = wi_pgno p, iZero = seg_zero i + 1\<rparr>" using out(2) l(2) by (simp add: segment_ok_def)
  then show ?case using IH out(1) p(1) e
    by (auto simp: walHashGet_mapped Let_def nth_Cons less_Suc_eq_0_disj simp del: upt_Suc split: nat.split)
qed simp

section \<open>All pages\<close>

lemma next_loop_above: "next_loop ss m best = Some (ss', r, f) \<Longrightarrow> r = fst best \<or> m < r"
proof (induction ss arbitrary: ss' r f)
  case (Cons s ss)
  have sk: "segment_skip s m k = Some (k', Some (pg, x)) \<Longrightarrow> m < pg" for k k' pg x
    by (induction s m k rule: segment_skip.induct) (subst (asm) (2) segment_skip.simps, auto split: if_splits Option.bind_splits)
  from Cons show ?case by (fastforce split: Option.bind_splits option.splits if_splits dest: sk)
qed simp

lemma walIteratorNext_above:
  assumes "walIteratorNext it = Some (it', Some (r, f))"
  shows "iPrior it' = r" "iPrior it < r"
  using assms next_loop_above [of "aSegment it" "iPrior it" "(0xFFFFFFFF, 0)"] by (auto simp: walIteratorNext_def split: Option.bind_splits if_splits)

text \<open>Calling the iterator until it is done.\<close>

function visit_all :: "WalIterator \<Rightarrow> (u32 \<times> nat) list option" where
  "visit_all it = do {
     (it', r) \<leftarrow> walIteratorNext it;
     (case r of None \<Rightarrow> Some [] | Some x \<Rightarrow> map_option ((#) x) (visit_all it')) }"
  by pat_completeness auto
termination
proof (relation "measure (\<lambda>it. 2 ^ 32 - unat (iPrior it))", simp)
  fix it p it' r x
  assume "walIteratorNext it = Some p" "(it', r) = p" "r = Some x"
  then have "iPrior it < iPrior it'" using walIteratorNext_above [of it it' "fst x" "snd x"] by auto
  then show "(it', it) \<in> measure (\<lambda>it. 2 ^ 32 - unat (iPrior it))"
    using unsigned_less [of "iPrior it'", where ?'a = nat] by (simp add: word_less_nat_alt)
qed

declare visit_all.simps [simp del]

lemma next_page_set:
  assumes "next_page ps 0 n m (r, f)" "n \<le> length ps"
  shows "r = 0xFFFFFFFF \<Longrightarrow> {p \<in> set (take n ps). m < p} = {}"
    and "r \<noteq> 0xFFFFFFFF \<Longrightarrow> m < r \<and> f = linear_find ps r n \<and> Min {p \<in> set (take n ps). m < p} = r \<and> r \<in> set (take n ps) \<and>
      {p \<in> set (take n ps). m < p} - {r} = {p \<in> set (take n ps). r < p}"
proof -
  have idx: "\<exists>g. 0 < g \<and> g \<le> n \<and> ps ! (g - 1) = p" if "p \<in> set (take n ps)" for p
  proof -
    obtain i where "i < n" "ps ! i = p" using \<open>p \<in> set (take n ps)\<close> assms(2) by (auto simp: in_set_conv_nth)
    then show ?thesis by (intro exI [of _ "Suc i"]) simp
  qed
  show "{p \<in> set (take n ps). m < p} = {}" if r: "r = 0xFFFFFFFF"
  proof -
    have le: "ps ! (g - 1) \<le> m" if "0 < g" "g \<le> n" for g using assms(1) r that by (simp add: next_page_def)
    have "p \<le> m" if "p \<in> set (take n ps)" for p using idx [OF that] le by blast
    then show ?thesis by (auto simp: leD)
  qed
  assume "r \<noteq> 0xFFFFFFFF"
  then have np: "0 < f" "f \<le> n" "ps ! (f - 1) = r" "m < r" "\<And>g. 0 < g \<Longrightarrow> g \<le> n \<Longrightarrow> m < ps ! (g - 1) \<Longrightarrow> r \<le> ps ! (g - 1)"
      "\<And>g. f < g \<Longrightarrow> g \<le> n \<Longrightarrow> ps ! (g - 1) \<noteq> r" using assms(1) by (auto simp: next_page_def)
  have mem: "r \<in> set (take n ps)" using np(1-3) assms(2) by (auto simp: in_set_conv_nth intro!: exI [of _ "f - 1"])
  have least: "r \<le> p" if "p \<in> set (take n ps)" "m < p" for p using idx [OF that(1)] np(5) that(2) by blast
  have "Min {p \<in> set (take n ps). m < p} = r" using mem np(4) least by (intro Min_eqI) auto
  moreover have "linear_find ps r n = f" using np by (intro linear_find_eq) auto
  ultimately show "m < r \<and> f = linear_find ps r n \<and> Min {p \<in> set (take n ps). m < p} = r \<and> r \<in> set (take n ps) \<and>
      {p \<in> set (take n ps). m < p} - {r} = {p \<in> set (take n ps). r < p}"
    using mem np(4) least by (auto intro: less_trans simp: order.strict_iff_order)
qed

lemma visit_all_ok:
  assumes "0 < n" "n \<le> length ps" "0xFFFFFFFF \<notin> set ps"
  shows "iterator_ok ps n it \<Longrightarrow>
    visit_all it = Some (map (\<lambda>p. (p, linear_find ps p n)) (sorted_list_of_set {p \<in> set (take n ps). iPrior it < p}))"
proof (induction it rule: visit_all.induct)
  case (1 it)
  obtain it' r f where nx: "walIteratorNext it = Some (it', if r = 0xFFFFFFFF then None else Some (r, f))" "iPrior it' = r"
      "next_page ps 0 n (iPrior it) (r, f)" "r \<noteq> 0xFFFFFFFF \<longrightarrow> iterator_ok ps n it'"
    using walIteratorNext_ok [OF "1.prems" assms] by blast
  note s = next_page_set [OF nx(3) assms(2)]
  show ?case
  proof (cases "r = 0xFFFFFFFF")
    case True
    then show ?thesis using nx(1) s(1) by (subst visit_all.simps) simp
  next
    case False
    let ?S = "{p \<in> set (take n ps). iPrior it < p}"
    have "sorted_list_of_set ?S = r # sorted_list_of_set (?S - {r})"
      using sorted_list_of_set_nonempty [of ?S] s(2) [OF False] by auto
    moreover have "visit_all it' = Some (map (\<lambda>p. (p, linear_find ps p n)) (sorted_list_of_set (?S - {r})))"
      using "1.IH" [OF nx(1), of it' "Some (r, f)" "(r, f)"] nx(2,4) False s(2) [OF False] by simp
    ultimately show ?thesis using nx(1) False s(2) [OF False] by (subst visit_all.simps) simp
  qed
qed

lemma walIteratorInit_ok:
  assumes "index_ok w ps" "0 < unat (mxFrame (hdr w))" "unat (mxFrame (hdr w)) \<le> length ps"
  shows "\<exists>it. walIteratorInit True True env w = Some (SQLITE_OK, it, w) \<and> iterator_ok ps (unat (mxFrame (hdr w))) it \<and> iPrior it = 0"
  using init_loop_ok [OF assms, of 0 "Suc (walFramePage (unat (mxFrame (hdr w))))" env]
  by (auto simp: walIteratorInit_def Let_def iterator_ok_def)

section \<open>Properties\<close>

text \<open>C30. A checkpoint visits every page of the log once, in increasing order, each with the last frame that holds it: building the iterator
  succeeds on every index, and calling it until it is done ends.\<close>

theorem checkpoint_order:
  assumes "index_ok w ps" "n = unat (mxFrame (hdr w))" "0 < n" "n \<le> length ps" "0 \<notin> set ps" "0xFFFFFFFF \<notin> set ps"
  shows "\<exists>it. walIteratorInit True True env w = Some (SQLITE_OK, it, w) \<and>
    visit_all it = Some (map (\<lambda>p. (p, linear_find ps p n)) (sorted_list_of_set (set (take n ps))))"
proof -
  obtain it where it: "walIteratorInit True True env w = Some (SQLITE_OK, it, w)" "iterator_ok ps n it" "iPrior it = 0"
    using walIteratorInit_ok [of w ps env] assms by auto
  have "{p \<in> set (take n ps). 0 < p} = set (take n ps)" using assms(5) by (auto dest: in_set_takeD intro: word_gt_0 [THEN iffD2])
  then show ?thesis using it visit_all_ok [OF assms(3,4,6) it(2)] by auto
qed

theorem checkpoint_order_witness:
  "\<exists>w it. walIteratorInit True True example_env w = Some (SQLITE_OK, it, w) \<and> visit_all it = Some [(7, 3), (9, 2)]"
proof -
  obtain w3 where w3: "index_ok w3 [7, 9, 7]" using example_three by blast
  let ?w = "w3\<lparr>hdr := example_hdr 3\<rparr>"
  have ok: "index_ok ?w [7, 9, 7]" using w3 by (rule index_ok_data) simp
  have "set (take 3 [7, 9, 7 :: u32]) = set [7, 9]" by auto
  moreover have "sorted_list_of_set (set [7, 9 :: u32]) = [7, 9]" by (rule sorted_list_of_set.idem_if_sorted_distinct) simp_all
  ultimately have l: "sorted_list_of_set (set (take 3 [7, 9, 7 :: u32])) = [7, 9]" by metis
  have f: "linear_find [7, 9, 7] 7 3 = 3" "linear_find [7, 9, 7] 9 3 = 2" by code_simp+
  have n: "3 = unat (mxFrame (hdr ?w))" by (simp add: example_hdr_def)
  have "\<exists>it. walIteratorInit True True example_env ?w = Some (SQLITE_OK, it, ?w) \<and>
      visit_all it = Some (map (\<lambda>p. (p, linear_find [7, 9, 7] p 3)) (sorted_list_of_set (set (take 3 [7, 9, 7]))))"
    by (rule checkpoint_order [OF ok n]) simp_all
  then show ?thesis unfolding l by (auto simp: f)
qed

end
