(* ===== verification/WalLog.thy ===== *)
theory WalLog
  imports WalIterator
begin

text \<open>
  The write-ahead log file (\<^verbatim>\<open>wal.c\<close>): checksums, the headers of the log and of its frames, the header of the index, and recovery of
  the index from the log after a crash. A file is the list of its bytes. The machine is little-endian, so \<^verbatim>\<open>SQLITE_BIGENDIAN\<close> is 0 and the native order
  of bytes in a word is from the least significant one. Results of the operating system are an argument, the record \<open>wal_io\<close>.
\<close>

section \<open>Checksums\<close>

definition BYTESWAP32 :: "u32 \<Rightarrow> u32" where
  "BYTESWAP32 x = push_bit 24 (x AND 0x000000FF) + push_bit 8 (x AND 0x0000FF00) + drop_bit 8 (x AND 0x00FF0000) + drop_bit 24 (x AND 0xFF000000)"

text \<open>The word at a pointer to four bytes.\<close>

definition native_word :: "u8 \<Rightarrow> u8 \<Rightarrow> u8 \<Rightarrow> u8 \<Rightarrow> u32" where
  "native_word a b c d = ucast a OR push_bit 8 (ucast b) OR push_bit 16 (ucast c) OR push_bit 24 (ucast d)"

fun cksum_loop :: "bool \<Rightarrow> u8 list \<Rightarrow> u32 \<Rightarrow> u32 \<Rightarrow> (u32 \<times> u32) option" where
  "cksum_loop nativeCksum (a0 # a1 # a2 # a3 # b0 # b1 # b2 # b3 # a) s1 s2 =
    (let x = native_word a0 a1 a2 a3; y = native_word b0 b1 b2 b3;
         s1 = s1 + (if nativeCksum then x else BYTESWAP32 x) + s2;
         s2 = s2 + (if nativeCksum then y else BYTESWAP32 y) + s1
     in if a = [] then Some (s1, s2) else cksum_loop nativeCksum a s1 s2)"
| "cksum_loop nativeCksum a s1 s2 = None"

text \<open>The bytes \<open>a\<close> are those up to \<^verbatim>\<open>nByte\<close>.\<close>

definition walChecksumBytes :: "bool \<Rightarrow> u8 list \<Rightarrow> (u32 \<times> u32) option \<Rightarrow> (u32 \<times> u32) option" where
  "walChecksumBytes nativeCksum a aIn = (case aIn of Some (s1, s2) \<Rightarrow> cksum_loop nativeCksum a s1 s2 | None \<Rightarrow> cksum_loop nativeCksum a 0 0)"

section \<open>The header of the index\<close>

definition le_bytes :: "u32 \<Rightarrow> u8 list" where
  "le_bytes x = [ucast x, ucast (drop_bit 8 x), ucast (drop_bit 16 x), ucast (drop_bit 24 x)]"

text \<open>The bytes of the structure in front of its own checksum.\<close>

definition hdr_bytes :: "WalIndexHdr \<Rightarrow> u8 list" where
  "hdr_bytes h = le_bytes (iVersion h) @ le_bytes (unused h) @ le_bytes (iChange h) @ [isInit h, bigEndCksum h, ucast (hdr_szPage h), ucast (drop_bit 8 (hdr_szPage h))] @
     le_bytes (mxFrame h) @ le_bytes (nPage h) @ le_bytes (fst (aFrameCksum h)) @ le_bytes (snd (aFrameCksum h)) @ aSalt h"

definition WALINDEX_MAX_VERSION :: u32 where "WALINDEX_MAX_VERSION = 3007000"
definition WAL_MAX_VERSION :: u32 where "WAL_MAX_VERSION = 3007000"

definition walIndexWriteHdr :: "Wal \<Rightarrow> Wal option" where
  "walIndexWriteHdr w = (let h = (hdr w)\<lparr>isInit := 1, iVersion := WALINDEX_MAX_VERSION\<rparr> in do {
     ck \<leftarrow> walChecksumBytes True (hdr_bytes h) None;
     let h = h\<lparr>aCksum := ck\<rparr>;
     Some (w\<lparr>hdr := h, aHdr1 := h, aHdr0 := h\<rparr>) })"

text \<open>The two copies that are read one after the other are arguments. The result is the return value, whether the header changed, and the handle.\<close>

definition walIndexTryHdr :: "Wal \<Rightarrow> WalIndexHdr \<Rightarrow> WalIndexHdr \<Rightarrow> (bool \<times> bool \<times> Wal) option" where
  "walIndexTryHdr w h1 h2 =
    (if h1 \<noteq> h2 then Some (True, False, w)
     else if isInit h1 = 0 then Some (True, False, w)
     else do {
       ck \<leftarrow> walChecksumBytes True (hdr_bytes h1) None;
       Some (if ck \<noteq> aCksum h1 then (True, False, w)
             else if hdr w \<noteq> h1 then (False, True, w\<lparr>hdr := h1, szPage := ucast (hdr_szPage h1 AND 0xfe00) + push_bit 16 (ucast (hdr_szPage h1 AND 1))\<rparr>)
             else (False, False, w)) })"

section \<open>Frames\<close>

definition WAL_FRAME_HDRSIZE :: nat where "WAL_FRAME_HDRSIZE = 24"
definition WAL_HDRSIZE :: nat where "WAL_HDRSIZE = 32"
definition WAL_MAGIC :: u32 where "WAL_MAGIC = 0x377f0682"
definition SQLITE_MAX_PAGE_SIZE :: int where "SQLITE_MAX_PAGE_SIZE = 65536"
definition READMARK_NOT_USED :: u32 where "READMARK_NOT_USED = 0xffffffff"

definition walFrameOffset :: "nat \<Rightarrow> nat \<Rightarrow> nat" where
  "walFrameOffset iFrame sz = WAL_HDRSIZE + (iFrame - 1) * (sz + WAL_FRAME_HDRSIZE)"

definition put4 :: "u8 list \<Rightarrow> nat \<Rightarrow> u32 \<Rightarrow> u8 list option" where
  "put4 b off v = map_option ((@) (take off b)) (sqlite3Put4byte (drop off b) v)"

definition get4 :: "u8 list \<Rightarrow> nat \<Rightarrow> u32 option" where
  "get4 b off = sqlite3Get4byte (drop off b)"

text \<open>The frame header that is written to the buffer \<open>aFrame\<close>, and the handle with the new checksum.\<close>

definition walEncodeFrame :: "Wal \<Rightarrow> u32 \<Rightarrow> u32 \<Rightarrow> u8 list \<Rightarrow> u8 list \<Rightarrow> (u8 list \<times> Wal) option" where
  "walEncodeFrame w iPage nTruncate aData aFrame = do {
     f \<leftarrow> put4 aFrame 0 iPage;
     f \<leftarrow> put4 f 4 nTruncate;
     let f = take 8 f @ aSalt (hdr w) @ drop 16 f;
     let nativeCksum = (bigEndCksum (hdr w) = 0);
     ck \<leftarrow> walChecksumBytes nativeCksum (take 8 f) (Some (aFrameCksum (hdr w)));
     ck \<leftarrow> walChecksumBytes nativeCksum (take (unat (szPage w)) aData) (Some ck);
     f \<leftarrow> put4 f 16 (fst ck);
     f \<leftarrow> put4 f 20 (snd ck);
     Some (f, w\<lparr>hdr := (hdr w)\<lparr>aFrameCksum := ck\<rparr>\<rparr>)
   }"

definition walDecodeFrame :: "Wal \<Rightarrow> u8 list \<Rightarrow> u8 list \<Rightarrow> ((u32 \<times> u32) option \<times> Wal) option" where
  "walDecodeFrame w aData aFrame =
    (if take 8 (drop 8 aFrame) \<noteq> aSalt (hdr w) then Some (None, w)
     else do {
       pgno \<leftarrow> get4 aFrame 0;
       if pgno = 0 then Some (None, w)
       else do {
         let nativeCksum = (bigEndCksum (hdr w) = 0);
         ck \<leftarrow> walChecksumBytes nativeCksum (take 8 aFrame) (Some (aFrameCksum (hdr w)));
         ck \<leftarrow> walChecksumBytes nativeCksum (take (unat (szPage w)) aData) (Some ck);
         let w = w\<lparr>hdr := (hdr w)\<lparr>aFrameCksum := ck\<rparr>\<rparr>;
         c0 \<leftarrow> get4 aFrame 16;
         c1 \<leftarrow> get4 aFrame 20;
         if fst ck \<noteq> c0 \<or> snd ck \<noteq> c1 then Some (None, w)
         else do { n \<leftarrow> get4 aFrame 4; Some (Some (pgno, n), w) }
       }
     })"

section \<open>Recovery\<close>

record wal_io =
  lock_rc :: int
  size_rc :: int
  read_rc :: "nat \<Rightarrow> int"
  write_rc :: "nat \<Rightarrow> int"
  sync_rc :: int
  frame_malloc :: bool
  sector_size :: nat
  trunc_ok :: bool

definition zero_hdr :: WalIndexHdr where
  "zero_hdr = \<lparr>iVersion = 0, unused = 0, iChange = 0, isInit = 0, bigEndCksum = 0, hdr_szPage = 0, mxFrame = 0, nPage = 0, aFrameCksum = (0, 0),
     aSalt = replicate 8 0, aCksum = (0, 0)\<rparr>"

definition hdr_page_size :: "u32 \<Rightarrow> u16" where
  "hdr_page_size sz = ucast ((sz AND 0xff00) OR drop_bit 16 sz)"

text \<open>The loop over the frames of the log. The last argument is \<^verbatim>\<open>aFrameCksum\<close>, the checksum at the last commit.\<close>

function recover_loop :: "wal_env \<Rightarrow> wal_io \<Rightarrow> u8 list \<Rightarrow> u32 \<Rightarrow> nat \<Rightarrow> nat \<Rightarrow> Wal \<Rightarrow> u32 \<times> u32 \<Rightarrow> (int \<times> Wal \<times> (u32 \<times> u32)) option" where
  "recover_loop env io file sz iFrame iOffset w ck = (let szFrame = unat sz + WAL_FRAME_HDRSIZE in
     if iOffset + szFrame \<le> length file then
       if read_rc io iOffset \<noteq> SQLITE_OK then Some (read_rc io iOffset, w, ck)
       else let aFrame = take szFrame (drop iOffset file) in do {
         (r, w) \<leftarrow> walDecodeFrame w (drop WAL_FRAME_HDRSIZE aFrame) (take WAL_FRAME_HDRSIZE aFrame);
         (case r of
            None \<Rightarrow> Some (SQLITE_OK, w, ck)
          | Some (pgno, nTruncate) \<Rightarrow> do {
              (rc, w) \<leftarrow> walIndexAppend env w (Suc iFrame) pgno;
              if rc \<noteq> SQLITE_OK then Some (rc, w, ck)
              else if nTruncate \<noteq> 0
              then recover_loop env io file sz (Suc iFrame) (iOffset + szFrame)
                (w\<lparr>hdr := (hdr w)\<lparr>mxFrame := of_nat (Suc iFrame), nPage := nTruncate, hdr_szPage := hdr_page_size sz\<rparr>\<rparr>) (aFrameCksum (hdr w))
              else recover_loop env io file sz (Suc iFrame) (iOffset + szFrame) w ck
            })
       }
     else Some (SQLITE_OK, w, ck))"
  by pat_completeness auto
termination
  by (relation "measure (\<lambda>(env, io, file, sz, iFrame, iOffset, w, ck). Suc (length file) - iOffset)") (auto simp: WAL_FRAME_HDRSIZE_def)

declare recover_loop.simps [simp del]

text \<open>What is done at the label \<^verbatim>\<open>finished\<close>.\<close>

definition WAL_NREADER :: nat where "WAL_NREADER = 5"

definition recover_finish :: "int \<Rightarrow> Wal \<Rightarrow> u32 \<times> u32 \<Rightarrow> (int \<times> Wal) option" where
  "recover_finish rc w ck =
    (if rc = SQLITE_OK then do {
       w \<leftarrow> walIndexWriteHdr (w\<lparr>hdr := (hdr w)\<lparr>aFrameCksum := ck\<rparr>\<rparr>);
       let marks = 0 # replicate (WAL_NREADER - 1) READMARK_NOT_USED;
       Some (rc, w\<lparr>nBackfill := 0, aReadMark := (if mxFrame (hdr w) \<noteq> 0 then marks[1 := mxFrame (hdr w)] else marks)\<rparr>)
     } else Some (rc, w))"

definition walIndexRecover :: "wal_env \<Rightarrow> wal_io \<Rightarrow> u8 list \<Rightarrow> Wal \<Rightarrow> (int \<times> Wal) option" where
  "walIndexRecover env io file w =
    (if lock_rc io \<noteq> SQLITE_OK then Some (lock_rc io, w)
     else let w = w\<lparr>hdr := zero_hdr\<rparr> in
     if size_rc io \<noteq> SQLITE_OK then Some (size_rc io, w)
     else if length file > WAL_HDRSIZE then
       if read_rc io 0 \<noteq> SQLITE_OK then Some (read_rc io 0, w)
       else let aBuf = take WAL_HDRSIZE file in do {
         magic \<leftarrow> get4 aBuf 0;
         sz \<leftarrow> get4 aBuf 8;
         if magic AND 0xFFFFFFFE \<noteq> WAL_MAGIC \<or> sz AND (sz - 1) \<noteq> 0 \<or> sint sz > SQLITE_MAX_PAGE_SIZE \<or> sint sz < 512
         then recover_finish SQLITE_OK w (0, 0)
         else do {
           n \<leftarrow> get4 aBuf 12;
           let w = w\<lparr>hdr := (hdr w)\<lparr>bigEndCksum := ucast (magic AND 1), aSalt := take 8 (drop 16 aBuf)\<rparr>, szPage := sz, nCkpt := n\<rparr>;
           ck \<leftarrow> walChecksumBytes (bigEndCksum (hdr w) = 0) (take (WAL_HDRSIZE - 8) aBuf) None;
           let w = w\<lparr>hdr := (hdr w)\<lparr>aFrameCksum := ck\<rparr>\<rparr>;
           c0 \<leftarrow> get4 aBuf 24;
           c1 \<leftarrow> get4 aBuf 28;
           if fst ck \<noteq> c0 \<or> snd ck \<noteq> c1 then recover_finish SQLITE_OK w (0, 0)
           else do {
             version \<leftarrow> get4 aBuf 4;
             if version \<noteq> WAL_MAX_VERSION then recover_finish SQLITE_CANTOPEN w (0, 0)
             else if \<not> frame_malloc io then Some (SQLITE_NOMEM, w)
             else do {
               (rc, w, ck) \<leftarrow> recover_loop env io file sz 0 WAL_HDRSIZE w (0, 0);
               recover_finish rc w ck
             }
           }
         }
       }
     else recover_finish SQLITE_OK w (0, 0))"

text \<open>The header of the log. The argument \<open>salt\<close> is what \<^verbatim>\<open>sqlite3_randomness\<close> gives.\<close>

definition wal_header :: "u32 \<Rightarrow> u32 \<Rightarrow> u8 list \<Rightarrow> (u8 list \<times> (u32 \<times> u32)) option" where
  "wal_header sz n salt = do {
     b \<leftarrow> put4 (replicate WAL_HDRSIZE 0) 0 WAL_MAGIC;
     b \<leftarrow> put4 b 4 WAL_MAX_VERSION;
     b \<leftarrow> put4 b 8 sz;
     b \<leftarrow> put4 b 12 n;
     let b = take 16 b @ salt @ drop 24 b;
     ck \<leftarrow> walChecksumBytes True (take (WAL_HDRSIZE - 8) b) None;
     b \<leftarrow> put4 b 24 (fst ck);
     b \<leftarrow> put4 b 28 (snd ck);
     Some (b, ck) }"

section \<open>The bytes of a log\<close>

definition word_bytes :: "u32 \<Rightarrow> u8 list" where
  "word_bytes v = [ucast (drop_bit 24 v), ucast (drop_bit 16 v), ucast (drop_bit 8 v), ucast v]"

lemma length_word_bytes [simp]: "length (word_bytes v) = 4"
  by (simp add: word_bytes_def)

lemma list4: "4 \<le> length p \<Longrightarrow> \<exists>a b c d r. p = a # b # c # d # r"
  by (auto simp: numeral_eq_Suc Suc_le_length_iff)

lemma Put4byte_be: "4 \<le> length p \<Longrightarrow> sqlite3Put4byte p v = Some (word_bytes v @ drop 4 p)"
  using list4 [of p] by (auto simp: sqlite3Put4byte_def word_bytes_def)

lemma Get4byte_be: "sqlite3Get4byte (word_bytes v @ r) = Some v"
  using put4byte_get4byte [of "[0, 0, 0, 0]" v] by (simp add: Put4byte_be) (simp add: word_bytes_def sqlite3Get4byte_def)

lemma put4_be: "off + 4 \<le> length b \<Longrightarrow> put4 b off v = Some (take off b @ word_bytes v @ drop (off + 4) b)"
  by (simp add: put4_def Put4byte_be add.commute)

lemma get4_be: "length a = off \<Longrightarrow> get4 (a @ word_bytes v @ r) off = Some v"
  by (simp add: get4_def Get4byte_be)

text \<open>Checksums of whole double words.\<close>

lemma cksum_total: "8 dvd length a \<Longrightarrow> a \<noteq> [] \<Longrightarrow> \<exists>r. cksum_loop n a s1 s2 = Some r"
proof (induction "length a" arbitrary: a s1 s2 rule: less_induct)
  case less
  then have "8 \<le> length a" by (cases a) (auto dest: dvd_imp_le)
  then obtain a0 a1 a2 a3 a4 a5 a6 a7 b where a: "a = a0 # a1 # a2 # a3 # a4 # a5 # a6 # a7 # b" by (auto simp: numeral_eq_Suc Suc_le_length_iff)
  have "length a = length b + 8" by (simp add: a)
  then have "8 dvd length b" using less.prems(1) by (simp add: dvd_add_left_iff)
  then show ?case using less.hyps [of b] by (auto simp: a Let_def)
qed

definition ck_of :: "bool \<Rightarrow> u8 list \<Rightarrow> u32 \<times> u32 \<Rightarrow> u32 \<times> u32" where
  "ck_of n a ck = the (cksum_loop n a (fst ck) (snd ck))"

lemma walChecksumBytes_Some: "8 dvd length a \<Longrightarrow> a \<noteq> [] \<Longrightarrow> walChecksumBytes n a (Some ck) = Some (ck_of n a ck)"
  using cksum_total [of a n "fst ck" "snd ck"] by (auto simp: walChecksumBytes_def ck_of_def split: prod.split)

lemma walChecksumBytes_None: "8 dvd length a \<Longrightarrow> a \<noteq> [] \<Longrightarrow> walChecksumBytes n a None = Some (ck_of n a (0, 0))"
  using cksum_total [of a n 0 0] by (auto simp: walChecksumBytes_def ck_of_def)

lemma walChecksumBytes_header: "walChecksumBytes n (word_bytes x @ word_bytes y) (Some ck) = Some (ck_of n (word_bytes x @ word_bytes y) ck)"
  by (rule walChecksumBytes_Some) (simp_all only: length_append length_word_bytes append_is_Nil_conv, simp_all add: word_bytes_def)

text \<open>A frame is a page number, the size of the database if it is a commit or 0, and the content of the page.\<close>

type_synonym frame = "u32 \<times> u32 \<times> u8 list"

definition next_ck :: "u32 \<times> u32 \<Rightarrow> frame \<Rightarrow> u32 \<times> u32" where
  "next_ck ck f = ck_of True (snd (snd f)) (ck_of True (word_bytes (fst f) @ word_bytes (fst (snd f))) ck)"

definition frame_header :: "u8 list \<Rightarrow> u32 \<times> u32 \<Rightarrow> frame \<Rightarrow> u8 list" where
  "frame_header salt ck f = word_bytes (fst f) @ word_bytes (fst (snd f)) @ salt @ word_bytes (fst (next_ck ck f)) @ word_bytes (snd (next_ck ck f))"

primrec log_frames :: "u8 list \<Rightarrow> u32 \<times> u32 \<Rightarrow> frame list \<Rightarrow> u8 list" where
  "log_frames salt ck [] = []"
| "log_frames salt ck (f # fs) = frame_header salt ck f @ snd (snd f) @ log_frames salt (next_ck ck f) fs"

definition frame_ok :: "nat \<Rightarrow> frame \<Rightarrow> bool" where
  "frame_ok sz f \<longleftrightarrow> fst f \<noteq> 0 \<and> length (snd (snd f)) = sz"

definition page_size_ok :: "nat \<Rightarrow> bool" where
  "page_size_ok sz \<longleftrightarrow> 8 dvd sz \<and> 0 < sz"

text \<open>The handle is at a place of the log where its checksum is \<open>ck\<close>.\<close>

definition log_at :: "Wal \<Rightarrow> nat \<Rightarrow> u8 list \<Rightarrow> u32 \<times> u32 \<Rightarrow> bool" where
  "log_at w sz salt ck \<longleftrightarrow> unat (szPage w) = sz \<and> aSalt (hdr w) = salt \<and> length salt = 8 \<and> bigEndCksum (hdr w) = 0 \<and> aFrameCksum (hdr w) = ck"

lemma walEncodeFrame_ok:
  assumes "log_at w sz salt ck" "page_size_ok sz" "frame_ok sz f" "length b = 24"
  shows "walEncodeFrame w (fst f) (fst (snd f)) (snd (snd f)) b = Some (frame_header salt ck f, w\<lparr>hdr := (hdr w)\<lparr>aFrameCksum := next_ck ck f\<rparr>\<rparr>)"
proof -
  have "8 dvd length (snd (snd f))" "snd (snd f) \<noteq> []" using assms(2,3) by (auto simp: page_size_ok_def frame_ok_def)
  then show ?thesis
    using assms by (simp add: walEncodeFrame_def put4_be log_at_def frame_ok_def walChecksumBytes_header walChecksumBytes_Some frame_header_def next_ck_def Let_def)
qed

lemma walDecodeFrame_ok:
  assumes "log_at w sz salt ck" "page_size_ok sz" "frame_ok sz f"
  shows "walDecodeFrame w (snd (snd f)) (frame_header salt ck f) = Some (Some (fst f, fst (snd f)), w\<lparr>hdr := (hdr w)\<lparr>aFrameCksum := next_ck ck f\<rparr>\<rparr>)"
proof -
  have "8 dvd length (snd (snd f))" "snd (snd f) \<noteq> []" using assms(2,3) by (auto simp: page_size_ok_def frame_ok_def)
  moreover have "get4 (frame_header salt ck f) 0 = Some (fst f)" "get4 (frame_header salt ck f) 4 = Some (fst (snd f))"
    "get4 (frame_header salt ck f) 16 = Some (fst (next_ck ck f))" "get4 (frame_header salt ck f) 20 = Some (snd (next_ck ck f))"
    using get4_be [of "[]" 0] get4_be [of "word_bytes (fst f)" 4] get4_be [of "word_bytes (fst f) @ word_bytes (fst (snd f)) @ salt" 16]
      get4_be [of "word_bytes (fst f) @ word_bytes (fst (snd f)) @ salt @ word_bytes (fst (next_ck ck f))" 20 _ "[]"] assms(1)
    by (auto simp: frame_header_def log_at_def)
  ultimately show ?thesis
    using assms by (simp add: walDecodeFrame_def log_at_def frame_ok_def walChecksumBytes_Some Let_def) (simp add: frame_header_def walChecksumBytes_header walChecksumBytes_Some next_ck_def)
qed


lemma get4_ex: "off + 4 \<le> length b \<Longrightarrow> \<exists>v. get4 b off = Some v \<and> word_bytes v = take 4 (drop off b)"
proof -
  assume "off + 4 \<le> length b"
  then obtain a0 a1 a2 a3 r where "drop off b = a0 # a1 # a2 # a3 # r" using list4 [of "drop off b"] by fastforce
  moreover have "ucast (drop_bit 24 (push_bit 24 (ucast a0) OR push_bit 16 (ucast a1) OR push_bit 8 (ucast a2) OR ucast a3 :: u32)) = a0"
    "ucast (drop_bit 16 (push_bit 24 (ucast a0) OR push_bit 16 (ucast a1) OR push_bit 8 (ucast a2) OR ucast a3 :: u32)) = a1"
    "ucast (drop_bit 8 (push_bit 24 (ucast a0) OR push_bit 16 (ucast a1) OR push_bit 8 (ucast a2) OR ucast a3 :: u32)) = a2"
    "ucast (push_bit 24 (ucast a0) OR push_bit 16 (ucast a1) OR push_bit 8 (ucast a2) OR ucast a3 :: u32) = a3"
    by (rule bit_word_eqI; auto simp: bit_simps dest: bit_imp_le_length)+
  ultimately show ?thesis by (simp add: get4_def sqlite3Get4byte_def word_bytes_def)
qed

text \<open>Where recovery stops: the rest of the file is too short for a frame, or has another salt (a frame of an earlier log), or a page number 0, or its checksum
  does not continue the checksum of the frames before (a frame that was not written completely).\<close>

definition stops :: "nat \<Rightarrow> u8 list \<Rightarrow> u32 \<times> u32 \<Rightarrow> u8 list \<Rightarrow> bool" where
  "stops sz salt ck tail \<longleftrightarrow> length tail < sz + 24 \<or> take 8 (drop 8 tail) \<noteq> salt \<or> take 4 tail = [0, 0, 0, 0] \<or>
     (case ck_of True (take sz (drop 24 tail)) (ck_of True (take 8 tail) ck) of (s1, s2) \<Rightarrow> take 8 (drop 16 tail) \<noteq> word_bytes s1 @ word_bytes s2)"

lemma walDecodeFrame_stops:
  assumes "log_at w sz salt ck" "page_size_ok sz" "stops sz salt ck tail" "sz + 24 \<le> length tail"
  shows "\<exists>c. walDecodeFrame w (drop 24 (take (sz + 24) tail)) (take 24 (take (sz + 24) tail)) = Some (None, w\<lparr>hdr := (hdr w)\<lparr>aFrameCksum := c\<rparr>\<rparr>)"
proof -
  have eq: "take 24 (take (sz + 24) tail) = take 24 tail" "drop 24 (take (sz + 24) tail) = take sz (drop 24 tail)" by (simp_all add: drop_take min_def)
  let ?b = "take 24 tail"
  have len: "24 \<le> length tail" "length ?b = 24" using assms(4) by auto
  obtain p where p: "get4 ?b 0 = Some p" "word_bytes p = take 4 tail" using get4_ex [of 0 ?b] len by auto
  obtain c0 where c0: "get4 ?b 16 = Some c0" "word_bytes c0 = take 4 (drop 16 tail)" using get4_ex [of 16 ?b] len by (auto simp: drop_take)
  obtain c1 where c1: "get4 ?b 20 = Some c1" "word_bytes c1 = take 4 (drop 20 tail)" using get4_ex [of 20 ?b] len by (auto simp: drop_take)
  obtain n where n: "get4 ?b 4 = Some n" using get4_ex [of 4 ?b] len by auto
  have c: "walChecksumBytes True (take 8 tail) (Some ck) = Some (ck_of True (take 8 tail) ck)"
    using assms(4) by (intro walChecksumBytes_Some) auto
  have d: "walChecksumBytes True (take sz (drop 24 tail)) (Some x) = Some (ck_of True (take sz (drop 24 tail)) x)" for x
    using assms(2,4) by (intro walChecksumBytes_Some) (auto simp: page_size_ok_def)
  have w: "w\<lparr>hdr := (hdr w)\<lparr>aFrameCksum := ck\<rparr>\<rparr> = w" using assms(1) by (cases w; cases "hdr w") (auto simp: log_at_def)
  have z: "p = 0" if "take 4 tail = [0, 0, 0, 0]" using Get4byte_be [of p "[]"] Get4byte_be [of 0 "[]"] p(2) that by (simp add: word_bytes_def)
  have e: "take 8 (drop 16 tail) = word_bytes c0 @ word_bytes c1" using c0(2) c1(2) take_add [of 4 4 "drop 16 tail"] by simp
  have at: "aSalt (hdr w) = salt" "bigEndCksum (hdr w) = 0" "aFrameCksum (hdr w) = ck" "unat (szPage w) = sz" using assms(1) by (simp_all add: log_at_def)
  have t: "take 8 (drop 8 ?b) = take 8 (drop 8 tail)" "take 8 ?b = take 8 tail" by (simp_all add: drop_take)
  let ?ck = "ck_of True (take sz (drop 24 tail)) (ck_of True (take 8 tail) ck)"
  consider (stale) "take 8 (drop 8 tail) \<noteq> salt \<or> p = 0" | (torn) "take 8 (drop 8 tail) = salt" "p \<noteq> 0" "fst ?ck \<noteq> c0 \<or> snd ?ck \<noteq> c1"
    using assms(3,4) z e by (fastforce simp: stops_def split: prod.splits)
  then show ?thesis
  proof cases
    case stale
    then have "walDecodeFrame w (take sz (drop 24 tail)) ?b = Some (None, w)" using p(1) at t by (auto simp: walDecodeFrame_def)
    then show ?thesis unfolding eq using w by metis
  next
    case torn
    then show ?thesis unfolding eq using p(1) c0(1) c1(1) c d at t by (intro exI [of _ ?ck]) (simp add: walDecodeFrame_def Let_def)
  qed
qed


section \<open>What recovery restores\<close>

text \<open>The number of frames up to the last commit.\<close>

primrec committed :: "frame list \<Rightarrow> nat" where
  "committed [] = 0"
| "committed (f # fs) = (if committed fs \<noteq> 0 then Suc (committed fs) else if fst (snd f) \<noteq> 0 then 1 else 0)"

lemma committed_le: "committed fs \<le> length fs"
  by (induction fs) auto

definition recovered :: "u32 \<Rightarrow> nat \<Rightarrow> frame list \<Rightarrow> WalIndexHdr \<Rightarrow> WalIndexHdr" where
  "recovered sz n fs h = (if committed fs = 0 then h
     else h\<lparr>mxFrame := of_nat (n + committed fs), nPage := fst (snd (fs ! (committed fs - 1))), hdr_szPage := hdr_page_size sz\<rparr>)"

lemma recovered_Cons:
  "recovered sz n (f # fs) h = recovered sz (Suc n) fs
     (if fst (snd f) \<noteq> 0 then h\<lparr>mxFrame := of_nat (Suc n), nPage := fst (snd f), hdr_szPage := hdr_page_size sz\<rparr> else h)"
  by (auto simp: recovered_def nth_Cons')

lemma recovered_cksum: "(recovered sz n fs (h\<lparr>aFrameCksum := c\<rparr>))\<lparr>aFrameCksum := d\<rparr> = (recovered sz n fs h)\<lparr>aFrameCksum := d\<rparr>"
  by (simp add: recovered_def)

text \<open>Nothing fails: locks, reads, memory and the mapping of shared memory.\<close>

definition shm_good :: "wal_env \<Rightarrow> bool" where
  "shm_good env \<longleftrightarrow> shm_ok env \<and> (\<forall>n. realloc_ok env n \<and> malloc_ok env n \<and> fst (shm_map env n) = SQLITE_OK)"

definition reads_good :: "wal_io \<Rightarrow> bool" where
  "reads_good io \<longleftrightarrow> lock_rc io = SQLITE_OK \<and> size_rc io = SQLITE_OK \<and> (\<forall>off. read_rc io off = SQLITE_OK) \<and> frame_malloc io"

lemma walHashGet_good:
  assumes "shm_good env"
  shows "fst (walHashGet env w h) = SQLITE_OK"
proof -
  obtain p where "shm_map env h = (SQLITE_OK, p)" using assms by (metis prod.collapse shm_good_def)
  then have "fst (walIndexPage env w h) = SQLITE_OK" using assms
    by (simp add: shm_good_def walIndexPage_def Let_def SQLITE_OK_def SQLITE_READONLY_def split: option.splits)
  then show ?thesis by (cases "walIndexPage env w h") (simp add: walHashGet_def)
qed

lemma walIndexAppend_good:
  assumes "shm_good env" "index_ok w ps" "0 \<notin> set ps" "P \<noteq> 0"
  shows "\<exists>w'. walIndexAppend env w (Suc (length ps)) P = Some (SQLITE_OK, w') \<and> remapped w w' \<and> index_ok w' (ps @ [P])"
proof -
  have "shm_ok env" using assms(1) by (simp add: shm_good_def)
  from walIndexAppend_ok [OF assms(2) this assms(3,4), of "length ps"] show ?thesis using walHashGet_good [OF assms(1)] by auto
qed

lemma remapped_hdr: "remapped w w' \<Longrightarrow> remapped (w\<lparr>hdr := h\<rparr>) (w'\<lparr>hdr := h\<rparr>)"
  by (cases w; cases w') (simp add: remapped_def)

lemma length_frame_header: "length salt = 8 \<Longrightarrow> length (frame_header salt ck f) = 24"
  by (simp add: frame_header_def)


definition last_ck :: "u32 \<times> u32 \<Rightarrow> u32 \<times> u32 \<Rightarrow> frame list \<Rightarrow> u32 \<times> u32" where
  "last_ck ck0 ck fs = (if committed fs = 0 then ck0 else foldl next_ck ck (take (committed fs) fs))"

lemma last_ck_Cons: "last_ck ck0 ck (f # fs) = last_ck (if fst (snd f) \<noteq> 0 then next_ck ck f else ck0) (next_ck ck f) fs"
  by (simp add: last_ck_def)

lemma recover_loop_stop:
  assumes "log_at w (unat sz) salt ck" "page_size_ok (unat sz)" "stops (unat sz) salt ck (drop off file)" "reads_good io"
  shows "\<exists>c. recover_loop env io file sz n off w ck0 = Some (SQLITE_OK, w\<lparr>hdr := (hdr w)\<lparr>aFrameCksum := c\<rparr>\<rparr>, ck0)"
proof (cases "off + (unat sz + 24) \<le> length file")
  case True
  let ?b = "take (unat sz + 24) (drop off file)"
  have "unat sz + 24 \<le> length (drop off file)" using True by simp
  from walDecodeFrame_stops [OF assms(1-3) this] obtain c
    where "walDecodeFrame w (drop 24 ?b) (take 24 ?b) = Some (None, w\<lparr>hdr := (hdr w)\<lparr>aFrameCksum := c\<rparr>\<rparr>)" by blast
  then show ?thesis using True assms(4) by (intro exI [of _ c]) (subst recover_loop.simps, simp add: WAL_FRAME_HDRSIZE_def reads_good_def Let_def)
next
  case False
  have w: "w\<lparr>hdr := (hdr w)\<lparr>aFrameCksum := ck\<rparr>\<rparr> = w" using assms(1) by (cases w; cases "hdr w") (auto simp: log_at_def)
  show ?thesis using False w by (intro exI [of _ ck]) (subst recover_loop.simps, simp add: WAL_FRAME_HDRSIZE_def Let_def)
qed

lemma recover_loop_frames:
  assumes "shm_good env" "reads_good io" "page_size_ok (unat sz)" "stops (unat sz) salt (foldl next_ck ck fs) tail"
  shows "index_ok w ps \<Longrightarrow> 0 \<notin> set ps \<Longrightarrow> log_at w (unat sz) salt ck \<Longrightarrow> \<forall>f\<in>set fs. frame_ok (unat sz) f \<Longrightarrow> off \<le> length file \<Longrightarrow>
    drop off file = log_frames salt ck fs @ tail \<Longrightarrow>
    \<exists>w' c. recover_loop env io file sz (length ps) off w ck0 = Some (SQLITE_OK, w', last_ck ck0 ck fs) \<and> index_ok w' (ps @ map fst fs) \<and>
      remapped (w\<lparr>hdr := (recovered sz (length ps) fs (hdr w))\<lparr>aFrameCksum := c\<rparr>\<rparr>) w'"
  using assms(4)
proof (induction fs arbitrary: w ps ck ck0 off)
  case Nil
  then obtain c where "recover_loop env io file sz (length ps) off w ck0 = Some (SQLITE_OK, w\<lparr>hdr := (hdr w)\<lparr>aFrameCksum := c\<rparr>\<rparr>, ck0)"
    using recover_loop_stop [OF Nil.prems(3) assms(3) _ assms(2), of off] by fastforce
  moreover have "index_ok (w\<lparr>hdr := (hdr w)\<lparr>aFrameCksum := c\<rparr>\<rparr>) ps" using Nil.prems(1) by (rule index_ok_data) simp
  ultimately show ?case
    by (intro exI [of _ "w\<lparr>hdr := (hdr w)\<lparr>aFrameCksum := c\<rparr>\<rparr>"] exI [of _ c]) (simp add: last_ck_def recovered_def)
next
  case (Cons f fs)
  let ?n = "unat sz + 24" and ?w1 = "w\<lparr>hdr := (hdr w)\<lparr>aFrameCksum := next_ck ck f\<rparr>\<rparr>"
  have f: "frame_ok (unat sz) f" "length salt = 8" using Cons.prems(3,4) by (simp_all add: log_at_def)
  have bytes: "drop off file = frame_header salt ck f @ snd (snd f) @ log_frames salt (next_ck ck f) fs @ tail" using Cons.prems(6) by simp
  have len: "length (frame_header salt ck f) = 24" "length (snd (snd f)) = unat sz" using f by (simp_all add: length_frame_header frame_ok_def)
  have fits: "off + ?n \<le> length file" using arg_cong [OF bytes, of length] len Cons.prems(5) by simp
  have hd: "take 24 (take ?n (drop off file)) = frame_header salt ck f" "drop 24 (take ?n (drop off file)) = snd (snd f)" using len by (simp_all add: bytes)
  have rest: "drop (off + ?n) file = log_frames salt (next_ck ck f) fs @ tail" using arg_cong [OF bytes, of "drop ?n"] len by (simp add: add.commute)
  have "index_ok ?w1 ps" using Cons.prems(1) by (rule index_ok_data) simp
  then obtain w2 where w2: "walIndexAppend env ?w1 (Suc (length ps)) (fst f) = Some (SQLITE_OK, w2)" "remapped ?w1 w2" "index_ok w2 (ps @ [fst f])"
    using walIndexAppend_good [OF assms(1) _ Cons.prems(2), of ?w1 "fst f"] f(1) by (auto simp: frame_ok_def)
  have h2: "hdr w2 = (hdr w)\<lparr>aFrameCksum := next_ck ck f\<rparr>" using remapped_fields(1) [OF w2(2)] by simp
  define h where "h = (if fst (snd f) \<noteq> 0 then (hdr w2)\<lparr>mxFrame := of_nat (Suc (length ps)), nPage := fst (snd f), hdr_szPage := hdr_page_size sz\<rparr> else hdr w2)"
  have ck2: "aFrameCksum (hdr w2) = next_ck ck f" by (simp add: h2)
  have step: "recover_loop env io file sz (length ps) off w ck0 =
      recover_loop env io file sz (length (ps @ [fst f])) (off + ?n) (w2\<lparr>hdr := h\<rparr>) (if fst (snd f) \<noteq> 0 then next_ck ck f else ck0)"
    using fits assms(2) w2(1) walDecodeFrame_ok [OF Cons.prems(3) assms(3) f(1)] hd ck2
    by (subst recover_loop.simps) (simp add: WAL_FRAME_HDRSIZE_def reads_good_def Let_def h_def)
  have at: "log_at (w2\<lparr>hdr := h\<rparr>) (unat sz) salt (next_ck ck f)"
    using Cons.prems(3) h2 remapped_fields(5) [OF w2(2)] by (simp add: log_at_def h_def)
  have ix: "index_ok (w2\<lparr>hdr := h\<rparr>) (ps @ [fst f])" using w2(3) by (rule index_ok_data) simp
  have nz: "0 \<notin> set (ps @ [fst f])" using Cons.prems(2) f(1) by (auto simp: frame_ok_def)
  have st: "stops (unat sz) salt (foldl next_ck (next_ck ck f) fs) tail" "\<forall>f\<in>set fs. frame_ok (unat sz) f" using Cons.prems(4,7) by simp_all
  obtain w' c where w': "recover_loop env io file sz (length (ps @ [fst f])) (off + ?n) (w2\<lparr>hdr := h\<rparr>) (if fst (snd f) \<noteq> 0 then next_ck ck f else ck0) =
      Some (SQLITE_OK, w', last_ck (if fst (snd f) \<noteq> 0 then next_ck ck f else ck0) (next_ck ck f) fs)" "index_ok w' ((ps @ [fst f]) @ map fst fs)"
      "remapped (w2\<lparr>hdr := h, hdr := (recovered sz (length (ps @ [fst f])) fs (hdr (w2\<lparr>hdr := h\<rparr>)))\<lparr>aFrameCksum := c\<rparr>\<rparr>) w'"
    using Cons.IH [OF ix nz at st(2) fits rest st(1)] by blast
  have "(recovered sz (length (ps @ [fst f])) fs h)\<lparr>aFrameCksum := c\<rparr> = (recovered sz (length ps) (f # fs) (hdr w))\<lparr>aFrameCksum := c\<rparr>"
    by (simp add: recovered_Cons h_def h2) (simp add: recovered_def)
  then have "remapped (w\<lparr>hdr := (recovered sz (length ps) (f # fs) (hdr w))\<lparr>aFrameCksum := c\<rparr>\<rparr>) w'"
    using w'(3) remapped_hdr [OF w2(2), of "(recovered sz (length ps) (f # fs) (hdr w))\<lparr>aFrameCksum := c\<rparr>"] by (auto intro: remapped_trans)
  then show ?case using step w' by (intro exI [of _ w'] exI [of _ c]) (simp add: last_ck_Cons)
qed


text \<open>A whole log: its header and its frames.\<close>

definition header_front :: "u32 \<Rightarrow> u32 \<Rightarrow> u8 list \<Rightarrow> u8 list" where
  "header_front sz n salt = word_bytes WAL_MAGIC @ word_bytes WAL_MAX_VERSION @ word_bytes sz @ word_bytes n @ salt"

definition header_ck :: "u32 \<Rightarrow> u32 \<Rightarrow> u8 list \<Rightarrow> u32 \<times> u32" where
  "header_ck sz n salt = ck_of True (header_front sz n salt) (0, 0)"

definition header_bytes :: "u32 \<Rightarrow> u32 \<Rightarrow> u8 list \<Rightarrow> u8 list" where
  "header_bytes sz n salt = header_front sz n salt @ word_bytes (fst (header_ck sz n salt)) @ word_bytes (snd (header_ck sz n salt))"

definition log_bytes :: "u32 \<Rightarrow> u32 \<Rightarrow> u8 list \<Rightarrow> frame list \<Rightarrow> u8 list" where
  "log_bytes sz n salt fs = header_bytes sz n salt @ log_frames salt (header_ck sz n salt) fs"

lemma length_header_front: "length salt = 8 \<Longrightarrow> length (header_front sz n salt) = 24"
  by (simp add: header_front_def)

lemma length_header_bytes: "length salt = 8 \<Longrightarrow> length (header_bytes sz n salt) = 32"
  by (simp add: header_bytes_def length_header_front)

lemma header_cksum: "length salt = 8 \<Longrightarrow> walChecksumBytes True (header_front sz n salt) None = Some (header_ck sz n salt)"
  unfolding header_ck_def by (rule walChecksumBytes_None) (simp_all add: length_header_front flip: length_greater_0_conv)

lemma wal_header_ok:
  assumes "length salt = 8"
  shows "wal_header sz n salt = Some (header_bytes sz n salt, header_ck sz n salt)"
  using header_cksum [OF assms, of sz n] assms
  by (simp add: wal_header_def put4_be WAL_HDRSIZE_def Let_def header_bytes_def header_front_def)

lemma header_fields:
  assumes "length salt = 8"
  shows "get4 (header_bytes sz n salt) 0 = Some WAL_MAGIC" "get4 (header_bytes sz n salt) 4 = Some WAL_MAX_VERSION"
    "get4 (header_bytes sz n salt) 8 = Some sz" "get4 (header_bytes sz n salt) 12 = Some n"
    "get4 (header_bytes sz n salt) 24 = Some (fst (header_ck sz n salt))" "get4 (header_bytes sz n salt) 28 = Some (snd (header_ck sz n salt))"
    "take 8 (drop 16 (header_bytes sz n salt)) = salt" "take 24 (header_bytes sz n salt) = header_front sz n salt"
proof -
  show "take 8 (drop 16 (header_bytes sz n salt)) = salt" using assms by (simp add: header_bytes_def header_front_def)
  show "take 24 (header_bytes sz n salt) = header_front sz n salt" using assms by (simp add: header_bytes_def length_header_front)
qed (use assms in \<open>simp_all add: get4_def header_bytes_def header_front_def Get4byte_be Get4byte_be [where r = "[]", simplified]\<close>)


lemma walIndexWriteHdr_ok:
  assumes "length (aSalt (hdr w)) = 8"
  shows "\<exists>ck. walIndexWriteHdr w = Some (let h = (hdr w)\<lparr>isInit := 1, iVersion := WALINDEX_MAX_VERSION, aCksum := ck\<rparr> in w\<lparr>hdr := h, aHdr1 := h, aHdr0 := h\<rparr>)"
proof -
  let ?h = "(hdr w)\<lparr>isInit := 1, iVersion := WALINDEX_MAX_VERSION\<rparr>"
  have l: "length (hdr_bytes ?h) = 40" using assms by (simp add: hdr_bytes_def le_bytes_def)
  have "8 dvd length (hdr_bytes ?h)" "hdr_bytes ?h \<noteq> []" unfolding l by (simp_all add: l flip: length_greater_0_conv)
  then show ?thesis by (intro exI [of _ "ck_of True (hdr_bytes ?h) (0, 0)"]) (simp add: walIndexWriteHdr_def walChecksumBytes_None Let_def)
qed

lemma recover_finish_ok:
  assumes "length (aSalt (hdr w)) = 8"
  shows "\<exists>w'. recover_finish SQLITE_OK w ck = Some (SQLITE_OK, w') \<and> apWiData w' = apWiData w \<and> readLock w' = readLock w \<and>
    mxFrame (hdr w') = mxFrame (hdr w) \<and> nPage (hdr w') = nPage (hdr w) \<and> aFrameCksum (hdr w') = ck \<and> isInit (hdr w') = 1 \<and> aHdr0 w' = hdr w' \<and> aHdr1 w' = hdr w'"
  using walIndexWriteHdr_ok [of "w\<lparr>hdr := (hdr w)\<lparr>aFrameCksum := ck\<rparr>\<rparr>"] assms by (auto simp: recover_finish_def Let_def)

text \<open>The sizes of pages.\<close>

definition page_sizes :: "u32 list" where
  "page_sizes = [512, 1024, 2048, 4096, 8192, 16384, 32768, 65536]"

lemma page_sizes_ok:
  assumes "sz \<in> set page_sizes"
  shows "sz AND (sz - 1) = 0" "\<not> sint sz > SQLITE_MAX_PAGE_SIZE" "\<not> sint sz < 512" "page_size_ok (unat sz)" "512 \<le> unat sz"
  using assms by (auto simp: page_sizes_def SQLITE_MAX_PAGE_SIZE_def page_size_ok_def)

lemma walIndexRecover_log:
  assumes "reads_good io" "length salt = 8" "sz \<in> set page_sizes" "32 < length file" "take 32 file = header_bytes sz n salt"
  shows "walIndexRecover env io file w = do {
    (rc, w, ck) \<leftarrow> recover_loop env io file sz 0 32 (w\<lparr>szPage := sz, nCkpt := n, hdr := zero_hdr\<lparr>aSalt := salt, aFrameCksum := header_ck sz n salt\<rparr>\<rparr>) (0, 0);
    recover_finish rc w ck }"
proof -
  have m: "WAL_MAGIC AND 0xFFFFFFFE = WAL_MAGIC" "WAL_MAGIC AND 1 = 0" by (simp_all add: WAL_MAGIC_def)
  have h: "zero_hdr\<lparr>bigEndCksum := 0, aSalt := salt\<rparr> = zero_hdr\<lparr>aSalt := salt\<rparr>" by (simp add: zero_hdr_def)
  show ?thesis
    using assms header_fields [OF assms(2), of sz n] header_cksum [OF assms(2), of sz n] page_sizes_ok [OF assms(3)] m h
    by (simp add: walIndexRecover_def reads_good_def WAL_HDRSIZE_def Let_def cong: option.case_cong)
qed


section \<open>Crash recovery\<close>

lemma recover_log:
  assumes "shm_good env" "reads_good io" "index_ok w []" "sz \<in> set page_sizes" "length salt = 8"
    and "\<forall>f\<in>set fs. frame_ok (unat sz) f" "stops (unat sz) salt (foldl next_ck (header_ck sz n salt) fs) tail"
  shows "\<exists>w'. walIndexRecover env io (log_bytes sz n salt fs @ tail) w = Some (SQLITE_OK, w') \<and> index_ok w' (map fst fs) \<and> readLock w' = readLock w \<and>
    mxFrame (hdr w') = of_nat (committed fs) \<and> nPage (hdr w') = (if committed fs = 0 then 0 else fst (snd (fs ! (committed fs - 1)))) \<and>
    isInit (hdr w') = 1 \<and> aHdr0 w' = hdr w' \<and> aHdr1 w' = hdr w'"
proof (cases "fs = [] \<and> tail = []")
  case True
  let ?w = "w\<lparr>hdr := zero_hdr\<rparr>"
  have "walIndexRecover env io (log_bytes sz n salt fs @ tail) w = recover_finish SQLITE_OK ?w (0, 0)"
    using True assms(2,5) by (simp add: walIndexRecover_def reads_good_def WAL_HDRSIZE_def log_bytes_def length_header_bytes)
  moreover have "length (aSalt (hdr ?w)) = 8" by (simp add: zero_hdr_def)
  moreover have "index_ok w' []" if "apWiData w' = apWiData w" for w' using assms(3) that by (rule index_ok_data)
  ultimately show ?thesis using recover_finish_ok [of ?w "(0, 0)"] True by (auto simp: zero_hdr_def)
next
  case False
  let ?file = "log_bytes sz n salt fs @ tail" and ?h = "zero_hdr\<lparr>aSalt := salt, aFrameCksum := header_ck sz n salt\<rparr>"
  let ?w = "w\<lparr>szPage := sz, nCkpt := n, hdr := ?h\<rparr>"
  have "32 < length ?file" using False length_header_bytes [OF assms(5), of sz n] length_frame_header [OF assms(5)]
    by (cases fs) (auto simp: log_bytes_def)
  moreover have t: "take 32 ?file = header_bytes sz n salt" "drop 32 ?file = log_frames salt (header_ck sz n salt) fs @ tail"
    using length_header_bytes [OF assms(5), of sz n] by (simp_all add: log_bytes_def)
  ultimately have rec: "walIndexRecover env io ?file w = recover_loop env io ?file sz 0 32 ?w (0, 0) \<bind> (\<lambda>(rc, w, ck). recover_finish rc w ck)" "32 \<le> length ?file"
    using walIndexRecover_log [OF assms(2,5,4)] by auto
  have ix: "index_ok ?w []" using assms(3) by (rule index_ok_data) simp
  have at: "log_at ?w (unat sz) salt (header_ck sz n salt)" using assms(5) by (simp add: log_at_def zero_hdr_def)
  obtain w1 c where w1: "recover_loop env io ?file sz 0 32 ?w (0, 0) = Some (SQLITE_OK, w1, last_ck (0, 0) (header_ck sz n salt) fs)" "index_ok w1 (map fst fs)"
      "remapped (?w\<lparr>hdr := (recovered sz 0 fs (hdr ?w))\<lparr>aFrameCksum := c\<rparr>\<rparr>) w1"
    using recover_loop_frames [OF assms(1,2) page_sizes_ok(4) [OF assms(4)] assms(7) ix _ at assms(6) rec(2) t(2), of "(0, 0)"] by auto
  have h: "hdr w1 = (recovered sz 0 fs ?h)\<lparr>aFrameCksum := c\<rparr>" "readLock w1 = readLock w"
    using remapped_fields(1) [OF w1(3)] remapped_fields(3) [OF w1(3)] by simp_all
  then have "length (aSalt (hdr w1)) = 8" using assms(5) by (simp add: recovered_def)
  from recover_finish_ok [OF this] obtain w2 where w2: "recover_finish SQLITE_OK w1 (last_ck (0, 0) (header_ck sz n salt) fs) = Some (SQLITE_OK, w2)"
      "apWiData w2 = apWiData w1" "readLock w2 = readLock w1" "mxFrame (hdr w2) = mxFrame (hdr w1)" "nPage (hdr w2) = nPage (hdr w1)"
      "isInit (hdr w2) = 1" "aHdr0 w2 = hdr w2" "aHdr1 w2 = hdr w2"
    by blast
  have "index_ok w2 (map fst fs)" using w1(2) w2(2) by (rule index_ok_data)
  moreover have "mxFrame (hdr w1) = of_nat (committed fs)" "nPage (hdr w1) = (if committed fs = 0 then 0 else fst (snd (fs ! (committed fs - 1))))"
    using h(1) by (simp_all add: recovered_def zero_hdr_def)
  ultimately show ?thesis using rec(1) w1(1) w2 h(2) by simp
qed


section \<open>Any file\<close>

lemma div_pred_8: "n mod 8 \<noteq> 0 \<Longrightarrow> (n - 1) div 8 = n div (8 :: nat)"
proof -
  assume "n mod 8 \<noteq> 0"
  moreover have "8 * (n div 8) + n mod 8 = n" "n mod 8 < 8" by simp_all
  ultimately have "8 * (n div 8) \<le> n - 1" "n - 1 < 8 + 8 * (n div 8)" by linarith+
  then show ?thesis by (intro div_nat_eqI) simp_all
qed

lemma page_size_bits:
  assumes "sz AND (sz - 1) = 0" "\<not> sint sz < 512" "\<not> sint sz > SQLITE_MAX_PAGE_SIZE"
  shows "page_size_ok (unat (sz :: u32))"
proof -
  have "uint sz = take_bit 32 (sint sz)" using uint_word_of_int_eq [of "sint sz", where ?'a = 32] by simp
  then have "uint sz = sint sz" using assms(2,3) by (simp add: take_bit_int_eq_self SQLITE_MAX_PAGE_SIZE_def)
  then have "512 \<le> uint sz" using assms(2) by simp
  then have "512 \<le> int (unat sz)" by (simp only: uint_nat)
  then have n: "512 \<le> unat sz" by linarith
  then have nz: "sz \<noteq> 0" by auto
  have "unat sz mod 8 = 0"
  proof (rule ccontr)
    assume r: "unat sz mod 8 \<noteq> 0"
    have "unat (sz - 1) = unat sz - 1" using nz by (simp add: unat_minus_one)
    then have "unat (sz - 1) div 8 = unat sz div 8" using div_pred_8 [OF r] by simp
    then have "unat (drop_bit 3 (sz - 1)) = unat (drop_bit 3 sz)" by (simp add: drop_bit_eq_div unat_div)
    then have "drop_bit 3 (sz - 1) = drop_bit 3 sz" by (simp only: word_unat_eq_iff)
    then have "drop_bit 3 (sz AND (sz - 1)) = drop_bit 3 sz" by (simp add: drop_bit_and)
    then have "unat (drop_bit 3 sz) = 0" using assms(1) by simp
    then show False using n by (simp add: drop_bit_eq_div unat_div)
  qed
  then show ?thesis using n by (auto simp: page_size_ok_def)
qed

lemma walDecodeFrame_total:
  assumes "page_size_ok (unat (szPage w))" "length aData = unat (szPage w)" "length aFrame = 24"
  shows "\<exists>r c. walDecodeFrame w aData aFrame = Some (r, w\<lparr>hdr := (hdr w)\<lparr>aFrameCksum := c\<rparr>\<rparr>) \<and> (\<forall>pgno n. r = Some (pgno, n) \<longrightarrow> pgno \<noteq> 0)"
proof -
  obtain p c0 c1 n where g: "get4 aFrame 0 = Some p" "get4 aFrame 16 = Some c0" "get4 aFrame 20 = Some c1" "get4 aFrame 4 = Some n"
    using get4_ex [of 0 aFrame] get4_ex [of 16 aFrame] get4_ex [of 20 aFrame] get4_ex [of 4 aFrame] assms(3) by auto
  let ?n = "bigEndCksum (hdr w) = 0"
  have c: "walChecksumBytes ?n (take 8 aFrame) (Some x) = Some (ck_of ?n (take 8 aFrame) x)" for x using assms(3) by (intro walChecksumBytes_Some) auto
  have d: "walChecksumBytes ?n aData (Some x) = Some (ck_of ?n aData x)" for x using assms(1,2) by (intro walChecksumBytes_Some) (auto simp: page_size_ok_def)
  define ck where "ck = ck_of ?n aData (ck_of ?n (take 8 aFrame) (aFrameCksum (hdr w)))"
  have same: "w = w\<lparr>hdr := (hdr w)\<lparr>aFrameCksum := aFrameCksum (hdr w)\<rparr>\<rparr>" by simp
  consider "take 8 (drop 8 aFrame) \<noteq> aSalt (hdr w) \<or> p = 0" | "take 8 (drop 8 aFrame) = aSalt (hdr w)" "p \<noteq> 0" by blast
  then show ?thesis
  proof cases
    case 1
    then have "walDecodeFrame w aData aFrame = Some (None, w)" using g(1) by (auto simp: walDecodeFrame_def)
    then show ?thesis using same by (metis option.distinct(1))
  next
    case 2
    then have "walDecodeFrame w aData aFrame = Some (if fst ck \<noteq> c0 \<or> snd ck \<noteq> c1 then None else Some (p, n), w\<lparr>hdr := (hdr w)\<lparr>aFrameCksum := ck\<rparr>\<rparr>)"
      using g c d assms(2) by (simp add: walDecodeFrame_def Let_def flip: ck_def)
    then show ?thesis using 2(2) by (intro exI [of _ "if fst ck \<noteq> c0 \<or> snd ck \<noteq> c1 then None else Some (p, n)"] exI [of _ ck]) simp
  qed
qed

definition index_holds :: "Wal \<Rightarrow> bool" where
  "index_holds w \<longleftrightarrow> (\<exists>ps. index_ok w ps \<and> 0 \<notin> set ps \<and> unat (mxFrame (hdr w)) \<le> length ps)"

text \<open>What every operation relies on of shared memory.\<close>

definition wal_wf :: "Wal \<Rightarrow> bool" where
  "wal_wf w \<longleftrightarrow> index_ok w [] \<and> length (aSalt (aHdr0 w)) = 8 \<and> length (aReadMark w) = WAL_NREADER"

lemma index_ok_Nil: "index_ok w ps \<Longrightarrow> index_ok w []"
  by (simp add: index_ok_def)

lemma recover_loop_total:
  assumes "shm_ok env" "page_size_ok (unat sz)"
  shows "index_ok w ps \<Longrightarrow> 0 \<notin> set ps \<Longrightarrow> szPage w = sz \<Longrightarrow> unat (mxFrame (hdr w)) \<le> length ps \<Longrightarrow>
    \<exists>rc w' ck'. recover_loop env io file sz (length ps) off w ck = Some (rc, w', ck') \<and> index_holds w' \<and> aSalt (hdr w') = aSalt (hdr w) \<and> aReadMark w' = aReadMark w \<and> aHdr0 w' = aHdr0 w"
proof (induction "Suc (length file) - off" arbitrary: w ps off ck rule: less_induct)
  case less
  have holds: "index_holds w" using less.prems by (auto simp: index_holds_def)
  show ?case
  proof (cases "off + (unat sz + 24) \<le> length file \<and> read_rc io off = SQLITE_OK")
    case False
    then show ?thesis using holds by (subst recover_loop.simps) (auto simp: WAL_FRAME_HDRSIZE_def Let_def)
  next
    case True
    let ?b = "take (unat sz + 24) (drop off file)"
    obtain r c where d: "walDecodeFrame w (drop 24 ?b) (take 24 ?b) = Some (r, w\<lparr>hdr := (hdr w)\<lparr>aFrameCksum := c\<rparr>\<rparr>)" "\<forall>pgno n. r = Some (pgno, n) \<longrightarrow> pgno \<noteq> 0"
      using walDecodeFrame_total [of w "drop 24 ?b" "take 24 ?b"] assms(2) less.prems(3) True by auto
    let ?w = "w\<lparr>hdr := (hdr w)\<lparr>aFrameCksum := c\<rparr>\<rparr>"
    have ix: "index_ok ?w ps" using less.prems(1) by (rule index_ok_data) simp
    show ?thesis
    proof (cases r)
      case None
      have "index_holds ?w" using ix less.prems by (auto simp: index_holds_def)
      then show ?thesis using True d None by (subst recover_loop.simps) (simp add: WAL_FRAME_HDRSIZE_def Let_def)
    next
      case (Some x)
      obtain pgno nt where x: "x = (pgno, nt)" "pgno \<noteq> 0" using d(2) Some by (cases x) auto
      obtain rc w2 where w2: "walIndexAppend env ?w (Suc (length ps)) pgno = Some (rc, w2)" "remapped ?w w2" "if rc = SQLITE_OK then index_ok w2 (take (length ps) ps @ [pgno]) else index_ok w2 ps"
        using walIndexAppend_ok [OF ix assms(1) less.prems(2) x(2), of "length ps"] by blast
      have h2: "hdr w2 = hdr ?w" "szPage w2 = sz" "aReadMark w2 = aReadMark w" "aHdr0 w2 = aHdr0 w" using remapped_fields [OF w2(2)] less.prems(3) by simp_all
      let ?h = "if nt \<noteq> 0 then (hdr w2)\<lparr>mxFrame := of_nat (Suc (length ps)), nPage := nt, hdr_szPage := hdr_page_size sz\<rparr> else hdr w2"
      show ?thesis
      proof (cases "rc = SQLITE_OK")
        case False
        have "index_holds w2" using w2(3) False less.prems(2,4) h2(1) by (auto simp: index_holds_def)
        then show ?thesis using True d(1) Some x w2(1) False h2 by (subst recover_loop.simps) (simp add: WAL_FRAME_HDRSIZE_def Let_def)
      next
        case ok: True
        let ?w3 = "w2\<lparr>hdr := ?h\<rparr>" and ?ck = "if nt \<noteq> 0 then aFrameCksum (hdr w2) else ck"
        have step: "recover_loop env io file sz (length ps) off w ck = recover_loop env io file sz (length (ps @ [pgno])) (off + (unat sz + 24)) ?w3 ?ck"
          using True d(1) Some x w2(1) ok by (subst recover_loop.simps) (simp add: WAL_FRAME_HDRSIZE_def Let_def)
        have "index_ok ?w3 (ps @ [pgno])" by (rule index_ok_data [of w2]) (use w2(3) ok in simp_all)
        moreover have "0 \<notin> set (ps @ [pgno])" using less.prems(2) x(2) by simp
        moreover have "unat (of_nat (Suc (length ps)) :: u32) \<le> Suc (length ps)" by (simp only: unat_of_nat) (rule mod_less_eq_dividend)
        then have "unat (mxFrame (hdr ?w3)) \<le> length (ps @ [pgno])" using less.prems(4) h2(1) by simp
        moreover have "Suc (length file) - (off + (unat sz + 24)) < Suc (length file) - off" using True by linarith
        ultimately show ?thesis using less.hyps [of "off + (unat sz + 24)" ?w3 "ps @ [pgno]" ?ck] step h2 by (auto split: if_splits)
      qed
    qed
  qed
qed

lemma index_holds_data: "index_holds w \<Longrightarrow> apWiData w' = apWiData w \<Longrightarrow> mxFrame (hdr w') = mxFrame (hdr w) \<Longrightarrow> index_holds w'"
  using index_ok_data [of w _ w'] by (auto simp: index_holds_def)

lemma index_holds_empty: "index_ok w [] \<Longrightarrow> mxFrame (hdr w) = 0 \<Longrightarrow> index_holds w"
  by (auto simp: index_holds_def)

lemma wal_wf_index: "index_holds w \<Longrightarrow> length (aSalt (aHdr0 w)) = 8 \<Longrightarrow> length (aReadMark w) = WAL_NREADER \<Longrightarrow> wal_wf w"
  by (auto simp: wal_wf_def index_holds_def intro: index_ok_Nil)

definition recover_ok :: "wal_io \<Rightarrow> Wal \<Rightarrow> int \<times> Wal \<Rightarrow> bool" where
  "recover_ok io w r \<longleftrightarrow> (case r of (rc, w') \<Rightarrow> (wal_wf w \<longrightarrow> wal_wf w') \<and>
     (rc = SQLITE_OK \<longrightarrow> index_holds w' \<and> aHdr0 w' = hdr w' \<and> aHdr1 w' = hdr w' \<and> isInit (hdr w') = 1))"

lemma linear_find_hit: "0 < linear_find ps P n \<Longrightarrow> ps ! (linear_find ps P n - 1) = P"
  by (induction n) (auto split: if_splits)

lemma recover_finish_total:
  assumes "length (aSalt (hdr w)) = 8" "index_holds w" "aReadMark w = aReadMark v" "aHdr0 w = aHdr0 v"
  shows "\<exists>w'. recover_finish rc w ck = Some (rc, w') \<and> recover_ok io v (rc, w')"
proof (cases "rc = SQLITE_OK")
  case True
  define h where "h c = ((hdr w)\<lparr>aFrameCksum := ck\<rparr>)\<lparr>isInit := 1, iVersion := WALINDEX_MAX_VERSION, aCksum := c\<rparr>" for c
  define w' where "w' c = (w\<lparr>hdr := h c, aHdr1 := h c, aHdr0 := h c\<rparr>)\<lparr>nBackfill := 0, aReadMark := (let marks = 0 # replicate (WAL_NREADER - 1) READMARK_NOT_USED in
      if mxFrame (h c) \<noteq> 0 then marks[1 := mxFrame (h c)] else marks)\<rparr>" for c
  let ?w = "w\<lparr>hdr := (hdr w)\<lparr>aFrameCksum := ck\<rparr>\<rparr>"
  have "length (aSalt (hdr ?w)) = 8" using assms(1) by simp
  from walIndexWriteHdr_ok [OF this] obtain c where "walIndexWriteHdr ?w = Some (w\<lparr>hdr := h c, aHdr1 := h c, aHdr0 := h c\<rparr>)" unfolding Let_def h_def by auto
  then have "recover_finish rc w ck = Some (rc, w' c)" using True by (simp add: recover_finish_def w'_def Let_def)
  moreover have "index_holds (w' c)" using assms(2) by (rule index_holds_data) (simp_all add: w'_def h_def)
  moreover have "length (aSalt (aHdr0 (w' c))) = 8" "length (aReadMark (w' c)) = WAL_NREADER" "aHdr0 (w' c) = hdr (w' c)" "aHdr1 (w' c) = hdr (w' c)" "isInit (hdr (w' c)) = 1"
    using assms(1) by (simp_all add: w'_def h_def Let_def WAL_NREADER_def)
  ultimately show ?thesis using wal_wf_index [of "w' c"] by (auto simp: recover_ok_def)
next
  case False
  have "wal_wf w" if "wal_wf v" using that wal_wf_index [OF assms(2)] assms(3,4) by (simp add: wal_wf_def)
  then show ?thesis using False by (auto simp: recover_finish_def recover_ok_def)
qed

lemma walIndexRecover_total:
  assumes "shm_ok env" "index_ok w []"
  shows "\<exists>rc w'. walIndexRecover env io file w = Some (rc, w') \<and> recover_ok io w (rc, w')"
proof (cases "lock_rc io = SQLITE_OK \<and> size_rc io = SQLITE_OK \<and> length file > 32 \<and> read_rc io 0 = SQLITE_OK")
  case False
  have "index_ok (w\<lparr>hdr := zero_hdr\<rparr>) []" using assms(2) by (rule index_ok_data) simp
  then have z: "index_holds (w\<lparr>hdr := zero_hdr\<rparr>)" "length (aSalt (hdr (w\<lparr>hdr := zero_hdr\<rparr>))) = 8" by (auto intro: index_holds_empty simp: zero_hdr_def)
  have "wal_wf (w\<lparr>hdr := zero_hdr\<rparr>)" if "wal_wf w" using that wal_wf_index [OF z(1)] by (simp add: wal_wf_def)
  then show ?thesis using False recover_finish_total [OF z(2,1), of w SQLITE_OK "(0, 0)" io] by (auto simp: walIndexRecover_def WAL_HDRSIZE_def Let_def recover_ok_def)
next
  case True
  let ?b = "take 32 file"
  obtain magic version sz n c0 c1 where g: "get4 ?b 0 = Some magic" "get4 ?b 4 = Some version" "get4 ?b 8 = Some sz" "get4 ?b 12 = Some n" "get4 ?b 24 = Some c0" "get4 ?b 28 = Some c1"
    using get4_ex [of 0 ?b] get4_ex [of 4 ?b] get4_ex [of 8 ?b] get4_ex [of 12 ?b] get4_ex [of 24 ?b] get4_ex [of 28 ?b] True by auto
  let ?w0 = "w\<lparr>hdr := zero_hdr\<rparr>"
  define w1 where "w1 = w\<lparr>hdr := zero_hdr\<lparr>bigEndCksum := ucast (magic AND 1), aSalt := take 8 (drop 16 ?b)\<rparr>, szPage := sz, nCkpt := n\<rparr>"
  have z: "index_holds ?w0" "length (aSalt (hdr ?w0)) = 8" using index_holds_empty [OF index_ok_data [OF assms(2)], of ?w0] by (simp_all add: zero_hdr_def)
  show ?thesis
  proof (cases "magic AND 0xFFFFFFFE \<noteq> WAL_MAGIC \<or> sz AND (sz - 1) \<noteq> 0 \<or> sint sz > SQLITE_MAX_PAGE_SIZE \<or> sint sz < 512")
    case bad: True
    then show ?thesis using True g recover_finish_total [OF z(2,1), of w SQLITE_OK "(0, 0)" io] by (auto simp: walIndexRecover_def WAL_HDRSIZE_def Let_def)
  next
    case good: False
    then have sz: "page_size_ok (unat sz)" by (intro page_size_bits) auto
    define ck where "ck = ck_of (ucast (magic AND 1) = (0 :: u8)) (take 24 ?b) (0, 0)"
    have ck: "walChecksumBytes (ucast (magic AND 1) = (0 :: u8)) (take 24 ?b) None = Some ck" unfolding ck_def using True by (intro walChecksumBytes_None) auto
    let ?w2 = "w1\<lparr>hdr := (hdr w1)\<lparr>aFrameCksum := ck\<rparr>\<rparr>"
    have w2: "index_ok ?w2 []" "mxFrame (hdr ?w2) = 0" "szPage ?w2 = sz" "length (aSalt (hdr ?w2)) = 8" "aReadMark ?w2 = aReadMark w" "aHdr0 ?w2 = aHdr0 w"
      using index_ok_data [OF assms(2), of ?w2] True by (simp_all add: w1_def zero_hdr_def)
    obtain rc w3 ck3 where l: "recover_loop env io file sz 0 32 ?w2 (0, 0) = Some (rc, w3, ck3)" "index_holds w3" "aSalt (hdr w3) = aSalt (hdr ?w2)"
        "aReadMark w3 = aReadMark ?w2" "aHdr0 w3 = aHdr0 ?w2"
      using recover_loop_total [OF assms(1) sz w2(1) _ w2(3), of io "file" 32 "(0, 0)"] w2(2) by auto
    have run: "walIndexRecover env io file w = (if fst ck \<noteq> c0 \<or> snd ck \<noteq> c1 then recover_finish SQLITE_OK ?w2 (0, 0)
        else if version \<noteq> WAL_MAX_VERSION then recover_finish SQLITE_CANTOPEN ?w2 (0, 0)
        else if \<not> frame_malloc io then Some (SQLITE_NOMEM, ?w2) else recover_finish rc w3 ck3)"
      using True good g ck l(1) by (simp add: walIndexRecover_def WAL_HDRSIZE_def Let_def w1_def)
    have holds: "index_holds ?w2" "length (aSalt (hdr w3)) = 8" "aReadMark w3 = aReadMark w" "aHdr0 w3 = aHdr0 w"
      using index_holds_empty [OF w2(1,2)] l w2(4-6) by simp_all
    have nomem: "recover_ok io w (SQLITE_NOMEM, ?w2)"
      using wal_wf_index [OF holds(1)] w2(5,6) by (auto simp: recover_ok_def wal_wf_def SQLITE_NOMEM_def SQLITE_OK_def)
    note fin = recover_finish_total [OF w2(4) holds(1) w2(5,6)] recover_finish_total [OF holds(2) l(2) holds(3,4)]
    show ?thesis unfolding run using fin(1) [of SQLITE_OK "(0, 0)" io] fin(1) [of SQLITE_CANTOPEN "(0, 0)" io] fin(2) [of rc ck3 io] nomem by auto
  qed
qed

section \<open>Properties\<close>

text \<open>C20. Recovery after a crash restores exactly the committed transactions: whatever follows the last complete frame (nothing, a frame that was not written completely, frames of an earlier
  log), the index is rebuilt with the frames up to the last commit, the size of the database is the one of that commit, and looking up a page gives its last committed frame.\<close>

theorem crash_recovery:
  assumes "shm_good env" "reads_good io" "index_ok w []" "readLock w \<noteq> 0" "sz \<in> set page_sizes" "length salt = 8"
    and "\<forall>f\<in>set fs. frame_ok (unat sz) f" "length fs < 2 ^ 32" "stops (unat sz) salt (foldl next_ck (header_ck sz n salt) fs) tail"
  shows "\<exists>w'. walIndexRecover env io (log_bytes sz n salt fs @ tail) w = Some (SQLITE_OK, w') \<and> unat (mxFrame (hdr w')) = committed fs \<and>
    nPage (hdr w') = (if committed fs = 0 then 0 else fst (snd (fs ! (committed fs - 1)))) \<and>
    (\<forall>P. sqlite3WalFindFrame env w' P = Some (SQLITE_OK, linear_find (map fst fs) P (committed fs), w'))"
proof -
  obtain w' where w': "walIndexRecover env io (log_bytes sz n salt fs @ tail) w = Some (SQLITE_OK, w')" "index_ok w' (map fst fs)" "readLock w' = readLock w"
      "mxFrame (hdr w') = of_nat (committed fs)" "nPage (hdr w') = (if committed fs = 0 then 0 else fst (snd (fs ! (committed fs - 1))))"
    using recover_log [OF assms(1-3,5-7,9)] by blast
  have "unat (mxFrame (hdr w')) = committed fs" using w'(4) committed_le [of fs] assms(8) by (simp add: unat_of_nat take_bit_nat_eq_self)
  then show ?thesis using w' sqlite3WalFindFrame_linear [OF w'(2)] committed_le [of fs] assms(4) by auto
qed

definition example_io :: wal_io where
  "example_io = \<lparr>lock_rc = SQLITE_OK, size_rc = SQLITE_OK, read_rc = \<lambda>_. SQLITE_OK, write_rc = \<lambda>_. SQLITE_OK, sync_rc = SQLITE_OK, frame_malloc = True,
     sector_size = 512, trunc_ok = True\<rparr>"

definition example_reader :: Wal where
  "example_reader = example_wal\<lparr>readLock := 1\<rparr>"

definition zeros :: "nat \<Rightarrow> u8 list" where
  "zeros n = replicate n 0"

lemma example_good: "shm_good example_env" "reads_good example_io" "index_ok example_reader []" "readLock example_reader \<noteq> 0" "length (zeros n) = n" "512 \<in> set page_sizes"
  by (auto simp: shm_good_def shm_ok_def example_env_def page_sized_def zero_page_def seg_size_def reads_good_def example_io_def
      index_ok_def example_reader_def example_wal_def wi_get_def zeros_def page_sizes_def)

theorem crash_recovery_witness:
  "\<exists>w'. walIndexRecover example_env example_io (log_bytes 512 0 (zeros 8) [(7, 1, zeros 512), (9, 0, zeros 512)] @ [1, 2, 3]) example_reader = Some (SQLITE_OK, w') \<and>
    unat (mxFrame (hdr w')) = 1 \<and> nPage (hdr w') = 1 \<and> sqlite3WalFindFrame example_env w' 7 = Some (SQLITE_OK, 1, w') \<and>
    sqlite3WalFindFrame example_env w' 9 = Some (SQLITE_OK, 0, w')"
proof -
  have "stops (unat (512 :: u32)) (zeros 8) ck [1, 2, 3]" for ck by (simp add: stops_def)
  then have "\<exists>w'. walIndexRecover example_env example_io (log_bytes 512 0 (zeros 8) [(7, 1, zeros 512), (9, 0, zeros 512)] @ [1, 2, 3]) example_reader = Some (SQLITE_OK, w') \<and>
      unat (mxFrame (hdr w')) = committed [(7, 1, zeros 512), (9, 0, zeros 512)] \<and> nPage (hdr w') = 1 \<and>
      (\<forall>P. sqlite3WalFindFrame example_env w' P = Some (SQLITE_OK, linear_find (map fst [(7, 1, zeros 512), (9, 0, zeros 512)]) P 1, w'))"
    using crash_recovery [of example_env example_io example_reader 512 "zeros 8" "[(7, 1, zeros 512), (9, 0, zeros 512)]" 0 "[1, 2, 3]"] example_good
    by (simp add: frame_ok_def)
  then show ?thesis by fastforce
qed

text \<open>C26. Recovery is safe on any file: whatever bytes the log consists of and whichever operation fails, recovery ends without looking outside its buffers or probing for ever, and if it succeeds the
  header is published and the index is sound: a lookup gives a frame of the header that the index lists for that page, or nothing.\<close>

theorem recover_any_file:
  assumes "shm_ok env" "index_ok w []"
  shows "\<exists>rc w'. walIndexRecover env io file w = Some (rc, w') \<and>
    (rc = SQLITE_OK \<longrightarrow> aHdr0 w' = hdr w' \<and> aHdr1 w' = hdr w' \<and> (\<forall>P. \<exists>f. sqlite3WalFindFrame env (w'\<lparr>readLock := 1\<rparr>) P = Some (SQLITE_OK, f, w'\<lparr>readLock := 1\<rparr>) \<and>
      f \<le> unat (mxFrame (hdr w')) \<and> (0 < f \<longrightarrow> walFramePgno w' f = Some P)))"
proof -
  obtain rc w' where w': "walIndexRecover env io file w = Some (rc, w')" "recover_ok io w (rc, w')" using walIndexRecover_total [OF assms] by blast
  have "\<exists>f. sqlite3WalFindFrame env (w'\<lparr>readLock := 1\<rparr>) P = Some (SQLITE_OK, f, w'\<lparr>readLock := 1\<rparr>) \<and> f \<le> unat (mxFrame (hdr w')) \<and> (0 < f \<longrightarrow> walFramePgno w' f = Some P)"
    if holds: "index_holds w'" for P
  proof -
    obtain ps where ps: "index_ok w' ps" "unat (mxFrame (hdr w')) \<le> length ps" using holds by (auto simp: index_holds_def)
    let ?f = "linear_find ps P (unat (mxFrame (hdr w')))"
    have "index_ok (w'\<lparr>readLock := 1\<rparr>) ps" using ps(1) by (rule index_ok_data) simp
    from sqlite3WalFindFrame_linear [OF this] have "sqlite3WalFindFrame env (w'\<lparr>readLock := 1\<rparr>) P = Some (SQLITE_OK, ?f, w'\<lparr>readLock := 1\<rparr>)" using ps(2) by simp
    moreover have "walFramePgno w' ?f = Some P" if "0 < ?f"
      using walFramePgno_ok [OF ps(1) that] linear_find_le [of ps P "unat (mxFrame (hdr w'))"] ps(2) linear_find_hit [OF that] by simp
    ultimately show ?thesis by (intro exI [of _ ?f]) (simp add: linear_find_le)
  qed
  then show ?thesis using w' by (auto simp: recover_ok_def)
qed

theorem recover_any_file_witness:
  "\<exists>rc w'. walIndexRecover example_env example_io (zeros 100) example_reader = Some (rc, w')"
  using recover_any_file [of example_env example_reader example_io "zeros 100"] example_good(1,3) by (auto simp: shm_good_def)

text \<open>A header that was published with \<^verbatim>\<open>walIndexWriteHdr\<close> is read back by \<^verbatim>\<open>walIndexTryHdr\<close>, with the size of pages, also 65536 that does not fit in the 16 bits of its field; a reader that sees
  the copies of two different headers, because the writer is between them, takes neither of them.\<close>

lemma header_published:
  assumes "length (aSalt (hdr w)) = 8" "sz \<in> set page_sizes" "hdr_szPage (hdr w) = hdr_page_size sz"
  shows "\<exists>w'. walIndexWriteHdr w = Some w' \<and>
    (\<exists>r'. walIndexTryHdr r (aHdr0 w') (aHdr1 w') = Some (False, hdr r \<noteq> hdr w', r') \<and> hdr r' = hdr w' \<and> (hdr r \<noteq> hdr w' \<longrightarrow> szPage r' = sz)) \<and>
    (\<forall>old. old \<noteq> hdr w' \<longrightarrow> walIndexTryHdr r (aHdr0 w') old = Some (True, False, r) \<and> walIndexTryHdr r old (aHdr1 w') = Some (True, False, r))"
proof -
  let ?h = "(hdr w)\<lparr>isInit := 1, iVersion := WALINDEX_MAX_VERSION\<rparr>"
  let ?ck = "ck_of True (hdr_bytes ?h) (0, 0)"
  have l: "length (hdr_bytes ?h) = 40" using assms(1) by (simp add: hdr_bytes_def le_bytes_def)
  have "8 dvd length (hdr_bytes ?h)" "hdr_bytes ?h \<noteq> []" unfolding l by (simp_all add: l flip: length_greater_0_conv)
  then have ck: "walChecksumBytes True (hdr_bytes ?h) None = Some ?ck" by (rule walChecksumBytes_None)
  define h where "h = ?h\<lparr>aCksum := ?ck\<rparr>"
  have wr: "walIndexWriteHdr w = Some (w\<lparr>hdr := h, aHdr1 := h, aHdr0 := h\<rparr>)" using ck by (simp add: walIndexWriteHdr_def h_def Let_def)
  have "hdr_bytes h = hdr_bytes ?h" by (simp add: hdr_bytes_def h_def)
  then have ok: "walChecksumBytes True (hdr_bytes h) None = Some (aCksum h)" "isInit h = 1" "hdr_szPage h = hdr_page_size sz" using ck assms(3) by (simp_all add: h_def)
  have "ucast (hdr_page_size sz AND 0xfe00) + push_bit 16 (ucast (hdr_page_size sz AND 1)) = sz" using assms(2) by (auto simp: page_sizes_def hdr_page_size_def)
  then show ?thesis using wr ok by (auto simp: walIndexTryHdr_def)
qed

end
