(* ===== verification/WalLocks.thy ===== *)
theory WalLocks
  imports WalLog
begin

text \<open>
  Transactions on the write-ahead log (\<^verbatim>\<open>wal.c\<close>): the locks on shared memory, reading the header of the index, the beginning and end of read and write transactions, and the restart
  of a log that is copied completely. What other connections do is an argument: the answers to requests for locks, and \<open>others\<close>, what they have done
  to shared memory by the next time that the code looks at it.
\<close>

section \<open>Locks\<close>

record lock_env =
  sh_lock :: "nat \<Rightarrow> int"
  ex_lock :: "nat \<Rightarrow> nat \<Rightarrow> int"
  others :: "nat \<Rightarrow> Wal \<Rightarrow> Wal"

definition WAL_WRITE_LOCK :: nat where "WAL_WRITE_LOCK = 0"
definition WAL_CKPT_LOCK :: nat where "WAL_CKPT_LOCK = 1"
definition WAL_RECOVER_LOCK :: nat where "WAL_RECOVER_LOCK = 2"
definition WAL_READ_LOCK :: "nat \<Rightarrow> nat" where "WAL_READ_LOCK i = 3 + i"

definition walLockShared :: "lock_env \<Rightarrow> Wal \<Rightarrow> nat \<Rightarrow> int" where
  "walLockShared lk w lockIdx = (if exclusiveMode w \<noteq> 0 then SQLITE_OK else sh_lock lk lockIdx)"

definition walLockExclusive :: "lock_env \<Rightarrow> Wal \<Rightarrow> nat \<Rightarrow> nat \<Rightarrow> int" where
  "walLockExclusive lk w lockIdx n = (if exclusiveMode w \<noteq> 0 then SQLITE_OK else ex_lock lk lockIdx n)"

section \<open>Reading the header\<close>

text \<open>The result is the code, whether the header changed, and the handle. The second copy of the header is read after others may have changed it; with the
  write lock nobody else changes it.\<close>

definition try_shared :: "lock_env \<Rightarrow> nat \<Rightarrow> Wal \<Rightarrow> (bool \<times> bool \<times> Wal) option" where
  "try_shared lk k w = (let h1 = aHdr0 w; w = others lk k w in walIndexTryHdr w h1 (aHdr1 w))"

definition read_locked :: "wal_env \<Rightarrow> wal_io \<Rightarrow> u8 list \<Rightarrow> Wal \<Rightarrow> bool \<Rightarrow> (int \<times> bool \<times> bool \<times> Wal) option" where
  "read_locked env io file w changed = (case walIndexPage env w 0 of (rc, page0, w) \<Rightarrow>
     if rc \<noteq> SQLITE_OK then Some (rc, True, changed, w)
     else do {
       (badHdr, ch, w) \<leftarrow> walIndexTryHdr w (aHdr0 w) (aHdr1 w);
       if badHdr then do { (rc, w) \<leftarrow> walIndexRecover env io file w; Some (rc, True, True, w) }
       else Some (SQLITE_OK, False, changed \<or> ch, w)
     })"

definition walIndexReadHdr :: "wal_env \<Rightarrow> lock_env \<Rightarrow> wal_io \<Rightarrow> u8 list \<Rightarrow> Wal \<Rightarrow> (int \<times> bool \<times> Wal) option" where
  "walIndexReadHdr env lk io file w = (case walIndexPage env w 0 of (rc, page0, w) \<Rightarrow>
     if rc \<noteq> SQLITE_OK then Some (rc, False, w)
     else do {
       (badHdr, changed, w) \<leftarrow> (if page0 \<noteq> None then try_shared lk 0 w else Some (True, False, w));
       (rc, badHdr, changed, w) \<leftarrow>
         (if \<not> badHdr then Some (SQLITE_OK, False, changed, w)
          else if shm_rdonly w
          then let rc = walLockShared lk w WAL_WRITE_LOCK in
            Some (if rc = SQLITE_OK then SQLITE_READONLY_RECOVERY else rc, True, changed, w)
          else let rc = walLockExclusive lk w WAL_WRITE_LOCK 1 in
            if rc \<noteq> SQLITE_OK then Some (rc, True, changed, w)
            else do {
              (rc, badHdr, changed, w) \<leftarrow> read_locked env io file ((others lk 1 w)\<lparr>writeLock := True\<rparr>) changed;
              Some (rc, badHdr, changed, w\<lparr>writeLock := False\<rparr>)
            });
       Some (if \<not> badHdr \<and> iVersion (hdr w) \<noteq> WALINDEX_MAX_VERSION then SQLITE_CANTOPEN else rc, changed, w)
     })"

section \<open>Read transactions\<close>

definition WAL_RETRY :: int where "WAL_RETRY = - 1"

text \<open>The mark that is largest but not above the last frame of the snapshot, and its index; 0 if there is none.\<close>

primrec scan_marks :: "u32 list \<Rightarrow> u32 \<Rightarrow> nat \<Rightarrow> u32 \<times> nat \<Rightarrow> u32 \<times> nat" where
  "scan_marks [] mx i best = best"
| "scan_marks (thisMark # ms) mx i best = scan_marks ms mx (Suc i) (if fst best \<le> thisMark \<and> thisMark \<le> mx then (thisMark, i) else best)"

text \<open>Taking over a mark that no reader uses. The result is the code of the last lock, the mark and its index, and whether the code returns at once; \<open>n\<close> marks are left.\<close>

primrec claim_mark :: "lock_env \<Rightarrow> Wal \<Rightarrow> nat \<Rightarrow> nat \<Rightarrow> u32 \<times> nat \<Rightarrow> int \<Rightarrow> bool \<times> int \<times> (u32 \<times> nat) \<times> Wal" where
  "claim_mark lk w i 0 best rc = (False, rc, best, w)"
| "claim_mark lk w i (Suc n) best rc = (let rc = walLockExclusive lk w (WAL_READ_LOCK i) 1 in
     if rc = SQLITE_OK then (False, rc, (mxFrame (hdr w), i), w\<lparr>aReadMark := (aReadMark w)[i := mxFrame (hdr w)]\<rparr>)
     else if rc \<noteq> SQLITE_BUSY then (True, rc, best, w)
     else claim_mark lk w (Suc i) n best rc)"

text \<open>The part of \<^verbatim>\<open>walTryBeginRead\<close> that uses the log.\<close>

definition begin_with_log :: "lock_env \<Rightarrow> Wal \<Rightarrow> int \<Rightarrow> int \<times> Wal" where
  "begin_with_log lk w rc =
    (let best = scan_marks (drop 1 (aReadMark w)) (mxFrame (hdr w)) 1 (0, 0);
         w = others lk 3 w in
     case (if \<not> shm_rdonly w \<and> (fst best < mxFrame (hdr w) \<or> snd best = 0) then claim_mark lk w 1 (WAL_NREADER - 1) best rc else (False, rc, best, w)) of
       (stop, rc, (mxReadMark, mxI), w) \<Rightarrow>
         if stop then (rc, w)
         else if mxI = 0 then (if rc = SQLITE_BUSY then WAL_RETRY else SQLITE_READONLY_CANTLOCK, w)
         else let w = others lk 4 w; rc = walLockShared lk w (WAL_READ_LOCK mxI) in
           if rc \<noteq> SQLITE_OK then (if rc = SQLITE_BUSY then WAL_RETRY else rc, w)
           else if aReadMark w ! mxI \<noteq> mxReadMark \<or> aHdr0 w \<noteq> hdr w then (WAL_RETRY, w)
           else (SQLITE_OK, w\<lparr>readLock := int mxI\<rparr>))"

definition walTryBeginRead :: "wal_env \<Rightarrow> lock_env \<Rightarrow> wal_io \<Rightarrow> u8 list \<Rightarrow> Wal \<Rightarrow> bool \<Rightarrow> nat \<Rightarrow> (int \<times> bool \<times> Wal) option" where
  "walTryBeginRead env lk io file w useWal cnt =
    (if cnt > 100 then Some (SQLITE_PROTOCOL, False, w)
     else do {
       (rc, changed, w) \<leftarrow>
         (if useWal then Some (SQLITE_OK, False, w)
          else do {
            (rc, changed, w) \<leftarrow> walIndexReadHdr env lk io file w;
            Some (if rc \<noteq> SQLITE_BUSY then rc
                  else if wi_get w 0 = None then WAL_RETRY
                  else let rc = walLockShared lk w WAL_RECOVER_LOCK in
                    if rc = SQLITE_OK then WAL_RETRY else if rc = SQLITE_BUSY then SQLITE_BUSY_RECOVERY else rc, changed, w)
          });
       if rc \<noteq> SQLITE_OK then Some (rc, changed, w)
       else if \<not> useWal \<and> nBackfill w = unat (mxFrame (hdr w))
       then let w = others lk 2 w; rc = walLockShared lk w (WAL_READ_LOCK 0) in
         if rc = SQLITE_OK
         then if aHdr0 w \<noteq> hdr w then Some (WAL_RETRY, changed, w) else Some (SQLITE_OK, changed, w\<lparr>readLock := 0\<rparr>)
         else if rc \<noteq> SQLITE_BUSY then Some (rc, changed, w)
         else case begin_with_log lk w rc of (rc, w) \<Rightarrow> Some (rc, changed, w)
       else case begin_with_log lk w rc of (rc, w) \<Rightarrow> Some (rc, changed, w)
     })"

lemma walTryBeginRead_retry: "walTryBeginRead env lk io file w useWal cnt = Some (WAL_RETRY, ch, w') \<Longrightarrow> cnt \<le> 100"
  by (auto simp: walTryBeginRead_def WAL_RETRY_def SQLITE_PROTOCOL_def split: if_splits)

text \<open>Attempts until one does not ask for another; the answers of other connections can be different each time.\<close>

function begin_loop :: "wal_env \<Rightarrow> (nat \<Rightarrow> lock_env) \<Rightarrow> wal_io \<Rightarrow> u8 list \<Rightarrow> Wal \<Rightarrow> bool \<Rightarrow> nat \<Rightarrow> bool \<Rightarrow> (int \<times> bool \<times> Wal) option" where
  "begin_loop env lks io file w useWal cnt ch = do {
     (rc, changed, w) \<leftarrow> walTryBeginRead env (lks (Suc cnt)) io file w useWal (Suc cnt);
     if rc = WAL_RETRY then begin_loop env lks io file w useWal (Suc cnt) (ch \<or> changed)
     else Some (rc, ch \<or> changed, w) }"
  by pat_completeness auto
termination
  by (relation "measure (\<lambda>(env, lks, io, file, w, useWal, cnt, ch). 101 - cnt)") (auto dest: walTryBeginRead_retry)

declare begin_loop.simps [simp del]

definition sqlite3WalBeginReadTransaction :: "wal_env \<Rightarrow> (nat \<Rightarrow> lock_env) \<Rightarrow> wal_io \<Rightarrow> u8 list \<Rightarrow> Wal \<Rightarrow> (int \<times> bool \<times> Wal) option" where
  "sqlite3WalBeginReadTransaction env lks io file w = begin_loop env lks io file w False 0 False"

definition sqlite3WalEndWriteTransaction :: "Wal \<Rightarrow> int \<times> Wal" where
  "sqlite3WalEndWriteTransaction w = (SQLITE_OK, if writeLock w then w\<lparr>writeLock := False, truncateOnCommit := False\<rparr> else w)"

definition sqlite3WalEndReadTransaction :: "Wal \<Rightarrow> Wal" where
  "sqlite3WalEndReadTransaction w = (let w = snd (sqlite3WalEndWriteTransaction w) in if readLock w \<ge> 0 then w\<lparr>readLock := - 1\<rparr> else w)"

section \<open>Write transactions\<close>

definition sqlite3WalBeginWriteTransaction :: "lock_env \<Rightarrow> Wal \<Rightarrow> int \<times> Wal" where
  "sqlite3WalBeginWriteTransaction lk w =
    (if rdonly w \<or> shm_rdonly w then (SQLITE_READONLY, w)
     else let rc = walLockExclusive lk w WAL_WRITE_LOCK 1; w = others lk 5 w in
       if rc \<noteq> SQLITE_OK then (rc, w)
       else if hdr w \<noteq> aHdr0 w then (SQLITE_BUSY_SNAPSHOT, w\<lparr>writeLock := False\<rparr>)
       else (SQLITE_OK, w\<lparr>writeLock := True\<rparr>))"

text \<open>The header of a restarted log. The salt is kept as the bytes of the header; \<open>salt1\<close> are the random bytes of its second half.\<close>

definition restart_header :: "u8 list \<Rightarrow> Wal \<Rightarrow> Wal option" where
  "restart_header salt1 w = do {
     s0 \<leftarrow> sqlite3Get4byte (aSalt (hdr w));
     salt0 \<leftarrow> sqlite3Put4byte (take 4 (aSalt (hdr w))) (1 + s0);
     w \<leftarrow> walIndexWriteHdr (w\<lparr>nCkpt := nCkpt w + 1, hdr := (hdr w)\<lparr>mxFrame := 0, aSalt := salt0 @ salt1\<rparr>\<rparr>);
     Some (w\<lparr>nBackfill := 0, aReadMark := take 1 (aReadMark w) @ 0 # replicate (WAL_NREADER - 2) READMARK_NOT_USED\<rparr>) }"

definition walRestartLog :: "wal_env \<Rightarrow> (nat \<Rightarrow> lock_env) \<Rightarrow> wal_io \<Rightarrow> u8 list \<Rightarrow> Wal \<Rightarrow> u8 list \<Rightarrow> (int \<times> Wal) option" where
  "walRestartLog env lks io file w salt1 =
    (if readLock w \<noteq> 0 then Some (SQLITE_OK, w)
     else let rc = (if nBackfill w > 0 then walLockExclusive (lks 0) w (WAL_READ_LOCK 1) (WAL_NREADER - 1) else SQLITE_OK) in
       if rc \<noteq> SQLITE_OK \<and> rc \<noteq> SQLITE_BUSY then Some (rc, w)
       else do {
         w \<leftarrow> (if nBackfill w > 0 \<and> rc = SQLITE_OK then restart_header salt1 w else Some w);
         (rc, notUsed, w) \<leftarrow> begin_loop env lks io file (w\<lparr>readLock := - 1\<rparr>) True 0 False;
         Some (rc, w)
       })"

section \<open>Smaller operations\<close>

definition sqlite3WalCallback :: "Wal \<Rightarrow> nat \<times> Wal" where
  "sqlite3WalCallback w = (iCallback w, w\<lparr>iCallback := 0\<rparr>)"

definition sqlite3WalExclusiveMode :: "lock_env \<Rightarrow> Wal \<Rightarrow> int \<Rightarrow> bool \<times> Wal" where
  "sqlite3WalExclusiveMode lk w op =
    (if op = 0
     then if exclusiveMode w \<noteq> 0
       then let w = w\<lparr>exclusiveMode := 0\<rparr>;
                w = (if walLockShared lk w (WAL_READ_LOCK (nat (readLock w))) \<noteq> SQLITE_OK then w\<lparr>exclusiveMode := 1\<rparr> else w) in (exclusiveMode w = 0, w)
       else (False, w)
     else if op > 0 then (True, w\<lparr>exclusiveMode := 1\<rparr>)
     else (exclusiveMode w = 0, w))"

definition sqlite3WalHeapMemory :: "Wal \<Rightarrow> bool" where
  "sqlite3WalHeapMemory w \<longleftrightarrow> exclusiveMode w = WAL_HEAPMEMORY_MODE"

definition sqlite3WalDbsize :: "Wal \<Rightarrow> u32" where
  "sqlite3WalDbsize w = (if readLock w \<ge> 0 then nPage (hdr w) else 0)"

definition walPagesize :: "Wal \<Rightarrow> nat" where
  "walPagesize w = unat (hdr_szPage (hdr w) AND 0xfe00) + unat (hdr_szPage (hdr w) AND 1) * 2 ^ 16"

text \<open>The bytes that are read, if the file has them.\<close>

definition sqlite3WalReadFrame :: "u8 list \<Rightarrow> Wal \<Rightarrow> nat \<Rightarrow> nat \<Rightarrow> u8 list" where
  "sqlite3WalReadFrame file w iRead nOut = (let sz = walPagesize w in
     take (if nOut > sz then sz else nOut) (drop (walFrameOffset iRead sz + WAL_FRAME_HDRSIZE) file))"

section \<open>Well-formed handles\<close>

text \<open>Other connections change shared memory only, and keep it well formed.\<close>

definition others_ok :: "lock_env \<Rightarrow> bool" where
  "others_ok lk \<longleftrightarrow> (\<forall>k w. wal_wf w \<longrightarrow> wal_wf (others lk k w)) \<and>
     (\<forall>k w. \<exists>a h0 h1 n m. others lk k w = w\<lparr>apWiData := a, aHdr0 := h0, aHdr1 := h1, nBackfill := n, aReadMark := m\<rparr>)"

lemma others_wf: "others_ok lk \<Longrightarrow> wal_wf w \<Longrightarrow> wal_wf (others lk k w)"
  by (simp add: others_ok_def)

lemma others_hdr:
  assumes "others_ok lk"
  shows "hdr (others lk k w) = hdr w" "nCkpt (others lk k w) = nCkpt w"
proof -
  obtain a h0 h1 n m where "others lk k w = w\<lparr>apWiData := a, aHdr0 := h0, aHdr1 := h1, nBackfill := n, aReadMark := m\<rparr>" using assms unfolding others_ok_def by meson
  then show "hdr (others lk k w) = hdr w" "nCkpt (others lk k w) = nCkpt w" by simp_all
qed

lemma walIndexPage_wf:
  assumes "walIndexPage env w 0 = (rc, p, w')" "shm_ok env" "wal_wf w"
  shows "wal_wf w'" "hdr w' = hdr w"
proof -
  obtain z where g: "walHashGet env w 0 = (rc, z, w')" using assms(1) by (simp add: walHashGet_def)
  have "index_ok w' []" using index_ok_get [OF _ g assms(2)] assms(3) by (simp add: wal_wf_def)
  moreover have r: "remapped w w'" using walHashGet_keeps(2) [OF g assms(2)] .
  ultimately show "wal_wf w'" "hdr w' = hdr w" using assms(3) remapped_fields [OF r] by (simp_all add: wal_wf_def)
qed

lemma walIndexTryHdr_total:
  assumes "length (aSalt h1) = 8" "wal_wf w"
  shows "\<exists>b c w'. walIndexTryHdr w h1 h2 = Some (b, c, w') \<and> wal_wf w'"
proof -
  have l: "length (hdr_bytes h1) = 40" using assms(1) by (simp add: hdr_bytes_def le_bytes_def)
  have "8 dvd length (hdr_bytes h1)" "hdr_bytes h1 \<noteq> []" unfolding l by (simp_all add: l flip: length_greater_0_conv)
  from walChecksumBytes_None [OF this] have ck: "walChecksumBytes True (hdr_bytes h1) None = Some (ck_of True (hdr_bytes h1) (0, 0))" .
  have wf: "wal_wf (w\<lparr>hdr := h, szPage := z\<rparr>)" for h z using assms(2) index_ok_data [of w "[]" "w\<lparr>hdr := h, szPage := z\<rparr>"] by (simp add: wal_wf_def)
  show ?thesis
  proof (cases "h1 = h2 \<and> isInit h1 \<noteq> 0 \<and> ck_of True (hdr_bytes h1) (0, 0) = aCksum h1 \<and> hdr w \<noteq> h1")
    case True
    then show ?thesis using ck wf by (auto simp: walIndexTryHdr_def)
  next
    case False
    then have "\<exists>b. walIndexTryHdr w h1 h2 = Some (b, False, w)" using ck by (auto simp: walIndexTryHdr_def)
    then show ?thesis using assms(2) by blast
  qed
qed

lemma wal_wf_update: "wal_wf w \<Longrightarrow> apWiData w' = apWiData w \<Longrightarrow> aHdr0 w' = aHdr0 w \<Longrightarrow> aReadMark w' = aReadMark w \<Longrightarrow> wal_wf w'"
  using index_ok_data [of w "[]" w'] by (simp add: wal_wf_def)

lemma read_locked_total:
  assumes "shm_ok env" "wal_wf w"
  shows "\<exists>rc b c w'. read_locked env io file w ch = Some (rc, b, c, w') \<and> wal_wf w'"
proof -
  obtain rc p w1 where p: "walIndexPage env w 0 = (rc, p, w1)" by (metis prod_cases3)
  have w1: "wal_wf w1" using walIndexPage_wf(1) [OF p assms] .
  then have "length (aSalt (aHdr0 w1)) = 8" by (simp add: wal_wf_def)
  from walIndexTryHdr_total [OF this w1] obtain b c w2 where t: "walIndexTryHdr w1 (aHdr0 w1) (aHdr1 w1) = Some (b, c, w2)" "wal_wf w2" by blast
  have "index_ok w2 []" using t(2) by (simp add: wal_wf_def)
  from walIndexRecover_total [OF assms(1) this, of io "file"] obtain rc' w3 where "walIndexRecover env io file w2 = Some (rc', w3)" "wal_wf w3"
    using t(2) by (auto simp: recover_ok_def)
  then show ?thesis using p t w1 by (auto simp: read_locked_def)
qed

lemma walIndexReadHdr_total:
  assumes "shm_ok env" "others_ok lk" "wal_wf w"
  shows "\<exists>rc c w'. walIndexReadHdr env lk io file w = Some (rc, c, w') \<and> wal_wf w'"
proof -
  obtain rc p w1 where p: "walIndexPage env w 0 = (rc, p, w1)" by (metis prod_cases3)
  have w1: "wal_wf w1" using walIndexPage_wf(1) [OF p assms(1,3)] .
  have o: "wal_wf (others lk 0 w1)" "length (aSalt (aHdr0 w1)) = 8" using others_wf [OF assms(2) w1] w1 by (auto simp: wal_wf_def)
  obtain b c w2 where t: "(if p \<noteq> None then try_shared lk 0 w1 else Some (True, False, w1)) = Some (b, c, w2)" "wal_wf w2"
    using walIndexTryHdr_total [OF o(2,1), of "aHdr1 (others lk 0 w1)"] w1 by (cases "p = None") (auto simp: try_shared_def Let_def)
  have "wal_wf ((others lk 1 w2)\<lparr>writeLock := True\<rparr>)" using others_wf [OF assms(2) t(2), of 1] by (rule wal_wf_update) simp_all
  from read_locked_total [OF assms(1) this] obtain rc' b' c' w3 where r: "read_locked env io file ((others lk 1 w2)\<lparr>writeLock := True\<rparr>) c = Some (rc', b', c', w3)" "wal_wf w3"
    by blast
  have "wal_wf (w3\<lparr>writeLock := False\<rparr>)" using r(2) by (rule wal_wf_update) simp_all
  then show ?thesis using p t r w1 by (auto simp: walIndexReadHdr_def Let_def)
qed


section \<open>Beginning to read\<close>

text \<open>A read transaction: the header is the one in shared memory at the moment the lock is held, and the mark of the lock is not above the last frame of the snapshot.\<close>

definition reading :: "Wal \<Rightarrow> bool" where
  "reading w \<longleftrightarrow> 0 \<le> readLock w \<and> readLock w < int WAL_NREADER \<and> aHdr0 w = hdr w \<and> (0 < readLock w \<longrightarrow> aReadMark w ! nat (readLock w) \<le> mxFrame (hdr w))"

lemma scan_marks_ok:
  "fst best \<le> mx \<Longrightarrow> snd best < i \<Longrightarrow> fst (scan_marks ms mx i best) \<le> mx \<and> snd (scan_marks ms mx i best) < i + length ms"
proof (induction ms arbitrary: i best)
  case (Cons m ms)
  show ?case
  proof (cases "fst best \<le> m \<and> m \<le> mx")
    case True
    then show ?thesis using Cons.IH [of "(m, i)" "Suc i"] by simp
  next
    case False
    then show ?thesis using Cons.IH [of best "Suc i"] Cons.prems by auto
  qed
qed simp

lemma claim_mark_ok:
  assumes "claim_mark lk w i n best rc = (stop, rc', best', w')" "wal_wf w" "fst best \<le> mxFrame (hdr w)" "snd best < i + n"
  shows "wal_wf w' \<and> hdr w' = hdr w \<and> nCkpt w' = nCkpt w \<and> fst best' \<le> mxFrame (hdr w) \<and> snd best' < i + n \<and> (stop \<longrightarrow> rc' \<noteq> SQLITE_OK)"
  using assms
proof (induction n arbitrary: i rc)
  case (Suc n)
  let ?w = "w\<lparr>aReadMark := (aReadMark w)[i := mxFrame (hdr w)]\<rparr>"
  have "index_ok ?w []" by (rule index_ok_data [of w]) (use Suc.prems(2) in \<open>simp_all add: wal_wf_def\<close>)
  then have "wal_wf ?w" using Suc.prems(2) by (simp add: wal_wf_def)
  then show ?case using Suc.IH [of "Suc i"] Suc.prems by (auto simp: Let_def split: if_splits)
qed auto

lemma begin_with_log_ok:
  assumes "others_ok lk" "wal_wf w" "begin_with_log lk w rc0 = (rc, w')"
  shows "wal_wf w' \<and> hdr w' = hdr w \<and> nCkpt w' = nCkpt w \<and> (rc = SQLITE_OK \<longrightarrow> reading w' \<and> 0 < readLock w')"
proof -
  let ?best = "scan_marks (drop 1 (aReadMark w)) (mxFrame (hdr w)) 1 (0, 0)" and ?w = "others lk 3 w"
  have b: "fst ?best \<le> mxFrame (hdr ?w)" "snd ?best < 1 + (WAL_NREADER - 1)"
    using scan_marks_ok [of "(0, 0)" "mxFrame (hdr w)" 1 "drop 1 (aReadMark w)"] assms(2) others_hdr [OF assms(1)] by (simp_all add: wal_wf_def)
  have w: "wal_wf ?w" using others_wf [OF assms(1,2)] .
  obtain stop rc1 m j w1 where c: "(if \<not> shm_rdonly ?w \<and> (fst ?best < mxFrame (hdr ?w) \<or> snd ?best = 0) then claim_mark lk ?w 1 (WAL_NREADER - 1) ?best rc0 else (False, rc0, ?best, ?w)) =
      (stop, rc1, (m, j), w1)"
    by (metis prod_cases3 prod.exhaust)
  have w1: "wal_wf w1" "hdr w1 = hdr w" "nCkpt w1 = nCkpt w" "m \<le> mxFrame (hdr ?w)" "j < WAL_NREADER" "stop \<longrightarrow> rc1 \<noteq> SQLITE_OK"
    using claim_mark_ok [OF _ w b, of lk rc0 stop rc1 "(m, j)" w1] c w b by (auto simp: WAL_NREADER_def others_hdr [OF assms(1)] split: if_splits)
  have w2: "wal_wf (others lk 4 w1)" "hdr (others lk 4 w1) = hdr w1" "nCkpt (others lk 4 w1) = nCkpt w1" using others_wf [OF assms(1) w1(1)] others_hdr [OF assms(1)] by auto
  have wf: "wal_wf ((others lk 4 w1)\<lparr>readLock := l\<rparr>)" for l using w2(1) by (rule wal_wf_update) simp_all
  have codes: "WAL_RETRY \<noteq> SQLITE_OK" "SQLITE_READONLY_CANTLOCK \<noteq> SQLITE_OK" by (simp_all add: WAL_RETRY_def SQLITE_READONLY_CANTLOCK_def SQLITE_OK_def)
  have "begin_with_log lk w rc0 = (if stop then (rc1, w1) else if j = 0 then (if rc1 = SQLITE_BUSY then WAL_RETRY else SQLITE_READONLY_CANTLOCK, w1)
      else let w = others lk 4 w1; rc = walLockShared lk w (WAL_READ_LOCK j) in
        if rc \<noteq> SQLITE_OK then (if rc = SQLITE_BUSY then WAL_RETRY else rc, w)
        else if aReadMark w ! j \<noteq> m \<or> aHdr0 w \<noteq> hdr w then (WAL_RETRY, w) else (SQLITE_OK, w\<lparr>readLock := int j\<rparr>))"
    by (simp only: begin_with_log_def Let_def c prod.case)
  then show ?thesis using assms(3) w1 w2 wf codes others_hdr [OF assms(1)] by (auto simp: Let_def reading_def WAL_NREADER_def split: if_splits)
qed

lemma walTryBeginRead_ok:
  assumes "shm_ok env" "others_ok lk" "wal_wf w"
  shows "\<exists>rc c w'. walTryBeginRead env lk io file w u cnt = Some (rc, c, w') \<and> wal_wf w' \<and> (rc = SQLITE_OK \<longrightarrow> reading w')"
proof -
  have codes: "WAL_RETRY \<noteq> SQLITE_OK" "SQLITE_PROTOCOL \<noteq> SQLITE_OK" by (simp_all add: WAL_RETRY_def SQLITE_PROTOCOL_def SQLITE_OK_def)
  obtain rc c w1 where r: "(if u then Some (SQLITE_OK, False, w)
          else do {
            (rc, changed, w) \<leftarrow> walIndexReadHdr env lk io file w;
            Some (if rc \<noteq> SQLITE_BUSY then rc
                  else if wi_get w 0 = None then WAL_RETRY
                  else let rc = walLockShared lk w WAL_RECOVER_LOCK in
                    if rc = SQLITE_OK then WAL_RETRY else if rc = SQLITE_BUSY then SQLITE_BUSY_RECOVERY else rc, changed, w)
          }) = Some (rc, c, w1)" "wal_wf w1"
    using walIndexReadHdr_total [OF assms, of io "file"] assms(3) by (cases u) auto
  let ?w = "others lk 2 w1"
  have w2: "wal_wf ?w" "hdr ?w = hdr w1" using others_wf [OF assms(2) r(2)] others_hdr [OF assms(2)] by auto
  have wf: "wal_wf (?w\<lparr>readLock := 0\<rparr>)" using w2(1) by (rule wal_wf_update) simp_all
  have b: "wal_wf w' \<and> (rc = SQLITE_OK \<longrightarrow> reading w')" if "begin_with_log lk w1 rc0 = (rc, w') \<or> begin_with_log lk ?w rc0 = (rc, w')" for rc0 rc w'
    using begin_with_log_ok [OF assms(2) r(2)] begin_with_log_ok [OF assms(2) w2(1)] that by blast
  have r0: "reading (?w\<lparr>readLock := 0\<rparr>)" if "aHdr0 ?w = hdr ?w" using that by (simp add: reading_def WAL_NREADER_def)
  have "walTryBeginRead env lk io file w u cnt =
      (if cnt > 100 then Some (SQLITE_PROTOCOL, False, w)
       else if rc \<noteq> SQLITE_OK then Some (rc, c, w1)
       else if \<not> u \<and> nBackfill w1 = unat (mxFrame (hdr w1))
       then let rc = walLockShared lk ?w (WAL_READ_LOCK 0) in
         if rc = SQLITE_OK
         then if aHdr0 ?w \<noteq> hdr ?w then Some (WAL_RETRY, c, ?w) else Some (SQLITE_OK, c, ?w\<lparr>readLock := 0\<rparr>)
         else if rc \<noteq> SQLITE_BUSY then Some (rc, c, ?w)
         else case begin_with_log lk ?w rc of (rc, w) \<Rightarrow> Some (rc, c, w)
       else case begin_with_log lk w1 rc of (rc, w) \<Rightarrow> Some (rc, c, w))"
    by (simp add: walTryBeginRead_def r(1) Let_def)
  then show ?thesis using assms(3) r(2) w2(1) wf codes b r0 by (auto simp: Let_def split: prod.split)
qed

lemma begin_loop_ok:
  assumes "shm_ok env" "\<forall>k. others_ok (lks k)"
  shows "wal_wf w \<Longrightarrow> \<exists>rc c w'. begin_loop env lks io file w u cnt ch = Some (rc, c, w') \<and> rc \<noteq> WAL_RETRY \<and> wal_wf w' \<and> (rc = SQLITE_OK \<longrightarrow> reading w')"
proof (induction "101 - cnt" arbitrary: w cnt ch rule: less_induct)
  case less
  obtain rc c w' where t: "walTryBeginRead env (lks (Suc cnt)) io file w u (Suc cnt) = Some (rc, c, w')" "wal_wf w'" "rc = SQLITE_OK \<longrightarrow> reading w'"
    using walTryBeginRead_ok [OF assms(1) _ less.prems, of "lks (Suc cnt)" io "file" u "Suc cnt"] assms(2) by auto
  show ?case
  proof (cases "rc = WAL_RETRY")
    case True
    then have "101 - Suc cnt < 101 - cnt" using walTryBeginRead_retry [of env "lks (Suc cnt)" io "file" w u "Suc cnt"] t(1) by auto
    from less.hyps [OF this t(2)] show ?thesis using t(1) True by (subst begin_loop.simps) auto
  next
    case False
    then show ?thesis using t by (subst begin_loop.simps) auto
  qed
qed

text \<open>No more than 101 attempts are made.\<close>

lemma begin_loop_attempts:
  assumes "\<forall>k \<le> 101. lks' k = lks k"
  shows "cnt \<le> 100 \<Longrightarrow> begin_loop env lks' io file w u cnt ch = begin_loop env lks io file w u cnt ch"
proof (induction "101 - cnt" arbitrary: w cnt ch rule: less_induct)
  case less
  have "lks' (Suc cnt) = lks (Suc cnt)" using assms less.prems by simp
  moreover have "begin_loop env lks' io file w' u (Suc cnt) ch' = begin_loop env lks io file w' u (Suc cnt) ch'"
    if "walTryBeginRead env (lks (Suc cnt)) io file w u (Suc cnt) = Some (WAL_RETRY, c, w')" for c w' ch'
    using walTryBeginRead_retry [OF that] by (intro less.hyps) auto
  ultimately show ?case
    by (subst (1 2) begin_loop.simps) (auto intro!: Option.bind_cong split: prod.split)
qed

lemma begin_loop_log:
  assumes "\<forall>k. others_ok (lks k)"
  shows "wal_wf w \<Longrightarrow> begin_loop env lks io file w True cnt ch = Some (rc, c, w') \<Longrightarrow> hdr w' = hdr w \<and> nCkpt w' = nCkpt w \<and> wal_wf w' \<and> (rc = SQLITE_OK \<longrightarrow> 0 < readLock w')"
proof (induction "101 - cnt" arbitrary: w cnt ch rule: less_induct)
  case less
  obtain rc1 w1 where b: "begin_with_log (lks (Suc cnt)) w SQLITE_OK = (rc1, w1)" by fastforce
  have ok: "wal_wf w1 \<and> hdr w1 = hdr w \<and> nCkpt w1 = nCkpt w \<and> (rc1 = SQLITE_OK \<longrightarrow> reading w1 \<and> 0 < readLock w1)"
    using begin_with_log_ok [OF _ less.prems(1) b] assms by blast
  have codes: "WAL_RETRY \<noteq> SQLITE_PROTOCOL" "SQLITE_PROTOCOL \<noteq> SQLITE_OK" by (simp_all add: WAL_RETRY_def SQLITE_PROTOCOL_def SQLITE_OK_def)
  show ?case
  proof (cases "Suc cnt > 100")
    case True
    then have "walTryBeginRead env (lks (Suc cnt)) io file w True (Suc cnt) = Some (SQLITE_PROTOCOL, False, w)" by (simp add: walTryBeginRead_def)
    then show ?thesis using less.prems codes by (subst (asm) begin_loop.simps) auto
  next
    case False
    then have t: "walTryBeginRead env (lks (Suc cnt)) io file w True (Suc cnt) = Some (rc1, False, w1)" using b by (simp add: walTryBeginRead_def)
    show ?thesis
    proof (cases "rc1 = WAL_RETRY")
      case True
      then have "begin_loop env lks io file w1 True (Suc cnt) ch = Some (rc, c, w')" using less.prems(2) t by (subst (asm) begin_loop.simps) simp
      then show ?thesis using less.hyps [of "Suc cnt" w1 ch] ok False by simp
    next
      case False
      then show ?thesis using less.prems(2) t ok by (subst (asm) begin_loop.simps) auto
    qed
  qed
qed


section \<open>Properties\<close>

text \<open>C27. Beginning to read ends, whatever other connections do to shared memory between any two looks at it and however locks are answered: after at most 101 attempts there is a result that is not a
  request for another attempt; if it is success, the connection holds the lock of a mark that is not above its last frame, and its header is the one in shared memory.\<close>

theorem begin_read_ends:
  assumes "shm_ok env" "\<forall>k. others_ok (lks k)" "wal_wf w"
  shows "\<exists>rc c w'. sqlite3WalBeginReadTransaction env lks io file w = Some (rc, c, w') \<and> rc \<noteq> WAL_RETRY \<and> (rc = SQLITE_OK \<longrightarrow> reading w') \<and>
    (\<forall>lks'. (\<forall>k \<le> 101. lks' k = lks k) \<longrightarrow> sqlite3WalBeginReadTransaction env lks' io file w = Some (rc, c, w'))"
proof -
  obtain rc c w' where r: "sqlite3WalBeginReadTransaction env lks io file w = Some (rc, c, w')" "rc \<noteq> WAL_RETRY" "rc = SQLITE_OK \<longrightarrow> reading w'"
    using begin_loop_ok [OF assms, of io "file" False 0 False] by (auto simp: sqlite3WalBeginReadTransaction_def)
  have "sqlite3WalBeginReadTransaction env lks' io file w = Some (rc, c, w')" if "\<forall>k \<le> 101. lks' k = lks k" for lks'
    using begin_loop_attempts [OF that, of 0 env io "file" w False False] r(1) by (simp add: sqlite3WalBeginReadTransaction_def)
  then show ?thesis using r by blast
qed

definition example_locks :: "nat \<Rightarrow> lock_env" where
  "example_locks k = \<lparr>sh_lock = \<lambda>_. SQLITE_OK, ex_lock = \<lambda>_ _. SQLITE_OK, others = \<lambda>_ w. w\<rparr>"

definition example_idle :: Wal where
  "example_idle = example_wal\<lparr>readLock := - 1, writeLock := False, aReadMark := [0, 0, 0, 0, 0]\<rparr>"

lemma example_others: "\<forall>k. others_ok (example_locks k)"
proof -
  have "w = w\<lparr>apWiData := apWiData w, aHdr0 := aHdr0 w, aHdr1 := aHdr1 w, nBackfill := nBackfill w, aReadMark := aReadMark w\<rparr>" for w :: Wal by simp
  then have "\<exists>a h0 h1 n m. w = w\<lparr>apWiData := a, aHdr0 := h0, aHdr1 := h1, nBackfill := n, aReadMark := m\<rparr>" for w :: Wal by blast
  then show ?thesis by (simp add: others_ok_def example_locks_def)
qed

theorem begin_read_ends_witness:
  "\<exists>rc c w'. sqlite3WalBeginReadTransaction example_env example_locks example_io (zeros 100) example_idle = Some (rc, c, w') \<and> rc \<noteq> WAL_RETRY"
proof -
  note example_others
  moreover have "wal_wf example_idle" by (simp add: wal_wf_def example_idle_def example_wal_def example_hdr_def WAL_NREADER_def index_ok_def wi_get_def)
  moreover have "shm_ok example_env" using example_good(1) by (simp add: shm_good_def)
  ultimately show ?thesis using begin_read_ends [of example_env example_locks example_idle example_io "zeros 100"] by blast
qed

end
