(* ===== verification/WalWrite.thy ===== *)
theory WalWrite
  imports WalLocks
begin

text \<open>
  Writing the frames of a transaction to the write-ahead log (\<^verbatim>\<open>wal.c\<close>), and what a crash leaves of it.
\<close>

section \<open>Writing\<close>

text \<open>A write at an offset; a gap behind the end of the file is filled with zeros.\<close>

definition file_write :: "u8 list \<Rightarrow> nat \<Rightarrow> u8 list \<Rightarrow> u8 list" where
  "file_write file off b = (let f = file @ replicate (off - length file) 0 in take off f @ b @ drop (off + length b) f)"

text \<open>A write or a sync that fails leaves the file as it was before.\<close>

definition os_write :: "wal_io \<Rightarrow> u8 list \<Rightarrow> nat \<Rightarrow> u8 list \<Rightarrow> int \<times> u8 list" where
  "os_write io file off b = (if write_rc io off = SQLITE_OK then (SQLITE_OK, file_write file off b) else (write_rc io off, file))"

definition walWriteToLog :: "wal_io \<Rightarrow> nat \<Rightarrow> u8 list \<Rightarrow> nat \<Rightarrow> u8 list \<Rightarrow> int \<times> u8 list" where
  "walWriteToLog io iSyncPoint content iOffset file =
    (if iOffset < iSyncPoint \<and> iOffset + length content \<ge> iSyncPoint
     then let n = iSyncPoint - iOffset in
       case os_write io file iOffset (take n content) of (rc, file) \<Rightarrow>
         if rc \<noteq> SQLITE_OK then (rc, file)
         else if length content - n = 0 \<or> sync_rc io \<noteq> SQLITE_OK then (sync_rc io, file)
         else os_write io file (iOffset + n) (drop n content)
     else os_write io file iOffset content)"

definition walWriteOneFrame :: "wal_io \<Rightarrow> nat \<Rightarrow> nat \<Rightarrow> Wal \<Rightarrow> u32 \<times> u8 list \<Rightarrow> u32 \<Rightarrow> nat \<Rightarrow> u8 list \<Rightarrow> (int \<times> Wal \<times> u8 list) option" where
  "walWriteOneFrame io sz iSyncPoint w pPage nTruncate iOffset file = do {
     (aFrame, w) \<leftarrow> walEncodeFrame w (fst pPage) nTruncate (snd pPage) (replicate WAL_FRAME_HDRSIZE 0);
     (case walWriteToLog io iSyncPoint aFrame iOffset file of (rc, file) \<Rightarrow>
        if rc \<noteq> SQLITE_OK then Some (rc, w, file)
        else case walWriteToLog io iSyncPoint (take sz (snd pPage)) (iOffset + WAL_FRAME_HDRSIZE) file of (rc, file) \<Rightarrow> Some (rc, w, file))
   }"

text \<open>All frames; the result is also the offset behind them.\<close>

primrec write_loop :: "wal_io \<Rightarrow> nat \<Rightarrow> u32 \<Rightarrow> bool \<Rightarrow> (u32 \<times> u8 list) list \<Rightarrow> Wal \<Rightarrow> u8 list \<Rightarrow> nat \<Rightarrow> (int \<times> Wal \<times> u8 list \<times> nat) option" where
  "write_loop io sz nTruncate isCommit [] w file iOffset = Some (SQLITE_OK, w, file, iOffset)"
| "write_loop io sz nTruncate isCommit (p # ps) w file iOffset = do {
     (rc, w, file) \<leftarrow> walWriteOneFrame io sz 0 w p (if isCommit \<and> ps = [] then nTruncate else 0) iOffset file;
     if rc \<noteq> SQLITE_OK then Some (rc, w, file, iOffset)
     else write_loop io sz nTruncate isCommit ps w file (iOffset + (sz + WAL_FRAME_HDRSIZE)) }"

function pad_loop :: "wal_io \<Rightarrow> nat \<Rightarrow> nat \<Rightarrow> u32 \<Rightarrow> u32 \<times> u8 list \<Rightarrow> Wal \<Rightarrow> u8 list \<Rightarrow> nat \<Rightarrow> nat \<Rightarrow> (int \<times> Wal \<times> u8 list \<times> nat) option" where
  "pad_loop io sz iSyncPoint nTruncate pLast w file iOffset nExtra =
    (if iOffset < iSyncPoint then do {
       (rc, w, file) \<leftarrow> walWriteOneFrame io sz iSyncPoint w pLast nTruncate iOffset file;
       if rc \<noteq> SQLITE_OK then Some (rc, w, file, nExtra)
       else pad_loop io sz iSyncPoint nTruncate pLast w file (iOffset + (sz + WAL_FRAME_HDRSIZE)) (Suc nExtra)
     } else Some (SQLITE_OK, w, file, nExtra))"
  by pat_completeness auto
termination
  by (relation "measure (\<lambda>(io, sz, iSyncPoint, nTruncate, pLast, w, file, iOffset, nExtra). iSyncPoint - iOffset)") (auto simp: WAL_FRAME_HDRSIZE_def)

declare pad_loop.simps [simp del]

primrec index_loop :: "wal_env \<Rightarrow> u32 list \<Rightarrow> nat \<Rightarrow> Wal \<Rightarrow> (int \<times> nat \<times> Wal) option" where
  "index_loop env [] iFrame w = Some (SQLITE_OK, iFrame, w)"
| "index_loop env (p # ps) iFrame w = do {
     (rc, w) \<leftarrow> walIndexAppend env w (Suc iFrame) p;
     if rc \<noteq> SQLITE_OK then Some (rc, Suc iFrame, w) else index_loop env ps (Suc iFrame) w }"

definition walLimitSize :: "wal_io \<Rightarrow> u8 list \<Rightarrow> int \<Rightarrow> u8 list" where
  "walLimitSize io file nMax = (if size_rc io = SQLITE_OK \<and> int (length file) > nMax \<and> trunc_ok io then take (nat nMax) file else file)"

definition write_header :: "wal_io \<Rightarrow> u8 list \<Rightarrow> u32 \<Rightarrow> bool \<Rightarrow> Wal \<Rightarrow> u8 list \<Rightarrow> (int \<times> Wal \<times> u8 list) option" where
  "write_header io salt sz sync w file =
    (if mxFrame (hdr w) \<noteq> 0 then Some (SQLITE_OK, w, file)
     else do {
       let w = (if nCkpt w = 0 then w\<lparr>hdr := (hdr w)\<lparr>aSalt := salt\<rparr>\<rparr> else w);
       (b, ck) \<leftarrow> wal_header sz (nCkpt w) (aSalt (hdr w));
       let w = w\<lparr>szPage := sz, truncateOnCommit := True, hdr := (hdr w)\<lparr>bigEndCksum := 0, aFrameCksum := ck\<rparr>\<rparr>;
       (case os_write io file 0 b of (rc, file) \<Rightarrow>
          if rc \<noteq> SQLITE_OK then Some (rc, w, file)
          else if syncHeader w \<and> sync then Some (sync_rc io, w, file) else Some (SQLITE_OK, w, file))
     })"

text \<open>The end of a transaction: padding to the next sector or a sync, and the limit on the size of the file.\<close>

definition write_end :: "wal_io \<Rightarrow> nat \<Rightarrow> u32 \<Rightarrow> u32 \<times> u8 list \<Rightarrow> bool \<Rightarrow> Wal \<Rightarrow> u8 list \<Rightarrow> nat \<Rightarrow> (int \<times> Wal \<times> u8 list \<times> nat) option" where
  "write_end io sz nTruncate pLast syncTrans w file iOffset =
    (if \<not> syncTrans then Some (SQLITE_OK, w, file, 0)
     else if padToSectorBoundary w
     then pad_loop io sz ((iOffset + sector_size io - 1) div sector_size io * sector_size io) nTruncate pLast w file iOffset 0
     else Some (sync_rc io, w, file, 0))"

definition limit_log :: "wal_io \<Rightarrow> nat \<Rightarrow> nat \<Rightarrow> Wal \<Rightarrow> u8 list \<Rightarrow> Wal \<times> u8 list" where
  "limit_log io sz nxt w file =
    (if truncateOnCommit w \<and> mxWalSize w \<ge> 0
     then let n = int (walFrameOffset nxt sz) in
       (w\<lparr>truncateOnCommit := False\<rparr>, walLimitSize io file (if n > mxWalSize w then n else mxWalSize w))
     else (w, file))"

text \<open>The transaction is not empty. The flags say whether anything is synced, and transactions are. The random numbers are those of a restarted log and of a
  new one. A failing write returns at once; an error of the last sync is found behind the limit on the file, as in the code.\<close>

definition sqlite3WalFrames :: "wal_env \<Rightarrow> (nat \<Rightarrow> lock_env) \<Rightarrow> wal_io \<Rightarrow> u8 list \<Rightarrow> u8 list \<Rightarrow> Wal \<Rightarrow> u8 list \<Rightarrow> u32 \<Rightarrow> (u32 \<times> u8 list) list \<Rightarrow> u32 \<Rightarrow> bool \<Rightarrow> bool \<Rightarrow> bool \<Rightarrow>
    (int \<times> Wal \<times> u8 list) option" where
  "sqlite3WalFrames env lks io salt1 salt w file sz pList nTruncate isCommit sync syncTrans =
    (if pList = [] then None
     else do {
       (rc, w) \<leftarrow> walRestartLog env lks io file w salt1;
       if rc \<noteq> SQLITE_OK then Some (rc, w, file)
       else do {
       (rc, w, file) \<leftarrow> write_header io salt sz sync w file;
       if rc \<noteq> SQLITE_OK then Some (rc, w, file)
       else do {
         let mx = unat (mxFrame (hdr w));
         (rc, w, file, iOffset) \<leftarrow> write_loop io (unat sz) nTruncate isCommit pList w file (walFrameOffset (mx + 1) (unat sz));
         if rc \<noteq> SQLITE_OK then Some (rc, w, file)
         else do {
           (rc, w, file, nExtra) \<leftarrow> write_end io (unat sz) nTruncate (last pList) (isCommit \<and> syncTrans) w file iOffset;
           if rc \<noteq> SQLITE_OK \<and> padToSectorBoundary w then Some (rc, w, file)
           else do {
             let (w, file) = (if isCommit then limit_log io (unat sz) (mx + length pList + nExtra + 1) w file else (w, file));
             (rc, iFrame, w) \<leftarrow> (if rc \<noteq> SQLITE_OK then Some (rc, mx, w)
               else index_loop env (map fst pList @ replicate nExtra (fst (last pList))) mx w);
             if rc \<noteq> SQLITE_OK then Some (rc, w, file)
             else do {
               let w = w\<lparr>hdr := (hdr w)\<lparr>hdr_szPage := hdr_page_size sz, mxFrame := of_nat iFrame\<rparr>\<rparr>;
               if isCommit then do {
                 w \<leftarrow> walIndexWriteHdr (w\<lparr>hdr := (hdr w)\<lparr>iChange := iChange (hdr w) + 1, nPage := nTruncate\<rparr>\<rparr>);
                 Some (SQLITE_OK, w\<lparr>iCallback := iFrame\<rparr>, file)
               } else Some (SQLITE_OK, w, file)
             }
           }
         }
       }
     } })"

section \<open>Writing a transaction\<close>

definition writes_good :: "wal_io \<Rightarrow> bool" where
  "writes_good io \<longleftrightarrow> (\<forall>off. write_rc io off = SQLITE_OK) \<and> sync_rc io = SQLITE_OK"

lemma file_write_mid: "length pre = off \<Longrightarrow> file_write (pre @ rest) off b = pre @ b @ drop (length b) rest"
  by (simp add: file_write_def Let_def)

lemma walWriteToLog_good:
  assumes "writes_good io" "length pre = off"
  shows "walWriteToLog io iSyncPoint b off (pre @ rest) = (SQLITE_OK, pre @ b @ drop (length b) rest)"
proof -
  have os: "os_write io f o' c = (SQLITE_OK, file_write f o' c)" for f o' c using assms(1) by (simp add: os_write_def writes_good_def)
  have mid: "file_write (pre @ take n b @ drop (length (take n b)) rest) (off + n) (drop n b) = pre @ b @ drop (length b) rest" if "n \<le> length b" for n
    using file_write_mid [of "pre @ take n b" "off + n" "drop n rest" "drop n b"] that assms(2) by (simp add: add.commute)
  show ?thesis using assms os mid [of "iSyncPoint - off"] by (auto simp: walWriteToLog_def file_write_mid writes_good_def Let_def)
qed

lemma walWriteOneFrame_good:
  assumes "writes_good io" "length pre = off" "log_at w sz salt ck" "page_size_ok sz" "frame_ok sz f"
  shows "walWriteOneFrame io sz iSyncPoint w (fst f, snd (snd f)) (fst (snd f)) off (pre @ rest) =
    Some (SQLITE_OK, w\<lparr>hdr := (hdr w)\<lparr>aFrameCksum := next_ck ck f\<rparr>\<rparr>, pre @ (frame_header salt ck f @ snd (snd f)) @ drop (sz + 24) rest)"
proof -
  have l: "length (frame_header salt ck f) = 24" "length (snd (snd f)) = sz" using assms(3,5) by (simp_all add: length_frame_header log_at_def frame_ok_def)
  show ?thesis
    using walWriteToLog_good [OF assms(1,2), of iSyncPoint "frame_header salt ck f" rest] walEncodeFrame_ok [OF assms(3-5), of "replicate 24 0"] l
      walWriteToLog_good [OF assms(1), of "pre @ frame_header salt ck f" "off + 24" iSyncPoint "snd (snd f)" "drop 24 rest"] assms(2)
    by (simp add: walWriteOneFrame_def WAL_FRAME_HDRSIZE_def)
qed

lemma log_frames_append: "log_frames salt ck (fs @ gs) = log_frames salt ck fs @ log_frames salt (foldl next_ck ck fs) gs"
  by (induction fs arbitrary: ck) simp_all

lemma length_log_frames: "length salt = 8 \<Longrightarrow> \<forall>f\<in>set fs. frame_ok sz f \<Longrightarrow> length (log_frames salt ck fs) = length fs * (sz + 24)"
  by (induction fs arbitrary: ck) (simp_all add: length_frame_header frame_ok_def)

text \<open>The frames of a transaction.\<close>

primrec new_frames :: "u32 \<Rightarrow> bool \<Rightarrow> (u32 \<times> u8 list) list \<Rightarrow> frame list" where
  "new_frames nTruncate isCommit [] = []"
| "new_frames nTruncate isCommit (p # ps) = (fst p, if isCommit \<and> ps = [] then nTruncate else 0, snd p) # new_frames nTruncate isCommit ps"

lemma log_at_next: "log_at w sz salt ck \<Longrightarrow> log_at (w\<lparr>hdr := (hdr w)\<lparr>aFrameCksum := c\<rparr>\<rparr>) sz salt c"
  by (simp add: log_at_def)

lemma write_loop_good:
  assumes "writes_good io" "page_size_ok sz"
  shows "length pre = off \<Longrightarrow> log_at w sz salt ck \<Longrightarrow> \<forall>f\<in>set (new_frames nt ic ps). frame_ok sz f \<Longrightarrow>
    write_loop io sz nt ic ps w (pre @ rest) off =
      (let fs = new_frames nt ic ps in
       Some (SQLITE_OK, w\<lparr>hdr := (hdr w)\<lparr>aFrameCksum := foldl next_ck ck fs\<rparr>\<rparr>,
         pre @ log_frames salt ck fs @ drop (length fs * (sz + 24)) rest, off + length fs * (sz + 24)))"
proof (induction ps arbitrary: pre off w ck rest)
  case Nil
  then have "w\<lparr>hdr := (hdr w)\<lparr>aFrameCksum := ck\<rparr>\<rparr> = w" by (cases w; cases "hdr w") (auto simp: log_at_def)
  then show ?case by simp
next
  case (Cons p ps)
  define f where "f = (fst p, if ic \<and> ps = [] then nt else 0, snd p)"
  let ?w = "w\<lparr>hdr := (hdr w)\<lparr>aFrameCksum := next_ck ck f\<rparr>\<rparr>" and ?pre = "pre @ frame_header salt ck f @ snd (snd f)"
  have f: "frame_ok sz f" "\<forall>f\<in>set (new_frames nt ic ps). frame_ok sz f" "length salt = 8" using Cons.prems(2,3) by (simp_all add: f_def log_at_def)
  have "length ?pre = off + (sz + 24)" using Cons.prems(1) f by (simp add: length_frame_header frame_ok_def)
  from Cons.IH [OF this log_at_next [OF Cons.prems(2)] f(2), of "next_ck ck f" "drop (sz + 24) rest"] walWriteOneFrame_good [OF assms(1) Cons.prems(1,2) assms(2) f(1), of 0 rest]
  show ?case by (simp add: f_def WAL_FRAME_HDRSIZE_def Let_def algebra_simps)
qed


lemma pad_loop_good:
  assumes "writes_good io" "page_size_ok sz" "frame_ok sz f"
  shows "length pre = off \<Longrightarrow> log_at w sz salt ck \<Longrightarrow> \<exists>m. pad_loop io sz sp (fst (snd f)) (fst f, snd (snd f)) w (pre @ rest) off n =
      Some (SQLITE_OK, w\<lparr>hdr := (hdr w)\<lparr>aFrameCksum := foldl next_ck ck (replicate m f)\<rparr>\<rparr>,
        pre @ log_frames salt ck (replicate m f) @ drop (m * (sz + 24)) rest, n + m)"
proof (induction "sp - off" arbitrary: pre off w ck rest n rule: less_induct)
  case less
  show ?case
  proof (cases "off < sp")
    case True
    let ?w = "w\<lparr>hdr := (hdr w)\<lparr>aFrameCksum := next_ck ck f\<rparr>\<rparr>" and ?pre = "pre @ frame_header salt ck f @ snd (snd f)" and ?off = "off + (sz + 24)"
    have l: "length ?pre = ?off" using less.prems assms(3) by (simp add: length_frame_header frame_ok_def log_at_def)
    have lt: "sp - ?off < sp - off" using True by simp
    obtain m where m: "pad_loop io sz sp (fst (snd f)) (fst f, snd (snd f)) ?w (?pre @ drop (sz + 24) rest) ?off (Suc n) =
      Some (SQLITE_OK, ?w\<lparr>hdr := (hdr ?w)\<lparr>aFrameCksum := foldl next_ck (next_ck ck f) (replicate m f)\<rparr>\<rparr>,
        ?pre @ log_frames salt (next_ck ck f) (replicate m f) @ drop (m * (sz + 24)) (drop (sz + 24) rest), Suc n + m)"
      using less.hyps [OF lt l log_at_next [OF less.prems(2)], of "next_ck ck f" "drop (sz + 24) rest" "Suc n"] by blast
    show ?thesis
      using True walWriteOneFrame_good [OF assms(1) less.prems assms(2,3), of sp rest] m
      by (intro exI [of _ "Suc m"]) (subst pad_loop.simps, simp add: WAL_FRAME_HDRSIZE_def algebra_simps)
  next
    case False
    have "w\<lparr>hdr := (hdr w)\<lparr>aFrameCksum := ck\<rparr>\<rparr> = w" using less.prems(2) by (cases w; cases "hdr w") (auto simp: log_at_def)
    then show ?thesis using False by (intro exI [of _ 0]) (subst pad_loop.simps, simp)
  qed
qed

lemma write_end_good:
  assumes "writes_good io" "page_size_ok sz" "frame_ok sz f" "length pre = off" "log_at w sz salt ck"
  shows "\<exists>m. write_end io sz (fst (snd f)) (fst f, snd (snd f)) st w (pre @ rest) off =
      Some (SQLITE_OK, w\<lparr>hdr := (hdr w)\<lparr>aFrameCksum := foldl next_ck ck (replicate m f)\<rparr>\<rparr>,
        pre @ log_frames salt ck (replicate m f) @ drop (m * (sz + 24)) rest, m) \<and> (\<not> padToSectorBoundary w \<longrightarrow> m = 0)"
proof (cases "st \<and> padToSectorBoundary w")
  case True
  obtain m where "pad_loop io sz ((off + sector_size io - 1) div sector_size io * sector_size io) (fst (snd f)) (fst f, snd (snd f)) w (pre @ rest) off 0 =
      Some (SQLITE_OK, w\<lparr>hdr := (hdr w)\<lparr>aFrameCksum := foldl next_ck ck (replicate m f)\<rparr>\<rparr>,
        pre @ log_frames salt ck (replicate m f) @ drop (m * (sz + 24)) rest, 0 + m)"
    using pad_loop_good [OF assms, of _ rest 0] by blast
  then show ?thesis using True by (intro exI [of _ m]) (simp add: write_end_def)
next
  case False
  have "w\<lparr>hdr := (hdr w)\<lparr>aFrameCksum := ck\<rparr>\<rparr> = w" using assms(5) by (cases w; cases "hdr w") (auto simp: log_at_def)
  then show ?thesis using False assms(1) by (intro exI [of _ 0]) (auto simp: write_end_def writes_good_def)
qed

lemma index_loop_good:
  assumes "shm_good env"
  shows "index_ok w ps \<Longrightarrow> 0 \<notin> set ps \<Longrightarrow> 0 \<notin> set qs \<Longrightarrow>
    \<exists>w'. index_loop env qs (length ps) w = Some (SQLITE_OK, length ps + length qs, w') \<and> remapped w w' \<and> index_ok w' (ps @ qs)"
proof (induction qs arbitrary: w ps)
  case (Cons q qs)
  then obtain w1 where w1: "walIndexAppend env w (Suc (length ps)) q = Some (SQLITE_OK, w1)" "remapped w w1" "index_ok w1 (ps @ [q])"
    using walIndexAppend_good [OF assms, of w ps q] by auto
  then show ?case using Cons.IH [of w1 "ps @ [q]"] Cons.prems by (auto intro: remapped_trans)
qed simp

lemma limit_log_keeps:
  assumes "length log = walFrameOffset nxt sz"
  shows "\<exists>j b. limit_log io sz nxt w (log @ rest) = (w\<lparr>truncateOnCommit := b\<rparr>, log @ take j rest)"
proof -
  have "\<exists>j. walLimitSize io (log @ rest) k = log @ take j rest" if "int (length log) \<le> k" for k
  proof (cases "walLimitSize io (log @ rest) k = log @ rest")
    case False
    then have "walLimitSize io (log @ rest) k = log @ take (nat k - length log) rest" using that by (auto simp: walLimitSize_def)
    then show ?thesis by blast
  qed (auto intro: exI [of _ "length rest"])
  note cut = this
  define K where "K = (if int (walFrameOffset nxt sz) > mxWalSize w then int (walFrameOffset nxt sz) else mxWalSize w)"
  have "int (length log) \<le> K" by (simp add: K_def assms)
  from cut [OF this] obtain j where j: "walLimitSize io (log @ rest) K = log @ take j rest" by blast
  show ?thesis
  proof (cases "truncateOnCommit w \<and> mxWalSize w \<ge> 0")
    case True
    then show ?thesis using j by (auto simp: limit_log_def Let_def K_def)
  next
    case False
    then show ?thesis by (auto simp: limit_log_def intro!: exI [of _ "length rest"] exI [of _ "truncateOnCommit w"])
  qed
qed


text \<open>The file holds the frames \<open>fs\<close>, and then a \<open>tail\<close> of frames of an earlier log, and the handle is at the end of the frames; the salt of a log that is still empty is
  the one that its first transaction writes.\<close>

definition log_holds :: "Wal \<Rightarrow> u8 list \<Rightarrow> u32 \<Rightarrow> u8 list \<Rightarrow> frame list \<Rightarrow> u8 list \<Rightarrow> u8 list \<Rightarrow> bool" where
  "log_holds w rnd sz salt fs tail file \<longleftrightarrow> length salt = 8 \<and> sz \<in> set page_sizes \<and> (\<forall>f\<in>set fs. frame_ok (unat sz) f) \<and> length fs < 2 ^ 32 \<and>
     mxFrame (hdr w) = of_nat (length fs) \<and> index_ok w (map fst fs) \<and> readLock w \<noteq> 0 \<and>
     (if fs = [] then salt = (if nCkpt w = 0 then rnd else aSalt (hdr w)) \<and> tail = drop 32 file
      else log_at w (unat sz) salt (foldl next_ck (header_ck sz (nCkpt w) salt) fs) \<and> file = log_bytes sz (nCkpt w) salt fs @ tail)"

lemma unat_of_nat_length: "length xs < 2 ^ 32 \<Longrightarrow> unat (of_nat (length xs) :: u32) = length xs"
  by (simp add: unat_of_nat take_bit_nat_eq_self)

lemma write_header_good:
  assumes "writes_good io" "log_holds w rnd sz salt fs tail file"
  shows "\<exists>w1. write_header io rnd sz sync w file = Some (SQLITE_OK, w1, log_bytes sz (nCkpt w) salt fs @ tail) \<and>
    log_at w1 (unat sz) salt (foldl next_ck (header_ck sz (nCkpt w) salt) fs) \<and> mxFrame (hdr w1) = mxFrame (hdr w) \<and> apWiData w1 = apWiData w \<and>
    nCkpt w1 = nCkpt w \<and> readLock w1 = readLock w \<and> padToSectorBoundary w1 = padToSectorBoundary w"
proof (cases "fs = []")
  case True
  have salt: "length salt = 8" "mxFrame (hdr w) = 0" "salt = (if nCkpt w = 0 then rnd else aSalt (hdr w))" "tail = drop 32 file"
    using assms(2) True by (auto simp: log_holds_def)
  have os: "os_write io file 0 (header_bytes sz (nCkpt w) salt) = (SQLITE_OK, log_bytes sz (nCkpt w) salt fs @ tail)"
    using assms(1) salt(1,4) True by (simp add: os_write_def writes_good_def file_write_def log_bytes_def length_header_bytes Let_def)
  show ?thesis
    using os salt True assms(1) wal_header_ok [OF salt(1), of sz "nCkpt w"] by (auto simp: write_header_def log_at_def writes_good_def Let_def)
next
  case False
  have "mxFrame (hdr w) \<noteq> 0" using unat_of_nat_length [of fs] assms(2) False by (auto simp: log_holds_def)
  then show ?thesis using assms(2) False by (auto simp: write_header_def log_holds_def)
qed

lemma length_log_bytes:
  "length salt = 8 \<Longrightarrow> \<forall>f\<in>set fs. frame_ok (unat sz) f \<Longrightarrow> length (log_bytes sz n salt fs) = 32 + length fs * (unat sz + 24)"
  by (simp add: log_bytes_def length_header_bytes length_log_frames)

lemma log_bytes_bound:
  assumes "length salt = 8" "\<forall>f\<in>set fs. frame_ok (unat sz) f" "sz \<in> set page_sizes" "length (log_bytes sz n salt fs) < 2 ^ 41"
  shows "length fs < 2 ^ 32"
proof -
  have "length fs * 512 \<le> length fs * (unat sz + 24)" using page_sizes_ok(5) [OF assms(3)] by (intro mult_le_mono2) simp
  also have "\<dots> < 2 ^ 41" using assms(4) length_log_bytes [OF assms(1,2), of n] by simp
  finally show ?thesis by simp
qed

lemma log_bytes_append: "log_bytes sz n salt (fs @ gs) = log_bytes sz n salt fs @ log_frames salt (foldl next_ck (header_ck sz n salt) fs) gs"
  by (simp add: log_bytes_def log_frames_append)

lemma new_frames_simps: "length (new_frames nt ic ps) = length ps" "map fst (new_frames nt ic ps) = map fst ps" "ps \<noteq> [] \<Longrightarrow> last (new_frames nt ic ps) = (fst (last ps), if ic then nt else 0, snd (last ps))"
  by (induction ps) auto


definition tx_frames :: "u32 \<Rightarrow> (u32 \<times> u8 list) list \<Rightarrow> nat \<Rightarrow> frame list" where
  "tx_frames nTruncate ps m = new_frames nTruncate True ps @ replicate m (last (new_frames nTruncate True ps))"

lemma tx_frames_ok:
  assumes "\<forall>p\<in>set ps. fst p \<noteq> 0 \<and> length (snd p) = sz" "ps \<noteq> []"
  shows "\<forall>f\<in>set (tx_frames nt ps m). frame_ok sz f" "\<forall>f\<in>set (new_frames nt ic ps). frame_ok sz f"
    "map fst (tx_frames nt ps m) = map fst ps @ replicate m (fst (last ps))" "length (tx_frames nt ps m) = length ps + m"
proof -
  have n: "\<forall>f\<in>set (new_frames nt ic ps). frame_ok sz f" for ic using assms(1) by (induction ps) (auto simp: frame_ok_def)
  have "new_frames nt True ps \<noteq> []" using assms(2) by (cases ps) auto
  then show "\<forall>f\<in>set (tx_frames nt ps m). frame_ok sz f" using n [of True] by (auto simp: tx_frames_def)
  show "map fst (tx_frames nt ps m) = map fst ps @ replicate m (fst (last ps))" "length (tx_frames nt ps m) = length ps + m"
    by (simp_all add: tx_frames_def new_frames_simps(1,2) new_frames_simps(3) [OF assms(2)])
qed (use assms(1) in \<open>induction ps, auto simp: frame_ok_def\<close>)

text \<open>The writing part of a commit.\<close>

lemma commit_writes:
  assumes "writes_good io" "log_holds w rnd sz salt fs tail file" "ps \<noteq> []" "\<forall>p\<in>set ps. fst p \<noteq> 0 \<and> length (snd p) = unat sz"
  shows "\<exists>w1 file1 w2 file2 off w3 file3 m w4 j.
    write_header io rnd sz sync w file = Some (SQLITE_OK, w1, file1) \<and> mxFrame (hdr w1) = of_nat (length fs) \<and>
    write_loop io (unat sz) nt True ps w1 file1 (walFrameOffset (length fs + 1) (unat sz)) = Some (SQLITE_OK, w2, file2, off) \<and>
    write_end io (unat sz) nt (last ps) st w2 file2 off = Some (SQLITE_OK, w3, file3, m) \<and>
    limit_log io (unat sz) (length fs + length ps + m + 1) w3 file3 =
      (w4, log_bytes sz (nCkpt w) salt (fs @ tx_frames nt ps m) @ take j (drop ((length ps + m) * (unat sz + 24)) tail)) \<and>
    log_at w4 (unat sz) salt (foldl next_ck (header_ck sz (nCkpt w) salt) (fs @ tx_frames nt ps m)) \<and> mxFrame (hdr w4) = of_nat (length fs) \<and>
    apWiData w4 = apWiData w \<and> nCkpt w4 = nCkpt w \<and> readLock w4 = readLock w \<and> (\<not> padToSectorBoundary w \<longrightarrow> m = 0)"
proof -
  let ?n = "nCkpt w" and ?sz = "unat sz" and ?new = "new_frames nt True ps"
  let ?ck = "\<lambda>fs. foldl next_ck (header_ck sz ?n salt) fs" and ?f = "last (new_frames nt True ps)"
  have h: "length salt = 8" "page_size_ok ?sz" "\<forall>f\<in>set fs. frame_ok ?sz f" "length fs < 2 ^ 32" "mxFrame (hdr w) = of_nat (length fs)"
    using assms(2) page_sizes_ok(4) by (auto simp: log_holds_def)
  note tx = tx_frames_ok [OF assms(4,3)] and new = new_frames_simps
  have ne: "?new \<noteq> []" using new(1) [where ps = ps] assms(3) by (metis length_0_conv)
  have f: "frame_ok ?sz ?f" using tx(2) ne last_in_set by blast
  have fl: "fst (snd ?f) = nt" "(fst ?f, snd (snd ?f)) = last ps" by (simp_all add: new(3) [OF assms(3)])
  obtain w1 where w1: "write_header io rnd sz sync w file = Some (SQLITE_OK, w1, log_bytes sz ?n salt fs @ tail)" "log_at w1 ?sz salt (?ck fs)"
      "mxFrame (hdr w1) = mxFrame (hdr w)" "apWiData w1 = apWiData w" "nCkpt w1 = ?n" "readLock w1 = readLock w" "padToSectorBoundary w1 = padToSectorBoundary w"
    using write_header_good [OF assms(1,2)] by blast
  have off: "walFrameOffset (length gs + 1) ?sz = length (log_bytes sz ?n salt gs)" if "\<forall>f\<in>set gs. frame_ok ?sz f" for gs
    using length_log_bytes [OF h(1) that] by (simp add: walFrameOffset_def WAL_HDRSIZE_def WAL_FRAME_HDRSIZE_def)
  let ?w2 = "w1\<lparr>hdr := (hdr w1)\<lparr>aFrameCksum := ?ck (fs @ ?new)\<rparr>\<rparr>"
  let ?rest = "drop (length ps * (?sz + 24)) tail" and ?off = "length (log_bytes sz ?n salt (fs @ ?new))"
  have w2: "write_loop io ?sz nt True ps w1 (log_bytes sz ?n salt fs @ tail) (walFrameOffset (length fs + 1) ?sz) =
      Some (SQLITE_OK, ?w2, log_bytes sz ?n salt (fs @ ?new) @ ?rest, ?off)"
    using write_loop_good [OF assms(1) h(2) off [OF h(3), symmetric] w1(2) tx(2), of nt True tail] length_log_frames [OF h(1) tx(2), of "?ck fs"] off [OF h(3)]
    by (simp add: Let_def new(1) log_bytes_append)
  have at2: "log_at ?w2 ?sz salt (?ck (fs @ ?new))" using log_at_next [OF w1(2)] .
  let ?w3 = "\<lambda>m. w1\<lparr>hdr := (hdr w1)\<lparr>aFrameCksum := ?ck (fs @ tx_frames nt ps m)\<rparr>\<rparr>"
  obtain m where m: "write_end io ?sz nt (last ps) st ?w2 (log_bytes sz ?n salt (fs @ ?new) @ ?rest) ?off =
      Some (SQLITE_OK, ?w3 m, log_bytes sz ?n salt (fs @ tx_frames nt ps m) @ drop ((length ps + m) * (?sz + 24)) tail, m)" "\<not> padToSectorBoundary w \<longrightarrow> m = 0"
    using write_end_good [OF assms(1) h(2) f refl at2, of st "log_bytes sz ?n salt (fs @ ?new)" ?rest] w1(7)
    by (auto simp: fl tx_frames_def log_bytes_append log_frames_append algebra_simps)
  have "\<forall>f\<in>set (fs @ tx_frames nt ps m). frame_ok ?sz f" using h(3) tx(1) by auto
  from off [OF this] have l: "length (log_bytes sz ?n salt (fs @ tx_frames nt ps m)) = walFrameOffset (length fs + length ps + m + 1) ?sz" using tx(4) by (simp add: add.assoc)
  obtain j b where lim: "limit_log io ?sz (length fs + length ps + m + 1) (?w3 m) (log_bytes sz ?n salt (fs @ tx_frames nt ps m) @ drop ((length ps + m) * (?sz + 24)) tail) =
      ((?w3 m)\<lparr>truncateOnCommit := b\<rparr>, log_bytes sz ?n salt (fs @ tx_frames nt ps m) @ take j (drop ((length ps + m) * (?sz + 24)) tail))"
    using limit_log_keeps [OF l] by blast
  have "log_at ((?w3 m)\<lparr>truncateOnCommit := b\<rparr>) ?sz salt (?ck (fs @ tx_frames nt ps m))" using w1(2) by (simp add: log_at_def)
  then show ?thesis using w1 w2 m lim h(5) by fastforce
qed


lemma sqlite3WalFrames_commit:
  assumes "shm_good env" "writes_good io" "log_holds w rnd sz salt fs tail file" "ps \<noteq> []" "\<forall>p\<in>set ps. fst p \<noteq> 0 \<and> length (snd p) = unat sz"
    and "walRestartLog env lks io file w0 salt1 = Some (SQLITE_OK, w)"
  shows "\<exists>w' m j. sqlite3WalFrames env lks io salt1 rnd w0 file sz ps nt True sync st =
      Some (SQLITE_OK, w', log_bytes sz (nCkpt w) salt (fs @ tx_frames nt ps m) @ take j (drop ((length ps + m) * (unat sz + 24)) tail)) \<and>
    index_ok w' (map fst (fs @ tx_frames nt ps m)) \<and> mxFrame (hdr w') = of_nat (length fs + length ps + m) \<and> nPage (hdr w') = nt \<and>
    aHdr0 w' = hdr w' \<and> readLock w' = readLock w \<and> nCkpt w' = nCkpt w \<and>
    log_at w' (unat sz) salt (foldl next_ck (header_ck sz (nCkpt w) salt) (fs @ tx_frames nt ps m)) \<and> (\<not> padToSectorBoundary w \<longrightarrow> m = 0)"
proof -
  let ?g = "\<lambda>m. fs @ tx_frames nt ps m"
  have h: "length salt = 8" "length fs < 2 ^ 32" "index_ok w (map fst fs)" "readLock w \<noteq> 0" "\<forall>f\<in>set fs. frame_ok (unat sz) f"
    using assms(3) by (auto simp: log_holds_def)
  note tx = tx_frames_ok [OF assms(5,4)]
  obtain w1 file1 w2 file2 off w3 file3 m w4 j where c:
    "write_header io rnd sz sync w file = Some (SQLITE_OK, w1, file1)" "mxFrame (hdr w1) = of_nat (length fs)"
    "write_loop io (unat sz) nt True ps w1 file1 (walFrameOffset (length fs + 1) (unat sz)) = Some (SQLITE_OK, w2, file2, off)"
    "write_end io (unat sz) nt (last ps) st w2 file2 off = Some (SQLITE_OK, w3, file3, m)"
    "limit_log io (unat sz) (length fs + length ps + m + 1) w3 file3 =
      (w4, log_bytes sz (nCkpt w) salt (?g m) @ take j (drop ((length ps + m) * (unat sz + 24)) tail))"
    "log_at w4 (unat sz) salt (foldl next_ck (header_ck sz (nCkpt w) salt) (?g m))" "mxFrame (hdr w4) = of_nat (length fs)"
    "apWiData w4 = apWiData w" "nCkpt w4 = nCkpt w" "readLock w4 = readLock w" "\<not> padToSectorBoundary w \<longrightarrow> m = 0"
    using commit_writes [OF assms(2-5), of sync nt st] by (elim exE conjE) (rule that)
  have mx: "unat (mxFrame (hdr w1)) = length fs" using c(2) unat_of_nat_length [OF h(2)] by simp
  have "index_ok w4 (map fst fs)" using h(3) c(8) by (rule index_ok_data)
  moreover have "0 \<notin> set (map fst fs)" "0 \<notin> set (map fst (tx_frames nt ps m))" using h(5) tx(1) [of nt m] by (auto simp: frame_ok_def)
  ultimately obtain w5 where w5: "index_loop env (map fst (tx_frames nt ps m)) (length (map fst fs)) w4 =
      Some (SQLITE_OK, length (map fst fs) + length (map fst (tx_frames nt ps m)), w5)" "remapped w4 w5" "index_ok w5 (map fst fs @ map fst (tx_frames nt ps m))"
    using index_loop_good [OF assms(1)] by blast
  then have w5': "index_loop env (map fst ps @ replicate m (fst (last ps))) (length fs) w4 = Some (SQLITE_OK, length fs + length ps + m, w5)"
    using tx(3,4) [of nt m] by (simp add: add.assoc)
  let ?h = "(hdr w5)\<lparr>hdr_szPage := hdr_page_size sz, mxFrame := of_nat (length fs + length ps + m)\<rparr>"
  let ?w6 = "w5\<lparr>hdr := ?h\<lparr>iChange := iChange ?h + 1, nPage := nt\<rparr>\<rparr>"
  have r: "hdr w5 = hdr w4" "szPage w5 = szPage w4" "readLock w5 = readLock w4" "nCkpt w5 = nCkpt w4" using remapped_fields [OF w5(2)] by simp_all
  have "length (aSalt (hdr ?w6)) = 8" using c(6) r(1) h(1) by (simp add: log_at_def)
  from walIndexWriteHdr_ok [OF this] obtain ck where w7: "walIndexWriteHdr ?w6 =
      Some (let h = (hdr ?w6)\<lparr>isInit := 1, iVersion := WALINDEX_MAX_VERSION, aCksum := ck\<rparr> in ?w6\<lparr>hdr := h, aHdr1 := h, aHdr0 := h\<rparr>)" by blast
  define w7 where "w7 = (let h = (hdr ?w6)\<lparr>isInit := 1, iVersion := WALINDEX_MAX_VERSION, aCksum := ck\<rparr> in ?w6\<lparr>hdr := h, aHdr1 := h, aHdr0 := h\<rparr>)"
  define w8 where "w8 = w7\<lparr>iCallback := length fs + length ps + m\<rparr>"
  have w7': "walIndexWriteHdr ?w6 = Some w7" using w7 by (simp only: w7_def)
  have run: "sqlite3WalFrames env lks io salt1 rnd w0 file sz ps nt True sync st =
      Some (SQLITE_OK, w8, log_bytes sz (nCkpt w) salt (?g m) @ take j (drop ((length ps + m) * (unat sz + 24)) tail))"
    using h(4) assms(4) w7'
    by (simp add: sqlite3WalFrames_def assms(6) c(1,4) c(3,5) [folded Suc_eq_plus1] mx w5' w8_def Let_def)
  have "index_ok w8 (map fst (?g m))" by (rule index_ok_data [of w5]) (use w5(3) in \<open>simp_all add: w7_def w8_def Let_def\<close>)
  moreover have "log_at w8 (unat sz) salt (foldl next_ck (header_ck sz (nCkpt w) salt) (?g m))" using c(6) r by (simp add: w7_def w8_def log_at_def Let_def)
  moreover have "mxFrame (hdr w8) = of_nat (length fs + length ps + m)" "nPage (hdr w8) = nt" "aHdr0 w8 = hdr w8" "readLock w8 = readLock w" "nCkpt w8 = nCkpt w"
    using r c(9,10) by (simp_all add: w7_def w8_def Let_def)
  ultimately show ?thesis using run c(11) by blast
qed


section \<open>Cut-off logs\<close>




lemma stops_take: "stops sz salt ck tail \<Longrightarrow> stops sz salt ck (take j tail)"
  by (cases "j < sz + 24") (auto simp: stops_def drop_take min_def)



lemma committed_append: "committed (fs @ gs) = (if committed gs \<noteq> 0 then length fs + committed gs else committed fs)"
  by (induction fs) auto

lemma committed_new: "ps \<noteq> [] \<Longrightarrow> committed (take k (new_frames nt True ps)) = (if length ps \<le> k \<and> nt \<noteq> 0 then length ps else 0)"
proof (induction ps arbitrary: k)
  case (Cons p ps)
  then show ?case by (cases k; cases "ps = []") auto
qed simp

lemma committed_tx: "ps \<noteq> [] \<Longrightarrow> nt \<noteq> 0 \<Longrightarrow> committed (tx_frames nt ps m) = length ps + m"
proof (induction m)
  case 0
  then show ?case using committed_new [of ps "length ps" nt] new_frames_simps(1) [of nt True ps] by (simp add: tx_frames_def)
next
  case (Suc m)
  have l: "fst (snd (last (new_frames nt True ps))) = nt" using Suc.prems(1) by (simp add: new_frames_simps(3))
  have "tx_frames nt ps (Suc m) = tx_frames nt ps m @ [last (new_frames nt True ps)]" by (simp add: tx_frames_def replicate_append_same)
  moreover have "length (tx_frames nt ps m) = length ps + m" by (simp add: tx_frames_def new_frames_simps(1))
  ultimately show ?case using l Suc.prems(2) by (simp add: committed_append)
qed


lemma commit_recovers:
  assumes "shm_good env" "writes_good io" "log_holds w rnd sz salt fs tail file" "ps \<noteq> []" "\<forall>p\<in>set ps. fst p \<noteq> 0 \<and> length (snd p) = unat sz" "nt \<noteq> 0"
    and "\<forall>k ck. stops (unat sz) salt ck (drop (k * (unat sz + 24)) tail)"
    and "walRestartLog env lks io file w0 salt1 = Some (SQLITE_OK, w)"
    and "sqlite3WalFrames env lks io salt1 rnd w0 file sz ps nt True sync st = Some (rc, w', file')" "length file' < 2 ^ 41"
    and "shm_good env2" "reads_good io2" "index_ok v []" "readLock v \<noteq> 0"
  shows "\<exists>v' m. rc = SQLITE_OK \<and> walIndexRecover env2 io2 file' v = Some (SQLITE_OK, v') \<and> nPage (hdr v') = nt \<and> mxFrame (hdr w') = mxFrame (hdr v') \<and>
    index_ok v' (map fst (fs @ tx_frames nt ps m)) \<and> index_ok w' (map fst (fs @ tx_frames nt ps m)) \<and> readLock v' = readLock v \<and> readLock w' = readLock w \<and>
    unat (mxFrame (hdr v')) = length fs + length ps + m"
proof -
  have h: "length salt = 8" "sz \<in> set page_sizes" "\<forall>f\<in>set fs. frame_ok (unat sz) f" "readLock w \<noteq> 0" using assms(3) by (auto simp: log_holds_def)
  obtain m j where r: "rc = SQLITE_OK" "file' = log_bytes sz (nCkpt w) salt (fs @ tx_frames nt ps m) @ take j (drop ((length ps + m) * (unat sz + 24)) tail)"
      "index_ok w' (map fst (fs @ tx_frames nt ps m))" "mxFrame (hdr w') = of_nat (length fs + length ps + m)" "readLock w' = readLock w"
    using sqlite3WalFrames_commit [OF assms(1-5,8), of nt sync st] assms(9) by auto
  let ?gs = "fs @ tx_frames nt ps m"
  have gs: "\<forall>f\<in>set ?gs. frame_ok (unat sz) f" "length ?gs = length fs + length ps + m" using h(3) tx_frames_ok [OF assms(5,4)] by auto
  have len: "length ?gs < 2 ^ 32" using assms(10) r(2) by (intro log_bytes_bound [OF h(1) gs(1) h(2), of "nCkpt w"]) simp
  have com: "committed ?gs = length ?gs" "committed ?gs \<noteq> 0" using committed_tx [OF assms(4,6), of m] gs(2) assms(4) by (simp_all add: committed_append)
  have "last ?gs = last (tx_frames nt ps m)" "tx_frames nt ps m \<noteq> []" using assms(4) by (cases ps; simp add: tx_frames_def)+
  moreover have "fst (snd (last (tx_frames nt ps m))) = nt" using new_frames_simps(3) [OF assms(4), of nt True] by (cases m) (simp_all add: tx_frames_def last_append)
  ultimately have nt: "fst (snd (?gs ! (committed ?gs - 1))) = nt" using com(1) by (metis append_is_Nil_conv last_conv_nth)
  have "stops (unat sz) salt ck (take j (drop ((length ps + m) * (unat sz + 24)) tail))" for ck using assms(7) stops_take by blast
  then obtain v' where v': "walIndexRecover env2 io2 file' v = Some (SQLITE_OK, v')" "index_ok v' (map fst ?gs)" "readLock v' = readLock v" "mxFrame (hdr v') = of_nat (committed ?gs)"
      "nPage (hdr v') = nt"
    using recover_log [OF assms(11,12,13) h(2,1) gs(1)] r(2) nt com(2) by (metis (no_types, lifting))
  have mx: "unat (mxFrame (hdr v')) = length ?gs" "mxFrame (hdr w') = mxFrame (hdr v')" using v'(4) r(4) gs(2) com(1) unat_of_nat_length [OF len] by simp_all
  show ?thesis using v' mx r(1,3,5) gs(2) by auto
qed


section \<open>Restarting\<close>

lemma drop_log_frames:
  assumes "length salt = 8" "\<forall>f\<in>set fs. frame_ok sz f"
  shows "\<exists>ck'. drop (k * (sz + 24)) (log_frames salt ck fs) = log_frames salt ck' (drop k fs)"
proof -
  let ?a = "log_frames salt ck (take k fs)" and ?b = "log_frames salt (foldl next_ck ck (take k fs)) (drop k fs)"
  have e: "log_frames salt ck fs = ?a @ ?b" by (simp flip: log_frames_append)
  have l: "length ?a = min (length fs) k * (sz + 24)" using assms by (subst length_log_frames) (auto dest: in_set_takeD)
  have "drop (k * (sz + 24)) (?a @ ?b) = ?b"
  proof (cases "k \<le> length fs")
    case True
    then have "length ?a = k * (sz + 24)" using l by (simp add: min_def)
    then show ?thesis by simp
  next
    case False
    then have "length ?a \<le> k * (sz + 24)" using l by (simp add: min_def)
    then show ?thesis using False by simp
  qed
  then show ?thesis unfolding e by blast
qed

text \<open>The frames of a log with another salt stop recovery.\<close>

lemma stale_log:
  assumes "length salt = 8" "\<forall>f\<in>set fs. frame_ok sz f" "salt' \<noteq> salt"
  shows "stops sz salt' ck (drop (k * (sz + 24)) (log_frames salt ck0 fs))"
proof -
  obtain ck' where d: "drop (k * (sz + 24)) (log_frames salt ck0 fs) = log_frames salt ck' (drop k fs)" using drop_log_frames [OF assms(1,2)] by blast
  show ?thesis
  proof (cases "drop k fs")
    case Nil
    then show ?thesis using d by (simp add: stops_def)
  next
    case (Cons f gs)
    then have "take 8 (drop 8 (log_frames salt ck' (drop k fs))) = salt" using assms(1) by (simp add: frame_header_def)
    then show ?thesis using d assms(3) by (simp add: stops_def)
  qed
qed

lemma restart_header_ok:
  assumes "wal_wf w" "length (aSalt (hdr w)) = 8" "length salt1 = 4"
  shows "\<exists>w'. restart_header salt1 w = Some w' \<and> wal_wf w' \<and> mxFrame (hdr w') = 0 \<and> nCkpt w' = nCkpt w + 1 \<and> length (aSalt (hdr w')) = 8 \<and> aSalt (hdr w') \<noteq> aSalt (hdr w) \<and>
    aHdr0 w' = hdr w' \<and> aReadMark w' = take 1 (aReadMark w) @ 0 # replicate (WAL_NREADER - 2) READMARK_NOT_USED \<and> exclusiveMode w' = exclusiveMode w \<and>
    shm_rdonly w' = shm_rdonly w \<and> padToSectorBoundary w' = padToSectorBoundary w"
proof -
  obtain s0 where s0: "sqlite3Get4byte (aSalt (hdr w)) = Some s0" "word_bytes s0 = take 4 (aSalt (hdr w))" using get4_ex [of 0 "aSalt (hdr w)"] assms(2) by (auto simp: get4_def)
  let ?salt = "word_bytes (1 + s0) @ salt1"
  have p: "sqlite3Put4byte (take 4 (aSalt (hdr w))) (1 + s0) = Some (word_bytes (1 + s0))" using assms(2) by (simp add: Put4byte_be)
  let ?w = "w\<lparr>nCkpt := nCkpt w + 1, hdr := (hdr w)\<lparr>mxFrame := 0, aSalt := ?salt\<rparr>\<rparr>"
  have "length (aSalt (hdr ?w)) = 8" using assms(3) by simp
  from walIndexWriteHdr_ok [OF this] obtain ck where wr: "walIndexWriteHdr ?w =
      Some (let h = (hdr ?w)\<lparr>isInit := 1, iVersion := WALINDEX_MAX_VERSION, aCksum := ck\<rparr> in ?w\<lparr>hdr := h, aHdr1 := h, aHdr0 := h\<rparr>)" by blast
  have "word_bytes (1 + s0) \<noteq> word_bytes s0" using Get4byte_be [of "1 + s0" "[]"] Get4byte_be [of s0 "[]"] by auto
  then have "?salt \<noteq> aSalt (hdr w)" using s0(2) by (metis append_eq_conv_conj length_word_bytes)
  moreover have "index_ok (w\<lparr>nCkpt := c, hdr := h, aHdr1 := h, aHdr0 := h, nBackfill := b, aReadMark := m\<rparr>) []" for c h b m using assms(1) index_ok_data [of w "[]"] by (simp add: wal_wf_def)
  ultimately show ?thesis using s0(1) p wr assms(1,3) by (auto simp: restart_header_def Let_def wal_wf_def WAL_NREADER_def)
qed

lemma restart_holds:
  assumes "\<forall>k. others_ok (lks k)" "wal_wf w0" "readLock w0 = 0" "0 < nBackfill w0"
    and "walLockExclusive (lks 0) w0 (WAL_READ_LOCK 1) (WAL_NREADER - 1) = SQLITE_OK" "nCkpt w0 \<noteq> - 1"
    and "sz \<in> set page_sizes" "length (aSalt (hdr w0)) = 8" "\<forall>f\<in>set fs. frame_ok (unat sz) f" "file = log_bytes sz (nCkpt w0) (aSalt (hdr w0)) fs"
    and "length salt1 = 4" "walRestartLog env lks io file w0 salt1 = Some (SQLITE_OK, w)"
  shows "log_holds w rnd sz (aSalt (hdr w)) [] (drop 32 file) file" "\<forall>k ck. stops (unat sz) (aSalt (hdr w)) ck (drop (k * (unat sz + 24)) (drop 32 file))"
proof -
  obtain w1 where w1: "restart_header salt1 w0 = Some w1" "wal_wf w1" "mxFrame (hdr w1) = 0" "nCkpt w1 = nCkpt w0 + 1" "length (aSalt (hdr w1)) = 8" "aSalt (hdr w1) \<noteq> aSalt (hdr w0)"
    using restart_header_ok [OF assms(2,8,11)] by blast
  have wf: "wal_wf (w1\<lparr>readLock := - 1\<rparr>)" using w1(2) by (rule wal_wf_update) simp_all
  obtain c where "begin_loop env lks io file (w1\<lparr>readLock := - 1\<rparr>) True 0 False = Some (SQLITE_OK, c, w)"
    using assms(3-5,12) w1(1) by (auto simp: walRestartLog_def Let_def split: Option.bind_splits)
  from begin_loop_log [OF assms(1) wf this] have w: "hdr w = hdr w1" "nCkpt w = nCkpt w0 + 1" "wal_wf w" "0 < readLock w" using w1(4) by auto
  have "nCkpt w \<noteq> 0" using assms(6) w(2) by (metis add_eq_0_iff2 add.commute)
  moreover have tail: "drop 32 file = log_frames (aSalt (hdr w0)) (header_ck sz (nCkpt w0) (aSalt (hdr w0))) fs"
    using assms(10) length_header_bytes [OF assms(8), of sz "nCkpt w0"] by (simp add: log_bytes_def)
  ultimately show "log_holds w rnd sz (aSalt (hdr w)) [] (drop 32 file) file" using w w1(3,5) assms(7) by (simp add: log_holds_def wal_wf_def)
  show "\<forall>k ck. stops (unat sz) (aSalt (hdr w)) ck (drop (k * (unat sz + 24)) (drop 32 file))"
    unfolding tail w(1) using stale_log [OF assms(8,9) w1(6)] by blast
qed

section \<open>Properties\<close>

text \<open>C22. A commit survives a crash: when \<^verbatim>\<open>sqlite3WalFrames\<close> has committed a transaction, also with frames repeated up to the end of a sector and over a file with
  frames of an earlier log, recovery from the file alone gives the state of the writer: all its frames, the size of its database, and the same frame for each page.\<close>

theorem commit_durable:
  assumes "shm_good env" "writes_good io" "log_holds w rnd sz salt fs tail file" "ps \<noteq> []" "\<forall>p\<in>set ps. fst p \<noteq> 0 \<and> length (snd p) = unat sz" "nt \<noteq> 0"
    and "\<forall>k ck. stops (unat sz) salt ck (drop (k * (unat sz + 24)) tail)"
    and "walRestartLog env lks io file w0 salt1 = Some (SQLITE_OK, w)"
    and "sqlite3WalFrames env lks io salt1 rnd w0 file sz ps nt True sync st = Some (rc, w', file')" "length file' < 2 ^ 41"
    and "shm_good env2" "reads_good io2" "index_ok v []" "readLock v \<noteq> 0"
  shows "rc = SQLITE_OK \<and> (\<exists>v'. walIndexRecover env2 io2 file' v = Some (SQLITE_OK, v') \<and> mxFrame (hdr v') = mxFrame (hdr w') \<and> nPage (hdr v') = nt \<and>
    (\<forall>P. map_option (\<lambda>(rc, f, _). (rc, f)) (sqlite3WalFindFrame env2 v' P) = map_option (\<lambda>(rc, f, _). (rc, f)) (sqlite3WalFindFrame env w' P)))"
proof -
  obtain v' m where v': "rc = SQLITE_OK" "walIndexRecover env2 io2 file' v = Some (SQLITE_OK, v')" "nPage (hdr v') = nt" "mxFrame (hdr w') = mxFrame (hdr v')"
      "index_ok v' (map fst (fs @ tx_frames nt ps m))" "index_ok w' (map fst (fs @ tx_frames nt ps m))" "readLock v' = readLock v" "readLock w' = readLock w"
      "unat (mxFrame (hdr v')) = length fs + length ps + m"
    using commit_recovers [OF assms] by blast
  have "length (map fst (fs @ tx_frames nt ps m)) = length fs + length ps + m" using tx_frames_ok(4) [OF assms(5,4)] by simp
  then show ?thesis
    using v' assms(3,14) sqlite3WalFindFrame_linear [OF v'(5)] sqlite3WalFindFrame_linear [OF v'(6)] by (auto simp: log_holds_def)
qed

lemma example_writer: "writes_good example_io" "\<not> padToSectorBoundary example_reader" "log_holds example_reader (zeros 8) 512 (zeros 8) [] [] []"
  "walRestartLog example_env example_locks example_io [] example_reader (zeros 4) = Some (SQLITE_OK, example_reader)"
  using example_good(3,5) by (simp_all add: walRestartLog_def writes_good_def example_io_def example_reader_def example_wal_def page_sizes_def log_holds_def example_hdr_def)

lemma example_commit:
  "\<exists>w' file'. sqlite3WalFrames example_env example_locks example_io (zeros 4) (zeros 8) example_reader [] 512 [(7, zeros 512)] 1 True True True = Some (SQLITE_OK, w', file') \<and> length file' = 568"
proof -
  have "length (log_bytes 512 n (zeros 8) (tx_frames 1 [(7, zeros 512)] 0)) = 568" for n
    using length_log_bytes [of "zeros 8" "tx_frames 1 [(7, zeros 512)] 0" 512 n] example_good(5) by (simp add: tx_frames_def frame_ok_def)
  then show ?thesis
    using sqlite3WalFrames_commit [OF example_good(1) example_writer(1,3) _ _ example_writer(4), of "[(7, zeros 512)]" 1 True True] example_good(5) example_writer(2) by (auto simp: tx_frames_def)
qed

theorem commit_durable_witness:
  "\<exists>w' file' v'. sqlite3WalFrames example_env example_locks example_io (zeros 4) (zeros 8) example_reader [] 512 [(7, zeros 512)] 1 True True True = Some (SQLITE_OK, w', file') \<and>
    walIndexRecover example_env example_io file' example_reader = Some (SQLITE_OK, v') \<and> mxFrame (hdr v') = mxFrame (hdr w') \<and> nPage (hdr v') = 1"
proof -
  obtain w' file' where c: "sqlite3WalFrames example_env example_locks example_io (zeros 4) (zeros 8) example_reader [] 512 [(7, zeros 512)] 1 True True True = Some (SQLITE_OK, w', file')" "length file' = 568"
    using example_commit by blast
  have "\<forall>k ck. stops (unat (512 :: u32)) (zeros 8) ck (drop (k * (unat (512 :: u32) + 24)) [])" by (simp add: stops_def)
  from commit_durable [OF example_good(1) example_writer(1,3) _ _ _ this example_writer(4) c(1) _ example_good(1,2,3,4)] show ?thesis using c example_good(5) by auto
qed



text \<open>C28. A log that was copied to the database completely is reused: if no reader uses it, the next transaction starts over at the beginning of the file under a new salt, and recovery finds exactly
  that transaction, none of the old frames that are still behind it in the file.\<close>

theorem restarted_log:
  assumes "shm_good env" "writes_good io" "\<forall>k. others_ok (lks k)" "wal_wf w0" "readLock w0 = 0" "0 < nBackfill w0"
    and "walLockExclusive (lks 0) w0 (WAL_READ_LOCK 1) (WAL_NREADER - 1) = SQLITE_OK" "nCkpt w0 \<noteq> - 1"
    and "sz \<in> set page_sizes" "length (aSalt (hdr w0)) = 8" "\<forall>f\<in>set fs. frame_ok (unat sz) f" "file = log_bytes sz (nCkpt w0) (aSalt (hdr w0)) fs"
    and "length salt1 = 4" "walRestartLog env lks io file w0 salt1 = Some (SQLITE_OK, w)"
    and "ps \<noteq> []" "\<forall>p\<in>set ps. fst p \<noteq> 0 \<and> length (snd p) = unat sz" "nt \<noteq> 0"
    and "sqlite3WalFrames env lks io salt1 rnd w0 file sz ps nt True sync st = Some (rc, w', file')" "length file' < 2 ^ 41"
    and "shm_good env2" "reads_good io2" "index_ok v []" "readLock v \<noteq> 0"
  shows "rc = SQLITE_OK \<and> (\<exists>v' m. walIndexRecover env2 io2 file' v = Some (SQLITE_OK, v') \<and> unat (mxFrame (hdr v')) = length ps + m \<and> nPage (hdr v') = nt \<and>
    (\<forall>P. sqlite3WalFindFrame env2 v' P = Some (SQLITE_OK, linear_find (map fst ps @ replicate m (fst (last ps))) P (length ps + m), v')))"
proof -
  note holds = restart_holds [OF assms(3-14)]
  obtain v' m where v': "rc = SQLITE_OK" "walIndexRecover env2 io2 file' v = Some (SQLITE_OK, v')" "nPage (hdr v') = nt" "index_ok v' (map fst (tx_frames nt ps m))"
      "readLock v' = readLock v" "unat (mxFrame (hdr v')) = length ps + m"
    using commit_recovers [OF assms(1,2) holds(1) assms(15-17) holds(2) assms(14,18-23)] by auto
  have fr: "map fst (tx_frames nt ps m) = map fst ps @ replicate m (fst (last ps))" "length (map fst (tx_frames nt ps m)) = length ps + m"
    using tx_frames_ok(3,4) [OF assms(16,15)] by simp_all
  have "sqlite3WalFindFrame env2 v' P = Some (SQLITE_OK, linear_find (map fst ps @ replicate m (fst (last ps))) P (length ps + m), v')" for P
    using sqlite3WalFindFrame_linear [OF v'(4), of env2 P] v'(5,6) assms(23) fr by simp
  then show ?thesis using v' by blast
qed

definition example_done :: Wal where
  "example_done = example_wal\<lparr>readLock := 0, nBackfill := 1, aReadMark := [0, 1, READMARK_NOT_USED, READMARK_NOT_USED, READMARK_NOT_USED]\<rparr>"

definition example_old :: "u8 list" where
  "example_old = log_bytes 512 0 (zeros 8) [(9, 1, zeros 512)]"

lemma example_restart:
  "\<exists>w. walRestartLog example_env example_locks example_io example_old example_done (zeros 4) = Some (SQLITE_OK, w) \<and> \<not> padToSectorBoundary w"
proof -
  have wf: "wal_wf example_done" by (simp add: wal_wf_def example_done_def example_wal_def example_hdr_def WAL_NREADER_def index_ok_def wi_get_def)
  have "length (aSalt (hdr example_done)) = 8" by (simp add: example_done_def example_wal_def example_hdr_def)
  from restart_header_ok [OF wf this, of "zeros 4"] obtain w1 where w1: "restart_header (zeros 4) example_done = Some w1" "mxFrame (hdr w1) = 0" "aHdr0 w1 = hdr w1"
      "aReadMark w1 = 0 # 0 # replicate 3 READMARK_NOT_USED" "exclusiveMode w1 = 0" "shm_rdonly w1 = False" "\<not> padToSectorBoundary w1"
    by (auto simp: example_good(5) example_done_def example_wal_def WAL_NREADER_def numeral_3_eq_3)
  have sc: "scan_marks [0, READMARK_NOT_USED, READMARK_NOT_USED, READMARK_NOT_USED] 0 (Suc 0) (0, 0) = (0, 1)" by (simp add: READMARK_NOT_USED_def)
  have b: "begin_with_log (example_locks 1) (w1\<lparr>readLock := - 1\<rparr>) SQLITE_OK = (SQLITE_OK, w1\<lparr>readLock := 1\<rparr>)"
    using w1(2-6) sc by (simp add: begin_with_log_def Let_def numeral_3_eq_3 example_locks_def walLockShared_def)
  have "begin_loop example_env example_locks example_io example_old (w1\<lparr>readLock := - 1\<rparr>) True 0 False = Some (SQLITE_OK, False, w1\<lparr>readLock := 1\<rparr>)"
    using b by (subst begin_loop.simps) (simp add: walTryBeginRead_def WAL_RETRY_def SQLITE_OK_def)
  moreover have "readLock example_done = 0" "nBackfill example_done = 1" "exclusiveMode example_done = 0" by (simp_all add: example_done_def example_wal_def)
  ultimately show ?thesis using w1(1,7) by (simp add: walRestartLog_def walLockExclusive_def example_locks_def [of 0] Let_def)
qed

theorem restarted_log_witness:
  "\<exists>w' file' v' m. sqlite3WalFrames example_env example_locks example_io (zeros 4) (zeros 8) example_done example_old 512 [(7, zeros 512)] 1 True True True = Some (SQLITE_OK, w', file') \<and>
    walIndexRecover example_env example_io file' example_reader = Some (SQLITE_OK, v') \<and> unat (mxFrame (hdr v')) = 1 + m \<and> nPage (hdr v') = 1"
proof -
  obtain w where w: "walRestartLog example_env example_locks example_io example_old example_done (zeros 4) = Some (SQLITE_OK, w)" "\<not> padToSectorBoundary w"
    using example_restart by blast
  have o: "\<forall>k. others_ok (example_locks k)" by (rule example_others)
  have wf: "wal_wf example_done" "readLock example_done = 0" "0 < nBackfill example_done" "nCkpt example_done \<noteq> - 1" "length (aSalt (hdr example_done)) = 8"
    "walLockExclusive (example_locks 0) example_done (WAL_READ_LOCK 1) (WAL_NREADER - 1) = SQLITE_OK" "aSalt (hdr example_done) = zeros 8" "nCkpt example_done = 0"
    by (simp_all add: wal_wf_def example_done_def example_wal_def example_hdr_def WAL_NREADER_def index_ok_def wi_get_def walLockExclusive_def example_locks_def zeros_def numeral_eq_Suc)
  have old: "\<forall>f\<in>set [(9, 1, zeros 512)]. frame_ok (unat (512 :: u32)) f" "example_old = log_bytes 512 (nCkpt example_done) (aSalt (hdr example_done)) [(9, 1, zeros 512)]"
    using example_good(5) wf(7,8) by (simp_all add: frame_ok_def example_old_def)
  have p: "\<forall>p\<in>set [(7 :: u32, zeros 512)]. fst p \<noteq> 0 \<and> length (snd p) = unat (512 :: u32)" "[(7 :: u32, zeros 512)] \<noteq> []" using example_good(5) by auto
  note holds = restart_holds [OF o wf(1-3,6,4) example_good(6) wf(5) old example_good(5) w(1)]
  obtain w' m j where c: "sqlite3WalFrames example_env example_locks example_io (zeros 4) (zeros 8) example_done example_old 512 [(7, zeros 512)] 1 True True True =
      Some (SQLITE_OK, w', log_bytes 512 (nCkpt w) (aSalt (hdr w)) ([] @ tx_frames 1 [(7, zeros 512)] m) @ take j (drop ((length [(7 :: u32, zeros 512)] + m) * (unat (512 :: u32) + 24)) (drop 32 example_old)))" "m = 0"
    using sqlite3WalFrames_commit [OF example_good(1) example_writer(1) holds(1) p(2,1) w(1), of "zeros 8" 1 True True] w(2) by auto
  have "length (aSalt (hdr w)) = 8" using holds(1) by (simp add: log_holds_def)
  then have "length (log_bytes 512 (nCkpt w) (aSalt (hdr w)) (tx_frames 1 [(7, zeros 512)] 0)) = 568"
    using length_log_bytes [OF _ tx_frames_ok(1) [OF p], of "aSalt (hdr w)" "nCkpt w" 1 0] tx_frames_ok(4) [OF p] by simp
  moreover have "length example_old = 568"
    using length_log_bytes [OF wf(5) old(1), of "nCkpt example_done"] old(2) by simp
  ultimately show ?thesis
    using restarted_log [OF example_good(1) example_writer(1) o wf(1-3,6,4) example_good(6) wf(5) old example_good(5) w(1) p(2,1) _ c(1) _ example_good(1,2,3,4)] c by fastforce
qed

end
