(* ===== verification/WalCheckpoint.thy ===== *)
theory WalCheckpoint
  imports WalWrite
begin

text \<open>
  Checkpoints of the write-ahead log (\<^verbatim>\<open>wal.c\<close>): how many frames may be copied to the database with the readers there are, copying the last frame of each page, the
  interface, and opening and closing. The database file is the list of its bytes.
\<close>

section \<open>Locks with a busy handler\<close>

definition SQLITE_CHECKPOINT_PASSIVE :: nat where "SQLITE_CHECKPOINT_PASSIVE = 0"
definition SQLITE_CHECKPOINT_FULL :: nat where "SQLITE_CHECKPOINT_FULL = 1"
definition SQLITE_CHECKPOINT_RESTART :: nat where "SQLITE_CHECKPOINT_RESTART = 2"

text \<open>A busy handler is given by the answers to the attempts that it asks for, for each lock, until it gives up.\<close>

type_synonym busy = "(nat \<Rightarrow> int list) option"

primrec busy_loop :: "int \<Rightarrow> int list \<Rightarrow> int" where
  "busy_loop rc [] = rc"
| "busy_loop rc (r # rs) = (if rc = SQLITE_BUSY then busy_loop r rs else rc)"

definition walBusyLock :: "lock_env \<Rightarrow> busy \<Rightarrow> Wal \<Rightarrow> nat \<Rightarrow> nat \<Rightarrow> int" where
  "walBusyLock lk xBusy w lockIdx n = busy_loop (walLockExclusive lk w lockIdx n) (case xBusy of None \<Rightarrow> [] | Some f \<Rightarrow> f lockIdx)"

section \<open>Copying\<close>

record db_io =
  db_size_rc :: int
  db_write_rc :: "nat \<Rightarrow> int"
  db_trunc_rc :: int
  db_sync_rc :: int
  iter_alloc :: bool
  iter_tmp :: bool

text \<open>The last frame that is safe to copy. Of the marks of readers, \<open>n\<close> are left, from \<open>i\<close>; the first result says whether the checkpoint ends with the code.\<close>

primrec safe_loop :: "lock_env \<Rightarrow> nat \<Rightarrow> nat \<Rightarrow> busy \<Rightarrow> Wal \<Rightarrow> u32 \<Rightarrow> int \<Rightarrow> bool \<times> int \<times> u32 \<times> busy \<times> Wal" where
  "safe_loop lk i 0 xBusy w mxSafeFrame rc = (False, rc, mxSafeFrame, xBusy, w)"
| "safe_loop lk i (Suc n) xBusy w mxSafeFrame rc = (let y = aReadMark w ! i in
     if mxSafeFrame > y
     then let rc = walBusyLock lk xBusy w (WAL_READ_LOCK i) 1 in
       if rc = SQLITE_OK
       then safe_loop lk (Suc i) n xBusy (w\<lparr>aReadMark := (aReadMark w)[i := if i = 1 then mxSafeFrame else READMARK_NOT_USED]\<rparr>) mxSafeFrame rc
       else if rc = SQLITE_BUSY then safe_loop lk (Suc i) n None w y rc
       else (True, rc, mxSafeFrame, xBusy, w)
     else safe_loop lk (Suc i) n xBusy w mxSafeFrame rc)"

lemma iterator_advances:
  assumes "walIteratorNext it = Some p" "(it', Some x) = p"
  shows "2 ^ 32 - unat (iPrior it') < 2 ^ 32 - unat (iPrior it)"
proof -
  have "iPrior it < iPrior it'" using walIteratorNext_above [of it it' "fst x" "snd x"] assms by auto
  then show ?thesis using unsigned_less [of "iPrior it'", where ?'a = nat] by (simp add: word_less_nat_alt)
qed

function copy_loop :: "wal_io \<Rightarrow> db_io \<Rightarrow> u8 list \<Rightarrow> nat \<Rightarrow> nat \<Rightarrow> nat \<Rightarrow> u32 \<Rightarrow> WalIterator \<Rightarrow> u8 list \<Rightarrow> (int \<times> u8 list) option" where
  "copy_loop io dio walfile sz nBack mxSafeFrame mxPage pIter db = do {
     (pIter', r) \<leftarrow> walIteratorNext pIter;
     (case r of
        None \<Rightarrow> Some (SQLITE_OK, db)
      | Some (iDbpage, iFrame) \<Rightarrow>
          if iFrame \<le> nBack \<or> iFrame > mxSafeFrame \<or> iDbpage > mxPage then copy_loop io dio walfile sz nBack mxSafeFrame mxPage pIter' db
          else let off = walFrameOffset iFrame sz + WAL_FRAME_HDRSIZE; dbOff = (unat iDbpage - 1) * sz in
            if read_rc io off \<noteq> SQLITE_OK then Some (read_rc io off, db)
            else if db_write_rc dio dbOff \<noteq> SQLITE_OK then Some (db_write_rc dio dbOff, db)
            else copy_loop io dio walfile sz nBack mxSafeFrame mxPage pIter' (file_write db dbOff (take sz (drop off walfile))))
   }"
  by pat_completeness auto
termination
  by (relation "measure (\<lambda>(io, dio, walfile, sz, nBack, mxSafeFrame, mxPage, pIter, db). 2 ^ 32 - unat (iPrior pIter))") (use iterator_advances in auto)

declare copy_loop.simps [simp del]

text \<open>A file is truncated, or extended with zeros.\<close>

definition file_truncate :: "u8 list \<Rightarrow> nat \<Rightarrow> u8 list" where
  "file_truncate db n = take n db @ replicate (n - length db) 0"

definition copy_end :: "db_io \<Rightarrow> bool \<Rightarrow> nat \<Rightarrow> u32 \<Rightarrow> Wal \<Rightarrow> u8 list \<Rightarrow> int \<times> Wal \<times> u8 list" where
  "copy_end dio sync sz mxSafeFrame w db =
    (if mxSafeFrame = mxFrame (aHdr0 w)
     then if db_trunc_rc dio \<noteq> SQLITE_OK then (db_trunc_rc dio, w, db)
       else let db = file_truncate db (unat (nPage (hdr w)) * sz) in
         if sync \<and> db_sync_rc dio \<noteq> SQLITE_OK then (db_sync_rc dio, w, db) else (SQLITE_OK, w\<lparr>nBackfill := unat mxSafeFrame\<rparr>, db)
     else (SQLITE_OK, w\<lparr>nBackfill := unat mxSafeFrame\<rparr>, db))"

definition backfill :: "lock_env \<Rightarrow> wal_io \<Rightarrow> db_io \<Rightarrow> bool \<Rightarrow> busy \<Rightarrow> nat \<Rightarrow> u8 list \<Rightarrow> u32 \<Rightarrow> WalIterator \<Rightarrow> Wal \<Rightarrow> u8 list \<Rightarrow> (int \<times> Wal \<times> u8 list) option" where
  "backfill lk io dio sync xBusy sz walfile mxSafeFrame pIter w db =
    (let rc = walBusyLock lk xBusy w (WAL_READ_LOCK 0) 1 in
     if rc \<noteq> SQLITE_OK then Some (rc, w, db)
     else if sync \<and> sync_rc io \<noteq> SQLITE_OK then Some (sync_rc io, w, db)
     else if db_size_rc dio \<noteq> SQLITE_OK then Some (db_size_rc dio, w, db)
     else do {
       (rc, db) \<leftarrow> copy_loop io dio walfile sz (nBackfill w) (unat mxSafeFrame) (nPage (hdr w)) pIter db;
       if rc \<noteq> SQLITE_OK then Some (rc, w, db) else Some (copy_end dio sync sz mxSafeFrame w db)
     })"

definition walCheckpoint :: "wal_env \<Rightarrow> lock_env \<Rightarrow> wal_io \<Rightarrow> db_io \<Rightarrow> nat \<Rightarrow> busy \<Rightarrow> bool \<Rightarrow> u8 list \<Rightarrow> Wal \<Rightarrow> u8 list \<Rightarrow> (int \<times> Wal \<times> u8 list) option" where
  "walCheckpoint env lk io dio eMode xBusyCall sync walfile w db =
    (if nBackfill w \<ge> unat (mxFrame (hdr w)) then Some (SQLITE_OK, w, db)
     else do {
       (rc, pIter, w) \<leftarrow> walIteratorInit (iter_alloc dio) (iter_tmp dio) env w;
       if rc \<noteq> SQLITE_OK then Some (rc, w, db)
       else case safe_loop lk 1 (WAL_NREADER - 1) (if eMode \<noteq> SQLITE_CHECKPOINT_PASSIVE then xBusyCall else None) w (mxFrame (hdr w)) rc of
         (stop, rc, mxSafeFrame, xBusy, w) \<Rightarrow>
           if stop then Some (rc, w, db)
           else do {
             (rc, w, db) \<leftarrow> (if nBackfill w < unat mxSafeFrame then backfill lk io dio sync xBusy (walPagesize w) walfile mxSafeFrame pIter w db else Some (rc, w, db));
             let rc = (if rc = SQLITE_BUSY then SQLITE_OK else rc);
             Some (if rc = SQLITE_OK \<and> eMode \<noteq> SQLITE_CHECKPOINT_PASSIVE
                   then if nBackfill w < unat (mxFrame (hdr w)) then SQLITE_BUSY
                     else if eMode = SQLITE_CHECKPOINT_RESTART then walBusyLock lk xBusy w (WAL_READ_LOCK 1) (WAL_NREADER - 1) else rc
                   else rc, w, db)
           }
     })"

text \<open>The result is the code, the numbers for \<^verbatim>\<open>pnLog\<close> and \<^verbatim>\<open>pnCkpt\<close> if they are set, the handle and the database.\<close>

definition sqlite3WalCheckpoint :: "wal_env \<Rightarrow> lock_env \<Rightarrow> wal_io \<Rightarrow> db_io \<Rightarrow> nat \<Rightarrow> busy \<Rightarrow> bool \<Rightarrow> nat \<Rightarrow> u8 list \<Rightarrow> Wal \<Rightarrow> u8 list \<Rightarrow>
    (int \<times> (nat \<times> nat) option \<times> Wal \<times> u8 list) option" where
  "sqlite3WalCheckpoint env lk io dio eMode xBusy sync nBuf walfile w db =
    (if rdonly w \<or> shm_rdonly w then Some (SQLITE_READONLY, None, w, db)
     else let rc = walLockExclusive lk w WAL_CKPT_LOCK 1 in
       if rc \<noteq> SQLITE_OK then Some (rc, None, w, db)
       else let w = w\<lparr>ckptLock := True\<rparr>;
                rcw = (if eMode \<noteq> SQLITE_CHECKPOINT_PASSIVE then walBusyLock lk xBusy w WAL_WRITE_LOCK 1 else SQLITE_OK);
                eMode2 = (if rcw = SQLITE_BUSY then SQLITE_CHECKPOINT_PASSIVE else eMode);
                w = (if eMode \<noteq> SQLITE_CHECKPOINT_PASSIVE \<and> rcw = SQLITE_OK then w\<lparr>writeLock := True\<rparr> else w);
                rc = (if rcw = SQLITE_BUSY then SQLITE_OK else rcw) in do {
         (rc, isChanged, w) \<leftarrow> (if rc = SQLITE_OK then walIndexReadHdr env lk io walfile w else Some (rc, False, w));
         (rc, out, w, db) \<leftarrow>
           (if rc \<noteq> SQLITE_OK then Some (rc, None, w, db)
            else do {
              (rc, w, db) \<leftarrow> (if mxFrame (hdr w) \<noteq> 0 \<and> walPagesize w \<noteq> nBuf then Some (SQLITE_CORRUPT, w, db)
                else walCheckpoint env lk io dio eMode2 xBusy sync walfile w db);
              Some (rc, if rc = SQLITE_OK \<or> rc = SQLITE_BUSY then Some (unat (mxFrame (hdr w)), nBackfill w) else None, w, db)
            });
         let w = (if isChanged then w\<lparr>hdr := zero_hdr\<rparr> else w);
         let w = (snd (sqlite3WalEndWriteTransaction w))\<lparr>ckptLock := False\<rparr>;
         Some (if rc = SQLITE_OK \<and> eMode \<noteq> eMode2 then SQLITE_BUSY else rc, out, w, db)
       })"

section \<open>Opening and closing\<close>

definition WAL_NORMAL_MODE :: nat where "WAL_NORMAL_MODE = 0"
definition WAL_EXCLUSIVE_MODE :: nat where "WAL_EXCLUSIVE_MODE = 1"

text \<open>A new handle: \<open>alloc\<close> says whether there is memory, \<open>rc\<close> is the result of opening the file and \<open>ro\<close> whether it is open for reading only; \<open>sequential\<close> and \<open>powersafe\<close> are the
  characteristics of the device. What is in shared memory is taken from the handle \<open>shm\<close> of any connection.\<close>

definition sqlite3WalOpen :: "bool \<Rightarrow> int \<Rightarrow> bool \<Rightarrow> bool \<Rightarrow> bool \<Rightarrow> bool \<Rightarrow> int \<Rightarrow> Wal \<Rightarrow> int \<times> Wal option" where
  "sqlite3WalOpen alloc rc ro sequential powersafe bNoShm mxSize shm =
    (if \<not> alloc then (SQLITE_NOMEM, None)
     else if rc \<noteq> SQLITE_OK then (rc, None)
     else (SQLITE_OK, Some \<lparr>hdr = zero_hdr, apWiData = [], exclusiveMode = (if bNoShm then WAL_HEAPMEMORY_MODE else WAL_NORMAL_MODE), rdonly = ro, shm_rdonly = False, readLock = - 1,
       writeLock = False, ckptLock = False, szPage = 0, nCkpt = 0, iCallback = 0, truncateOnCommit = False, mxWalSize = mxSize, syncHeader = \<not> sequential, padToSectorBoundary = \<not> powersafe,
       aHdr0 = aHdr0 shm, aHdr1 = aHdr1 shm, nBackfill = nBackfill shm, aReadMark = aReadMark shm\<rparr>))"

definition sqlite3WalLimit :: "Wal \<Rightarrow> int \<Rightarrow> Wal" where
  "sqlite3WalLimit w iLimit = w\<lparr>mxWalSize := iLimit\<rparr>"

text \<open>The result is the code, the log if it is not deleted, and the database. \<open>rcLock\<close> is the answer to the request for the exclusive lock of the database, \<open>bPersist\<close> what the
  file control for persistent logs sets, and \<open>delOk\<close> whether the file could be deleted.\<close>

definition sqlite3WalClose :: "wal_env \<Rightarrow> lock_env \<Rightarrow> wal_io \<Rightarrow> db_io \<Rightarrow> int \<Rightarrow> int \<Rightarrow> bool \<Rightarrow> bool \<Rightarrow> nat \<Rightarrow> u8 list \<Rightarrow> Wal \<Rightarrow> u8 list \<Rightarrow> (int \<times> u8 list option \<times> u8 list) option" where
  "sqlite3WalClose env lk io dio rcLock bPersist delOk sync nBuf walfile w db =
    (if rcLock \<noteq> SQLITE_OK then Some (rcLock, Some walfile, db)
     else do {
       (rc, out, w, db) \<leftarrow> sqlite3WalCheckpoint env lk io dio SQLITE_CHECKPOINT_PASSIVE None sync nBuf walfile
         (if exclusiveMode w = WAL_NORMAL_MODE then w\<lparr>exclusiveMode := WAL_EXCLUSIVE_MODE\<rparr> else w) db;
       let isDelete = (rc = SQLITE_OK \<and> bPersist \<noteq> 1);
       let walfile = (if rc = SQLITE_OK \<and> bPersist = 1 \<and> mxWalSize w \<ge> 0 then walLimitSize io walfile 0 else walfile);
       Some (rc, if isDelete \<and> delOk then None else Some walfile, db)
     })"

section \<open>Copying as a list of pages\<close>

primrec copy_list :: "wal_io \<Rightarrow> db_io \<Rightarrow> u8 list \<Rightarrow> nat \<Rightarrow> nat \<Rightarrow> nat \<Rightarrow> u32 \<Rightarrow> (u32 \<times> nat) list \<Rightarrow> u8 list \<Rightarrow> int \<times> u8 list" where
  "copy_list io dio walfile sz nBack mx mxPage [] db = (SQLITE_OK, db)"
| "copy_list io dio walfile sz nBack mx mxPage (v # vs) db =
    (if snd v \<le> nBack \<or> snd v > mx \<or> fst v > mxPage then copy_list io dio walfile sz nBack mx mxPage vs db
     else let off = walFrameOffset (snd v) sz + WAL_FRAME_HDRSIZE; dbOff = (unat (fst v) - 1) * sz in
       if read_rc io off \<noteq> SQLITE_OK then (read_rc io off, db)
       else if db_write_rc dio dbOff \<noteq> SQLITE_OK then (db_write_rc dio dbOff, db)
       else copy_list io dio walfile sz nBack mx mxPage vs (file_write db dbOff (take sz (drop off walfile))))"

lemma copy_loop_list:
  "visit_all it = Some vs \<Longrightarrow> copy_loop io dio walfile sz nBack mx mxPage it db = Some (copy_list io dio walfile sz nBack mx mxPage vs db)"
proof (induction it arbitrary: vs db rule: visit_all.induct)
  case (1 it)
  obtain it' r where n: "walIteratorNext it = Some (it', r)" using "1.prems" by (subst (asm) visit_all.simps) (auto split: Option.bind_splits)
  show ?case
  proof (cases r)
    case None
    then show ?thesis using "1.prems" n by (subst (asm) visit_all.simps) (subst copy_loop.simps, simp)
  next
    case (Some x)
    then obtain us where us: "visit_all it' = Some us" "vs = x # us" using "1.prems" n by (subst (asm) visit_all.simps) auto
    note ih = "1.IH" [OF n refl Some us(1)]
    show ?thesis using n Some us(2) ih by (subst copy_loop.simps) (auto simp: Let_def split: prod.split)
  qed
qed

text \<open>A page of the database, and the page in a frame of the log.\<close>

definition db_page :: "u8 list \<Rightarrow> nat \<Rightarrow> u32 \<Rightarrow> u8 list" where
  "db_page db sz P = take sz (drop ((unat P - 1) * sz) db)"

definition frame_page :: "u8 list \<Rightarrow> nat \<Rightarrow> nat \<Rightarrow> u8 list" where
  "frame_page walfile sz f = take sz (drop (walFrameOffset f sz + WAL_FRAME_HDRSIZE) walfile)"

lemma page_offsets:
  assumes "Q \<noteq> 0" "P \<noteq> 0" "Q \<noteq> P"
  shows "(unat Q - 1) * sz + sz \<le> (unat P - 1) * sz \<or> (unat P - 1) * sz + sz \<le> (unat Q - 1) * sz"
proof -
  have nz: "unat P \<noteq> 0" "unat Q \<noteq> 0" using assms(1,2) by (simp_all add: unat_eq_zero)
  moreover have "unat P \<noteq> unat Q" using assms(3) word_unat_eq_iff by metis
  ultimately have "unat Q \<le> unat P - 1 \<or> unat P \<le> unat Q - 1" by linarith
  then have "unat Q * sz \<le> (unat P - 1) * sz \<or> unat P * sz \<le> (unat Q - 1) * sz" using mult_le_mono1 by blast
  moreover have "(unat Q - 1) * sz + sz = unat Q * sz" "(unat P - 1) * sz + sz = unat P * sz"
    using nz by (simp_all add: mult_eq_if)
  ultimately show ?thesis by simp
qed

lemma length_file_write: "length (file_write db off b) = max (length db) (off + length b)"
  by (simp add: file_write_def Let_def)

lemma file_write_get:
  "take n (drop a (file_write db off b)) = take n (drop a db)" if "a + n \<le> off \<or> off + length b \<le> a" "a + n \<le> length db"
proof (rule nth_equalityI)
  fix i assume "i < length (take n (drop a (file_write db off b)))"
  then have i: "i < n" by simp
  then have "a + i < length db" using that(2) by simp
  then show "take n (drop a (file_write db off b)) ! i = take n (drop a db) ! i"
    using that i by (auto simp: file_write_def Let_def nth_append)
qed (use that in \<open>simp add: length_file_write\<close>)

lemma db_page_write_other:
  assumes "Q \<noteq> 0" "P \<noteq> 0" "Q \<noteq> P" "length b \<le> sz" "unat P * sz \<le> length db"
  shows "db_page (file_write db ((unat Q - 1) * sz) b) sz P = db_page db sz P"
proof -
  have "unat P \<noteq> 0" using assms(2) by (simp add: unat_eq_zero)
  then have "(unat P - 1) * sz + sz = unat P * sz" by (simp add: mult_eq_if)
  then show ?thesis unfolding db_page_def using page_offsets [OF assms(1-3), of sz] assms(4,5) by (intro file_write_get) auto
qed

lemma db_page_write_same:
  assumes "length b = sz"
  shows "db_page (file_write db ((unat Q - 1) * sz) b) sz Q = b"
  using assms by (auto simp: db_page_def file_write_def Let_def)


lemma copy_list_other:
  assumes "P \<noteq> 0" "\<forall>v\<in>set vs. fst v \<noteq> 0 \<and> (nBack < snd v \<and> snd v \<le> mx \<longrightarrow> fst v \<noteq> P)"
  shows "unat P * sz \<le> length db \<Longrightarrow> copy_list io dio walfile sz nBack mx mxPage vs db = (rc, db') \<Longrightarrow> db_page db' sz P = db_page db sz P \<and> length db \<le> length db'"
  using assms(2)
proof (induction vs arbitrary: db)
  case (Cons v vs)
  let ?b = "take sz (drop (walFrameOffset (snd v) sz + WAL_FRAME_HDRSIZE) walfile)"
  let ?db = "file_write db ((unat (fst v) - 1) * sz) ?b"
  have len: "length db \<le> length ?db" by (simp add: length_file_write)
  show ?case
  proof (cases "copy_list io dio walfile sz nBack mx mxPage (v # vs) db = copy_list io dio walfile sz nBack mx mxPage vs ?db \<and> nBack < snd v \<and> snd v \<le> mx")
    case True
    then have "db_page ?db sz P = db_page db sz P" using Cons.prems assms(1) by (intro db_page_write_other) auto
    then show ?thesis using Cons.IH [of ?db] Cons.prems len True by auto
  next
    case False
    then have "copy_list io dio walfile sz nBack mx mxPage (v # vs) db = copy_list io dio walfile sz nBack mx mxPage vs db \<or> db' = db"
      using Cons.prems(2) by (auto simp: Let_def split: if_splits)
    then show ?thesis using Cons.IH [of db] Cons.prems by auto
  qed
qed auto

section \<open>Readers\<close>

text \<open>A lock that stays busy, also when the busy handler waits for it.\<close>

definition lock_busy :: "lock_env \<Rightarrow> busy \<Rightarrow> nat \<Rightarrow> nat \<Rightarrow> bool" where
  "lock_busy lk xBusy lockIdx n \<longleftrightarrow> ex_lock lk lockIdx n = SQLITE_BUSY \<and> (\<forall>f. xBusy = Some f \<longrightarrow> (\<forall>r\<in>set (f lockIdx). r = SQLITE_BUSY))"

lemma busy_loop_busy: "\<forall>r\<in>set rs. r = SQLITE_BUSY \<Longrightarrow> busy_loop SQLITE_BUSY rs = SQLITE_BUSY"
  by (induction rs) auto

lemma walBusyLock_busy:
  assumes "lock_busy lk xBusy lockIdx n" "exclusiveMode w = 0" "xb = None \<or> xb = xBusy"
  shows "walBusyLock lk xb w lockIdx n = SQLITE_BUSY"
  using assms busy_loop_busy by (auto simp: walBusyLock_def walLockExclusive_def lock_busy_def split: option.split)

lemma safe_loop_step:
  assumes "rc1 = walBusyLock lk xb w (WAL_READ_LOCK i) 1"
  shows "safe_loop lk i (Suc n) xb w mx rc = (if mx > aReadMark w ! i
       then if rc1 = SQLITE_OK then safe_loop lk (Suc i) n xb (w\<lparr>aReadMark := (aReadMark w)[i := if i = 1 then mx else READMARK_NOT_USED]\<rparr>) mx rc1
         else if rc1 = SQLITE_BUSY then safe_loop lk (Suc i) n None w (aReadMark w ! i) rc1 else (True, rc1, mx, xb, w)
       else safe_loop lk (Suc i) n xb w mx rc)"
  by (simp add: Let_def assms)

text \<open>The loop only lowers the limit and only changes the marks; with any code but \<open>SQLITE_OK\<close> and \<open>SQLITE_BUSY\<close> it ends the checkpoint.\<close>

lemma safe_loop_keeps:
  "safe_loop lk i n xb w mx rc = (stop, rc', mx', xb', w') \<Longrightarrow> mx' \<le> mx \<and> (xb' = xb \<or> xb' = None) \<and> w'\<lparr>aReadMark := []\<rparr> = w\<lparr>aReadMark := []\<rparr>"
proof (induction n arbitrary: i xb w mx rc)
  case (Suc n)
  define rc1 where "rc1 = walBusyLock lk xb w (WAL_READ_LOCK i) 1"
  let ?w = "w\<lparr>aReadMark := (aReadMark w)[i := if i = 1 then mx else READMARK_NOT_USED]\<rparr>"
  show ?case using Suc.prems Suc.IH [of "Suc i" xb ?w mx rc1] Suc.IH [of "Suc i" None w "aReadMark w ! i" rc1] Suc.IH [of "Suc i" xb w mx rc]
    unfolding safe_loop_step [OF rc1_def] by (auto split: if_splits)
qed auto

lemma safe_loop_busy:
  assumes "lock_busy lk xBusy (WAL_READ_LOCK j) 1"
  shows "safe_loop lk i n xb w mx rc = (False, rc', mx', xb', w') \<Longrightarrow> exclusiveMode w = 0 \<Longrightarrow> xb = None \<or> xb = xBusy \<Longrightarrow> i \<le> j \<Longrightarrow> j < i + n \<Longrightarrow> mx' \<le> aReadMark w ! j"
proof (induction n arbitrary: i xb w mx rc)
  case (Suc n)
  define rc1 where "rc1 = walBusyLock lk xb w (WAL_READ_LOCK i) 1"
  note step = safe_loop_step [OF rc1_def]
  let ?w = "w\<lparr>aReadMark := (aReadMark w)[i := if i = 1 then mx else READMARK_NOT_USED]\<rparr>"
  show ?case
  proof (cases "i = j")
    case True
    then have "rc1 = SQLITE_BUSY" unfolding rc1_def using walBusyLock_busy [OF assms Suc.prems(2,3)] by simp
    then obtain xb1 mx1 rc2 where "safe_loop lk (Suc i) n xb1 w mx1 rc2 = (False, rc', mx', xb', w')" "mx1 \<le> aReadMark w ! i"
      using Suc.prems(1) unfolding step by (auto simp: SQLITE_BUSY_def SQLITE_OK_def split: if_splits)
    then show ?thesis using safe_loop_keeps True by (meson order_trans)
  next
    case False
    then have j: "Suc i \<le> j" "j < Suc i + n" "(aReadMark ?w) ! j = aReadMark w ! j" using Suc.prems(4,5) by auto
    then show ?thesis using Suc.prems(1-3) Suc.IH [of "Suc i" xb ?w mx rc1] Suc.IH [of "Suc i" None w "aReadMark w ! i" rc1] Suc.IH [of "Suc i" xb w mx rc]
      unfolding step by (auto split: if_splits)
  qed
qed auto

lemma safe_loop_free:
  assumes "\<And>i xb v. exclusiveMode v = exclusiveMode w \<Longrightarrow> walBusyLock lk xb v (WAL_READ_LOCK i) 1 = SQLITE_OK"
  shows "\<exists>w'. safe_loop lk i n xb w mx SQLITE_OK = (False, SQLITE_OK, mx, xb, w')"
proof -
  have "exclusiveMode v = exclusiveMode w \<Longrightarrow> \<exists>w'. safe_loop lk i n xb v mx SQLITE_OK = (False, SQLITE_OK, mx, xb, w')" for v
  proof (induction n arbitrary: i v)
    case (Suc n)
    show ?case unfolding safe_loop_step [OF refl] using Suc assms by auto
  qed simp
  then show ?thesis by simp
qed

section \<open>The copy\<close>

text \<open>What a reader of the first \<open>m\<close> frames sees of a page: the last of them with the page, or else the database.\<close>

definition snapshot_page :: "u8 list \<Rightarrow> u8 list \<Rightarrow> nat \<Rightarrow> u32 list \<Rightarrow> nat \<Rightarrow> u32 \<Rightarrow> u8 list" where
  "snapshot_page walfile db sz ps m P = (let f = linear_find ps P m in if f = 0 then db_page db sz P else frame_page walfile sz f)"

definition visits :: "u32 list \<Rightarrow> nat \<Rightarrow> (u32 \<times> nat) list" where
  "visits ps n = map (\<lambda>p. (p, linear_find ps p n)) (sorted_list_of_set (set (take n ps)))"

lemma visits_set: "v \<in> set (visits ps n) \<longleftrightarrow> fst v \<in> set (take n ps) \<and> snd v = linear_find ps (fst v) n"
  by (cases v) (auto simp: visits_def)

lemma linear_find_down:
  assumes "linear_find ps P n = f" "f \<le> m" "m \<le> n"
  shows "linear_find ps P m = f"
  using assms by (induction n) (auto split: if_splits simp: le_Suc_eq)

lemma linear_find_pos_iff:
  assumes "n \<le> length ps"
  shows "0 < linear_find ps P n \<longleftrightarrow> P \<in> set (take n ps)"
  using assms by (induction n) (auto simp: take_Suc_conv_app_nth)

text \<open>The iterator of a checkpoint gives these visits.\<close>

lemma iterator_visits:
  assumes "index_ok w ps" "n = unat (mxFrame (hdr w))" "0 < n" "n \<le> length ps" "0 \<notin> set ps" "0xFFFFFFFF \<notin> set ps"
  shows "\<exists>it. walIteratorInit True True env w = Some (SQLITE_OK, it, w) \<and> visit_all it = Some (visits ps n)"
proof -
  obtain it where it: "walIteratorInit True True env w = Some (SQLITE_OK, it, w)" "iterator_ok ps n it" "iPrior it = 0"
    using walIteratorInit_ok [of w ps env] assms by auto
  have "{p \<in> set (take n ps). 0 < p} = set (take n ps)" using assms(5) by (auto dest: in_set_takeD intro: word_gt_0 [THEN iffD2])
  then show ?thesis using it visit_all_ok [OF assms(3,4,6) it(2)] by (auto simp: visits_def)
qed

lemma db_page_truncate:
  assumes "P \<noteq> 0" "unat P * sz \<le> n" "unat P * sz \<le> length db"
  shows "db_page (file_truncate db n) sz P = db_page db sz P"
proof -
  have "unat P \<noteq> 0" using assms(1) by (simp add: unat_eq_zero)
  then have "(unat P - 1) * sz + sz = unat P * sz" by (simp add: mult_eq_if)
  then show ?thesis using assms(2,3) unfolding db_page_def file_truncate_def by (auto simp: drop_take min_def)
qed

lemma copy_end_page:
  assumes "copy_end dio sync sz mx w db = (rc, w', db')" "P \<noteq> 0" "mx = mxFrame (aHdr0 w) \<Longrightarrow> P \<le> nPage (hdr w)" "unat P * sz \<le> length db"
  shows "db_page db' sz P = db_page db sz P"
proof -
  have "unat P * sz \<le> unat (nPage (hdr w)) * sz" if "mx = mxFrame (aHdr0 w)" using assms(3) [OF that] by (simp add: word_le_nat_alt)
  then show ?thesis using assms db_page_truncate by (auto simp: copy_end_def Let_def split: if_splits)
qed

text \<open>A page that is not copied stays as it is.\<close>

lemma backfill_page:
  assumes "visit_all it = Some vs" "P \<noteq> 0" "\<forall>v \<in> set vs. fst v \<noteq> 0 \<and> (nBackfill w < snd v \<and> snd v \<le> unat mx \<longrightarrow> fst v \<noteq> P)"
    "unat P * sz \<le> length db" "mx = mxFrame (aHdr0 w) \<Longrightarrow> P \<le> nPage (hdr w)"
  shows "\<exists>rc w' db'. backfill lk io dio sync xb sz walfile mx it w db = Some (rc, w', db') \<and> db_page db' sz P = db_page db sz P"
proof -
  obtain rc1 db1 where c: "copy_list io dio walfile sz (nBackfill w) (unat mx) (nPage (hdr w)) vs db = (rc1, db1)" by fastforce
  have k: "db_page db1 sz P = db_page db sz P" "length db \<le> length db1" using copy_list_other [OF assms(2,3,4) c] by auto
  obtain rc2 w2 db2 where e: "copy_end dio sync sz mx w db1 = (rc2, w2, db2)" by (cases "copy_end dio sync sz mx w db1") auto
  have "db_page db2 sz P = db_page db sz P" using copy_end_page [OF e assms(2,5)] k assms(4) by simp
  then show ?thesis using k c e by (auto simp: backfill_def Let_def copy_loop_list [OF assms(1)])
qed

lemma backfill_returns:
  assumes "visit_all it = Some vs"
  shows "\<exists>rc w' db'. backfill lk io dio sync xb sz walfile mx it w db = Some (rc, w', db')"
proof -
  obtain rc1 db1 where "copy_list io dio walfile sz (nBackfill w) (unat mx) (nPage (hdr w)) vs db = (rc1, db1)" by fastforce
  moreover obtain rc2 w2 db2 where "copy_end dio sync sz mx w db1 = (rc2, w2, db2)" by (cases "copy_end dio sync sz mx w db1") auto
  ultimately show ?thesis by (auto simp: backfill_def Let_def copy_loop_list [OF assms])
qed

lemma backfill_busy:
  assumes "lock_busy lk xBusy (WAL_READ_LOCK 0) 1" "exclusiveMode w = 0" "xb = None \<or> xb = xBusy"
  shows "backfill lk io dio sync xb sz walfile mx it w db = Some (SQLITE_BUSY, w, db)"
  using walBusyLock_busy [OF assms] by (simp add: backfill_def SQLITE_BUSY_def SQLITE_OK_def)

lemma copy_list_copies:
  "distinct (map fst vs) \<Longrightarrow> \<forall>v \<in> set vs. fst v \<noteq> 0 \<Longrightarrow> (P, f) \<in> set vs \<Longrightarrow> nBack < f \<Longrightarrow> f \<le> mx \<Longrightarrow> P \<le> mxPage \<Longrightarrow> length (frame_page walfile sz f) = sz \<Longrightarrow>
    copy_list io dio walfile sz nBack mx mxPage vs db = (SQLITE_OK, db') \<Longrightarrow> db_page db' sz P = frame_page walfile sz f \<and> unat P * sz \<le> length db'"
proof (induction vs arbitrary: db)
  case (Cons v vs)
  show ?case
  proof (cases "v = (P, f)")
    case True
    let ?db = "file_write db ((unat P - 1) * sz) (frame_page walfile sz f)"
    have P: "P \<noteq> 0" "unat P \<noteq> 0" using Cons.prems(2) True by (auto simp: unat_eq_zero)
    then have "(unat P - 1) * sz + sz = unat P * sz" by (simp add: mult_eq_if)
    then have len: "unat P * sz \<le> length ?db" using Cons.prems(7) by (simp add: length_file_write)
    have "copy_list io dio walfile sz nBack mx mxPage vs ?db = (SQLITE_OK, db')" using Cons.prems(4-6,8) True by (auto simp: Let_def frame_page_def not_less split: if_splits)
    moreover have "\<forall>v \<in> set vs. fst v \<noteq> 0 \<and> (nBack < snd v \<and> snd v \<le> mx \<longrightarrow> fst v \<noteq> P)" using Cons.prems(1,2) True by force
    ultimately have "db_page db' sz P = db_page ?db sz P \<and> length ?db \<le> length db'" using copy_list_other [OF P(1) _ len] by blast
    then show ?thesis using db_page_write_same [OF Cons.prems(7)] len by auto
  next
    case False
    then obtain db1 where "copy_list io dio walfile sz nBack mx mxPage vs db1 = (SQLITE_OK, db')" using Cons.prems(8) by (auto simp: Let_def split: if_splits)
    then show ?thesis using Cons.IH [of db1] Cons.prems False by auto
  qed
qed simp

lemma copy_list_good:
  assumes "\<forall>off. read_rc io off = SQLITE_OK" "\<forall>off. db_write_rc dio off = SQLITE_OK"
  shows "fst (copy_list io dio walfile sz nBack mx mxPage vs db) = SQLITE_OK"
  by (induction vs arbitrary: db) (auto simp: assms Let_def)

lemma visits_distinct: "distinct (map fst (visits ps n))"
  by (simp add: visits_def comp_def)

lemma snapshot_kept:
  assumes "linear_find ps P m = 0 \<Longrightarrow> db_page db' sz P = db_page db sz P"
  shows "snapshot_page walfile db' sz ps m P = snapshot_page walfile db sz ps m P"
  using assms by (simp add: snapshot_page_def Let_def)

text \<open>A page that a reader of the first \<open>m\<close> frames takes from the database is not among those copied up to a limit not above \<open>m\<close>.\<close>

lemma visits_avoid:
  assumes "linear_find ps P m = 0" "mx \<le> m" "0 \<notin> set ps" "m \<le> n" "n \<le> length ps"
  shows "\<forall>v \<in> set (visits ps n). fst v \<noteq> 0 \<and> (nBack < snd v \<and> snd v \<le> mx \<longrightarrow> fst v \<noteq> P)"
proof
  fix v assume v: "v \<in> set (visits ps n)"
  then have "fst v \<in> set ps" "snd v = linear_find ps (fst v) n" by (auto simp: visits_set dest: in_set_takeD)
  moreover have "nBack < snd v \<Longrightarrow> snd v \<le> mx \<Longrightarrow> fst v \<noteq> P"
    using linear_find_down [of ps P n "snd v" m] assms(1,2,4) \<open>snd v = linear_find ps (fst v) n\<close> by auto
  ultimately show "fst v \<noteq> 0 \<and> (nBack < snd v \<and> snd v \<le> mx \<longrightarrow> fst v \<noteq> P)" using assms(3) by metis
qed

lemma backfill_keeps_snapshot:
  assumes "visit_all it = Some (visits ps n)" "0 \<notin> set ps" "m \<le> n" "n \<le> length ps" "unat mx \<le> m" "P \<noteq> 0"
    "linear_find ps P m = 0 \<Longrightarrow> unat P * sz \<le> length db" "mx = mxFrame (aHdr0 w1) \<Longrightarrow> P \<le> nPage (hdr w1)"
  shows "\<exists>rc w2 db2. backfill lk io dio sync xb sz walfile mx it w1 db = Some (rc, w2, db2) \<and> snapshot_page walfile db2 sz ps m P = snapshot_page walfile db sz ps m P"
proof (cases "linear_find ps P m = 0")
  case True
  obtain rc w2 db2 where "backfill lk io dio sync xb sz walfile mx it w1 db = Some (rc, w2, db2)" "db_page db2 sz P = db_page db sz P"
    using backfill_page [OF assms(1,6) visits_avoid [OF True assms(5,2,3,4)] assms(7) [OF True] assms(8)] by blast
  then show ?thesis using snapshot_kept by blast
next
  case False
  moreover obtain rc w2 db2 where "backfill lk io dio sync xb sz walfile mx it w1 db = Some (rc, w2, db2)" using backfill_returns [OF assms(1)] by blast
  ultimately show ?thesis by (simp add: snapshot_page_def Let_def)
qed

lemma walCheckpoint_cases:
  assumes "index_ok w ps" "n = unat (mxFrame (hdr w))" "n \<le> length ps" "0 \<notin> set ps" "0xFFFFFFFF \<notin> set ps"
    and "Q w db"
    and "\<And>it stop rc mx xb w1. visit_all it = Some (visits ps n) \<Longrightarrow>
      safe_loop lk 1 (WAL_NREADER - 1) (if eMode \<noteq> SQLITE_CHECKPOINT_PASSIVE then xBusy else None) w (mxFrame (hdr w)) SQLITE_OK = (stop, rc, mx, xb, w1) \<Longrightarrow>
      Q w1 db \<and> (\<not> stop \<longrightarrow> nBackfill w1 < unat mx \<longrightarrow> (\<exists>rc w2 db2. backfill lk io dio sync xb (walPagesize w1) walfile mx it w1 db = Some (rc, w2, db2) \<and> Q w2 db2))"
  shows "\<exists>rc w' db'. walCheckpoint env lk io dio eMode xBusy sync walfile w db = Some (rc, w', db') \<and> Q w' db'"
proof (cases "nBackfill w \<ge> n \<or> \<not> (iter_alloc dio \<and> iter_tmp dio)")
  case True
  then show ?thesis using assms(2,6) by (auto simp: walCheckpoint_def walIteratorInit_def Let_def SQLITE_NOMEM_def SQLITE_OK_def)
next
  case False
  then obtain it where it: "walIteratorInit True True env w = Some (SQLITE_OK, it, w)" "visit_all it = Some (visits ps n)"
    using iterator_visits [OF assms(1,2) _ assms(3,4,5)] by fastforce
  obtain stop rc mx xb w1 where s: "safe_loop lk 1 (WAL_NREADER - 1) (if eMode \<noteq> SQLITE_CHECKPOINT_PASSIVE then xBusy else None) w (mxFrame (hdr w)) SQLITE_OK = (stop, rc, mx, xb, w1)"
    by (metis prod_cases5)
  show ?thesis using False assms(2) assms(7) [OF it(2) s] it(1) s by (auto simp: walCheckpoint_def Let_def simp del: safe_loop.simps)
qed

text \<open>Storage and locks that never fail.\<close>

definition db_good :: "lock_env \<Rightarrow> wal_io \<Rightarrow> db_io \<Rightarrow> bool" where
  "db_good lk io dio \<longleftrightarrow> (\<forall>k n. ex_lock lk k n = SQLITE_OK) \<and> (\<forall>off. read_rc io off = SQLITE_OK) \<and> sync_rc io = SQLITE_OK \<and> db_size_rc dio = SQLITE_OK \<and>
    (\<forall>off. db_write_rc dio off = SQLITE_OK) \<and> db_trunc_rc dio = SQLITE_OK \<and> db_sync_rc dio = SQLITE_OK \<and> iter_alloc dio \<and> iter_tmp dio"

lemma walBusyLock_free: "db_good lk io dio \<Longrightarrow> walBusyLock lk xb w k n = SQLITE_OK"
proof -
  have "busy_loop SQLITE_OK rs = SQLITE_OK" for rs by (cases rs) (simp_all add: SQLITE_OK_def SQLITE_BUSY_def)
  then show "db_good lk io dio \<Longrightarrow> walBusyLock lk xb w k n = SQLITE_OK" by (simp add: walBusyLock_def walLockExclusive_def db_good_def)
qed

lemma length_frame_page:
  assumes "0 < f" "f \<le> n" "walFrameOffset (Suc n) sz \<le> length walfile"
  shows "length (frame_page walfile sz f) = sz"
proof -
  have "(f - 1) * (sz + 24) + (sz + 24) \<le> n * (sz + 24)" using assms(1,2) mult_le_mono1 [of f n "sz + 24"] by (simp add: mult_eq_if)
  then show ?thesis using assms by (simp add: frame_page_def walFrameOffset_def WAL_FRAME_HDRSIZE_def WAL_HDRSIZE_def)
qed

text \<open>A copy of all frames that succeeds moves the log into the database.\<close>

lemma backfill_complete:
  assumes "visit_all it = Some (visits ps n)" "n = unat (mxFrame (hdr w))" "mxFrame (aHdr0 w) = mxFrame (hdr w)" "n \<le> length ps" "0 \<notin> set ps"
    "walFrameOffset (Suc n) sz \<le> length walfile" "P \<noteq> 0" "P \<le> nPage (hdr w)"
    "snapshot_page walfile db sz ps (nBackfill w) P = db_page db sz P" "linear_find ps P n \<le> nBackfill w \<Longrightarrow> unat P * sz \<le> length db" "nBackfill w < n"
    "backfill lk io dio sync xb sz walfile (mxFrame (hdr w)) it w db = Some (SQLITE_OK, w', db')"
  shows "w' = w\<lparr>nBackfill := n\<rparr> \<and> length db' = unat (nPage (hdr w)) * sz \<and> db_page db' sz P = snapshot_page walfile db sz ps n P"
proof -
  let ?f = "linear_find ps P n" and ?N = "unat (nPage (hdr w)) * sz"
  obtain rc1 db1 where "copy_list io dio walfile sz (nBackfill w) n (nPage (hdr w)) (visits ps n) db = (rc1, db1)" by fastforce
  then have c: "copy_list io dio walfile sz (nBackfill w) n (nPage (hdr w)) (visits ps n) db = (SQLITE_OK, db1)"
      and e: "w' = w\<lparr>nBackfill := n\<rparr>" "db' = file_truncate db1 ?N"
    using assms(2,3,12) by (auto simp: backfill_def Let_def copy_loop_list [OF assms(1)] copy_end_def split: if_splits)
  have nz: "\<forall>v \<in> set (visits ps n). fst v \<noteq> 0" using assms(5) by (auto simp: visits_set dest: in_set_takeD)
  have "db_page db1 sz P = snapshot_page walfile db sz ps n P \<and> unat P * sz \<le> length db1"
  proof (cases "?f \<le> nBackfill w")
    case True
    then have "\<forall>v \<in> set (visits ps n). fst v \<noteq> 0 \<and> (nBackfill w < snd v \<and> snd v \<le> n \<longrightarrow> fst v \<noteq> P)" using nz by (auto simp: visits_set)
    moreover have "snapshot_page walfile db sz ps n P = db_page db sz P"
      using assms(9,11) linear_find_down [of ps P n ?f "nBackfill w"] True by (simp add: snapshot_page_def Let_def)
    ultimately show ?thesis using copy_list_other [OF assms(7) _ assms(10) [OF True] c] assms(10) [OF True] by fastforce
  next
    case False
    then have "(P, ?f) \<in> set (visits ps n)" using linear_find_pos_iff [OF assms(4), of P] by (auto simp: visits_set)
    then show ?thesis using copy_list_copies [OF visits_distinct nz _ _ _ assms(8) length_frame_page [OF _ _ assms(6)] c, of ?f] False
      by (simp add: linear_find_le snapshot_page_def)
  qed
  moreover have "unat P * sz \<le> ?N" using assms(8) by (simp add: word_le_nat_alt)
  ultimately show ?thesis using e db_page_truncate [OF assms(7)] by (simp add: file_truncate_def)
qed

lemma backfill_succeeds:
  assumes "db_good lk io dio" "visit_all it = Some vs"
  shows "\<exists>w' db'. backfill lk io dio sync xb sz walfile mx it w db = Some (SQLITE_OK, w', db')"
proof -
  have g: "\<forall>off. read_rc io off = SQLITE_OK" "\<forall>off. db_write_rc dio off = SQLITE_OK" using assms(1) by (auto simp: db_good_def)
  obtain db1 where "copy_list io dio walfile sz (nBackfill w) (unat mx) (nPage (hdr w)) vs db = (SQLITE_OK, db1)" using copy_list_good [OF g] by (metis prod.collapse)
  then show ?thesis using assms(1) walBusyLock_free [OF assms(1)]
    by (auto simp: backfill_def Let_def db_good_def copy_loop_list [OF assms(2)] copy_end_def)
qed

section \<open>The locking mode\<close>

lemma walIndexPage_mode: "walIndexPage env w k = (rc, p, w') \<Longrightarrow> exclusiveMode w' = exclusiveMode w"
  by (auto simp: walIndexPage_def Let_def split: if_splits option.splits prod.splits)

lemma walHashGet_mode: "walHashGet env w k = (rc, z, w') \<Longrightarrow> exclusiveMode w' = exclusiveMode w"
  by (auto simp: walHashGet_def dest: walIndexPage_mode split: if_splits prod.splits)

lemma wi_set_mode: "exclusiveMode (wi_set w h p) = exclusiveMode w"
  by (simp add: wi_set_def)

lemma walCleanupHash_mode: "walCleanupHash env w = Some w' \<Longrightarrow> exclusiveMode w' = exclusiveMode w"
  by (auto simp: walCleanupHash_def Let_def wi_set_mode dest: walHashGet_mode split: if_splits Option.bind_splits prod.splits)

lemma walIndexAppend_mode:
  assumes "walIndexAppend env w f P = Some (rc, w')"
  shows "exclusiveMode w' = exclusiveMode w"
proof -
  obtain rc1 z w1 where g: "walHashGet env w (walFramePage f) = (rc1, z, w1)" by (metis prod_cases3)
  show ?thesis using assms g walHashGet_mode [OF g]
    by (auto simp: walIndexAppend_def Let_def wi_set_mode dest!: walCleanupHash_mode split: if_splits Option.bind_splits option.splits)
qed

lemma walDecodeFrame_mode: "walDecodeFrame w a b = Some (r, w') \<Longrightarrow> exclusiveMode w' = exclusiveMode w"
  by (auto simp: walDecodeFrame_def Let_def split: if_splits Option.bind_splits)

lemma recover_finish_mode: "recover_finish rc w ck = Some (rc', w') \<Longrightarrow> exclusiveMode w' = exclusiveMode w"
  by (auto simp: recover_finish_def walIndexWriteHdr_def Let_def split: if_splits Option.bind_splits)

lemma walIndexTryHdr_mode: "walIndexTryHdr w h1 h2 = Some (b, c, w') \<Longrightarrow> exclusiveMode w' = exclusiveMode w"
  by (auto simp: walIndexTryHdr_def Let_def split: if_splits Option.bind_splits)

lemma recover_loop_mode: "recover_loop env io file sz i off w ck = Some (rc, w', ck') \<Longrightarrow> exclusiveMode w' = exclusiveMode w"
proof (induction "Suc (length file) - off" arbitrary: i off w ck rule: less_induct)
  case less
  let ?n = "unat sz + WAL_FRAME_HDRSIZE" and ?a = "take (unat sz + WAL_FRAME_HDRSIZE) (drop off file)"
  have IH: "exclusiveMode w' = exclusiveMode v" if "off + ?n \<le> length file" "recover_loop env io file sz j (off + ?n) v c = Some (rc, w', ck')" for j v c
    using less.hyps [of "off + ?n" j v c] that by (simp add: WAL_FRAME_HDRSIZE_def)
  show ?case
  proof (cases "off + ?n \<le> length file \<and> read_rc io off = SQLITE_OK")
    case False
    then show ?thesis using less.prems by (subst (asm) recover_loop.simps) (auto simp: Let_def split: if_splits)
  next
    case True
    obtain r w1 where d: "walDecodeFrame w (drop WAL_FRAME_HDRSIZE ?a) (take WAL_FRAME_HDRSIZE ?a) = Some (r, w1)"
      using less.prems True by (subst (asm) recover_loop.simps) (auto simp: Let_def split: Option.bind_splits)
    note m1 = walDecodeFrame_mode [OF d]
    show ?thesis
    proof (cases r)
      case None
      then show ?thesis using less.prems True d m1 by (subst (asm) recover_loop.simps) (auto simp: Let_def)
    next
      case (Some x)
      obtain rc2 w2 where a: "walIndexAppend env w1 (Suc i) (fst x) = Some (rc2, w2)"
        using less.prems True d Some by (subst (asm) recover_loop.simps) (auto simp: Let_def split: Option.bind_splits prod.splits)
      note m2 = walIndexAppend_mode [OF a]
      show ?thesis using less.prems True d Some a m1 m2
        by (subst (asm) recover_loop.simps) (auto simp: Let_def split: prod.splits if_splits dest!: IH)
    qed
  qed
qed

lemma walIndexRecover_mode: "walIndexRecover env io file w = Some (rc, w') \<Longrightarrow> exclusiveMode w' = exclusiveMode w"
  by (auto simp: walIndexRecover_def Let_def dest!: recover_loop_mode recover_finish_mode split: if_splits Option.bind_splits)

lemma others_mode: "others_ok lk \<Longrightarrow> exclusiveMode (others lk k w) = exclusiveMode w"
proof -
  assume "others_ok lk"
  then obtain a h0 h1 n m where "others lk k w = w\<lparr>apWiData := a, aHdr0 := h0, aHdr1 := h1, nBackfill := n, aReadMark := m\<rparr>" unfolding others_ok_def by meson
  then show ?thesis by simp
qed

lemma read_locked_mode: "read_locked env io file w ch = Some (rc, b, c, w') \<Longrightarrow> exclusiveMode w' = exclusiveMode w"
  by (auto simp: read_locked_def dest!: walIndexPage_mode walIndexTryHdr_mode walIndexRecover_mode split: if_splits Option.bind_splits prod.splits)

lemma walIndexReadHdr_mode:
  assumes "others_ok lk" "walIndexReadHdr env lk io file w = Some (rc, c, w')"
  shows "exclusiveMode w' = exclusiveMode w"
proof -
  obtain rc1 p w1 where p: "walIndexPage env w 0 = (rc1, p, w1)" by (metis prod_cases3)
  have t: "exclusiveMode w2 = exclusiveMode w1" if "try_shared lk 0 w1 = Some (b, ch, w2)" for b ch w2
    using that by (auto simp: try_shared_def Let_def others_mode [OF assms(1)] dest!: walIndexTryHdr_mode)
  show ?thesis using assms(2) p walIndexPage_mode [OF p]
    by (auto simp: walIndexReadHdr_def Let_def others_mode [OF assms(1)] dest!: t read_locked_mode split: if_splits Option.bind_splits)
qed

section \<open>A checkpoint of the only connection\<close>

text \<open>Operations on the files may fail, but \<open>SQLITE_BUSY\<close> is an answer of locks only.\<close>

definition io_not_busy :: "wal_io \<Rightarrow> db_io \<Rightarrow> bool" where
  "io_not_busy io dio \<longleftrightarrow> (\<forall>off. read_rc io off \<noteq> SQLITE_BUSY \<and> db_write_rc dio off \<noteq> SQLITE_BUSY) \<and> sync_rc io \<noteq> SQLITE_BUSY \<and>
    db_size_rc dio \<noteq> SQLITE_BUSY \<and> db_trunc_rc dio \<noteq> SQLITE_BUSY \<and> db_sync_rc dio \<noteq> SQLITE_BUSY"

lemma walBusyLock_alone: "exclusiveMode w \<noteq> 0 \<Longrightarrow> walBusyLock lk xb w k n = SQLITE_OK"
proof -
  have "busy_loop SQLITE_OK rs = SQLITE_OK" for rs by (cases rs) (simp_all add: SQLITE_OK_def SQLITE_BUSY_def)
  then show "exclusiveMode w \<noteq> 0 \<Longrightarrow> walBusyLock lk xb w k n = SQLITE_OK" by (simp add: walBusyLock_def walLockExclusive_def)
qed

lemma copy_list_not_busy: "io_not_busy io dio \<Longrightarrow> fst (copy_list io dio walfile sz nBack mx mxPage vs db) \<noteq> SQLITE_BUSY"
  by (induction vs arbitrary: db) (auto simp: Let_def io_not_busy_def SQLITE_OK_def SQLITE_BUSY_def)

lemma backfill_not_busy:
  assumes "io_not_busy io dio" "exclusiveMode w \<noteq> 0" "visit_all it = Some vs" "backfill lk io dio sync xb sz walfile mx it w db = Some (rc, w', db')"
  shows "rc \<noteq> SQLITE_BUSY"
proof -
  obtain rc1 db1 where c: "copy_list io dio walfile sz (nBackfill w) (unat mx) (nPage (hdr w)) vs db = (rc1, db1)" by fastforce
  then have "rc1 \<noteq> SQLITE_BUSY" using copy_list_not_busy [OF assms(1), of walfile sz "nBackfill w" "unat mx" "nPage (hdr w)" vs db] by simp
  then show ?thesis using assms(1,4) c walBusyLock_alone [OF assms(2)]
    by (auto simp: backfill_def Let_def copy_loop_list [OF assms(3)] copy_end_def io_not_busy_def SQLITE_OK_def SQLITE_BUSY_def split: if_splits)
qed

lemma checkpoint_alone:
  assumes "index_ok w ps" "n = unat (mxFrame (hdr w))" "n \<le> length ps" "0 \<notin> set ps" "0xFFFFFFFF \<notin> set ps" "mxFrame (aHdr0 w) = mxFrame (hdr w)" "nBackfill w \<le> n"
    and "exclusiveMode w \<noteq> 0" "io_not_busy io dio" "sz = walPagesize w" "walFrameOffset (Suc n) sz \<le> length walfile"
    and "P \<noteq> 0" "P \<le> nPage (hdr w)" "snapshot_page walfile db sz ps (nBackfill w) P = db_page db sz P" "linear_find ps P n \<le> nBackfill w \<Longrightarrow> unat P * sz \<le> length db"
  shows "\<exists>rc w' db'. walCheckpoint env lk io dio SQLITE_CHECKPOINT_PASSIVE xBusy sync walfile w db = Some (rc, w', db') \<and>
    snapshot_page walfile db' sz ps n P = snapshot_page walfile db sz ps n P \<and> (rc = SQLITE_OK \<longrightarrow> db_page db' sz P = snapshot_page walfile db sz ps n P)"
proof (cases "nBackfill w < n \<and> iter_alloc dio \<and> iter_tmp dio")
  case False
  have "snapshot_page walfile db sz ps n P = db_page db sz P" if "nBackfill w \<ge> n" using that assms(7,14) by simp
  then show ?thesis using False assms(2) by (auto simp: walCheckpoint_def walIteratorInit_def Let_def SQLITE_NOMEM_def SQLITE_OK_def)
next
  case True
  then obtain it where it: "walIteratorInit True True env w = Some (SQLITE_OK, it, w)" "visit_all it = Some (visits ps n)"
    using iterator_visits [OF assms(1,2) _ assms(3,4,5)] by fastforce
  obtain w1 where s: "safe_loop lk 1 (WAL_NREADER - 1) None w (mxFrame (hdr w)) SQLITE_OK = (False, SQLITE_OK, mxFrame (hdr w), None, w1)"
    using safe_loop_free [of w lk] walBusyLock_alone [of _ lk] assms(8) by metis
  have "w1\<lparr>aReadMark := []\<rparr> = w\<lparr>aReadMark := []\<rparr>" using safe_loop_keeps [OF s] by blast
  then have f: "hdr w1 = hdr w" "aHdr0 w1 = aHdr0 w" "nBackfill w1 = nBackfill w" "exclusiveMode w1 = exclusiveMode w" by (cases w; cases w1; simp)+
  then have sz: "walPagesize w1 = sz" using assms(10) by (simp add: walPagesize_def)
  have mx: "unat (mxFrame (hdr w)) \<le> n" "linear_find ps P n = 0 \<Longrightarrow> unat P * sz \<le> length db" "P \<le> nPage (hdr w1)" using assms(2,13,15) f by simp_all
  obtain rc w2 db2 where b: "backfill lk io dio sync None sz walfile (mxFrame (hdr w)) it w1 db = Some (rc, w2, db2)"
      "snapshot_page walfile db2 sz ps n P = snapshot_page walfile db sz ps n P"
    using backfill_keeps_snapshot [OF it(2) assms(4) le_refl assms(3) mx(1) assms(12) mx(2,3)] by blast
  have c: "db_page db2 sz P = snapshot_page walfile db sz ps n P" if "rc = SQLITE_OK"
    using backfill_complete [OF it(2) _ _ assms(3,4,11,12), of w1 db lk io dio sync None w2 db2] b(1) that f assms(2,6,13-15) True by simp
  have "rc \<noteq> SQLITE_BUSY" using backfill_not_busy [OF assms(9) _ it(2) b(1)] assms(8) f by simp
  then show ?thesis using it(1) s b c True assms(2) f sz by (auto simp: walCheckpoint_def Let_def simp del: safe_loop.simps)
qed

section \<open>Properties\<close>

text \<open>C23. A checkpoint never changes what a reader sees. Whatever fails while it runs (memory, locks, reads, writes, truncation, syncs), in every mode and with every busy
  handler, it ends; and if a reader holds its read lock \<open>i\<close> throughout, then the database is unchanged if \<open>i\<close> is 0, and otherwise every page of
  the reader's snapshot, the first \<open>m\<close> frames of the log over the database, has the content it had.\<close>

theorem checkpoint_keeps_snapshots:
  assumes "index_ok w ps" "n = unat (mxFrame (hdr w))" "n \<le> length ps" "0 \<notin> set ps" "0xFFFFFFFF \<notin> set ps" "exclusiveMode w = 0" "mxFrame (hdr w) \<le> mxFrame (aHdr0 w)"
    and "i < WAL_NREADER" "lock_busy lk xBusy (WAL_READ_LOCK i) 1" "0 < i \<Longrightarrow> unat (aReadMark w ! i) \<le> m" "m \<le> n"
    and "P \<noteq> 0" "linear_find ps P m = 0 \<Longrightarrow> unat P * walPagesize w \<le> length db" "m = n \<Longrightarrow> P \<le> nPage (hdr w)"
  shows "\<exists>rc w' db'. walCheckpoint env lk io dio eMode xBusy sync walfile w db = Some (rc, w', db') \<and>
    (if i = 0 then db' = db else snapshot_page walfile db' (walPagesize w) ps m P = snapshot_page walfile db (walPagesize w) ps m P)"
    (is "\<exists>rc w' db'. _ \<and> ?Q db'")
proof (rule walCheckpoint_cases [OF assms(1-5), where Q = "\<lambda>_. ?Q"])
  fix it stop rc mx xb w1
  assume v: "visit_all it = Some (visits ps n)"
    and s: "safe_loop lk 1 (WAL_NREADER - 1) (if eMode \<noteq> SQLITE_CHECKPOINT_PASSIVE then xBusy else None) w (mxFrame (hdr w)) SQLITE_OK = (stop, rc, mx, xb, w1)"
  have k: "mx \<le> mxFrame (hdr w)" "xb = xBusy \<or> xb = None" "w1\<lparr>aReadMark := []\<rparr> = w\<lparr>aReadMark := []\<rparr>" using safe_loop_keeps [OF s] by (auto split: if_splits)
  have f: "exclusiveMode w1 = exclusiveMode w" "hdr w1 = hdr w" "aHdr0 w1 = aHdr0 w" using k(3) by (cases w; cases w1; simp)+
  then have sz: "walPagesize w1 = walPagesize w" by (simp add: walPagesize_def)
  have "\<exists>rc w2 db2. backfill lk io dio sync xb (walPagesize w1) walfile mx it w1 db = Some (rc, w2, db2) \<and> ?Q db2" if "\<not> stop"
  proof (cases "i = 0")
    case True
    then show ?thesis using backfill_busy [of lk xBusy w1 xb] assms(6,9) k(2) f(1) by auto
  next
    case False
    have mx: "unat mx \<le> m"
      using safe_loop_busy [OF assms(9), of 1 "WAL_NREADER - 1"] s that assms(6,8,10) False by (fastforce simp: word_le_nat_alt)
    have "P \<le> nPage (hdr w1)" if "mx = mxFrame (aHdr0 w1)" using that f assms(2,7,11,14) k(1) mx by (simp add: word_le_nat_alt)
    then show ?thesis unfolding sz using backfill_keeps_snapshot [OF v assms(4,11,3) mx assms(12,13), where ?w1.0 = w1] False by simp
  qed
  then show "?Q db \<and> (\<not> stop \<longrightarrow> nBackfill w1 < unat mx \<longrightarrow> (\<exists>rc w2 db2. backfill lk io dio sync xb (walPagesize w1) walfile mx it w1 db = Some (rc, w2, db2) \<and> ?Q db2))" by simp
qed simp

text \<open>C25. A checkpoint that is not disturbed moves the log into the database: it returns \<open>SQLITE_OK\<close>, all frames are backfilled, the database has the size of the
  last commit, and every page of it reads from the database alone as it read before from the log over the database. The pages that were
  backfilled before are taken to be in the database already.\<close>

theorem checkpoint_completes:
  assumes "index_ok w ps" "n = unat (mxFrame (hdr w))" "n \<le> length ps" "0 \<notin> set ps" "0xFFFFFFFF \<notin> set ps" "mxFrame (aHdr0 w) = mxFrame (hdr w)" "nBackfill w < n"
    and "db_good lk io dio" "sz = walPagesize w" "walFrameOffset (Suc n) sz \<le> length walfile"
    and "P \<noteq> 0" "P \<le> nPage (hdr w)" "snapshot_page walfile db sz ps (nBackfill w) P = db_page db sz P" "linear_find ps P n \<le> nBackfill w \<Longrightarrow> unat P * sz \<le> length db"
  shows "\<exists>w' db'. walCheckpoint env lk io dio eMode xBusy sync walfile w db = Some (SQLITE_OK, w', db') \<and> nBackfill w' = n \<and>
    length db' = unat (nPage (hdr w)) * sz \<and> db_page db' sz P = snapshot_page walfile db sz ps n P"
proof -
  obtain it where it: "walIteratorInit True True env w = Some (SQLITE_OK, it, w)" "visit_all it = Some (visits ps n)"
    using iterator_visits [OF assms(1,2) _ assms(3,4,5)] assms(7) by fastforce
  let ?xb = "if eMode \<noteq> SQLITE_CHECKPOINT_PASSIVE then xBusy else None"
  note free = walBusyLock_free [OF assms(8)]
  obtain w1 where s: "safe_loop lk 1 (WAL_NREADER - 1) ?xb w (mxFrame (hdr w)) SQLITE_OK = (False, SQLITE_OK, mxFrame (hdr w), ?xb, w1)"
    using safe_loop_free [of w lk] free by blast
  have "w1\<lparr>aReadMark := []\<rparr> = w\<lparr>aReadMark := []\<rparr>" using safe_loop_keeps [OF s] by blast
  then have f: "hdr w1 = hdr w" "aHdr0 w1 = aHdr0 w" "nBackfill w1 = nBackfill w" by (cases w; cases w1; simp)+
  then have sz: "walPagesize w1 = sz" using assms(9) by (simp add: walPagesize_def)
  obtain w2 db' where b: "backfill lk io dio sync ?xb sz walfile (mxFrame (hdr w)) it w1 db = Some (SQLITE_OK, w2, db')"
    using backfill_succeeds [OF assms(8) it(2)] by blast
  have "backfill lk io dio sync ?xb sz walfile (mxFrame (hdr w1)) it w1 db = Some (SQLITE_OK, w2, db')" using b f(1) by simp
  from backfill_complete [OF it(2) _ _ assms(3,4,10,11) _ _ _ _ this] have c: "w2 = w1\<lparr>nBackfill := n\<rparr>" "length db' = unat (nPage (hdr w)) * sz" "db_page db' sz P = snapshot_page walfile db sz ps n P"
    unfolding f using assms(2,6,7,12-14) by simp_all
  show ?thesis using it(1) s b c assms(2,7,8) f sz free
    by (auto simp: walCheckpoint_def Let_def db_good_def SQLITE_OK_def SQLITE_BUSY_def simp del: safe_loop.simps)
qed

text \<open>C24. Closing the log loses nothing, whatever fails. If the connection closes the log, and the pages that were backfilled before are in the database, then closing ends, and afterwards every page of the
  last commit is still there: in the database alone if the log was deleted or truncated, and otherwise in the unchanged log over the database, although a
  checkpoint may have failed half-way.\<close>

theorem close_loses_nothing:
  assumes "others_ok lk" "io_not_busy io dio"
    and "walIndexReadHdr env lk io walfile (w\<lparr>exclusiveMode := if exclusiveMode w = 0 then 1 else exclusiveMode w, ckptLock := True\<rparr>) = Some (SQLITE_OK, ch, w2)"
    and "index_ok w2 ps" "n = unat (mxFrame (hdr w2))" "n \<le> length ps" "0 \<notin> set ps" "0xFFFFFFFF \<notin> set ps" "mxFrame (aHdr0 w2) = mxFrame (hdr w2)" "nBackfill w2 \<le> n"
    and "sz = walPagesize w2" "walFrameOffset (Suc n) sz \<le> length walfile"
    and "P \<noteq> 0" "P \<le> nPage (hdr w2)" "snapshot_page walfile db sz ps (nBackfill w2) P = db_page db sz P" "linear_find ps P n \<le> nBackfill w2 \<Longrightarrow> unat P * sz \<le> length db"
  shows "\<exists>rc log db'. sqlite3WalClose env lk io dio rcLock bPersist delOk sync nBuf walfile w db = Some (rc, log, db') \<and>
    (if log = Some walfile then snapshot_page walfile db' sz ps n P else db_page db' sz P) = snapshot_page walfile db sz ps n P"
proof -
  let ?w = "if exclusiveMode w = WAL_NORMAL_MODE then w\<lparr>exclusiveMode := WAL_EXCLUSIVE_MODE\<rparr> else w"
  have w: "?w\<lparr>ckptLock := True\<rparr> = w\<lparr>exclusiveMode := if exclusiveMode w = 0 then 1 else exclusiveMode w, ckptLock := True\<rparr>" "exclusiveMode ?w \<noteq> 0"
    by (simp_all add: WAL_NORMAL_MODE_def WAL_EXCLUSIVE_MODE_def)
  have m: "exclusiveMode w2 \<noteq> 0" using walIndexReadHdr_mode [OF assms(1,3)] by (simp split: if_splits)
  obtain rc w3 db' where c: "walCheckpoint env lk io dio SQLITE_CHECKPOINT_PASSIVE None sync walfile w2 db = Some (rc, w3, db')"
      "snapshot_page walfile db' sz ps n P = snapshot_page walfile db sz ps n P" "rc = SQLITE_OK \<longrightarrow> db_page db' sz P = snapshot_page walfile db sz ps n P"
    using checkpoint_alone [OF assms(4-10) m assms(2,11-16)] by blast
  have "\<exists>rc out w' db'. sqlite3WalCheckpoint env lk io dio SQLITE_CHECKPOINT_PASSIVE None sync nBuf walfile ?w db = Some (rc, out, w', db') \<and>
      snapshot_page walfile db' sz ps n P = snapshot_page walfile db sz ps n P \<and> (rc = SQLITE_OK \<longrightarrow> db_page db' sz P = snapshot_page walfile db sz ps n P)"
    using c assms(3) w by (auto simp: sqlite3WalCheckpoint_def Let_def walLockExclusive_def SQLITE_READONLY_def SQLITE_CORRUPT_def SQLITE_OK_def)
  then obtain rc out w' db' where k: "sqlite3WalCheckpoint env lk io dio SQLITE_CHECKPOINT_PASSIVE None sync nBuf walfile ?w db = Some (rc, out, w', db')"
      "snapshot_page walfile db' sz ps n P = snapshot_page walfile db sz ps n P" "rc = SQLITE_OK \<longrightarrow> db_page db' sz P = snapshot_page walfile db sz ps n P" by blast
  show ?thesis
  proof (cases "rcLock = SQLITE_OK")
    case True
    then show ?thesis using k by (cases "rc = SQLITE_OK") (auto simp: sqlite3WalClose_def Let_def)
  next
    case False
    then show ?thesis by (simp add: sqlite3WalClose_def)
  qed
qed

definition example_db_io :: db_io where
  "example_db_io = \<lparr>db_size_rc = SQLITE_OK, db_write_rc = \<lambda>_. SQLITE_OK, db_trunc_rc = SQLITE_OK, db_sync_rc = SQLITE_OK, iter_alloc = True, iter_tmp = True\<rparr>"

definition example_busy :: lock_env where
  "example_busy = (example_locks 0)\<lparr>ex_lock := \<lambda>k n. if k = WAL_READ_LOCK 1 then SQLITE_BUSY else SQLITE_OK\<rparr>"

lemma example_full:
  "\<exists>w. index_ok w [7, 9, 7] \<and> mxFrame (hdr w) = 3 \<and> nPage (hdr w) = 9 \<and> aHdr0 w = hdr w \<and> aReadMark w = [0, 1, READMARK_NOT_USED, READMARK_NOT_USED, READMARK_NOT_USED] \<and>
    exclusiveMode w = 0 \<and> nBackfill w = 0 \<and> walPagesize w = 512 \<and> length (aSalt (hdr w)) = 8"
proof -
  obtain w where w: "index_ok w [7, 9, 7]" "remapped example_wal w" using example_three by blast
  let ?h = "(example_hdr 3)\<lparr>nPage := 9\<rparr>"
  let ?w = "w\<lparr>hdr := ?h, aHdr0 := ?h, aReadMark := [0, 1, READMARK_NOT_USED, READMARK_NOT_USED, READMARK_NOT_USED]\<rparr>"
  have "index_ok ?w [7, 9, 7]" using w(1) by (rule index_ok_data) simp
  moreover have "exclusiveMode w = 0" "nBackfill w = 0" using remapped_fields [OF w(2)] by (simp_all add: example_wal_def)
  moreover have "walPagesize ?w = 512" by (simp add: walPagesize_def example_hdr_def)
  ultimately show ?thesis by (intro exI [of _ ?w]) (simp add: example_hdr_def)
qed

theorem checkpoint_keeps_snapshots_witness:
  "\<exists>w rc w' db'. walCheckpoint example_env example_busy example_io example_db_io SQLITE_CHECKPOINT_PASSIVE None True (zeros 2000) w (zeros 4608) = Some (rc, w', db') \<and>
    snapshot_page (zeros 2000) db' 512 [7, 9, 7] 1 9 = db_page (zeros 4608) 512 9"
proof -
  obtain w where w: "index_ok w [7, 9, 7]" "mxFrame (hdr w) = 3" "nPage (hdr w) = 9" "aHdr0 w = hdr w" "aReadMark w = [0, 1, READMARK_NOT_USED, READMARK_NOT_USED, READMARK_NOT_USED]"
    "exclusiveMode w = 0" "walPagesize w = 512" using example_full by blast
  have f: "linear_find [7, 9, 7] 9 1 = 0" by simp
  have l: "lock_busy example_busy None (WAL_READ_LOCK 1) 1" by (simp add: lock_busy_def example_busy_def)
  have "\<exists>rc w' db'. walCheckpoint example_env example_busy example_io example_db_io SQLITE_CHECKPOINT_PASSIVE None True (zeros 2000) w (zeros 4608) = Some (rc, w', db') \<and>
    (if (1 :: nat) = 0 then db' = zeros 4608 else snapshot_page (zeros 2000) db' (walPagesize w) [7, 9, 7] 1 9 = snapshot_page (zeros 2000) (zeros 4608) (walPagesize w) [7, 9, 7] 1 9)"
    by (rule checkpoint_keeps_snapshots [OF w(1) refl _ _ _ w(6) _ _ l]) (simp_all add: w WAL_NREADER_def zeros_def)
  then show ?thesis using w(7) f by (auto simp: snapshot_page_def Let_def)
qed

theorem checkpoint_completes_witness:
  "\<exists>w w' db'. walCheckpoint example_env (example_locks 0) example_io example_db_io SQLITE_CHECKPOINT_RESTART None True (zeros 2000) w [] = Some (SQLITE_OK, w', db') \<and>
    nBackfill w' = 3 \<and> length db' = 4608 \<and> db_page db' 512 7 = frame_page (zeros 2000) 512 3"
proof -
  obtain w where w: "index_ok w [7, 9, 7]" "mxFrame (hdr w) = 3" "nPage (hdr w) = 9" "aHdr0 w = hdr w" "nBackfill w = 0" "walPagesize w = 512" using example_full by blast
  have f: "linear_find [7, 9, 7] 7 3 = 3" by code_simp
  have g: "db_good (example_locks 0) example_io example_db_io" by (simp add: db_good_def example_locks_def example_io_def example_db_io_def)
  have "\<exists>w' db'. walCheckpoint example_env (example_locks 0) example_io example_db_io SQLITE_CHECKPOINT_RESTART None True (zeros 2000) w [] = Some (SQLITE_OK, w', db') \<and> nBackfill w' = 3 \<and>
    length db' = unat (nPage (hdr w)) * 512 \<and> db_page db' 512 7 = snapshot_page (zeros 2000) [] 512 [7, 9, 7] 3 7"
    by (rule checkpoint_completes [OF w(1) _ _ _ _ _ _ g])
      (simp_all add: w f snapshot_page_def zeros_def walFrameOffset_def WAL_HDRSIZE_def WAL_FRAME_HDRSIZE_def)
  then show ?thesis using w f by (auto simp: snapshot_page_def Let_def)
qed

lemma published_read:
  assumes "length (aSalt (hdr w)) = 8" "wi_get w 0 = Some p" "others lk = (\<lambda>_ w. w)"
  shows "\<exists>h. mxFrame h = mxFrame (hdr w) \<and> nPage h = nPage (hdr w) \<and> hdr_szPage h = hdr_szPage (hdr w) \<and>
    (\<forall>v. apWiData v = apWiData w \<and> hdr v = h \<and> aHdr0 v = h \<and> aHdr1 v = h \<longrightarrow> walIndexReadHdr env lk io file v = Some (SQLITE_OK, False, v))"
proof -
  let ?h = "(hdr w)\<lparr>isInit := 1, iVersion := WALINDEX_MAX_VERSION\<rparr>"
  let ?ck = "ck_of True (hdr_bytes ?h) (0, 0)"
  have l: "length (hdr_bytes ?h) = 40" using assms(1) by (simp add: hdr_bytes_def le_bytes_def)
  have "8 dvd length (hdr_bytes ?h)" "hdr_bytes ?h \<noteq> []" unfolding l by (simp_all add: l flip: length_greater_0_conv)
  then have ck: "walChecksumBytes True (hdr_bytes ?h) None = Some ?ck" by (rule walChecksumBytes_None)
  let ?k = "?h\<lparr>aCksum := ?ck\<rparr>"
  have b: "hdr_bytes ?k = hdr_bytes ?h" by (simp add: hdr_bytes_def)
  have "walIndexReadHdr env lk io file v = Some (SQLITE_OK, False, v)" if "apWiData v = apWiData w" "hdr v = ?k" "aHdr0 v = ?k" "aHdr1 v = ?k" for v
  proof -
    have "wi_get v 0 = Some p" using assms(2) unfolding wi_get_def that(1) .
    then show ?thesis using that ck b assms(3) by (simp add: walIndexReadHdr_def walIndexPage_mapped try_shared_def walIndexTryHdr_def Let_def)
  qed
  then show ?thesis by (intro exI [of _ ?k]) simp
qed

theorem close_loses_nothing_witness:
  "\<exists>w rc log db'. sqlite3WalClose example_env (example_locks 0) example_io example_db_io SQLITE_OK 0 True True 512 (zeros 2000) w [] = Some (rc, log, db') \<and>
    (if log = Some (zeros 2000) then snapshot_page (zeros 2000) db' 512 [7, 9, 7] 3 7 else db_page db' 512 7) = frame_page (zeros 2000) 512 3"
proof -
  obtain w where w: "index_ok w [7, 9, 7]" "mxFrame (hdr w) = 3" "nPage (hdr w) = 9" "exclusiveMode w = 0" "nBackfill w = 0" "walPagesize w = 512" "length (aSalt (hdr w)) = 8" using example_full by blast
  obtain p where p: "wi_get w 0 = Some p" using index_ok_seg [OF w(1), of 0] by (auto simp: seg_zero_def)
  have o: "others (example_locks 0) = (\<lambda>_ w. w)" by (simp add: example_locks_def)
  obtain h where h: "mxFrame h = 3" "nPage h = 9" "hdr_szPage h = hdr_szPage (hdr w)"
      "\<forall>v. apWiData v = apWiData w \<and> hdr v = h \<and> aHdr0 v = h \<and> aHdr1 v = h \<longrightarrow> walIndexReadHdr example_env (example_locks 0) example_io (zeros 2000) v = Some (SQLITE_OK, False, v)"
    using published_read [OF w(7) p o] w(2,3) by metis
  let ?w = "w\<lparr>hdr := h, aHdr0 := h, aHdr1 := h\<rparr>" and ?v = "w\<lparr>hdr := h, aHdr0 := h, aHdr1 := h, exclusiveMode := 1, ckptLock := True\<rparr>"
  have v: "index_ok ?v [7, 9, 7]" using w(1) by (rule index_ok_data) simp
  have r: "walIndexReadHdr example_env (example_locks 0) example_io (zeros 2000) (?w\<lparr>exclusiveMode := if exclusiveMode ?w = 0 then 1 else exclusiveMode ?w, ckptLock := True\<rparr>) = Some (SQLITE_OK, False, ?v)"
    using h(4) w(4) by simp
  have f: "linear_find [7, 9, 7] 7 3 = 3" by code_simp
  have sz: "walPagesize v = 512" if "hdr v = h" for v :: Wal using that w(6) h(3) by (simp add: walPagesize_def)
  have b: "io_not_busy example_io example_db_io" by (simp add: io_not_busy_def example_io_def example_db_io_def SQLITE_OK_def SQLITE_BUSY_def)
  have "\<exists>rc log db'. sqlite3WalClose example_env (example_locks 0) example_io example_db_io SQLITE_OK 0 True True 512 (zeros 2000) ?w [] = Some (rc, log, db') \<and>
    (if log = Some (zeros 2000) then snapshot_page (zeros 2000) db' 512 [7, 9, 7] 3 7 else db_page db' 512 7) = snapshot_page (zeros 2000) [] 512 [7, 9, 7] 3 7"
    by (rule close_loses_nothing [OF _ b r v])
      (use example_others in \<open>simp_all add: w h sz f snapshot_page_def zeros_def walFrameOffset_def WAL_HDRSIZE_def WAL_FRAME_HDRSIZE_def\<close>)
  moreover have "snapshot_page (zeros 2000) [] 512 [7, 9, 7] 3 7 = frame_page (zeros 2000) 512 3" using f by (simp add: snapshot_page_def)
  ultimately show ?thesis by metis
qed

end
