(* ===== verification/Push.thy ===== *)
theory Push
  imports Main "HOL-Library.Char_ord"
begin

text \<open>
  Sending a push notification (\<^verbatim>\<open>Push\<close> of \<^verbatim>\<open>Pinger/push.go\<close>). The calls that leave the program are parameters:
  what the Apple service answers to each attempt, what building the message for Amazon's service
  gives, and what Amazon answers.
\<close>

datatype push_error = APNSInvalidToken | APNSMessageTooLarge | EndpointNotRegistered | OtherPushError string

text \<open>\<^verbatim>\<open>strings.EqualFold\<close> on ASCII text.\<close>

definition fold_char :: "char \<Rightarrow> char" where
  "fold_char c = (if CHR ''A'' \<le> c \<and> c \<le> CHR ''Z'' then char_of (of_char c + 32 :: nat) else c)"

definition EqualFold :: "string \<Rightarrow> string \<Rightarrow> bool" where
  "EqualFold a b \<longleftrightarrow> map fold_char a = map fold_char b"

record push_config =
  APNSCertFile :: string
  APNSKeyFile :: string

definition via_aws :: "push_config \<Rightarrow> string \<Rightarrow> bool" where
  "via_aws cfg service \<longleftrightarrow> \<not> EqualFold service ''APNS'' \<or> APNSCertFile cfg = '''' \<or> APNSKeyFile cfg = ''''"

text \<open>The loop over the attempts: \<open>n\<close> are left, \<open>i\<close> were made, \<open>err\<close> is the variable of the function. The
  message and the answer of Amazon are assigned to a variable of the inner block, which hides \<open>err\<close>,
  so \<open>err\<close> keeps its value there. The result is the returned error, the number of attempts and the
  number of pauses.\<close>

primrec push_loop :: "bool \<Rightarrow> string \<Rightarrow> (nat \<Rightarrow> push_error option) \<Rightarrow> (nat \<Rightarrow> push_error option) \<Rightarrow> nat \<Rightarrow> nat \<Rightarrow> push_error option \<Rightarrow> nat \<Rightarrow>
    push_error option \<times> nat \<times> nat" where
  "push_loop aws endpointArn sendAws apns 0 i err sleeps = (err, i, sleeps)"
| "push_loop aws endpointArn sendAws apns (Suc n) i err sleeps =
    (if aws \<and> endpointArn = '''' then (Some EndpointNotRegistered, i, sleeps)
     else let err' = (if aws then (let inner_err = sendAws i in err) else apns i)
          in case err' of
              None \<Rightarrow> (None, i + 1, sleeps)
            | Some APNSInvalidToken \<Rightarrow> (err', i + 1, sleeps)
            | Some APNSMessageTooLarge \<Rightarrow> push_loop aws endpointArn sendAws apns n (i + 1) err' sleeps
            | Some e \<Rightarrow> push_loop aws endpointArn sendAws apns n (i + 1) err' (sleeps + 1))"

text \<open>\<open>sendAws i\<close> is the outcome of building the message for Amazon and sending it in attempt \<open>i\<close>.\<close>

definition Push :: "push_config \<Rightarrow> string \<Rightarrow> string \<Rightarrow> (nat \<Rightarrow> push_error option) \<Rightarrow> (nat \<Rightarrow> push_error option) \<Rightarrow>
    push_error option \<times> nat \<times> nat" where
  "Push cfg service endpointArn sendAws apns = push_loop (via_aws cfg service) endpointArn sendAws apns 10 0 None 0"

section \<open>Properties\<close>




text \<open>Through Amazon's service the answer is lost: the function reports success after one attempt
  whatever Amazon answered.\<close>

lemma Push_aws_ignores_errors:
  "via_aws cfg service \<Longrightarrow> arn \<noteq> '''' \<Longrightarrow> Push cfg service arn sendAws apns = (None, 1, 0)"
  by (simp add: Push_def eval_nat_numeral)

end
