(* ===== verification/Exchange.thy ===== *)
theory Exchange
  imports Sqlite_Prelude
begin

text \<open>
  The Exchange client (\<^verbatim>\<open>Pinger/exchange.go\<close>): one long-poll request, the classification of its outcome, and
  the loop of \<^verbatim>\<open>LongPoll\<close> with its exponential backoff. What the network and the parent do is the sequence of
  events the loop consumes.
\<close>

section \<open>Data\<close>

definition MAX_SYNC_RESPONSE_DATA_SIZE :: nat where
  "MAX_SYNC_RESPONSE_DATA_SIZE = 10240"

text \<open>The fields of \<^verbatim>\<open>MailPingInformation\<close> that are used; a \<^verbatim>\<open>nil\<close> slice is \<open>None\<close>.\<close>

record ping_info =
  ExpectedReply :: "u8 list option"
  NoChangeReply :: "u8 list option"
  ASIsSyncRequest :: bool

text \<open>The errors of a request, by the text the code looks for, and the one for a request that could not be made.\<close>

datatype post_error = NoSuchHost | UnknownAuthority | OtherError
datatype resp_error = NoSuchHostError | UnknownCertificateAuthority | FailedToCreateRequest
datatype read_error = ReadOK | ReadEOF | ReadFailed

text \<open>What \<^verbatim>\<open>http.NewRequest\<close> and \<^verbatim>\<open>httpClient.Do\<close> give, and the first \<^verbatim>\<open>Read\<close> of the body: the bytes
  at hand and the error that came with them.\<close>

datatype http_outcome = NotCreated | PostFailed post_error | Replied nat "u8 list" read_error

datatype request_result = RespError resp_error | RetryResponse | Response nat "u8 list"

datatype poll_report = LongPollReRegister | LongPollNewMail

section \<open>One request\<close>

definition opt_length :: "'a list option \<Rightarrow> nat" where
  "opt_length x = (case x of None \<Rightarrow> 0 | Some b \<Rightarrow> length b)"

definition maxResponseSize :: "ping_info \<Rightarrow> nat" where
  "maxResponseSize pi =
    (let size = opt_length (ExpectedReply pi);
         size1 = (if opt_length (NoChangeReply pi) > size then opt_length (NoChangeReply pi) else size)
     in if size1 = 0 then MAX_SYNC_RESPONSE_DATA_SIZE else size1)"

text \<open>The bytes read go to the front of a buffer of \<open>toRead\<close> zeros, and the whole buffer becomes the body that
  the loop looks at.\<close>

definition doRequestResponse :: "ping_info \<Rightarrow> http_outcome \<Rightarrow> request_result" where
  "doRequestResponse pi out = (case out of
     NotCreated \<Rightarrow> RespError FailedToCreateRequest
   | PostFailed NoSuchHost \<Rightarrow> RespError NoSuchHostError
   | PostFailed UnknownAuthority \<Rightarrow> RespError UnknownCertificateAuthority
   | PostFailed OtherError \<Rightarrow> RetryResponse
   | Replied status body err \<Rightarrow>
       (let toRead = (if status \<noteq> 200 then 1024 else maxResponseSize pi);
            got = take toRead body;
            responseBytes = got @ replicate (toRead - length got) 0
        in if err = ReadFailed then RetryResponse
           else if err = ReadEOF \<and> got = []
           then (if ASIsSyncRequest pi then Response status [] else RetryResponse)
           else Response status responseBytes))"

definition exponentialBackoff :: "int \<Rightarrow> int" where
  "exponentialBackoff sleepTime = (let s = (if sleepTime \<le> 0 then 1 else sleepTime) in min (s * 2) 600)"

section \<open>The loop\<close>

text \<open>The reaction to a response: a report, or another round after a pause. \<open>fast\<close> tells whether the
  response took at most a quarter of the response timeout.\<close>

definition poll_response :: "ping_info \<Rightarrow> bool \<Rightarrow> int \<Rightarrow> nat \<Rightarrow> u8 list \<Rightarrow> poll_report + int" where
  "poll_response pi fast sleepTime status responseBody =
    (if status \<noteq> 200 then
       if status = 401 then Inl LongPollReRegister else Inr (exponentialBackoff sleepTime)
     else if \<not> ASIsSyncRequest pi \<and> NoChangeReply pi = Some responseBody then
       Inr (if fast then exponentialBackoff sleepTime else 0)
     else if \<not> ASIsSyncRequest pi \<and> (ExpectedReply pi = None \<or> ExpectedReply pi = Some responseBody) then
       Inl LongPollNewMail
     else if ASIsSyncRequest pi \<and> length responseBody = 0 then
       Inr (if fast then exponentialBackoff sleepTime else 0)
     else if ASIsSyncRequest pi \<and> length responseBody > 0 then Inl LongPollNewMail
     else Inr (exponentialBackoff sleepTime))"

datatype poll_event = Outcome bool http_outcome | StopPoll | StopAll

datatype poll_end = Reported poll_report | ReportedError resp_error | ToldToStop

text \<open>One round: the end of the poll, or the pause before the next round.\<close>

definition poll_round :: "ping_info \<Rightarrow> int \<Rightarrow> poll_event \<Rightarrow> poll_end + int" where
  "poll_round pi sleepTime ev = (case ev of
     StopPoll \<Rightarrow> Inl ToldToStop
   | StopAll \<Rightarrow> Inl ToldToStop
   | Outcome fast out \<Rightarrow>
       (case doRequestResponse pi out of
          RespError e \<Rightarrow> Inl (if e = NoSuchHostError \<or> e = UnknownCertificateAuthority then Reported LongPollReRegister else ReportedError e)
        | RetryResponse \<Rightarrow> Inr (exponentialBackoff sleepTime)
        | Response status body \<Rightarrow>
            (case poll_response pi fast sleepTime status body of
               Inl r \<Rightarrow> Inl (Reported r)
             | Inr s \<Rightarrow> Inr s)))"


section \<open>Properties\<close>










section \<open>Where the poll misses an answer\<close>

text \<open>When the expected reply is shorter than the other one, it is never recognised: the body that is compared
  is padded with zeros to the longer length.\<close>

lemma short_expected_reply_missed:
  assumes "ExpectedReply pi = Some e" and "NoChangeReply pi = Some c" and "length e < length c" and "\<not> ASIsSyncRequest pi"
  shows "poll_round pi s (Outcome fast (Replied 200 e err)) \<noteq> Inl (Reported LongPollNewMail)"
proof -
  have "maxResponseSize pi = length c" using assms by (auto simp: maxResponseSize_def opt_length_def)
  then show ?thesis
    using assms by (auto simp: poll_round_def doRequestResponse_def poll_response_def Let_def dest: arg_cong [of _ _ length])
qed

text \<open>A ping request refused with status 401 and an empty body is tried again, and the device is not asked to
  register.\<close>

lemma empty_refusal_retried:
  "\<not> ASIsSyncRequest pi \<Longrightarrow> poll_round pi s (Outcome fast (Replied 401 [] ReadEOF)) = Inr (exponentialBackoff s)"
  by (simp add: poll_round_def doRequestResponse_def Let_def)

end
