(* ===== verification/Imap.thy ===== *)
theory Imap
  imports Sqlite_Prelude
begin

text \<open>
  The IMAP client (\<^verbatim>\<open>Pinger/imap.go\<close>): tags, the reading of server lines, the exchange of one command, what its
  answers do to the session, and the outcome of a poll. The server is the list of what the scanner gives,
  line by line; an empty list is the end of the stream. A run-time panic is \<open>None\<close>.
\<close>

section \<open>Data\<close>

text \<open>One read from the server: a line, or an error that is a timeout or not (after the retries for temporary errors).\<close>

datatype server_item = Line string | ReadFails bool

datatype imap_error = EofReceived | ReadError bool | RequestCancelled | BadResponse string | NoResponse | WriteError

text \<open>\<open>tlsConn\<close> is the connection, with whether writing to it works; \<open>written\<close> are the lines written so far.\<close>

record imap =
  IMAPEXISTSCount :: u32
  IMAPUIDNEXT :: u32
  IMAPSupportsIdle :: bool
  hasNewEmail :: bool
  isIdling :: bool
  cancelled :: bool
  tlsConn :: "bool option"
  tag_id :: string
  tag_seq :: nat
  written :: "string list"

section \<open>Library functions\<close>

text \<open>\<^verbatim>\<open>strings.Split\<close> at one character.\<close>

fun Split :: "char \<Rightarrow> string \<Rightarrow> string list" where
  "Split sep [] = [[]]"
| "Split sep (c # s) = (if c = sep then [] # Split sep s else (c # hd (Split sep s)) # tl (Split sep s))"

definition is_dec :: "char \<Rightarrow> bool" where
  "is_dec c \<longleftrightarrow> (48 :: nat) \<le> of_char c \<and> (of_char c :: nat) \<le> 57"

definition dec_value :: "string \<Rightarrow> nat" where
  "dec_value s = foldl (\<lambda>n c. 10 * n + (of_char c - 48)) 0 s"

text \<open>\<^verbatim>\<open>strconv.Atoi\<close>, with the 64-bit \<^verbatim>\<open>int\<close>.\<close>

definition Atoi :: "string \<Rightarrow> int option" where
  "Atoi s =
    (let neg = (s \<noteq> [] \<and> hd s = CHR ''-'');
         ds = (if s \<noteq> [] \<and> (hd s = CHR ''-'' \<or> hd s = CHR ''+'') then tl s else s);
         v = (if neg then - int (dec_value ds) else int (dec_value ds))
     in if ds = [] \<or> \<not> list_all is_dec ds then None
        else if v < - (2 ^ 63) \<or> v \<ge> 2 ^ 63 then None else Some v)"

text \<open>Indexing a slice panics out of range.\<close>

definition index :: "'a list \<Rightarrow> nat \<Rightarrow> 'a option" where
  "index xs i = (if i < length xs then Some (xs ! i) else None)"

fun digits :: "nat \<Rightarrow> string" where
  "digits n = (if n < 10 then [char_of (48 + n)] else digits (n div 10) @ [char_of (48 + n mod 10)])"

declare digits.simps [simp del]

section \<open>Tags and the forms of a response\<close>

definition tag_Next :: "imap \<Rightarrow> string \<times> imap" where
  "tag_Next im = (let seq = (tag_seq im + 1) mod 2 ^ 64 in (tag_id im @ digits seq, im\<lparr>tag_seq := seq\<rparr>))"

definition isContinueResponse :: "string \<Rightarrow> bool" where
  "isContinueResponse response \<longleftrightarrow> response \<noteq> [] \<and> hd response = CHR ''+''"

definition isOKResponse :: "string \<Rightarrow> bool" where
  "isOKResponse response \<longleftrightarrow> (let tokens = Split CHR '' '' response in length tokens \<ge> 2 \<and> tokens ! 1 = ''OK'')"

definition getNameFromCommand :: "string \<Rightarrow> string" where
  "getNameFromCommand command = (let tokens = Split CHR '' '' command in if length tokens > 1 then tokens ! 1 else [])"

definition isFinalResponse :: "string \<Rightarrow> string \<Rightarrow> bool" where
  "isFinalResponse command response \<longleftrightarrow>
    (let tokens = Split CHR '' '' command; token = tokens ! 0
     in (length response \<ge> 2 \<and> take 2 response = ''+ '' \<and> getNameFromCommand command \<noteq> ''IDLE'') \<or>
        (length tokens > 0 \<and> length response \<ge> length token \<and> token = take (length token) response))"

section \<open>Reading a response\<close>

text \<open>The value as \<^verbatim>\<open>uint32\<close> and the token; \<open>None\<close> when an index is out of range.\<close>

definition parse_value :: "string \<Rightarrow> string \<Rightarrow> u32 \<times> string" where
  "parse_value valueToken token = (case Atoi valueToken of None \<Rightarrow> (0, []) | Some v \<Rightarrow> (word_of_int v, token))"

definition parseEXAMINEResponse :: "string \<Rightarrow> (u32 \<times> string) option" where
  "parseEXAMINEResponse response =
    (let tokens = Split CHR '' '' response
     in if tokens ! 0 \<noteq> ''*'' then Some (0, [])
        else case index tokens 2 of
            None \<Rightarrow> None
          | Some t2 \<Rightarrow>
              if t2 = ''EXISTS'' then Some (if tokens ! 1 \<noteq> [] then parse_value (tokens ! 1) t2 else (0, []))
              else if t2 = ''[UIDNEXT'' then
                (case index tokens 3 of
                   None \<Rightarrow> None
                 | Some t3 \<Rightarrow>
                     if t3 = [] then None
                     else Some (if butlast t3 \<noteq> [] then parse_value (butlast t3) t2 else (0, [])))
              else Some (0, []))"

definition parseIDLEResponse :: "string \<Rightarrow> (u32 \<times> string) option" where
  "parseIDLEResponse response =
    (let tokens = Split CHR '' '' response
     in if tokens ! 0 \<noteq> ''*'' then Some (0, [])
        else case index tokens 2 of
            None \<Rightarrow> None
          | Some t2 \<Rightarrow> Some (if t2 = ''EXISTS'' \<or> t2 = ''EXPUNGE'' then parse_value (tokens ! 1) t2 else (0, [])))"

text \<open>The regular expression \<^verbatim>\<open>.*(MESSAGES ([0-9]+) UIDNEXT ([0-9]+))\<close>: the last place where the group matches, since
  the star is greedy; the two numbers are as long as possible.\<close>

definition status_at :: "string \<Rightarrow> (string \<times> string) option" where
  "status_at s =
    (if take 9 s \<noteq> ''MESSAGES '' then None
     else let n1 = takeWhile is_dec (drop 9 s); r = drop (9 + length n1) s; n2 = takeWhile is_dec (drop 9 r)
          in if n1 \<noteq> [] \<and> take 9 r = '' UIDNEXT '' \<and> n2 \<noteq> [] then Some (n1, n2) else None)"

fun status_match :: "string \<Rightarrow> (string \<times> string) option" where
  "status_match [] = None"
| "status_match (c # s) = (case status_match s of Some r \<Rightarrow> Some r | None \<Rightarrow> status_at (c # s))"

definition parseSTATUSResponse :: "string \<Rightarrow> u32 \<times> u32" where
  "parseSTATUSResponse response = (case status_match response of
     None \<Rightarrow> (0, 0)
   | Some (m, u) \<Rightarrow> (word_of_int (case Atoi m of None \<Rightarrow> 0 | Some v \<Rightarrow> v), word_of_int (case Atoi u of None \<Rightarrow> 0 | Some v \<Rightarrow> v)))"

section \<open>What a response does\<close>

text \<open>Writing a command; \<open>IDLE\<close> marks the session as idling first. Writing with no connection panics.\<close>

definition sendIMAPCommand :: "string \<Rightarrow> imap \<Rightarrow> (imap \<times> bool) option" where
  "sendIMAPCommand command im =
    (let im1 = (if getNameFromCommand command = ''IDLE'' then im\<lparr>isIdling := True\<rparr> else im)
     in if command = [] then Some (im1, True)
        else case tlsConn im1 of
            None \<Rightarrow> None
          | Some True \<Rightarrow> Some (im1\<lparr>written := written im1 @ [command]\<rparr>, True)
          | Some False \<Rightarrow> Some (im1, False))"

definition processResponse :: "string \<Rightarrow> string \<Rightarrow> imap \<Rightarrow> imap option" where
  "processResponse command response im =
    (let commandName = getNameFromCommand command
     in if commandName = ''IDLE'' then
          (case parseIDLEResponse response of
             None \<Rightarrow> None
           | Some (count, token) \<Rightarrow>
               if token = ''EXPUNGE'' then Some (im\<lparr>IMAPEXISTSCount := IMAPEXISTSCount im - 1\<rparr>)
               else if token = ''EXISTS'' \<and> count \<noteq> IMAPEXISTSCount im then
                 map_option fst (sendIMAPCommand ''DONE'' (im\<lparr>hasNewEmail := True, IMAPEXISTSCount := count\<rparr>))
               else Some im)
        else if commandName = ''EXAMINE'' then
          (case parseEXAMINEResponse response of
             None \<Rightarrow> None
           | Some (count, token) \<Rightarrow>
               Some (if token = ''EXISTS'' then im\<lparr>IMAPEXISTSCount := count\<rparr>
                     else if token = ''[UIDNEXT'' then im\<lparr>IMAPUIDNEXT := count\<rparr> else im))
        else if commandName = ''STATUS'' then
          (let UIDNext = snd (parseSTATUSResponse response)
           in Some (if UIDNext = 0 then im
                    else if IMAPUIDNEXT im = 0 then im\<lparr>IMAPUIDNEXT := UIDNext\<rparr>
                    else if UIDNext \<noteq> IMAPUIDNEXT im then im\<lparr>hasNewEmail := True, IMAPUIDNEXT := UIDNext\<rparr>
                    else im))
        else Some im)"

section \<open>One command\<close>

text \<open>\<^verbatim>\<open>getServerResponses\<close>: lines up to the final one. The rest of the stream is returned for the next command.\<close>

fun getServerResponses :: "string \<Rightarrow> server_item list \<Rightarrow> string list \<Rightarrow> imap \<Rightarrow>
    (imap \<times> server_item list \<times> (imap_error + string list)) option" where
  "getServerResponses command [] responses im = Some (im, [], Inl EofReceived)"
| "getServerResponses command (ReadFails t # items) responses im = Some (im, items, Inl (ReadError t))"
| "getServerResponses command (Line response # items) responses im =
    (case processResponse command response im of
       None \<Rightarrow> None
     | Some im1 \<Rightarrow>
         if isFinalResponse command response
         then Some (if getNameFromCommand command = ''IDLE'' then im1\<lparr>isIdling := False\<rparr> else im1, items, Inr (responses @ [response]))
         else getServerResponses command items (responses @ [response]) im1)"

text \<open>\<^verbatim>\<open>doIMAPCommand\<close>: the lines of the command one after the other, each with its answers.\<close>

fun command_lines :: "string \<Rightarrow> string list \<Rightarrow> server_item list \<Rightarrow> string list \<Rightarrow> imap \<Rightarrow>
    (imap \<times> server_item list \<times> (imap_error + string list)) option" where
  "command_lines command [] items acc im = Some (im, items, Inr acc)"
| "command_lines command (l # ls) items acc im =
    (case sendIMAPCommand l im of
       None \<Rightarrow> None
     | Some (im1, False) \<Rightarrow> Some (im1, items, Inl WriteError)
     | Some (im1, True) \<Rightarrow>
         if cancelled im1 then Some (im1, items, Inl RequestCancelled)
         else case getServerResponses command items [] im1 of
            None \<Rightarrow> None
          | Some (im2, items', Inl e) \<Rightarrow> Some (im2, items', Inl e)
          | Some (im2, items', Inr responses) \<Rightarrow>
              if responses = [] then Some (im2, items', Inl NoResponse)
              else if \<not> isOKResponse (last responses) \<and> \<not> isContinueResponse (last responses)
              then Some (im2, items', Inl (BadResponse (last responses)))
              else command_lines command ls items' (acc @ responses) im2)"

definition doIMAPCommand :: "string \<Rightarrow> server_item list \<Rightarrow> imap \<Rightarrow> (imap \<times> server_item list \<times> (imap_error + string list)) option" where
  "doIMAPCommand command items im = command_lines command (Split CHR 0x0A command) items [] im"

section \<open>Authentication and the poll\<close>

text \<open>\<^verbatim>\<open>doImapAuth\<close> with the decoded blob (\<open>None\<close> when it does not decode): the error or whether it succeeded.\<close>

definition doImapAuth :: "string option \<Rightarrow> server_item list \<Rightarrow> imap \<Rightarrow> (imap \<times> server_item list \<times> (imap_error option + bool)) option" where
  "doImapAuth blob items im = (case blob of
     None \<Rightarrow> Some (im, items, Inl None)
   | Some b \<Rightarrow>
       (case tag_Next im of (t, im1) \<Rightarrow>
        (case doIMAPCommand (t @ '' '' @ b) items im1 of
           None \<Rightarrow> None
         | Some (im2, items2, Inl e) \<Rightarrow> Some (im2, items2, Inl (Some e))
         | Some (im2, items2, Inr responses) \<Rightarrow>
             if responses \<noteq> [] \<and> isContinueResponse (last responses) then
               (case doIMAPCommand '' '' items2 im2 of
                  None \<Rightarrow> None
                | Some (im3, items3, r) \<Rightarrow>
                    (if isOKResponse (last responses) then Some (im3, items3, Inr True)
                     else case r of Inl e \<Rightarrow> Some (im3, items3, Inl (Some e)) | Inr _ \<Rightarrow> Some (im3, items3, Inr False)))
             else if responses \<noteq> [] \<and> \<not> isOKResponse (last responses) then Some (im2, items2, Inr False)
             else Some (im2, items2, Inr True))))"

datatype poll_outcome = ReRegister | NewMail | EndsSilently | PollsOn | Panics

text \<open>The reaction of the loop to the end of a request: \<open>None\<close> is the stop of the poll or of everything.\<close>

definition poll_reaction :: "(imap_error + string list) option \<Rightarrow> imap \<Rightarrow> imap \<times> poll_outcome" where
  "poll_reaction r im = (case r of
     None \<Rightarrow> (im, EndsSilently)
   | Some (Inl (ReadError True)) \<Rightarrow> (im\<lparr>isIdling := False\<rparr>, EndsSilently)
   | Some (Inl _) \<Rightarrow> (im\<lparr>isIdling := False\<rparr>, ReRegister)
   | Some (Inr _) \<Rightarrow> if hasNewEmail im then (im\<lparr>hasNewEmail := False\<rparr>, NewMail) else (im, PollsOn))"

text \<open>\<^verbatim>\<open>cancel\<close>, run when a poll ends.\<close>

definition cancel :: "imap \<Rightarrow> imap" where
  "cancel im =
    (let im1 = im\<lparr>cancelled := True\<rparr>
     in case tlsConn im1 of
          None \<Rightarrow> im1
        | Some ok \<Rightarrow> (if isIdling im1 \<and> ok then im1\<lparr>written := written im1 @ [''DONE'']\<rparr> else im1)\<lparr>tlsConn := None\<rparr>)"

text \<open>The first round of \<^verbatim>\<open>LongPoll\<close>: connection (\<open>conn\<close>: whether it and the greeting succeed), authentication, the command
  that opens the folder, and the request whose answers are read until they are complete.\<close>

definition poll_first_round :: "bool \<Rightarrow> string option \<Rightarrow> string \<Rightarrow> server_item list \<Rightarrow> imap \<Rightarrow> imap \<times> poll_outcome" where
  "poll_first_round conn blob folder items im0 =
    (if isIdling im0 then (im0, EndsSilently)
     else if \<not> conn then (im0\<lparr>IMAPUIDNEXT := 0\<rparr>, ReRegister)
     else case doImapAuth blob items (im0\<lparr>IMAPUIDNEXT := 0, tlsConn := Some True\<rparr>) of
        None \<Rightarrow> (im0, Panics)
      | Some (im1, _, Inl _) \<Rightarrow> (im1, ReRegister)
      | Some (im1, _, Inr False) \<Rightarrow> (im1, ReRegister)
      | Some (im1, items1, Inr True) \<Rightarrow>
          (case (if IMAPSupportsIdle im1
                 then (case tag_Next im1 of (t, im2) \<Rightarrow> doIMAPCommand (t @ '' EXAMINE '' @ folder) items1 im2)
                 else Some (im1, items1, Inr [])) of
             None \<Rightarrow> (im1, Panics)
           | Some (im3, _, Inl _) \<Rightarrow> (im3, ReRegister)
           | Some (im3, items3, Inr _) \<Rightarrow>
               (case tag_Next im3 of (t, im4) \<Rightarrow>
                 (case doIMAPCommand (t @ (if IMAPSupportsIdle im4 then '' IDLE'' else '' STATUS '' @ folder @ '' (MESSAGES UIDNEXT)'')) items3 im4 of
                    None \<Rightarrow> (im4, Panics)
                  | Some (im5, _, r) \<Rightarrow> poll_reaction (Some r) im5))))"

section \<open>Numbers and lines\<close>




lemma digits_nonempty [simp]: "digits n \<noteq> []"
  by (subst digits.simps) simp







section \<open>An IDLE exchange\<close>

text \<open>What happens to a mailbox while it is watched, the line the server sends for it, and what it means: the number
  of messages last announced, and whether a different number was announced.\<close>

datatype mailbox_event = Exists nat | Expunge nat



fun watch :: "mailbox_event list \<Rightarrow> u32 \<Rightarrow> bool \<Rightarrow> u32 \<times> bool" where
  "watch [] count new = (count, new)"
| "watch (Exists n # evs) count new = watch evs (of_nat n) (new \<or> of_nat n \<noteq> count)"
| "watch (Expunge n # evs) count new = watch evs (count - 1) new"








section \<open>Where the client goes wrong\<close>

text \<open>A poll that follows another one on the same client never watches the mailbox: the mark that cancelled the
  first request is still set, so it asks for a new registration, or ends at once when the client still counts as
  idling.\<close>

lemma cancelled_command:
  assumes "cancelled im" and "tlsConn im = Some True"
  shows "\<exists>im'. doIMAPCommand command items im = Some (im', items, Inl RequestCancelled)"
proof -
  have "Split CHR 0x0A command \<noteq> []" by (cases command) simp_all
  then obtain l ls where l: "Split CHR 0x0A command = l # ls" by (cases "Split CHR 0x0A command") simp_all
  have "\<exists>im'. sendIMAPCommand l im = Some (im', True) \<and> cancelled im'"
    using assms by (cases "l = []"; cases "getNameFromCommand l = ''IDLE''") (simp_all add: sendIMAPCommand_def Let_def)
  then obtain im' where "sendIMAPCommand l im = Some (im', True)" "cancelled im'" by blast
  then show ?thesis by (simp add: doIMAPCommand_def l)
qed

lemma second_poll_fails:
  assumes "cancelled im"
  shows "snd (poll_first_round conn blob folder items im) \<in> {ReRegister, EndsSilently}"
proof (cases "isIdling im \<or> \<not> conn \<or> blob = None")
  case False
  then obtain b where b: "blob = Some b" "\<not> isIdling im" conn by blast
  obtain t im1 where t: "tag_Next (im\<lparr>IMAPUIDNEXT := 0, tlsConn := Some True\<rparr>) = (t, im1)" by (cases "tag_Next (im\<lparr>IMAPUIDNEXT := 0, tlsConn := Some True\<rparr>)")
  then have "cancelled im1" "tlsConn im1 = Some True" using assms by (auto simp: tag_Next_def Let_def)
  then obtain im2 where "doIMAPCommand (t @ '' '' @ b) items im1 = Some (im2, items, Inl RequestCancelled)"
    using cancelled_command by blast
  then have "doImapAuth blob items (im\<lparr>IMAPUIDNEXT := 0, tlsConn := Some True\<rparr>) = Some (im2, items, Inl (Some RequestCancelled))"
    using t b(1) by (simp add: doImapAuth_def)
  then show ?thesis using b by (simp add: poll_first_round_def)
qed (auto simp: poll_first_round_def doImapAuth_def)

text \<open>Every poll that ends sets that mark.\<close>

lemma cancel_marks: "cancelled (cancel im)"
  by (simp add: cancel_def Let_def split: option.splits)

text \<open>A short untagged line makes the client panic.\<close>

lemma short_line_panics: "parseIDLEResponse ''* BYE'' = None" "parseEXAMINEResponse ''* FLAGS'' = None"
  by (simp_all add: parseIDLEResponse_def parseEXAMINEResponse_def index_def)

text \<open>The number of messages wraps around at zero.\<close>

lemma expunge_wraps: "watch [Expunge 1] 0 new = (- 1, new)"
  by simp

end
