(* ===== verification/MailClient.thy ===== *)
theory MailClient
  imports Push
begin

text \<open>
  The life of one mail session (\<^verbatim>\<open>Pinger/mailClient.go\<close>): the state machine of \<^verbatim>\<open>initFsm\<close> with its callbacks, the
  loop of \<^verbatim>\<open>start\<close>, the commands that other goroutines send to it, and the goroutines of the polls it
  starts. What the loop waits for (timers, results of polls, commands) are events; an event
  is handled as a whole, except that the timer of a deferred poll may expire in between where the
  code leaves room for that. The machine itself is \<^verbatim>\<open>looplab/fsm\<close>: \<^verbatim>\<open>Event\<close> looks the transition up, runs the
  callback of the state it leaves, changes the state and runs the callback of the new state.
\<close>

section \<open>Data\<close>

datatype MailClientStatus = MailClientStatusError | MailClientStatusInitialized | MailClientStatusPinging
  | MailClientStatusDeferred | MailClientStatusStopped | MailClientStatusReDeferred

datatype PingerCommand = PingerStop | PingerDefer | UnknownCommand int

datatype fsm_state = FSMInit | FSMDeferred | FSMPinging | FSMStopped

text \<open>The events of the machine with the arguments the code passes.\<close>

datatype fsm_event = EvDeferred MailClientStatus | EvPinging | EvStopped MailClientStatus "string option"

text \<open>A timer may be running, and its channel may hold a value. \<^verbatim>\<open>Stop\<close> does not empty the channel.\<close>

record timer =
  armed :: bool
  fired :: bool

datatype channel_state = Open | Closed

datatype loop_state = Running | Ended | Panicked

text \<open>Besides the fields of the code: \<open>rearmingCount\<close> is the variable of the loop; \<open>polling\<close> and \<open>sending\<close> count the
  goroutines of \<^verbatim>\<open>LongPoll\<close> that are at work, and that wait for the loop to take their result; \<open>started\<close>,
  \<open>defers\<close> and \<open>pushes\<close> count the polls started, the defer commands taken and the new-mail notifications
  tried so far.\<close>

record client =
  fstate :: fsm_state
  status :: MailClientStatus
  lastError :: "string option"
  Protocol :: string
  WaitBeforeUse :: nat
  di :: bool
  mailClient :: bool
  deferTimer :: timer
  maxPollTimer :: timer
  stopPollCh :: "channel_state option"
  stopAllCh :: channel_state
  command :: "PingerCommand list"
  rearmingCount :: nat
  loop :: loop_state
  polling :: nat
  sending :: nat
  started :: nat
  defers :: nat
  pushes :: nat

definition MailClientIMAP :: string where
  "MailClientIMAP = ''IMAP''"

text \<open>The rearm timeout of the configuration, in milliseconds, and whether pushes that fail are ignored.\<close>

record client_config =
  rearmTimeout :: nat
  IgnorePushFailures :: bool

section \<open>Timers, channels, status\<close>

definition NewTimer :: timer where
  "NewTimer = \<lparr>armed = True, fired = False\<rparr>"

definition timer_Stop :: "timer \<Rightarrow> timer" where
  "timer_Stop t = t\<lparr>armed := False\<rparr>"

definition timer_Reset :: "timer \<Rightarrow> timer" where
  "timer_Reset t = t\<lparr>armed := True\<rparr>"

text \<open>The runtime: a running timer expires; its channel has room for one value.\<close>

definition timer_expires :: "timer \<Rightarrow> timer" where
  "timer_expires t = (if armed t then \<lparr>armed = False, fired = True\<rparr> else t)"

definition timer_received :: "timer \<Rightarrow> timer" where
  "timer_received t = t\<lparr>fired := False\<rparr>"

definition setStatus :: "MailClientStatus \<Rightarrow> string option \<Rightarrow> client \<Rightarrow> client" where
  "setStatus s err c = c\<lparr>status := s, lastError := err\<rparr>"

definition Status :: "client \<Rightarrow> MailClientStatus \<times> string option" where
  "Status c = (if lastError c \<noteq> None then (MailClientStatusError, lastError c) else (status c, None))"

section \<open>The state machine\<close>

definition fsm_dst :: "fsm_event \<Rightarrow> fsm_state \<Rightarrow> fsm_state option" where
  "fsm_dst ev s = (case ev of
     EvDeferred _ \<Rightarrow> if s \<in> {FSMStopped, FSMInit} then Some FSMDeferred else None
   | EvPinging \<Rightarrow> if s \<in> {FSMDeferred, FSMStopped} then Some FSMPinging else None
   | EvStopped _ _ \<Rightarrow> if s \<in> {FSMPinging, FSMDeferred} then Some FSMStopped else None)"

text \<open>The callbacks. Closing a closed or missing channel panics (\<open>Inl\<close>).\<close>

definition leaveInit :: "client \<Rightarrow> client" where
  "leaveInit c = c\<lparr>maxPollTimer := NewTimer, deferTimer := NewTimer\<rparr>"

definition enterDeferred :: "MailClientStatus \<Rightarrow> client \<Rightarrow> client" where
  "enterDeferred s c = setStatus s None (c\<lparr>deferTimer := timer_Reset (timer_Stop (deferTimer c))\<rparr>)"

definition exitDeferred :: "client \<Rightarrow> client" where
  "exitDeferred c = c\<lparr>deferTimer := timer_Stop (deferTimer c)\<rparr>"

definition enterPinging :: "client \<Rightarrow> client" where
  "enterPinging c = (setStatus MailClientStatusPinging None (c\<lparr>stopPollCh := Some Open\<rparr>))
     \<lparr>polling := polling c + 1, started := started c + 1\<rparr>"

definition exitPinging :: "client \<Rightarrow> client + client" where
  "exitPinging c = (if stopPollCh c = Some Open then Inr (c\<lparr>stopPollCh := Some Closed\<rparr>) else Inl c)"

definition enterStopped :: "MailClientStatus \<Rightarrow> string option \<Rightarrow> client \<Rightarrow> client" where
  "enterStopped s err c = setStatus s err c"

definition leave_callback :: "client \<Rightarrow> client + client" where
  "leave_callback c = (case fstate c of
     FSMInit \<Rightarrow> Inr (leaveInit c)
   | FSMDeferred \<Rightarrow> Inr (exitDeferred c)
   | FSMPinging \<Rightarrow> exitPinging c
   | FSMStopped \<Rightarrow> Inr c)"

definition enter_callback :: "fsm_event \<Rightarrow> client \<Rightarrow> client" where
  "enter_callback ev c = (case ev of
     EvDeferred s \<Rightarrow> enterDeferred s c
   | EvPinging \<Rightarrow> enterPinging c
   | EvStopped s err \<Rightarrow> enterStopped s err c)"

text \<open>\<^verbatim>\<open>fsm.Event\<close> followed by the \<^verbatim>\<open>panic\<close> on its error: \<open>Inl\<close> when the code panics. \<open>between\<close> is what the timers do
  after the callback of the old state and before the one of the new state.\<close>

definition fsm_Event :: "(client \<Rightarrow> client) \<Rightarrow> fsm_event \<Rightarrow> client \<Rightarrow> client + client" where
  "fsm_Event between ev c = (case fsm_dst ev (fstate c) of
     None \<Rightarrow> Inl c
   | Some dst \<Rightarrow> (case leave_callback c of
        Inl c' \<Rightarrow> Inl c'
      | Inr c' \<Rightarrow> Inr (enter_callback ev ((between c')\<lparr>fstate := dst\<rparr>))))"

section \<open>The loop of start\<close>

text \<open>The deferred function of \<^verbatim>\<open>start\<close>, up to the wait for the goroutines, after a return or a panic.\<close>

definition finish :: "loop_state \<Rightarrow> client \<Rightarrow> client" where
  "finish l c = (setStatus MailClientStatusStopped None c)\<lparr>loop := l\<rparr>"

text \<open>How an arm of the \<^verbatim>\<open>select\<close> ends: the code panicked, returned, or goes round the loop again.\<close>

definition goes_on :: "client + client \<Rightarrow> client" where
  "goes_on r = (case r of Inl c \<Rightarrow> finish Panicked c | Inr c \<Rightarrow> c)"

definition returns :: "client + client \<Rightarrow> client" where
  "returns r = (case r of Inl c \<Rightarrow> finish Panicked c | Inr c \<Rightarrow> finish Ended c)"

definition bind_fsm :: "client + client \<Rightarrow> (client \<Rightarrow> client + client) \<Rightarrow> client + client" where
  "bind_fsm r f = (case r of Inl c \<Rightarrow> Inl c | Inr c \<Rightarrow> f c)"

definition late_expiry :: "bool \<Rightarrow> client \<Rightarrow> client" where
  "late_expiry late c = (if late then c\<lparr>deferTimer := timer_expires (deferTimer c)\<rparr> else c)"

text \<open>\<^verbatim>\<open>PushRegister\<close> or \<^verbatim>\<open>PushNewMail\<close> on a device that is gone is a nil dereference; a token Apple rejects deletes
  the device.\<close>

definition push_register :: "push_error option \<Rightarrow> client \<Rightarrow> client + client" where
  "push_register perr c =
    (if \<not> di c then Inl c else if perr = Some APNSInvalidToken then Inr (c\<lparr>di := False\<rparr>) else Inr c)"

definition on_maxPollTimer :: "push_error option \<Rightarrow> client \<Rightarrow> client" where
  "on_maxPollTimer perr c =
    returns (bind_fsm (push_register perr (c\<lparr>maxPollTimer := timer_received (maxPollTimer c)\<rparr>))
      (fsm_Event id (EvStopped MailClientStatusStopped None)))"

definition on_deferTimer :: "bool \<Rightarrow> client \<Rightarrow> client" where
  "on_deferTimer late c =
    goes_on (fsm_Event id EvPinging (late_expiry late (c\<lparr>deferTimer := timer_received (deferTimer c)\<rparr>)))"

text \<open>After new mail: the poll stops, and an IMAP poll is armed again at most three times.\<close>

definition stop_or_rearm :: "client_config \<Rightarrow> client \<Rightarrow> client" where
  "stop_or_rearm cfg c = (case fsm_Event id (EvStopped MailClientStatusStopped None) c of
     Inl c' \<Rightarrow> finish Panicked c'
   | Inr c' \<Rightarrow>
       if Protocol c' = MailClientIMAP \<and> rearmingCount c' < 3
       then goes_on (fsm_Event id (EvDeferred MailClientStatusReDeferred)
              (c'\<lparr>rearmingCount := rearmingCount c' + 1, WaitBeforeUse := rearmTimeout cfg\<rparr>))
       else finish Ended c')"

definition on_NewMail :: "client_config \<Rightarrow> bool \<Rightarrow> push_error option \<Rightarrow> client \<Rightarrow> client" where
  "on_NewMail cfg tooFast perr c =
    (if \<not> tooFast \<or> rearmingCount c = 0 then
       if \<not> di c then finish Panicked c
       else let c1 = c\<lparr>pushes := pushes c + 1\<rparr>
            in if perr \<noteq> None \<and> \<not> IgnorePushFailures cfg
               then finish Ended (if perr = Some APNSInvalidToken then c1\<lparr>di := False\<rparr> else c1)
               else stop_or_rearm cfg c1
     else stop_or_rearm cfg c)"

definition on_ReRegister :: "push_error option \<Rightarrow> client \<Rightarrow> client" where
  "on_ReRegister perr c =
    returns (bind_fsm (push_register perr c) (fsm_Event id (EvStopped MailClientStatusStopped None)))"

definition on_PollError :: "string \<Rightarrow> client \<Rightarrow> client" where
  "on_PollError msg c = returns (fsm_Event id (EvStopped MailClientStatusError (Some msg)) c)"

definition on_command :: "PingerCommand \<Rightarrow> client \<Rightarrow> client" where
  "on_command cmd c = (case cmd of
     PingerStop \<Rightarrow>
       if stopAllCh c = Closed then finish Panicked c
       else returns (fsm_Event id (EvStopped MailClientStatusStopped None) (c\<lparr>stopAllCh := Closed\<rparr>))
   | PingerDefer \<Rightarrow>
       goes_on (bind_fsm (fsm_Event id (EvStopped MailClientStatusStopped None) c)
         (\<lambda>c'. fsm_Event id (EvDeferred MailClientStatusDeferred) (c'\<lparr>rearmingCount := 0, defers := defers c' + 1\<rparr>)))
   | UnknownCommand _ \<Rightarrow> c)"

section \<open>The other goroutines\<close>

text \<open>\<^verbatim>\<open>Action\<close> puts a command into a channel with room for ten; a sender waits for room. \<^verbatim>\<open>stop\<close> and \<^verbatim>\<open>deferPoll\<close> update the
  last contact first, a nil dereference when the device is gone (\<open>None\<close>: the goroutine has no recovery and
  the process dies).\<close>

definition Action :: "PingerCommand \<Rightarrow> client \<Rightarrow> client" where
  "Action cmd c = c\<lparr>command := command c @ [cmd]\<rparr>"

definition stop :: "client \<Rightarrow> client option" where
  "stop c = (if \<not> mailClient c then Some c else if \<not> di c then None else Some (Action PingerStop c))"

definition deferPoll :: "nat \<Rightarrow> client \<Rightarrow> client option" where
  "deferPoll timeout c =
    (if \<not> mailClient c then Some c
     else if \<not> di c then None
     else Some (Action PingerDefer (if timeout > 0 then c\<lparr>WaitBeforeUse := timeout\<rparr> else c)))"

text \<open>The rest of the deferred function, once the goroutines of the polls are done.\<close>

definition cleanup :: "client \<Rightarrow> client" where
  "cleanup c = c\<lparr>di := False, mailClient := False\<rparr>"

section \<open>Steps\<close>

datatype client_event =
    MaxPollTimer "push_error option" | DeferTimer bool
  | GotNewMail bool "push_error option" | GotReRegister "push_error option" | GotError string
  | GotCommand
  | DeferTimerExpires | MaxPollTimerExpires
  | PollHasResult | PollGivesUp
  | CallAction PingerCommand | CallStop | CallDefer nat
  | Cleanup

text \<open>When an event can happen. The arms of the \<^verbatim>\<open>select\<close> need the loop to run and their channel to be ready.\<close>

definition enabled :: "client_event \<Rightarrow> client \<Rightarrow> bool" where
  "enabled ev c = (case ev of
     MaxPollTimer _ \<Rightarrow> loop c = Running \<and> fired (maxPollTimer c)
   | DeferTimer _ \<Rightarrow> loop c = Running \<and> fired (deferTimer c)
   | GotNewMail _ _ \<Rightarrow> loop c = Running \<and> 0 < sending c
   | GotReRegister _ \<Rightarrow> loop c = Running \<and> 0 < sending c
   | GotError _ \<Rightarrow> loop c = Running \<and> 0 < sending c
   | GotCommand \<Rightarrow> loop c = Running \<and> command c \<noteq> []
   | DeferTimerExpires \<Rightarrow> armed (deferTimer c)
   | MaxPollTimerExpires \<Rightarrow> armed (maxPollTimer c)
   | PollHasResult \<Rightarrow> 0 < polling c
   | PollGivesUp \<Rightarrow> 0 < polling c
   | CallAction _ \<Rightarrow> length (command c) < 10
   | CallStop \<Rightarrow> length (command c) < 10
   | CallDefer _ \<Rightarrow> length (command c) < 10
   | Cleanup \<Rightarrow> loop c \<noteq> Running \<and> polling c = 0 \<and> sending c = 0)"

definition client_step :: "client_config \<Rightarrow> client_event \<Rightarrow> client \<Rightarrow> client option" where
  "client_step cfg ev c = (case ev of
     MaxPollTimer perr \<Rightarrow> Some (on_maxPollTimer perr c)
   | DeferTimer late \<Rightarrow> Some (on_deferTimer late c)
   | GotNewMail tooFast perr \<Rightarrow> Some (on_NewMail cfg tooFast perr (c\<lparr>sending := sending c - 1\<rparr>))
   | GotReRegister perr \<Rightarrow> Some (on_ReRegister perr (c\<lparr>sending := sending c - 1\<rparr>))
   | GotError msg \<Rightarrow> Some (on_PollError msg (c\<lparr>sending := sending c - 1\<rparr>))
   | GotCommand \<Rightarrow> Some (on_command (hd (command c)) (c\<lparr>command := tl (command c)\<rparr>))
   | DeferTimerExpires \<Rightarrow> Some (c\<lparr>deferTimer := timer_expires (deferTimer c)\<rparr>)
   | MaxPollTimerExpires \<Rightarrow> Some (c\<lparr>maxPollTimer := timer_expires (maxPollTimer c)\<rparr>)
   | PollHasResult \<Rightarrow> Some (c\<lparr>polling := polling c - 1, sending := sending c + 1\<rparr>)
   | PollGivesUp \<Rightarrow> Some (c\<lparr>polling := polling c - 1\<rparr>)
   | CallAction cmd \<Rightarrow> Some (Action cmd c)
   | CallStop \<Rightarrow> stop c
   | CallDefer timeout \<Rightarrow> deferPoll timeout c
   | Cleanup \<Rightarrow> Some (cleanup c))"

text \<open>A new client and the beginning of \<^verbatim>\<open>start\<close>, up to the loop. \<open>late\<close>: the first timer expires before it is reset.\<close>

definition NewMailClientContext :: "string \<Rightarrow> nat \<Rightarrow> client" where
  "NewMailClientContext protocol wait =
    \<lparr>fstate = FSMInit, status = MailClientStatusInitialized, lastError = None, Protocol = protocol, WaitBeforeUse = wait,
     di = True, mailClient = True, deferTimer = \<lparr>armed = False, fired = False\<rparr>,
     maxPollTimer = \<lparr>armed = False, fired = False\<rparr>, stopPollCh = None, stopAllCh = Open, command = [],
     rearmingCount = 0, loop = Running, polling = 0, sending = 0, started = 0, defers = 0, pushes = 0\<rparr>"

definition start :: "bool \<Rightarrow> client \<Rightarrow> client" where
  "start late c = goes_on (fsm_Event (late_expiry late) (EvDeferred MailClientStatusDeferred) c)"

text \<open>The clients that can be reached. \<open>punctual\<close> excludes the late expiries.\<close>

inductive client_reach :: "client_config \<Rightarrow> bool \<Rightarrow> client \<Rightarrow> bool" for cfg punctual where
  client_start: "client_reach cfg punctual (start late (NewMailClientContext protocol wait))"
| client_next: "client_reach cfg punctual c \<Longrightarrow> enabled ev c \<Longrightarrow> ev \<noteq> DeferTimer True \<or> \<not> punctual \<Longrightarrow>
    client_step cfg ev c = Some c' \<Longrightarrow> client_reach cfg punctual c'"

inductive_cases client_reachE: "client_reach cfg punctual c"

section \<open>The invariant\<close>

text \<open>While the loop runs the machine is deferred or pinging, and the fields agree with it; afterwards the
  status is that of a stopped client.\<close>

definition running_ok :: "bool \<Rightarrow> client \<Rightarrow> bool" where
  "running_ok punctual c \<longleftrightarrow> di c \<and> mailClient c \<and> lastError c = None \<and> stopAllCh c = Open \<and> rearmingCount c \<le> 3 \<and>
     pushes c \<le> 4 * defers c + rearmingCount c \<and>
     ((fstate c = FSMDeferred \<and> status c \<in> {MailClientStatusDeferred, MailClientStatusReDeferred} \<and>
         started c \<le> 4 * defers c + rearmingCount c) \<or>
      (fstate c = FSMPinging \<and> status c = MailClientStatusPinging \<and> stopPollCh c = Some Open \<and>
         started c \<le> 4 * defers c + rearmingCount c + 1 \<and>
         (punctual \<longrightarrow> \<not> armed (deferTimer c) \<and> \<not> fired (deferTimer c))))"

definition ended_ok :: "bool \<Rightarrow> client \<Rightarrow> bool" where
  "ended_ok punctual c \<longleftrightarrow> status c = MailClientStatusStopped \<and> lastError c = None \<and>
     started c \<le> 4 * (defers c + 1) \<and> pushes c \<le> 4 * (defers c + 1) \<and> (punctual \<longrightarrow> loop c = Ended)"

definition client_inv :: "bool \<Rightarrow> client \<Rightarrow> bool" where
  "client_inv punctual c \<longleftrightarrow> (if loop c = Running then running_ok punctual c else ended_ok punctual c)"

lemmas timer_defs = NewTimer_def timer_Stop_def timer_Reset_def timer_received_def timer_expires_def late_expiry_def

lemmas callback_defs = leaveInit_def enterDeferred_def exitDeferred_def enterPinging_def exitPinging_def enterStopped_def
  setStatus_def leave_callback_def enter_callback_def

lemmas inv_defs = client_inv_def running_ok_def ended_ok_def

lemma running_bound: "running_ok p c \<Longrightarrow> started c \<le> 4 * (defers c + 1) \<and> pushes c + 1 \<le> 4 * (defers c + 1)"
  by (auto simp: running_ok_def)

lemma running_inv: "running_ok p c \<Longrightarrow> loop c = Running \<Longrightarrow> client_inv p c"
  by (simp add: client_inv_def)

lemma finish_inv: "started c \<le> 4 * (defers c + 1) \<Longrightarrow> pushes c \<le> 4 * (defers c + 1) \<Longrightarrow> client_inv p (finish Ended c)"
  by (simp add: inv_defs finish_def setStatus_def)

lemma register_then_stop_inv:
  "running_ok p c \<Longrightarrow> client_inv p (returns (bind_fsm (push_register perr c) (fsm_Event id (EvStopped s err))))"
  by (auto simp: inv_defs push_register_def bind_fsm_def returns_def finish_def fsm_Event_def fsm_dst_def callback_defs)

text \<open>The counter of the pushes may be one ahead here: the push for this mail is already counted.\<close>

lemma stop_or_rearm_inv:
  assumes "running_ok p (c\<lparr>pushes := n\<rparr>)" and "loop c = Running" and "pushes c \<le> n + 1"
  shows "client_inv p (stop_or_rearm cfg c)"
  using assms
  by (auto simp: inv_defs stop_or_rearm_def goes_on_def finish_def fsm_Event_def fsm_dst_def callback_defs)

text \<open>Every event keeps the invariant.\<close>

lemma on_maxPollTimer_inv: "running_ok p c \<Longrightarrow> client_inv p (on_maxPollTimer perr c)"
  unfolding on_maxPollTimer_def by (rule register_then_stop_inv) (simp add: running_ok_def)

lemma on_deferTimer_inv:
  assumes "running_ok p c" and "loop c = Running" and "fired (deferTimer c)" and "late \<Longrightarrow> \<not> p"
  shows "client_inv p (on_deferTimer late c)"
  using assms
  by (auto simp: inv_defs on_deferTimer_def goes_on_def finish_def fsm_Event_def fsm_dst_def callback_defs timer_defs)

lemma on_NewMail_inv:
  assumes "running_ok p c" and "loop c = Running"
  shows "client_inv p (on_NewMail cfg tooFast perr c)"
proof -
  have "client_inv p (stop_or_rearm cfg c)" and "client_inv p (stop_or_rearm cfg (c\<lparr>pushes := pushes c + 1\<rparr>))"
    using assms by (auto intro: stop_or_rearm_inv [where n = "pushes c"])
  moreover have "di c" using assms(1) by (simp add: running_ok_def)
  ultimately show ?thesis using running_bound [OF assms(1)] by (simp add: on_NewMail_def finish_inv Let_def)
qed

lemma on_ReRegister_inv: "running_ok p c \<Longrightarrow> client_inv p (on_ReRegister perr c)"
  unfolding on_ReRegister_def by (rule register_then_stop_inv)

lemma on_PollError_inv: "running_ok p c \<Longrightarrow> client_inv p (on_PollError msg c)"
  by (auto simp: inv_defs on_PollError_def returns_def finish_def fsm_Event_def fsm_dst_def callback_defs)

lemma on_command_inv:
  assumes "running_ok p c" and "loop c = Running"
  shows "client_inv p (on_command cmd c)"
proof (cases cmd)
  case PingerStop
  have "running_ok p (c\<lparr>stopAllCh := Open\<rparr>)" using assms(1) by (simp add: running_ok_def)
  then show ?thesis
    using PingerStop assms
    by (auto simp: on_command_def returns_def finish_def inv_defs fsm_Event_def fsm_dst_def callback_defs)
next
  case PingerDefer
  then show ?thesis
    using assms by (auto simp: on_command_def goes_on_def bind_fsm_def finish_def inv_defs fsm_Event_def fsm_dst_def callback_defs)
qed (use assms in \<open>simp add: on_command_def client_inv_def\<close>)

lemma running_ok_frame:
  assumes "running_ok p c"
  shows "running_ok p (c\<lparr>sending := n\<rparr>)" and "running_ok p (c\<lparr>polling := m, sending := n\<rparr>)" and "running_ok p (c\<lparr>polling := m\<rparr>)"
    and "running_ok p (c\<lparr>command := q\<rparr>)" and "running_ok p (c\<lparr>WaitBeforeUse := w, command := q\<rparr>)" and "running_ok p (c\<lparr>maxPollTimer := t\<rparr>)"
  using assms by (simp_all add: running_ok_def)

lemma client_step_inv:
  assumes "client_inv p c" and "enabled ev c" and "ev \<noteq> DeferTimer True \<or> \<not> p" and "client_step cfg ev c = Some c'"
  shows "client_inv p c'"
proof (cases "loop c = Running")
  case True
  then have run: "running_ok p c" using assms(1) by (simp add: client_inv_def)
  note frame = running_ok_frame [OF run]
  show ?thesis
  proof (cases ev)
    case (DeferTimer late)
    then show ?thesis using assms run True by (auto simp: client_step_def enabled_def intro: on_deferTimer_inv)
  next
    case DeferTimerExpires
    then show ?thesis using assms run True by (auto simp: client_step_def enabled_def inv_defs timer_expires_def)
  next
    case Cleanup
    then show ?thesis using assms(2) True by (simp add: enabled_def)
  qed (use assms(4) True frame run in \<open>auto simp: client_step_def stop_def deferPoll_def Action_def
         intro: running_inv on_maxPollTimer_inv on_NewMail_inv on_ReRegister_inv on_PollError_inv on_command_inv
         split: if_splits\<close>)
next
  case False
  then show ?thesis
    using assms by (auto simp: client_step_def enabled_def inv_defs stop_def deferPoll_def Action_def cleanup_def
        split: client_event.splits if_splits)
qed

lemma start_inv: "client_inv p (start late (NewMailClientContext protocol wait))"
  by (simp add: start_def NewMailClientContext_def goes_on_def fsm_Event_def fsm_dst_def callback_defs inv_defs late_expiry_def)

lemma client_reach_inv: "client_reach cfg p c \<Longrightarrow> client_inv p c"
  by (induction rule: client_reach.induct) (auto intro: client_step_inv start_inv)

section \<open>Properties\<close>

text \<open>C8. As long as the defer timer does not expire between the moment its channel is read and the moment it
  is stopped, the loop of a session never panics: while it runs, the machine is deferred or pinging
  and agrees with the status other goroutines see, the channel that stops a poll is open while one
  is under way, and a stop or a defer request finds the device; afterwards the session is
  reported as stopped, without error.\<close>

theorem client_never_panics:
  assumes "client_reach cfg True c"
  shows "loop c \<noteq> Panicked \<and>
    (loop c = Running \<longrightarrow>
       (fstate c, Status c) \<in> {(FSMDeferred, MailClientStatusDeferred, None), (FSMDeferred, MailClientStatusReDeferred, None),
          (FSMPinging, MailClientStatusPinging, None)} \<and>
       (fstate c = FSMPinging \<longrightarrow> stopPollCh c = Some Open) \<and> stop c \<noteq> None \<and> deferPoll t c \<noteq> None) \<and>
    (loop c = Ended \<longrightarrow> Status c = (MailClientStatusStopped, None))"
  using client_reach_inv [OF assms] by (cases "loop c") (auto simp: inv_defs Status_def stop_def deferPoll_def)


section \<open>Concrete sessions\<close>

text \<open>A session as a list of events, for the examples.\<close>

fun client_run :: "client_config \<Rightarrow> client_event list \<Rightarrow> client \<Rightarrow> client option" where
  "client_run cfg [] c = Some c"
| "client_run cfg (ev # evs) c = (if enabled ev c then Option.bind (client_step cfg ev c) (client_run cfg evs) else None)"

lemma client_run_reach:
  "client_reach cfg p c \<Longrightarrow> client_run cfg evs c = Some c' \<Longrightarrow> DeferTimer True \<notin> set evs \<or> \<not> p \<Longrightarrow> client_reach cfg p c'"
  by (induction evs arbitrary: c) (auto split: if_splits bind_splits intro: client_next)

lemmas run_defs = client_run.simps enabled_def client_step_def on_maxPollTimer_def on_deferTimer_def on_NewMail_def
  on_ReRegister_def on_PollError_def on_command_def stop_or_rearm_def goes_on_def returns_def bind_fsm_def finish_def
  fsm_Event_def fsm_dst_def callback_defs timer_defs stop_def deferPoll_def Action_def cleanup_def start_def
  NewMailClientContext_def Let_def push_register_def

text \<open>An IMAP session that is armed again once, then told to stop.\<close>

definition example_events :: "client_event list" where
  "example_events = [DeferTimerExpires, DeferTimer False, PollHasResult, GotNewMail False None,
     DeferTimerExpires, DeferTimer False, CallStop]"

definition example_config :: client_config where
  "example_config = \<lparr>rearmTimeout = 600000, IgnorePushFailures = False\<rparr>"

lemma example_run:
  "\<exists>c. client_run example_config example_events (start False (NewMailClientContext ''IMAP'' 0)) = Some c \<and>
     fstate c = FSMPinging \<and> loop c = Running \<and> started c = 2 \<and> pushes c = 1 \<and> defers c = 0 \<and> command c = [PingerStop]"
  by (simp add: example_events_def example_config_def run_defs MailClientIMAP_def)

lemma example_reach:
  "\<exists>c. client_reach example_config p c \<and> fstate c = FSMPinging \<and> loop c = Running \<and> started c = 2 \<and> defers c = 0"
proof -
  obtain c where c: "client_run example_config example_events (start False (NewMailClientContext ''IMAP'' 0)) = Some c"
      "fstate c = FSMPinging" "loop c = Running" "started c = 2" "defers c = 0"
    using example_run by blast
  have "client_reach example_config p c"
    by (rule client_run_reach [OF client_start c(1)]) (simp add: example_events_def)
  with c show ?thesis by blast
qed

theorem client_never_panics_witness:
  "\<exists>c. client_reach example_config True c \<and> Status c = (MailClientStatusPinging, None)"
proof -
  obtain c where c: "client_reach example_config True c" "fstate c = FSMPinging" "loop c = Running"
    using example_reach [of True] by blast
  show ?thesis using client_never_panics [OF c(1), of 0] c by auto
qed


section \<open>Where a session goes wrong\<close>

text \<open>A value left in the channel of the defer timer starts the poll at once; when the timer then expires before it
  is stopped, the next value makes the loop panic.\<close>

lemma late_timer_panics: "\<exists>c. client_reach example_config False c \<and> loop c = Panicked"
proof -
  obtain c where c: "client_run example_config [DeferTimer True, DeferTimer False]
      (start True (NewMailClientContext ''IMAP'' 0)) = Some c" "loop c = Panicked"
    by (simp add: run_defs)
  have "client_reach example_config False c" by (rule client_run_reach [OF client_start c(1)]) simp
  with c(2) show ?thesis by blast
qed

text \<open>A poll that has a result for a loop that has ended waits for ever: the session is never cleaned up.\<close>

lemma cleanup_blocked:
  assumes "0 < sending c" and "loop c \<noteq> Running" and "enabled ev c" and "client_step cfg ev c = Some c'"
  shows "0 < sending c' \<and> loop c' \<noteq> Running \<and> \<not> enabled Cleanup c'"
  using assms by (cases ev) (auto simp: enabled_def client_step_def stop_def deferPoll_def Action_def split: if_splits)

lemma cleanup_blocked_reachable:
  "\<exists>c. client_reach example_config True c \<and> loop c = Ended \<and> 0 < sending c"
proof -
  obtain c where c: "client_run example_config [DeferTimerExpires, DeferTimer False, CallStop, PollHasResult, GotCommand]
      (start False (NewMailClientContext ''IMAP'' 0)) = Some c" "loop c = Ended" "0 < sending c"
    by (simp add: run_defs)
  have "client_reach example_config True c" by (rule client_run_reach [OF client_start c(1)]) simp
  with c show ?thesis by blast
qed

text \<open>Once Apple has rejected the token of the device, a stop request for the session that is still in the map is
  a nil dereference.\<close>

lemma stop_after_invalid_token:
  "\<exists>c. client_reach example_config True c \<and> mailClient c \<and> stop c = None"
proof -
  obtain c where c: "client_run example_config [DeferTimerExpires, DeferTimer False, PollHasResult, GotReRegister (Some APNSInvalidToken)]
      (start False (NewMailClientContext ''IMAP'' 0)) = Some c" "mailClient c" "stop c = None"
    by (simp add: run_defs)
  have "client_reach example_config True c" by (rule client_run_reach [OF client_start c(1)]) simp
  with c show ?thesis by blast
qed

end
