(* ===== verification/Rpc.thy ===== *)
theory Rpc
  imports MailClient
begin

text \<open>
  The polling server (\<^verbatim>\<open>Pinger/rpc.go\<close>): the map from keys to mail sessions, the calls that start, stop and defer a
  poll and list the sessions, and the goroutines they leave behind. A session is a client of \<open>MailClient\<close>, known by its number. The
  parts of a call that hold the lock of the map are single steps; every session moves on its own between
  them.
\<close>

section \<open>Data\<close>

datatype PollingReplyType = PollingReplyError | PollingReplyOK | PollingReplyWarn

record rpc_reply =
  Code :: PollingReplyType
  Message :: string

definition pollMapKey :: "string \<Rightarrow> string \<Rightarrow> string \<Rightarrow> string" where
  "pollMapKey UserId ClientContext DeviceId = UserId @ ''--'' @ ClientContext @ ''--'' @ DeviceId"

text \<open>What a start request says, as far as the server and the session use it.\<close>

record mail_info =
  UserId :: string
  ClientContext :: string
  DeviceId :: string
  mi_Protocol :: string
  mi_WaitBeforeUse :: nat

text \<open>The state. A session that is \<^verbatim>\<open>nil\<close> in the map is \<open>Some None\<close>. \<open>creating\<close> holds the goroutines of \<open>createNewPingerSession\<close> before their session
  exists and \<open>inserting\<close> those that wait for the lock with a session in hand; \<open>stopping\<close> and \<open>deferring\<close> the
  goroutines \<^verbatim>\<open>go client.stop()\<close> and \<^verbatim>\<open>go client.deferPoll(...)\<close>. \<open>infos\<close> remembers the request of each session.\<close>

record server =
  pollMap :: "string \<Rightarrow> nat option option"
  sessions :: "client list"
  infos :: "mail_info list"
  creating :: "mail_info list"
  inserting :: "nat list"
  stopping :: "nat list"
  deferring :: "(nat \<times> nat) list"

definition key_of :: "mail_info \<Rightarrow> string" where
  "key_of mi = pollMapKey (UserId mi) (ClientContext mi) (DeviceId mi)"

definition session_key :: "server \<Rightarrow> nat \<Rightarrow> string" where
  "session_key sv i = key_of (infos sv ! i)"

section \<open>The calls\<close>

text \<open>The reply to a start request for a session that exists.\<close>

definition start_reply :: "MailClientStatus \<times> string option \<Rightarrow> rpc_reply" where
  "start_reply st = (case st of
     (MailClientStatusError, Some e) \<Rightarrow> \<lparr>Code = PollingReplyWarn, Message = ''Previous Ping failed with error: '' @ e\<rparr>
   | (MailClientStatusError, None) \<Rightarrow> \<lparr>Code = PollingReplyWarn, Message = ''Not polling due to error''\<rparr>
   | _ \<Rightarrow> \<lparr>Code = PollingReplyOK, Message = ''''\<rparr>)"

text \<open>\<^verbatim>\<open>RPCStartPoll\<close>: the old session is told to stop and leaves the map, and a goroutine makes the new one. The result is the
  state with the reply, an error (\<open>Inl\<close>), or nothing while the command channel of the old session is full.\<close>

definition RPCStartPoll :: "mail_info \<Rightarrow> server \<Rightarrow> (server \<times> (string + rpc_reply)) option" where
  "RPCStartPoll mi sv = (case pollMap sv (key_of mi) of
     None \<Rightarrow> Some (sv\<lparr>creating := creating sv @ [mi]\<rparr>, Inr \<lparr>Code = PollingReplyOK, Message = ''''\<rparr>)
   | Some None \<Rightarrow> Some (sv, Inl ''Could not find poll session in map'')
   | Some (Some i) \<Rightarrow>
       if length (command (sessions sv ! i)) < 10
       then Some (sv\<lparr>sessions := (sessions sv)[i := Action PingerStop (sessions sv ! i)],
                     pollMap := (pollMap sv)(key_of mi := None), creating := creating sv @ [mi]\<rparr>,
                  Inr (start_reply (Status (sessions sv ! i))))
       else None)"

text \<open>The second half of \<^verbatim>\<open>createNewPingerSession\<close>, under the lock. \<open>None\<close>: the stop of the session dies or waits.\<close>

definition insert_session :: "nat \<Rightarrow> server \<Rightarrow> server option" where
  "insert_session i sv =
    (let k = session_key sv i; rest = remove1 i (inserting sv)
     in if pollMap sv k \<noteq> None
        then (if length (command (sessions sv ! i)) < 10
              then map_option (\<lambda>c. sv\<lparr>sessions := (sessions sv)[i := c], inserting := rest\<rparr>) (stop (sessions sv ! i))
              else None)
        else Some (sv\<lparr>pollMap := (pollMap sv)(k \<mapsto> Some i), inserting := rest\<rparr>))"

definition RPCStopPoll :: "string \<Rightarrow> server \<Rightarrow> server \<times> (string + rpc_reply)" where
  "RPCStopPoll k sv = (case pollMap sv k of
     None \<Rightarrow> (sv, Inr \<lparr>Code = PollingReplyError, Message = ''No active sessions found''\<rparr>)
   | Some None \<Rightarrow> (sv\<lparr>pollMap := (pollMap sv)(k := None)\<rparr>, Inl ''Could not find poll item in map'')
   | Some (Some i) \<Rightarrow> (sv\<lparr>pollMap := (pollMap sv)(k := None), stopping := stopping sv @ [i]\<rparr>,
       Inr \<lparr>Code = PollingReplyOK, Message = ''Stopped''\<rparr>))"

definition status_String :: "MailClientStatus \<Rightarrow> string" where
  "status_String s = (case s of
     MailClientStatusError \<Rightarrow> ''Error''
   | MailClientStatusInitialized \<Rightarrow> ''Initialized''
   | MailClientStatusPinging \<Rightarrow> ''Active''
   | MailClientStatusDeferred \<Rightarrow> ''Waiting''
   | MailClientStatusReDeferred \<Rightarrow> ''Rearmed''
   | MailClientStatusStopped \<Rightarrow> ''Stopped'')"

definition RPCDeferPoll :: "string \<Rightarrow> nat \<Rightarrow> server \<Rightarrow> server \<times> (string + rpc_reply)" where
  "RPCDeferPoll k timeout sv = (case pollMap sv k of
     None \<Rightarrow> (sv, Inr \<lparr>Code = PollingReplyError, Message = ''No active sessions found''\<rparr>)
   | Some None \<Rightarrow> (sv, Inl ''Could not find poll item in map'')
   | Some (Some i) \<Rightarrow> (case Status (sessions sv ! i) of
        (_, Some e) \<Rightarrow> (sv, Inl e)
      | (st, None) \<Rightarrow>
          if st \<noteq> MailClientStatusPinging \<and> st \<noteq> MailClientStatusDeferred
          then (sv, Inr \<lparr>Code = PollingReplyError,
                  Message = ''Client is not pinging or deferred ('' @ status_String st @ ''). Can not defer.''\<rparr>)
          else (sv\<lparr>deferring := deferring sv @ [(i, timeout)]\<rparr>, Inr \<lparr>Code = PollingReplyOK, Message = ''''\<rparr>)))"

section \<open>Listing the sessions\<close>

text \<open>\<^verbatim>\<open>getSessionInfo\<close>, for a session that has not been cleaned up, and the loop of \<^verbatim>\<open>RPCFindActiveSessions\<close> over the
  entries in the order the runtime gives them.\<close>

record session_info =
  si_UserId :: string
  si_ClientContext :: string
  si_DeviceId :: string
  si_Status :: MailClientStatus
  si_Error :: string

definition getSessionInfo :: "server \<Rightarrow> nat \<Rightarrow> session_info option" where
  "getSessionInfo sv i = (let c = sessions sv ! i; mi = infos sv ! i in
     if \<not> mailClient c then None
     else if UserId mi = '''' \<or> ClientContext mi = '''' \<or> DeviceId mi = '''' then None
     else Some \<lparr>si_UserId = UserId mi, si_ClientContext = ClientContext mi, si_DeviceId = DeviceId mi,
            si_Status = fst (Status c), si_Error = (case snd (Status c) of None \<Rightarrow> '''' | Some e \<Rightarrow> e)\<rparr>)"

definition session_wanted :: "string \<Rightarrow> string \<Rightarrow> string \<Rightarrow> session_info \<Rightarrow> bool" where
  "session_wanted user ctx dev s \<longleftrightarrow>
     (user = '''' \<and> ctx = '''' \<and> dev = '''') \<or> (user \<noteq> '''' \<and> si_UserId s = user) \<or>
     (ctx \<noteq> '''' \<and> si_ClientContext s = ctx) \<or> (dev \<noteq> '''' \<and> si_DeviceId s = dev)"

fun find_loop :: "server \<Rightarrow> string \<Rightarrow> string \<Rightarrow> string \<Rightarrow> int \<Rightarrow> nat list \<Rightarrow> session_info list \<Rightarrow> session_info list" where
  "find_loop sv user ctx dev MaxSessions [] found = found"
| "find_loop sv user ctx dev MaxSessions (i # is) found =
    (if MaxSessions > 0 \<and> int (length found) \<ge> MaxSessions then found
     else case getSessionInfo sv i of
        None \<Rightarrow> find_loop sv user ctx dev MaxSessions is found
      | Some s \<Rightarrow> find_loop sv user ctx dev MaxSessions is (if session_wanted user ctx dev s then found @ [s] else found))"

definition RPCFindActiveSessions :: "server \<Rightarrow> string \<Rightarrow> string \<Rightarrow> string \<Rightarrow> int \<Rightarrow> nat list \<Rightarrow> session_info list" where
  "RPCFindActiveSessions sv user ctx dev MaxSessions order = find_loop sv user ctx dev MaxSessions order []"

section \<open>Steps of the server\<close>

definition new_server :: server where
  "new_server = \<lparr>pollMap = (\<lambda>_. None), sessions = [], infos = [], creating = [], inserting = [], stopping = [], deferring = []\<rparr>"

inductive server_step :: "client_config \<Rightarrow> server \<Rightarrow> server \<Rightarrow> bool" for cfg where
  step_start: "RPCStartPoll mi sv = Some (sv', r) \<Longrightarrow> server_step cfg sv sv'"
| step_create_fails: "mi \<in> set (creating sv) \<Longrightarrow> server_step cfg sv (sv\<lparr>creating := remove1 mi (creating sv)\<rparr>)"
| step_create: "mi \<in> set (creating sv) \<Longrightarrow>
    server_step cfg sv (sv\<lparr>creating := remove1 mi (creating sv),
      sessions := sessions sv @ [start late (NewMailClientContext (mi_Protocol mi) (mi_WaitBeforeUse mi))],
      infos := infos sv @ [mi], inserting := inserting sv @ [length (sessions sv)]\<rparr>)"
| step_insert: "i \<in> set (inserting sv) \<Longrightarrow> insert_session i sv = Some sv' \<Longrightarrow> server_step cfg sv sv'"
| step_stop: "server_step cfg sv (fst (RPCStopPoll k sv))"
| step_stop_runs: "i \<in> set (stopping sv) \<Longrightarrow> enabled CallStop (sessions sv ! i) \<Longrightarrow> stop (sessions sv ! i) = Some c \<Longrightarrow>
    server_step cfg sv (sv\<lparr>sessions := (sessions sv)[i := c], stopping := remove1 i (stopping sv)\<rparr>)"
| step_defer: "server_step cfg sv (fst (RPCDeferPoll k timeout sv))"
| step_defer_runs: "(i, timeout) \<in> set (deferring sv) \<Longrightarrow> enabled (CallDefer timeout) (sessions sv ! i) \<Longrightarrow>
    deferPoll timeout (sessions sv ! i) = Some c \<Longrightarrow>
    server_step cfg sv (sv\<lparr>sessions := (sessions sv)[i := c], deferring := remove1 (i, timeout) (deferring sv)\<rparr>)"
| step_session: "i < length (sessions sv) \<Longrightarrow> ev \<notin> range CallAction \<union> {CallStop} \<union> range CallDefer \<Longrightarrow>
    enabled ev (sessions sv ! i) \<Longrightarrow> client_step cfg ev (sessions sv ! i) = Some c \<Longrightarrow>
    server_step cfg sv (sv\<lparr>sessions := (sessions sv)[i := c]\<rparr>)"

inductive server_reach :: "client_config \<Rightarrow> server \<Rightarrow> bool" for cfg where
  server_new: "server_reach cfg new_server"
| server_next: "server_reach cfg sv \<Longrightarrow> server_step cfg sv sv' \<Longrightarrow> server_reach cfg sv'"

section \<open>The invariant\<close>

text \<open>Somebody will end the session, or has ended it.\<close>

definition told_to_stop :: "server \<Rightarrow> nat \<Rightarrow> bool" where
  "told_to_stop sv i \<longleftrightarrow> loop (sessions sv ! i) \<noteq> Running \<or> PingerStop \<in> set (command (sessions sv ! i)) \<or> i \<in> set (stopping sv)"

definition server_inv :: "client_config \<Rightarrow> server \<Rightarrow> bool" where
  "server_inv cfg sv \<longleftrightarrow> length (infos sv) = length (sessions sv) \<and>
     (\<forall>i<length (sessions sv). client_reach cfg False (sessions sv ! i)) \<and>
     (\<forall>k i. pollMap sv k = Some i \<longrightarrow> i \<noteq> None \<and> the i < length (sessions sv) \<and> session_key sv (the i) = k) \<and>
     set (inserting sv) \<subseteq> {..<length (sessions sv)} \<and> set (stopping sv) \<subseteq> {..<length (sessions sv)} \<and>
     (\<forall>d\<in>set (deferring sv). fst d < length (sessions sv)) \<and>
     (\<forall>i<length (sessions sv). told_to_stop sv i \<or> i \<in> set (inserting sv) \<or> pollMap sv (session_key sv i) = Some (Some i))"

text \<open>The commands waiting for a session are only taken by its loop, and taking a stop ends the loop.\<close>

lemma fsm_Event_keeps:
  assumes "\<And>d. command (between d) = command d \<and> loop (between d) = loop d"
  shows "fsm_Event between ev c = Inr c' \<Longrightarrow> command c' = command c \<and> loop c' = loop c"
    and "fsm_Event between ev c = Inl c' \<Longrightarrow> command c' = command c"
  using assms by (auto simp: fsm_Event_def callback_defs split: option.splits sum.splits fsm_state.splits fsm_event.splits if_splits)

lemmas fsm_keeps = fsm_Event_keeps [of id, simplified]

lemma finish_keeps [simp]: "command (finish l c) = command c" "loop (finish l c) = l"
  by (simp_all add: finish_def setStatus_def)

lemma goes_on_keeps [simp]:
  "command (goes_on (fsm_Event id ev c)) = command c"
  "loop c \<noteq> Running \<Longrightarrow> loop (goes_on (fsm_Event id ev c)) \<noteq> Running"
  by (cases "fsm_Event id ev c"; auto simp: goes_on_def dest: fsm_keeps)+

lemma returns_keeps [simp]: "command (returns (fsm_Event id ev c)) = command c" "loop (returns r) \<noteq> Running"
  by (cases "fsm_Event id ev c"; auto simp: returns_def dest: fsm_keeps) (cases r; simp add: returns_def)

lemma register_keeps [simp]: "command (returns (bind_fsm (push_register perr c) (fsm_Event id ev))) = command c"
proof (cases "push_register perr c")
  case (Inl d)
  then show ?thesis by (auto simp: push_register_def bind_fsm_def returns_def split: if_splits)
next
  case (Inr d)
  then have "command d = command c" by (auto simp: push_register_def split: if_splits)
  then show ?thesis using Inr by (simp add: bind_fsm_def)
qed

lemma stop_or_rearm_keeps [simp]: "command (stop_or_rearm cfg c) = command c"
  by (cases "fsm_Event id (EvStopped MailClientStatusStopped None) c") (auto simp: stop_or_rearm_def dest: fsm_keeps)

lemma on_command_keeps:
  "command (on_command cmd c) = command c" "loop (on_command PingerStop c) \<noteq> Running"
proof -
  have "command (goes_on (bind_fsm (fsm_Event id ev c) (\<lambda>d. fsm_Event id ev' (d\<lparr>rearmingCount := 0, defers := defers d + 1\<rparr>)))) = command c" for ev ev'
    by (cases "fsm_Event id ev c") (auto simp: bind_fsm_def goes_on_def [of "Inl _"] dest: fsm_keeps)
  then show "command (on_command cmd c) = command c" by (cases cmd) (simp_all add: on_command_def)
  show "loop (on_command PingerStop c) \<noteq> Running" by (simp add: on_command_def)
qed

lemma loop_steps_keep [simp]:
  "command (on_maxPollTimer perr c) = command c" "command (on_deferTimer late c) = command c"
  "command (on_NewMail cfg fast perr c) = command c" "command (on_ReRegister perr c) = command c"
  "command (on_PollError msg c) = command c"
  by (simp_all add: on_maxPollTimer_def on_deferTimer_def on_NewMail_def on_ReRegister_def on_PollError_def late_expiry_def Let_def)

definition ending :: "client \<Rightarrow> bool" where
  "ending c \<longleftrightarrow> loop c \<noteq> Running \<or> PingerStop \<in> set (command c)"

lemma client_step_ending:
  assumes "ending c" and "enabled ev c" and "client_step cfg ev c = Some c'"
  shows "ending c'"
proof (cases ev)
  case GotCommand
  then have run: "loop c = Running" "command c \<noteq> []" "PingerStop \<in> set (command c)"
    using assms by (auto simp: enabled_def ending_def)
  then show ?thesis
    using GotCommand assms(3) by (cases "command c") (auto simp: client_step_def ending_def on_command_keeps)
qed (use assms in \<open>auto simp: client_step_def enabled_def ending_def stop_def deferPoll_def Action_def cleanup_def split: if_splits\<close>)

lemma stop_ending: "client_reach cfg p c \<Longrightarrow> stop c = Some c' \<Longrightarrow> ending c'"
  using client_reach_inv [of cfg p c]
  by (auto simp: stop_def ending_def Action_def client_inv_def running_ok_def split: if_splits)

text \<open>What the server relies on of a session, whatever happens inside it: once it is told to stop it is on its way
  to its end and never comes back.\<close>

locale session =
  fixes reach :: "'c \<Rightarrow> bool" and moves :: "'c \<Rightarrow> 'c \<Rightarrow> bool" and stop_it :: "'c \<Rightarrow> 'c option" and on_its_way :: "'c \<Rightarrow> bool"
  assumes reach_moves: "reach c \<Longrightarrow> moves c d \<Longrightarrow> reach d"
    and way_moves: "on_its_way c \<Longrightarrow> moves c d \<Longrightarrow> on_its_way d"
    and stop_moves: "reach c \<Longrightarrow> stop_it c = Some d \<Longrightarrow> on_its_way d"
begin

lemma way_forever: "moves\<^sup>*\<^sup>* c d \<Longrightarrow> on_its_way c \<Longrightarrow> on_its_way d"
  by (induction rule: rtranclp_induct) (auto intro: way_moves)

lemma stop_forever:
  assumes "reach c" and "stop_it c = Some d" and "moves\<^sup>*\<^sup>* d e"
  shows "on_its_way e"
  using way_forever [OF assms(3) stop_moves [OF assms(1,2)]] .

end

definition client_moves :: "client_config \<Rightarrow> client \<Rightarrow> client \<Rightarrow> bool" where
  "client_moves cfg c d \<longleftrightarrow> (\<exists>ev. enabled ev c \<and> client_step cfg ev c = Some d)"

interpretation mail: session "client_reach cfg False" "client_moves cfg" stop ending for cfg
proof
  show "client_reach cfg False d" if "client_reach cfg False c" and "client_moves cfg c d" for c d
    using that by (auto simp: client_moves_def intro: client_next)
  show "ending d" if "ending c" and "client_moves cfg c d" for c d
    using that by (auto simp: client_moves_def intro: client_step_ending)
  show "ending d" if "client_reach cfg False c" and "stop c = Some d" for c d
    using that by (rule stop_ending)
qed

text \<open>The parts of the invariant, and how the moves of the server change them.\<close>

lemma told_to_stop_iff: "told_to_stop sv i \<longleftrightarrow> ending (sessions sv ! i) \<or> i \<in> set (stopping sv)"
  by (auto simp: told_to_stop_def ending_def)

lemma server_invD:
  assumes "server_inv cfg sv"
  shows "length (infos sv) = length (sessions sv)"
    and "i < length (sessions sv) \<Longrightarrow> client_reach cfg False (sessions sv ! i)"
    and "pollMap sv k = Some x \<Longrightarrow> \<exists>i. x = Some i \<and> i < length (sessions sv) \<and> session_key sv i = k"
    and "i \<in> set (inserting sv) \<Longrightarrow> i < length (sessions sv)"
    and "i \<in> set (stopping sv) \<Longrightarrow> i < length (sessions sv)"
    and "(i, t) \<in> set (deferring sv) \<Longrightarrow> i < length (sessions sv)"
    and "i < length (sessions sv) \<Longrightarrow> told_to_stop sv i \<or> i \<in> set (inserting sv) \<or> pollMap sv (session_key sv i) = Some (Some i)"
  using assms unfolding server_inv_def by (blast, blast, fastforce, blast, blast, fastforce, blast)

text \<open>A session moves: it stays as good as told to stop, if it was.\<close>

lemma server_inv_session:
  assumes "server_inv cfg sv" and "i < length (sessions sv)" and "client_reach cfg False c"
    and "ending (sessions sv ! i) \<Longrightarrow> ending c"
  shows "server_inv cfg (sv\<lparr>sessions := (sessions sv)[i := c]\<rparr>)"
proof -
  have "told_to_stop sv j \<Longrightarrow> told_to_stop (sv\<lparr>sessions := (sessions sv)[i := c]\<rparr>) j" for j
    using assms(2,4) by (auto simp: told_to_stop_iff nth_list_update)
  then show ?thesis
    using assms(1-3) by (auto simp: server_inv_def session_key_def nth_list_update)
qed

text \<open>A goroutine that has run leaves its queue.\<close>

lemma set_remove1_mem: "j \<in> set xs \<Longrightarrow> j \<noteq> i \<Longrightarrow> j \<in> set (remove1 i xs)"
  by simp

lemma server_inv_inserted:
  assumes "server_inv cfg sv" and "ending (sessions sv ! i)"
  shows "server_inv cfg (sv\<lparr>inserting := remove1 i (inserting sv)\<rparr>)"
proof -
  have "told_to_stop (sv\<lparr>inserting := xs\<rparr>) j \<longleftrightarrow> told_to_stop sv j" for xs j by (simp add: told_to_stop_def)
  moreover have "told_to_stop sv i" using assms(2) by (simp add: told_to_stop_iff)
  ultimately show ?thesis
    using assms(1) set_remove1_subset [of i "inserting sv"] by (auto simp: server_inv_def session_key_def) (metis set_remove1_mem)
qed

lemma server_inv_stopped:
  assumes "server_inv cfg sv" and "ending (sessions sv ! i)"
  shows "server_inv cfg (sv\<lparr>stopping := remove1 i (stopping sv)\<rparr>)"
proof -
  have "told_to_stop (sv\<lparr>stopping := remove1 i (stopping sv)\<rparr>) j \<longleftrightarrow> told_to_stop sv j" for j
    using assms(2) set_remove1_subset [of i "stopping sv"] by (cases "j = i") (auto simp: told_to_stop_iff)
  then show ?thesis
    using assms(1) set_remove1_subset [of i "stopping sv"] by (auto simp: server_inv_def session_key_def)
qed

lemma server_inv_queues:
  assumes "server_inv cfg sv" and "\<forall>d\<in>set ds. fst d < length (sessions sv)"
  shows "server_inv cfg (sv\<lparr>creating := cs\<rparr>)" and "server_inv cfg (sv\<lparr>deferring := ds\<rparr>)"
  using assms by (auto simp: server_inv_def session_key_def told_to_stop_def)

text \<open>A key leaves the map once its session is told to stop; a session enters the map under a free key.\<close>

lemma server_inv_unmap:
  assumes "server_inv cfg sv" and "pollMap sv k = Some (Some i)" and "told_to_stop sv i"
  shows "server_inv cfg (sv\<lparr>pollMap := (pollMap sv)(k := None)\<rparr>)"
proof -
  have "told_to_stop (sv\<lparr>pollMap := m\<rparr>) j \<longleftrightarrow> told_to_stop sv j" for m j by (simp add: told_to_stop_def)
  moreover have "session_key (sv\<lparr>pollMap := m\<rparr>) j = session_key sv j" for m j by (simp add: session_key_def)
  ultimately show ?thesis using assms by (auto simp: server_inv_def)
qed

lemma server_inv_map:
  assumes "server_inv cfg sv" and "i \<in> set (inserting sv)" and "pollMap sv (session_key sv i) = None"
  shows "server_inv cfg (sv\<lparr>pollMap := (pollMap sv)(session_key sv i \<mapsto> Some i), inserting := remove1 i (inserting sv)\<rparr>)"
proof -
  let ?sv = "sv\<lparr>pollMap := (pollMap sv)(session_key sv i \<mapsto> Some i), inserting := remove1 i (inserting sv)\<rparr>"
  have "told_to_stop ?sv j \<longleftrightarrow> told_to_stop sv j" "session_key ?sv j = session_key sv j" for j
    by (simp_all add: told_to_stop_def session_key_def)
  then show ?thesis
    using assms set_remove1_subset [of i "inserting sv"] by (auto simp: server_inv_def) (metis set_remove1_mem option.distinct(1))+
qed

text \<open>A new session waits for its place in the map.\<close>

lemma server_inv_create:
  assumes "server_inv cfg sv" and "client_reach cfg False c"
  shows "server_inv cfg (sv\<lparr>creating := cs, sessions := sessions sv @ [c], infos := infos sv @ [mi],
    inserting := inserting sv @ [length (sessions sv)]\<rparr>)" (is "server_inv cfg ?sv")
proof -
  have key: "session_key ?sv j = session_key sv j" "told_to_stop ?sv j = told_to_stop sv j" if "j < length (sessions sv)" for j
    using that assms(1) by (simp_all add: session_key_def told_to_stop_def nth_append server_inv_def)
  have map: "\<exists>j. x = Some j \<and> j < length (sessions sv) \<and> session_key sv j = k" if "pollMap sv k = Some x" for k x
    using server_invD(3) [OF assms(1) that] .
  show ?thesis
    unfolding server_inv_def
  proof (intro conjI allI impI)
    show "client_reach cfg False (sessions ?sv ! j)" if "j < length (sessions ?sv)" for j
      using that assms(2) server_invD(2) [OF assms(1), of j] by (auto simp: nth_append less_Suc_eq)
    show "told_to_stop ?sv j \<or> j \<in> set (inserting ?sv) \<or> pollMap ?sv (session_key ?sv j) = Some (Some j)"
      if "j < length (sessions ?sv)" for j
    proof (cases "j = length (sessions sv)")
      case False
      then have "j < length (sessions sv)" using that by simp
      then show ?thesis using server_invD(7) [OF assms(1), of j] key [of j] by auto
    qed simp
  qed (use map assms(1) key in \<open>fastforce simp: server_inv_def\<close>)+
qed

lemma start_keeps_inv:
  assumes "server_inv cfg sv" and "RPCStartPoll mi sv = Some (sv', r)"
  shows "server_inv cfg sv'"
proof (cases "pollMap sv (key_of mi)")
  case None
  then show ?thesis using assms server_inv_queues(1) [OF assms(1), of "[]"] by (auto simp: RPCStartPoll_def)
next
  case (Some x)
  then obtain i where i: "x = Some i" "i < length (sessions sv)" using server_invD(3) [OF assms(1)] by blast
  let ?c = "sessions sv ! i" and ?sv = "sv\<lparr>sessions := (sessions sv)[i := Action PingerStop (sessions sv ! i)]\<rparr>"
  have room: "length (command ?c) < 10" and sv': "sv' = ?sv\<lparr>pollMap := (pollMap ?sv)(key_of mi := None), creating := creating sv @ [mi]\<rparr>"
    using assms(2) Some i(1) by (auto simp: RPCStartPoll_def split: if_splits)
  have "client_reach cfg False (Action PingerStop ?c)"
    by (rule client_next [OF server_invD(2) [OF assms(1) i(2)], where ev = "CallAction PingerStop"])
      (use room in \<open>simp_all add: enabled_def client_step_def\<close>)
  then have inv: "server_inv cfg ?sv" by (rule server_inv_session [OF assms(1) i(2)]) (simp add: ending_def Action_def)
  have told: "told_to_stop ?sv i" using i(2) by (simp add: told_to_stop_def Action_def)
  have "pollMap ?sv (key_of mi) = Some (Some i)" using Some i(1) by simp
  from server_inv_queues(1) [OF server_inv_unmap [OF inv this told], of "[]" "creating sv @ [mi]"] show ?thesis by (simp add: sv')
qed

lemma session_step_inv:
  assumes "server_inv cfg sv" and "i < length (sessions sv)" and "enabled ev (sessions sv ! i)" and "client_step cfg ev (sessions sv ! i) = Some c"
  shows "server_inv cfg (sv\<lparr>sessions := (sessions sv)[i := c]\<rparr>)"
proof (rule server_inv_session [OF assms(1,2)])
  have move: "client_moves cfg (sessions sv ! i) c" using assms(3,4) by (auto simp: client_moves_def)
  show "client_reach cfg False c" using mail.reach_moves [OF server_invD(2) [OF assms(1,2)] move] .
  show "ending c" if "ending (sessions sv ! i)" using mail.way_moves [OF that move] .
qed

lemma insert_keeps_inv:
  assumes "server_inv cfg sv" and "i \<in> set (inserting sv)" and "insert_session i sv = Some sv'"
  shows "server_inv cfg sv'"
proof (cases "pollMap sv (session_key sv i)")
  case None
  then have "sv' = sv\<lparr>pollMap := (pollMap sv)(session_key sv i \<mapsto> Some i), inserting := remove1 i (inserting sv)\<rparr>"
    using assms(3) by (auto simp: insert_session_def Let_def)
  then show ?thesis using server_inv_map [OF assms(1,2) None] by simp
next
  case (Some x)
  have i: "i < length (sessions sv)" using server_invD(4) [OF assms(1,2)] .
  obtain c where c: "length (command (sessions sv ! i)) < 10" "stop (sessions sv ! i) = Some c"
      "sv' = sv\<lparr>sessions := (sessions sv)[i := c], inserting := remove1 i (inserting sv)\<rparr>"
    using assms(3) Some by (auto simp: insert_session_def Let_def split: if_splits)
  let ?sv = "sv\<lparr>sessions := (sessions sv)[i := c]\<rparr>"
  have "server_inv cfg ?sv"
    by (rule session_step_inv [OF assms(1) i, of CallStop]) (use c in \<open>simp_all add: enabled_def client_step_def\<close>)
  moreover have "ending (sessions ?sv ! i)" using mail.stop_moves [OF server_invD(2) [OF assms(1) i] c(2)] i by simp
  ultimately show ?thesis using server_inv_inserted [of cfg ?sv i] c(3) by simp
qed

lemma stop_keeps_inv:
  assumes "server_inv cfg sv"
  shows "server_inv cfg (fst (RPCStopPoll k sv))"
proof (cases "pollMap sv k")
  case (Some x)
  then obtain i where i: "x = Some i" "i < length (sessions sv)" using server_invD(3) [OF assms] by blast
  let ?sv = "sv\<lparr>stopping := stopping sv @ [i]\<rparr>"
  have "server_inv cfg ?sv" using assms i(2) by (auto simp: server_inv_def told_to_stop_def session_key_def)
  moreover have "pollMap ?sv k = Some (Some i)" "told_to_stop ?sv i" using Some i(1) by (simp_all add: told_to_stop_def)
  ultimately have "server_inv cfg (?sv\<lparr>pollMap := (pollMap ?sv)(k := None)\<rparr>)" by (rule server_inv_unmap)
  moreover have "fst (RPCStopPoll k sv) = ?sv\<lparr>pollMap := (pollMap ?sv)(k := None)\<rparr>"
    using Some i(1) by (cases sv) (simp add: RPCStopPoll_def)
  ultimately show ?thesis by (simp only:)
qed (simp add: RPCStopPoll_def assms)

lemma defer_keeps_inv:
  assumes "server_inv cfg sv"
  shows "server_inv cfg (fst (RPCDeferPoll k timeout sv))"
proof (cases "pollMap sv k")
  case (Some x)
  then obtain i where i: "x = Some i" "i < length (sessions sv)" using server_invD(3) [OF assms] by blast
  have "server_inv cfg (sv\<lparr>deferring := deferring sv @ [(i, timeout)]\<rparr>)"
    by (rule server_inv_queues(2) [OF assms]) (use assms i(2) in \<open>auto simp: server_inv_def\<close>)
  then show ?thesis using Some i(1) assms by (auto simp: RPCDeferPoll_def split: option.splits prod.splits)
qed (simp add: RPCDeferPoll_def assms)

lemma server_step_inv: "server_step cfg sv sv' \<Longrightarrow> server_inv cfg sv \<Longrightarrow> server_inv cfg sv'"
proof (induction rule: server_step.induct)
  case (step_stop_runs i sv c)
  have i: "i < length (sessions sv)" using server_invD(5) [OF step_stop_runs.prems step_stop_runs.hyps(1)] .
  let ?sv = "sv\<lparr>sessions := (sessions sv)[i := c]\<rparr>"
  have "server_inv cfg ?sv"
    by (rule session_step_inv [OF step_stop_runs.prems i step_stop_runs.hyps(2)]) (simp add: client_step_def step_stop_runs.hyps(3))
  moreover have "ending (sessions ?sv ! i)"
    using mail.stop_moves [OF server_invD(2) [OF step_stop_runs.prems i] step_stop_runs.hyps(3)] i by simp
  ultimately show ?case using server_inv_stopped [of cfg ?sv i] by simp
next
  case (step_defer_runs i timeout sv c)
  have i: "i < length (sessions sv)" using server_invD(6) [OF step_defer_runs.prems step_defer_runs.hyps(1)] .
  let ?sv = "sv\<lparr>sessions := (sessions sv)[i := c]\<rparr>"
  have inv: "server_inv cfg ?sv"
    by (rule session_step_inv [OF step_defer_runs.prems i step_defer_runs.hyps(2)]) (simp add: client_step_def step_defer_runs.hyps(3))
  have "\<forall>d\<in>set (remove1 (i, timeout) (deferring sv)). fst d < length (sessions ?sv)"
    using step_defer_runs.prems set_remove1_subset [of "(i, timeout)" "deferring sv"] by (auto simp: server_inv_def)
  then show ?case using server_inv_queues(2) [OF inv] by simp
next
  case (step_create_fails mi sv)
  then show ?case by (intro server_inv_queues(1) [where ds = "[]"]) simp_all
next
  case (step_create mi sv late)
  then show ?case by (intro server_inv_create client_start)
qed (auto intro: start_keeps_inv insert_keeps_inv stop_keeps_inv defer_keeps_inv session_step_inv)

lemma server_reach_inv: "server_reach cfg sv \<Longrightarrow> server_inv cfg sv"
proof (induction rule: server_reach.induct)
  case server_new
  then show ?case by (simp add: server_inv_def new_server_def)
qed (rule server_step_inv)

section \<open>Properties\<close>

text \<open>C3. At most one session per key is left to run: two sessions for the same user, context and device,
  neither told to stop nor still waiting to be registered, are the same session, and it is the one in
  the map.\<close>

theorem one_session_per_key:
  assumes "server_reach cfg sv" and "i < length (sessions sv)" and "j < length (sessions sv)"
    and "session_key sv i = session_key sv j"
    and "\<not> told_to_stop sv i" and "\<not> told_to_stop sv j" and "i \<notin> set (inserting sv)" and "j \<notin> set (inserting sv)"
  shows "i = j \<and> pollMap sv (session_key sv i) = Some (Some i)"
  using server_invD(7) [OF server_reach_inv [OF assms(1)], of i] server_invD(7) [OF server_reach_inv [OF assms(1)], of j] assms(2-)
  by simp

definition example_info :: mail_info where
  "example_info = \<lparr>UserId = ''u'', ClientContext = ''c'', DeviceId = ''d'', mi_Protocol = ''IMAP'', mi_WaitBeforeUse = 0\<rparr>"

definition example_client :: client where
  "example_client = start False (NewMailClientContext ''IMAP'' 0)"

text \<open>The server after one start request, the creation of the session and its registration.\<close>

definition example_server :: server where
  "example_server = new_server\<lparr>pollMap := [key_of example_info \<mapsto> Some 0], sessions := [example_client], infos := [example_info]\<rparr>"

lemma example_server_reach: "server_reach cfg example_server"
proof -
  let ?a = "new_server\<lparr>creating := [example_info]\<rparr>"
  let ?b = "new_server\<lparr>sessions := [example_client], infos := [example_info], inserting := [0]\<rparr>"
  have "server_step cfg new_server ?a"
    by (rule step_start [of example_info _ _ "Inr \<lparr>Code = PollingReplyOK, Message = ''''\<rparr>"]) (simp add: RPCStartPoll_def new_server_def)
  moreover have "server_step cfg ?a ?b"
    using step_create [of example_info ?a cfg False] by (simp add: new_server_def example_client_def example_info_def)
  moreover have "server_step cfg ?b example_server"
    by (rule step_insert [of 0]) (simp_all add: insert_session_def new_server_def session_key_def example_server_def)
  ultimately show ?thesis using server_new server_next by blast
qed

theorem one_session_per_key_witness:
  "pollMap example_server (session_key example_server 0) = Some (Some 0)"
proof -
  have "\<not> told_to_stop example_server 0"
    by (simp add: told_to_stop_def example_server_def new_server_def example_client_def run_defs)
  then show ?thesis
    using one_session_per_key [OF example_server_reach, of 0 0] by (simp add: example_server_def new_server_def)
qed

text \<open>The key of the map tells the three names apart when user and context are free of double dashes.\<close>

fun no_dashes :: "string \<Rightarrow> bool" where
  "no_dashes [] \<longleftrightarrow> True"
| "no_dashes [c] \<longleftrightarrow> c \<noteq> CHR ''-''"
| "no_dashes (c # d # s) \<longleftrightarrow> \<not> (c = CHR ''-'' \<and> d = CHR ''-'') \<and> no_dashes (d # s)"

lemma no_dashes_split:
  "no_dashes u \<Longrightarrow> no_dashes v \<Longrightarrow> u @ ''--'' @ r = v @ ''--'' @ s \<Longrightarrow> u = v \<and> r = s"
proof (induction u arbitrary: v rule: no_dashes.induct)
  case 1
  then show ?case by (cases v rule: no_dashes.cases) auto
next
  case (2 c)
  then show ?case by (cases v rule: no_dashes.cases) (auto simp: Cons_eq_append_conv)
next
  case (3 c d u)
  show ?case
  proof (cases v rule: no_dashes.cases)
    case (2 e)
    then show ?thesis using 3 by auto
  next
    case (3 e f v')
    then show ?thesis using "3.IH" [of "f # v'"] "3.prems" by simp
  qed (use 3 in auto)
qed

text \<open>The keys of two requests are equal only when the requests name the same user, the same context and
  the same device, provided that no user and no context has two dashes in a row or ends with a
  dash.\<close>

lemma pollMapKey_inj:
  assumes "no_dashes u" and "no_dashes u'" and "no_dashes c" and "no_dashes c'"
    and "pollMapKey u c d = pollMapKey u' c' d'"
  shows "u = u' \<and> c = c' \<and> d = d'"
proof -
  have "u = u' \<and> c @ ''--'' @ d = c' @ ''--'' @ d'"
    by (rule no_dashes_split) (use assms in \<open>simp_all add: pollMapKey_def\<close>)
  then show ?thesis using no_dashes_split [OF assms(3,4)] by blast
qed

lemma pollMapKey_collision: "pollMapKey ''a'' ''b--c'' ''d'' = pollMapKey ''a--b'' ''c'' ''d''"
  by (simp add: pollMapKey_def)

lemma find_loop_spec:
  "find_loop sv user ctx dev m order found =
     (let hits = filter (session_wanted user ctx dev) (List.map_filter (getSessionInfo sv) order)
      in found @ (if m > 0 then take (nat m - length found) hits else hits))"
proof (induction order arbitrary: found)
  case (Cons i order)
  show ?case
  proof (cases "m > 0 \<and> int (length found) \<ge> m")
    case False
    then have "m > 0 \<Longrightarrow> nat m - length found = Suc (nat m - Suc (length found))" by linarith
    then show ?thesis using False Cons.IH by (auto simp: Let_def List.map_filter_simps split: option.splits)
  next
    case True
    then have "nat m \<le> length found" by linarith
    then show ?thesis using True by (simp add: Let_def)
  qed
qed (simp add: Let_def List.map_filter_simps)

text \<open>The list of active sessions is the list of the sessions that have not been cleaned up and match one
  of the given names (or all of them when none is given), cut off after the requested number
  when that is positive.\<close>

lemma RPCFindActiveSessions_spec:
  "RPCFindActiveSessions sv user ctx dev m order =
     (let hits = filter (session_wanted user ctx dev) (List.map_filter (getSessionInfo sv) order)
      in if m > 0 then take (nat m) hits else hits)"
  by (simp add: RPCFindActiveSessions_def find_loop_spec Let_def)

section \<open>What the server does not report\<close>

text \<open>A session that ended with an error shows as stopped, so a start request never warns of it.\<close>

lemma start_never_warns:
  assumes "server_reach cfg sv" and "RPCStartPoll mi sv = Some (sv', Inr r)"
  shows "Code r = PollingReplyOK"
proof (cases "pollMap sv (key_of mi)")
  case (Some x)
  note inv = server_reach_inv [OF assms(1)]
  obtain i where i: "x = Some i" "i < length (sessions sv)" using server_invD(3) [OF inv Some] by blast
  have "fst (Status (sessions sv ! i)) \<noteq> MailClientStatusError"
    using client_reach_inv [OF server_invD(2) [OF inv i(2)]] by (auto simp: inv_defs Status_def split: if_splits)
  then show ?thesis
    using assms(2) Some i(1) by (auto simp: RPCStartPoll_def start_reply_def split: if_splits prod.splits MailClientStatus.splits)
qed (use assms(2) in \<open>auto simp: RPCStartPoll_def\<close>)

text \<open>A session that was armed again after new mail cannot be deferred.\<close>

lemma rearmed_not_deferrable:
  "pollMap sv k = Some (Some i) \<Longrightarrow> Status (sessions sv ! i) = (MailClientStatusReDeferred, None) \<Longrightarrow>
     fst (RPCDeferPoll k timeout sv) = sv"
  by (simp add: RPCDeferPoll_def)

end
