(* ===== verification/Spec2Isabelle.thy ===== *)
theory Spec2Isabelle
  imports Varint Int64 Utf RowSet Ctype Numtext Hash Prng Keywords Tokenize RunParser Complete Bitvec Like
    RecordFormat RecordCompare Ieee Date Printf WalIndex WalIterator WalLog WalLocks WalWrite WalCheckpoint
    Push Exchange Imap MailClient Rpc
begin

text \<open>
  \<^bold>\<open>Verification of Pinger.\<close>

  Pinger watches mailboxes on behalf of mobile devices. A device registers with a web server, which passes the
  request on by RPC to a polling server; the polling server keeps one session per user, context and device;
  a session waits, polls the mail server over Exchange or IMAP, and pushes a notification to the device when
  there is mail. The program is written in Go (\<^verbatim>\<open>src/Pinger\<close>, \<^verbatim>\<open>src/Utils\<close>, \<^verbatim>\<open>src/main\<close>). Its records are kept in SQLite,
  whose C source (\<^verbatim>\<open>sqlite3-binding.c\<close> in the vendored package \<^verbatim>\<open>go-sqlite3\<close>, called the amalgamation below) is compiled
  into it and is by far the largest part of the code. The development covers the core of both: the sessions and
  their server, and the data structures, codecs and the text front end of SQLite.

  \<^bold>\<open>Conventions.\<close> A byte is an \<open>8 word\<close>, \<^verbatim>\<open>u32\<close> and \<^verbatim>\<open>i64\<close> are words read unsigned or signed, C arrays and strings are
  lists of bytes and a pointer is an index or a suffix. A read or write outside an object, and in the Go parts a run-time panic,
  is the value \<open>None\<close>; so a theorem that gives a result also says that nothing outside the object was
  touched. Allocation failures and answers of other systems are arguments. Loops are structural
  recursions, recursions with a measure, or, where the code bounds them only indirectly, recursions with fuel (see
  below). \<open>Sqlite_Prelude\<close> holds the word types, checked access to buffers, the lemmas on
  words and bits and the contract of a self-delimiting encoding (locale \<open>prefix_codec\<close>).

  \<^bold>\<open>The polling server and its sessions (Go).\<close>
  \<^item> \<open>Push\<close> (\<^verbatim>\<open>Pinger/push.go\<close>): \<open>Push\<close>, the loop that sends a notification; the services are parameters. Shown: at most
    ten attempts, and which error is returned; and that errors of Amazon's service are lost.
  \<^item> \<open>Exchange\<close> (\<^verbatim>\<open>Pinger/exchange.go\<close>): one request and the loop of \<open>LongPoll\<close> over the events of the network. Shown: the pauses
    are an exponential backoff up to ten minutes; which answers count as new mail; and which
    answers are misread.
  \<^item> \<open>Imap\<close> (\<^verbatim>\<open>Pinger/imap.go\<close>): the forms of server lines, the exchange of a command, authentication, and the first
    round of a poll. Shown: reading an IDLE exchange refines the history of the mailbox; and that a second poll of
    the same client cannot succeed. The concurrent end of a request that timed out is not modelled.
  \<^item> \<open>MailClient\<close> (\<^verbatim>\<open>Pinger/mailClient.go\<close> with the machine of \<^verbatim>\<open>looplab/fsm\<close>): the record \<open>client\<close>, the callbacks, one function per arm of
    the \<^verbatim>\<open>select\<close> of \<^verbatim>\<open>start\<close>, the calls of other goroutines, and the step relation over them. Shown by rule induction: the
    loop does not panic, its status is consistent, and the polls and pushes between two requests of the device are
    bounded. Time is abstracted to the order of events.
  \<^item> \<open>Rpc\<close> (\<^verbatim>\<open>Pinger/rpc.go\<close>): the map of sessions, the calls \<open>RPCStartPoll\<close>, \<open>RPCStopPoll\<close>, \<open>RPCDeferPoll\<close>, \<open>RPCFindActiveSessions\<close> and
    the goroutines they start, with any interleaving of them and of the sessions. It uses a session through the locale
    \<open>session\<close>. Shown: at most one session per key is left to run; when keys are unique; what
    the listing returns.

  \<^bold>\<open>SQLite: encodings and arithmetic.\<close>
  \<^item> \<open>Varint\<close> (util.c): the unrolled readers and writers of variable-length integers. Shown: they compute
    the declarative format \<open>getVarint_ref\<close>, and the round trips.
  \<^item> \<open>Int64\<close> (util.c): overflow-checked arithmetic and the logarithmic estimates.
  \<^item> \<open>Utf\<close> (utf.c): readers, writers and conversion of UTF-8 and UTF-16. Shown: round trips for characters and strings.
  \<^item> \<open>Ctype\<close>, \<open>Numtext\<close> (global.c, util.c): character classes, case-insensitive comparison, decimal and hexadecimal text,
    quoting.
  \<^item> \<open>Prng\<close> (random.c): the generator, whose state stays a permutation.
  \<^item> \<open>Ieee\<close>: rounding to double precision, which the date functions rely on, with its contract \<open>rounding\<close>.
  \<^item> \<open>Date\<close> (date.c): parsing of dates, times and time zones, the Julian day number, and the calendar date and time of day computed back
    from it. Shown: the day number counts days of the Gregorian calendar; dates and times to the second are read back; and where a day
    or a millisecond is lost.
  \<^item> \<open>Printf\<close> (printf.c): the string accumulator, and the interpreter of formats with the integer, string, quoting and character conversions.
    The interpreter is a function of its sink, and the locale \<open>sink\<close> says when a sink follows the text; its
    interpretations are a buffer of fixed size and memory that grows. Shown: what each entry point returns; integers and quoted texts read back.

  \<^bold>\<open>SQLite: records.\<close>
  \<^item> \<open>RecordFormat\<close> (vdbeaux.c): serial types, the fields of a row, writing a record and taking it apart. Shown: the round trip.
  \<^item> \<open>RecordCompare\<close> (vdbeaux.c): the comparison of values and of records with a search key, its fast paths for an integer or string first field,
    and the row number at the end of an index record. Shown: every fast path agrees with the general comparison,
    which is the order of the values; the row number is the last field.

  \<^bold>\<open>SQLite: write-ahead log\<close> (wal.c). A transaction appends the changed pages as frames to a log, and an index in shared memory, a hash table for each segment
  of frames, finds the last frame of a page. Mapping and allocation are the argument \<open>wal_env\<close>, results of operations on the files the arguments \<open>wal_io\<close> and \<open>db_io\<close>, and answers to
  requests for locks and what other connections do to shared memory the argument \<open>lock_env\<close>, one for each attempt; a busy handler is the list of answers to the
  attempts it asks for. The machine is little-endian.
  \<^item> \<open>WalIndex\<close>: pages of the index, appending, looking up, roll back to a commit or savepoint. Shown: a reader finds the frames of its snapshot
    whatever a writer does or leaves behind.
  \<^item> \<open>WalIterator\<close>: the merge sort and the iterator that checkpoints use. Shown: every page once, in order, with its last frame.
  \<^item> \<open>WalLog\<close>: checksums, headers and \<open>walIndexRecover\<close>. Shown: recovery gives exactly the committed transactions, and from any file at all it leaves an index that is
    consistent; the two copies of the header of the index are read consistently.
  \<^item> \<open>WalLocks\<close>: locks, \<open>walIndexReadHdr\<close>, the beginning and end of read and write transactions, \<open>walRestartLog\<close>. Shown: beginning to read ends after a bounded number of attempts whatever
    other connections do, with a snapshot that was current when the lock was held, or an error.
  \<^item> \<open>WalWrite\<close>: \<open>sqlite3WalFrames\<close>. Shown: a commit is durable and atomic, and after a restart of the log nothing of the earlier log comes back.
  \<^item> \<open>WalCheckpoint\<close>: copying of the log to the database, opening and closing. Shown: a checkpoint never changes what a reader sees, whatever fails; undisturbed it
    moves the whole log into the database; and closing loses no page of the last commit, provided that file operations never answer \<open>SQLITE_BUSY\<close>, which
    the checkpoint takes for the answer of a lock.

  \<^bold>\<open>SQLite: data structures.\<close>
  \<^item> \<open>RowSet\<close> (rowset.c): sets of row numbers as lists, merge sort and a forest of trees; contract \<open>batched_set\<close>.
  \<^item> \<open>Hash\<close> (hash.c): the hash table with its element list and buckets in an explicit store; contract \<open>keyed_store\<close>.
  \<^item> \<open>Bitvec\<close> (bitvec.c): page sets as bit arrays, hash tables and trees of them; contract \<open>page_set\<close>.
  Each contract is a locale whose interpretation on the code's operations carries the refinement
  theorems, with failing allocations as separate theorems.

  \<^bold>\<open>SQLite: text.\<close>
  \<^item> \<open>Keywords\<close> (keywordhash.h): the generated tables and the hashed lookup, equal to a search in the keyword list.
  \<^item> \<open>Tokenize\<close>, \<open>RunParser\<close> (tokenize.c): every token class, and the loop that feeds the parser, which is a parameter.
  \<^item> \<open>Complete\<close> (complete.c): the state machine that recognises complete statements.
  \<^item> \<open>Like\<close> (func.c): the pattern matcher of LIKE and GLOB against a declarative meaning of patterns, and the SQL
    functions that call it. A pattern that ends in its escape character matches as the code has it.
  \<^item> \<open>Result_Codes\<close>: the result codes these parts share.

  \<^bold>\<open>Bounds and fuel.\<close> \<open>BITVEC_FUEL\<close> is 9: a bitmap for fewer than \<open>2 ^ 32\<close> pages has at most four levels, and
  setting a bit passes each level at most twice (descent and rehash); the theorems show that
  the fuel is never exhausted. Probing a hash table of a bitmap ends within its 124 slots since one is free. Beginning a read transaction on the log makes at most 101 attempts, by the
  counter in the code. All other loops are total functions with a measure; the theorems about \<open>LongPoll\<close> and the step relations hold for event sequences of any length.

  \<^bold>\<open>Not modelled.\<close> SQLite beyond the parts above: the parser tables and code generator, the virtual machine,
  B-trees and pager, memory allocators, the operating-system layer, the modifiers and SQL functions of dates, floating-point text, and
  the extensions; they work on the file system or on pointers throughout, or are generated. In the Go program:
  configuration, logging, the web front end, the database wrappers, certificates and the AWS client, which only pass values
  to libraries. The vendored Go packages other than the state machine are library code. Mutexes appear only as the
  atomicity of the steps they protect.
\<close>

section \<open>Tokens and quoting together\<close>

text \<open>A text whose quote characters are doubled, between quotes and followed by
  anything but another quote, is one token, a string or an identifier according to the quote; and
  the copy of that token that the parser keeps is dequoted to the text itself.\<close>

lemma literal_read_back:
  assumes "q \<in> {0x27, 0x22, 0x60}" and "c \<noteq> q" and "0 \<notin> set s" and "z = q # double_quotes q s @ q # c # r" and "n = length (double_quotes q s) + 2"
  shows "sqlite3GetToken z = Some (n, if q = 0x27 then TK_STRING else TK_ID)"
    and "\<exists>z'. sqlite3Dequote (take n z @ [0]) = Some (int (length s), s @ 0 # z')"
proof -
  show "sqlite3GetToken z = Some (n, if q = 0x27 then TK_STRING else TK_ID)"
    using tok_quote_literal [OF assms(1-3)] assms(4,5) by simp
  have "take n z @ [0] = q # double_quotes q s @ q # 0 # []" using assms(4,5) by simp
  moreover have "0 \<noteq> q" using assms(1) by auto
  moreover have "q \<in> {0x27, 0x22, 0x60, 0x5b}" "q = (if q = 0x5b then 0x5d else q)" using assms(1) by auto
  ultimately show "\<exists>z'. sqlite3Dequote (take n z @ [0]) = Some (int (length s), s @ 0 # z')"
    using dequote_quoted [of q q 0] by blast
qed

text \<open>C14. Texts that are formatted with \<^verbatim>\<open>%Q\<close> cannot break out of a statement: whatever bytes the text has, what is printed is one
  string literal for the tokenizer in front of anything but a quote, and the parser's copy of it is dequoted to the text.\<close>

theorem printed_text_is_one_literal:
  assumes "0 \<notin> set s" "2 * int (length s) + 3 < SQLITE_MAX_LENGTH" "c \<noteq> 0x27"
  shows "\<exists>out z'. sqlite3_vmprintf (\<lambda>_. True) [0x25, 0x51, 0] [PText (Some (s @ [0]))] = Some (Some out) \<and>
    sqlite3GetToken (out @ c # r) = Some (length out, TK_STRING) \<and> sqlite3Dequote (out @ [0]) = Some (int (length s), s @ 0 # z')"
proof -
  let ?out = "0x27 # double_quotes 0x27 s @ [0x27]"
  have q: "0x27 \<in> {0x27, 0x22, 0x60 :: u8}" "length ?out = length (double_quotes 0x27 s) + 2" by simp_all
  obtain z' where "sqlite3Dequote (take (length ?out) (?out @ c # r) @ [0]) = Some (int (length s), s @ 0 # z')"
    using literal_read_back(2) [OF q(1) assms(3,1) _ q(2), of "?out @ c # r" r] by auto
  then have "sqlite3Dequote (?out @ [0]) = Some (int (length s), s @ 0 # z')" by simp
  moreover have "sqlite3GetToken (?out @ c # r) = Some (length ?out, TK_STRING)"
    using literal_read_back(1) [OF q(1) assms(3,1) _ q(2), of "?out @ c # r" r] by simp
  ultimately show ?thesis using vmprintf_Q [OF assms(1,2)] by blast
qed

theorem printed_text_is_one_literal_witness:
  "\<exists>out z'. sqlite3_vmprintf (\<lambda>_. True) [0x25, 0x51, 0] [PText (Some [0x69, 0x74, 0x27, 0x73, 0])] = Some (Some out) \<and>
    sqlite3GetToken (out @ [0x3b, 0]) = Some (length out, TK_STRING) \<and> sqlite3Dequote (out @ [0]) = Some (4, [0x69, 0x74, 0x27, 0x73] @ 0 # z')"
  using printed_text_is_one_literal [of "[0x69, 0x74, 0x27, 0x73]" "0x3b" "[0]"] by (simp add: SQLITE_MAX_LENGTH_def)

end
